(* ===== verification/Prelude.thy ===== *)
theory Prelude
  imports Main "HOL-Library.Word" "HOL-Library.Monad_Syntax"
begin

text \<open>
  Vocabulary shared by every component of the Switchvisor model: the machine integers, checked
  and saturating arithmetic, \<open>Result\<close> values, bounds-checked slices, little- and big-endian
  encodings, and the trait dictionaries' common result types, with the lemmas the component
  theories use about them.

  Conventions.  \<open>u8\<close>, \<open>u16\<close>, \<open>u32\<close> and \<open>u64\<close> are words of that width.  A \<open>usize\<close> that counts or
  indexes elements of a slice is a \<open>nat\<close>; where the source checks a \<open>usize\<close> computation for
  overflow the check against \<open>2 ^ 64\<close> is written out.  A byte slice is a list of bytes.  The
  release profile builds with overflow checks and \<open>panic = abort\<close>, so arithmetic overflow and
  an index out of range are panics: an operation that can panic has an outer \<open>option\<close>, whose
  \<open>None\<close> is the panic.
\<close>

unbundle bit_operations_syntax

type_synonym u8 = "8 word"
type_synonym u16 = "16 word"
type_synonym u32 = "32 word"
type_synonym u64 = "64 word"
type_synonym bytes = "8 word list"

named_theorems slice_simps "rewriting of slices and slice updates"
named_theorems unat_simps "reading word comparisons and checked arithmetic as natural numbers"


section \<open>Checked arithmetic\<close>

definition checked_add :: "'a::len word \<Rightarrow> 'a word \<Rightarrow> 'a word option" where
  "checked_add a b = (if unat a + unat b < 2 ^ LENGTH('a) then Some (a + b) else None)"

definition checked_sub :: "'a::len word \<Rightarrow> 'a word \<Rightarrow> 'a word option" where
  "checked_sub a b = (if b \<le> a then Some (a - b) else None)"

definition saturating_add :: "'a::len word \<Rightarrow> 'a word \<Rightarrow> 'a word" where
  "saturating_add a b = (if unat a + unat b < 2 ^ LENGTH('a) then a + b else - 1)"

definition saturating_sub :: "'a::len word \<Rightarrow> 'a word \<Rightarrow> 'a word" where
  "saturating_sub a b = (if b \<le> a then a - b else 0)"

definition usize_checked_add :: "nat \<Rightarrow> nat \<Rightarrow> nat option" where
  "usize_checked_add a b = (if a + b < 2 ^ 64 then Some (a + b) else None)"

lemma unat_add_no_overflow:
  fixes a b :: "'a::len word"
  assumes "unat a + unat b < 2 ^ LENGTH('a)"
  shows "unat (a + b) = unat a + unat b"
  using assms by (simp add: unat_word_ariths)

lemma checked_add_Some_iff:
  fixes a b c :: "'a::len word"
  shows "checked_add a b = Some c \<longleftrightarrow> unat c = unat a + unat b"
proof
  assume "checked_add a b = Some c"
  then show "unat c = unat a + unat b"
    by (auto simp: checked_add_def unat_add_no_overflow split: if_splits)
next
  assume eq: "unat c = unat a + unat b"
  then have "unat a + unat b < 2 ^ LENGTH('a)"
    by (metis unsigned_less)
  moreover from this have "a + b = c"
    using eq by (simp add: unat_add_no_overflow word_unat_eq_iff)
  ultimately show "checked_add a b = Some c"
    by (simp add: checked_add_def)
qed

lemma checked_add_None_iff:
  fixes a b :: "'a::len word"
  shows "checked_add a b = None \<longleftrightarrow> 2 ^ LENGTH('a) \<le> unat a + unat b"
  by (auto simp: checked_add_def not_less)

lemma checked_sub_Some_iff:
  fixes a b c :: "'a::len word"
  shows "checked_sub a b = Some c \<longleftrightarrow> unat a = unat c + unat b"
proof
  assume "checked_sub a b = Some c"
  then have "b \<le> a" and "c = a - b"
    by (auto simp: checked_sub_def split: if_splits)
  then show "unat a = unat c + unat b"
    by (simp add: unat_sub word_le_nat_alt)
next
  assume eq: "unat a = unat c + unat b"
  then have "b \<le> a" by (simp add: word_le_nat_alt)
  moreover from this have "a - b = c"
    using eq by (simp add: word_unat_eq_iff unat_sub)
  ultimately show "checked_sub a b = Some c"
    by (simp add: checked_sub_def)
qed

lemma usize_checked_add_Some_iff [simp]:
  "usize_checked_add a b = Some c \<longleftrightarrow> c = a + b \<and> a + b < 2 ^ 64"
  by (auto simp: usize_checked_add_def)

lemmas checked_simps [unat_simps] =
  checked_add_Some_iff checked_add_None_iff checked_sub_Some_iff word_le_nat_alt word_less_nat_alt

lemma saturating_add_ge: "a \<le> saturating_add a (b :: 'a::len word)"
proof (cases "unat a + unat b < 2 ^ LENGTH('a)")
  case True
  then show ?thesis
    by (simp add: saturating_add_def word_le_nat_alt unat_add_no_overflow)
next
  case False
  then show ?thesis by (simp add: saturating_add_def)
qed

text \<open>A power-of-two test as \<open>is_power_of_two\<close> makes it: exactly one bit is set.\<close>

definition is_power_of_two :: "'a::len word \<Rightarrow> bool" where
  "is_power_of_two w \<longleftrightarrow> (\<exists>n \<in> set [0..<LENGTH('a)]. w = push_bit n 1)"

lemma masked_bit_iff:
  fixes w :: "'a::len word"
  shows "w AND push_bit n 1 \<noteq> 0 \<longleftrightarrow> bit w n"
proof -
  have "w AND push_bit n 1 = (if bit w n then push_bit n 1 else 0)"
    by (rule bit_word_eqI) (auto simp: bit_simps)
  moreover have "bit w n \<Longrightarrow> push_bit n (1 :: 'a word) \<noteq> 0"
    using bit_imp_le_length [of w n] by (auto simp: push_bit_eq_0_iff)
  ultimately show ?thesis by simp
qed

lemma unat_and_mask_less: "unat (x AND mask n) < 2 ^ n"
proof -
  have "unat (take_bit n x) = take_bit n (unat x)" by (simp add: unsigned_take_bit_eq)
  then show ?thesis by (simp add: take_bit_eq_mask flip: take_bit_eq_mask)
qed

lemma word_exp_dvd_iff:
  fixes w :: "'a::len word"
  assumes "n < LENGTH('a)"
  shows "2 ^ n dvd w \<longleftrightarrow> unat w mod 2 ^ n = 0"
proof -
  have "unat (2 ^ n :: 'a word) = 2 ^ n" using assms by transfer simp
  then show ?thesis by (simp add: exp_dvd_iff_exp_udvd udvd_iff_dvd mod_eq_0_iff_dvd)
qed


section \<open>Result values\<close>

definition and_then :: "'e + 'a \<Rightarrow> ('a \<Rightarrow> 'e + 'b) \<Rightarrow> 'e + 'b" where
  "and_then r f = (case r of Inl e \<Rightarrow> Inl e | Inr x \<Rightarrow> f x)"

definition ok_or :: "'a option \<Rightarrow> 'e \<Rightarrow> 'e + 'a" where
  "ok_or x e = (case x of None \<Rightarrow> Inl e | Some v \<Rightarrow> Inr v)"

definition is_ok :: "'e + 'a \<Rightarrow> bool" where
  "is_ok r = (case r of Inl e \<Rightarrow> False | Inr x \<Rightarrow> True)"

lemma and_then_simps [simp]: "and_then (Inl e) f = Inl e" "and_then (Inr x) f = f x"
  by (simp_all add: and_then_def)

lemma and_then_Inr_iff: "and_then r f = Inr y \<longleftrightarrow> (\<exists>x. r = Inr x \<and> f x = Inr y)"
  by (cases r) auto

lemma ok_or_simps [simp]: "ok_or None e = Inl e" "ok_or (Some x) e = Inr x"
  by (simp_all add: ok_or_def)

lemma ok_or_Inr_iff: "ok_or x e = Inr y \<longleftrightarrow> x = Some y"
  by (cases x) auto

lemma is_ok_simps [simp]: "is_ok (Inl e) = False" "is_ok (Inr x) = True"
  by (simp_all add: is_ok_def)


section \<open>Slices\<close>

text \<open>\<open>slice.get(a..b)\<close>, \<open>slice.get(a..)\<close> and \<open>slice[a..a + n].copy_from_slice(src)\<close>.\<close>

definition slice_get :: "nat \<Rightarrow> nat \<Rightarrow> 'a list \<Rightarrow> 'a list option" where
  "slice_get a b xs = (if a \<le> b \<and> b \<le> length xs then Some (take (b - a) (drop a xs)) else None)"

definition slice_from :: "nat \<Rightarrow> 'a list \<Rightarrow> 'a list option" where
  "slice_from a xs = (if a \<le> length xs then Some (drop a xs) else None)"

definition splice :: "nat \<Rightarrow> 'a list \<Rightarrow> 'a list \<Rightarrow> 'a list" where
  "splice a src xs = take a xs @ src @ drop (a + length src) xs"

lemma slice_get_Some_iff:
  "slice_get a b xs = Some ys \<longleftrightarrow> a \<le> b \<and> b \<le> length xs \<and> ys = take (b - a) (drop a xs)"
  by (auto simp: slice_get_def)

lemma slice_get_length: "slice_get a b xs = Some ys \<Longrightarrow> length ys = b - a"
  by (auto simp: slice_get_def split: if_splits)

lemma length_splice [simp]:
  "a + length src \<le> length xs \<Longrightarrow> length (splice a src xs) = length xs"
  by (simp add: splice_def)

lemma nth_splice:
  assumes "a + length src \<le> length xs" and "i < length xs"
  shows "splice a src xs ! i = (if a \<le> i \<and> i < a + length src then src ! (i - a) else xs ! i)"
  using assms by (auto simp: splice_def nth_append)

lemma splice_same:
  "a + length src \<le> length xs \<Longrightarrow> take (length src) (drop a (splice a src xs)) = src"
  by (simp add: splice_def)

lemma take_drop_splice_disjoint:
  assumes "a + length src \<le> length xs" and "b + n \<le> a \<or> a + length src \<le> b"
  shows "take n (drop b (splice a src xs)) = take n (drop b xs)"
proof (rule nth_equalityI)
  show "length (take n (drop b (splice a src xs))) = length (take n (drop b xs))"
    using assms(1) by simp
next
  fix i assume "i < length (take n (drop b (splice a src xs)))"
  with assms show "take n (drop b (splice a src xs)) ! i = take n (drop b xs) ! i"
    by (auto simp: nth_splice)
qed

text \<open>Filling a buffer from the front, one field after the other.\<close>

lemma splice_fill [slice_simps]:
  "length pre = a \<Longrightarrow> splice a src (pre @ rest) = (pre @ src) @ drop (length src) rest"
  by (simp add: splice_def)

lemma splice_fill_start [slice_simps]: "splice 0 src rest = src @ drop (length src) rest"
  by (simp add: splice_def)

lemma slice_get_field [slice_simps]:
  "length pre = a \<Longrightarrow> b = a + length src \<Longrightarrow> slice_get a b (pre @ src @ rest) = Some src"
  by (simp add: slice_get_def)


section \<open>Little-endian and big-endian numbers\<close>

fun le_bytes :: "nat \<Rightarrow> nat \<Rightarrow> bytes" where
  "le_bytes 0 v = []"
| "le_bytes (Suc n) v = word_of_nat v # le_bytes n (v div 256)"

fun le_value :: "bytes \<Rightarrow> nat" where
  "le_value [] = 0"
| "le_value (b # bs) = unat b + 256 * le_value bs"

definition be_bytes :: "nat \<Rightarrow> nat \<Rightarrow> bytes" where
  "be_bytes n v = rev (le_bytes n v)"

definition be_value :: "bytes \<Rightarrow> nat" where
  "be_value bs = le_value (rev bs)"

lemma length_le_bytes [simp]: "length (le_bytes n v) = n"
  by (induction n arbitrary: v) auto

lemma length_be_bytes [simp]: "length (be_bytes n v) = n"
  by (simp add: be_bytes_def)

lemma unat_byte_of_nat: "unat (word_of_nat v :: u8) = v mod 256"
  by (simp add: unat_of_nat)

lemma le_value_le_bytes: "le_value (le_bytes n v) = v mod 256 ^ n"
proof (induction n arbitrary: v)
  case (Suc n)
  have "v mod (256 * 256 ^ n) = v mod 256 + 256 * ((v div 256) mod 256 ^ n)"
    by (simp add: mod_mult2_eq)
  with Suc show ?case by (simp add: unat_byte_of_nat)
qed simp

lemma le_bytes_le_value: "le_bytes (length bs) (le_value bs) = bs"
proof (induction bs)
  case (Cons b bs)
  have small: "unat b < 256" using unsigned_less [of b] by simp
  have "word_of_nat (unat b + 256 * le_value bs) = (b :: u8)"
    by (rule word_unat_eq_iff [THEN iffD2]) (use small in \<open>simp only: unat_byte_of_nat, simp\<close>)
  moreover have "(unat b + 256 * le_value bs) div 256 = le_value bs"
    using small by simp
  ultimately show ?case using Cons by (simp only: list.size le_value.simps le_bytes.simps) simp
qed simp

lemma le_value_bound: "le_value bs < 256 ^ length bs"
proof (induction bs)
  case (Cons b bs)
  have "unat b < 256" using unsigned_less [of b] by simp
  with Cons show ?case by simp
qed simp

lemma be_value_be_bytes: "be_value (be_bytes n v) = v mod 256 ^ n"
  by (simp add: be_value_def be_bytes_def le_value_le_bytes)

lemma be_bytes_be_value: "be_bytes (length bs) (be_value bs) = bs"
  using le_bytes_le_value [of "rev bs"] by (simp add: be_bytes_def be_value_def)

text \<open>\<open>uN::to_le_bytes\<close>, \<open>uN::from_le_bytes\<close> and the big-endian pair.\<close>

definition to_le16 :: "u16 \<Rightarrow> bytes" where "to_le16 w = le_bytes 2 (unat w)"
definition to_le32 :: "u32 \<Rightarrow> bytes" where "to_le32 w = le_bytes 4 (unat w)"
definition to_le64 :: "u64 \<Rightarrow> bytes" where "to_le64 w = le_bytes 8 (unat w)"
definition from_le16 :: "bytes \<Rightarrow> u16" where "from_le16 bs = word_of_nat (le_value bs)"
definition from_le32 :: "bytes \<Rightarrow> u32" where "from_le32 bs = word_of_nat (le_value bs)"
definition from_le64 :: "bytes \<Rightarrow> u64" where "from_le64 bs = word_of_nat (le_value bs)"
definition to_be16 :: "u16 \<Rightarrow> bytes" where "to_be16 w = be_bytes 2 (unat w)"
definition to_be32 :: "u32 \<Rightarrow> bytes" where "to_be32 w = be_bytes 4 (unat w)"
definition to_be64 :: "u64 \<Rightarrow> bytes" where "to_be64 w = be_bytes 8 (unat w)"
definition from_be16 :: "bytes \<Rightarrow> u16" where "from_be16 bs = word_of_nat (be_value bs)"
definition from_be32 :: "bytes \<Rightarrow> u32" where "from_be32 bs = word_of_nat (be_value bs)"
definition from_be64 :: "bytes \<Rightarrow> u64" where "from_be64 bs = word_of_nat (be_value bs)"

lemma unat_bounds:
  "unat (a :: u8) < 256" "unat (b :: u16) < 65536"
  "unat (c :: u32) < 4294967296" "unat (d :: u64) < 18446744073709551616"
  by (rule order.strict_trans2 [OF unsigned_less], simp)+

lemma unat_width:
  "unat (a :: u8) mod 256 = unat a" "unat (b :: u16) mod 65536 = unat b"
  "unat (c :: u32) mod 4294967296 = unat c" "unat (d :: u64) mod 18446744073709551616 = unat d"
  by (simp_all add: unat_bounds)

lemmas endian_defs = to_le16_def to_le32_def to_le64_def from_le16_def from_le32_def
  from_le64_def to_be16_def to_be32_def to_be64_def from_be16_def from_be32_def from_be64_def

lemma length_endian [simp]:
  "length (to_le16 a) = 2" "length (to_le32 b) = 4" "length (to_le64 c) = 8"
  "length (to_be16 a) = 2" "length (to_be32 b) = 4" "length (to_be64 c) = 8"
  by (simp_all add: endian_defs)

lemma from_to_endian [simp]:
  "from_le16 (to_le16 a) = a" "from_le32 (to_le32 b) = b" "from_le64 (to_le64 c) = c"
  "from_be16 (to_be16 a) = a" "from_be32 (to_be32 b) = b" "from_be64 (to_be64 c) = c"
  by (simp_all add: endian_defs le_value_le_bytes be_value_be_bytes unat_width)

lemma to_from_le:
  "length bs = 2 \<Longrightarrow> to_le16 (from_le16 bs) = bs"
  "length bs = 4 \<Longrightarrow> to_le32 (from_le32 bs) = bs"
  "length bs = 8 \<Longrightarrow> to_le64 (from_le64 bs) = bs"
  using le_value_bound [of bs] le_bytes_le_value [of bs]
  by (simp_all add: endian_defs unat_of_nat)

end
