(* ===== verification/Platform.thy ===== *)
theory Platform
  imports Prelude
begin

text \<open>
  The fixed memory layout of the Erista profile: the constants of \<open>lib.rs\<close>, \<open>payload.rs\<close> and
  \<open>stage2.rs\<close> that several components share, and \<open>memory.rs\<close>'s checked half-open address ranges.
\<close>


section \<open>Constants\<close>

definition CPU_COUNT :: nat where [simp]: "CPU_COUNT = 4"
definition IPA_LIMIT :: u64 where [simp]: "IPA_LIMIT = 0x1000000000"
definition PAGE_SIZE :: u64 where [simp]: "PAGE_SIZE = 4096"
definition BLOCK_SIZE :: u64 where [simp]: "BLOCK_SIZE = 0x200000"
definition HV_SIZE_BUDGET :: u64 where [simp]: "HV_SIZE_BUDGET = 0x1000000"
definition BL33_LOAD_BASE :: u64 where [simp]: "BL33_LOAD_BASE = 0xaa000000"

definition RESIDENT_BASE :: u64 where [simp]: "RESIDENT_BASE = 0xfec00000"
definition RESIDENT_SIZE :: u64 where [simp]: "RESIDENT_SIZE = HV_SIZE_BUDGET"
definition STACK_TOP :: u64 where [simp]: "STACK_TOP = 0x8a800000"
definition RAM_BASE :: u64 where [simp]: "RAM_BASE = 0x80000000"
definition GIB :: u64 where [simp]: "GIB = 0x40000000"

definition UART_BASE :: u64 where [simp]: "UART_BASE = 0x700ff000"
definition UART_SIZE :: u64 where [simp]: "UART_SIZE = 4096"
definition VIRTIO_BASE :: u64 where [simp]: "VIRTIO_BASE = 0x700fe000"
definition VIRTIO_SIZE :: u64 where [simp]: "VIRTIO_SIZE = 4096"

text \<open>The 16 MiB below \<open>0xffc00000\<close> that the monitor keeps for itself.\<close>

definition resident :: "u64 \<Rightarrow> bool" where
  "resident a \<longleftrightarrow> RESIDENT_BASE \<le> a \<and> a < RESIDENT_BASE + RESIDENT_SIZE"

lemma resident_iff: "resident a \<longleftrightarrow> 0xfec00000 \<le> unat a \<and> unat a < 0xffc00000"
  by (simp add: resident_def word_le_nat_alt word_less_nat_alt)


section \<open>Address ranges (memory.rs)\<close>

record address_range =
  ar_start :: u64
  ar_end :: u64

datatype range_error = RangeEmpty | RangeOverflow

definition range_new :: "u64 \<Rightarrow> u64 \<Rightarrow> range_error + address_range" where
  "range_new start sz =
     (if sz = 0 then Inl RangeEmpty
      else and_then (ok_or (checked_add start sz) RangeOverflow)
             (\<lambda>e. Inr \<lparr>ar_start = start, ar_end = e\<rparr>))"

definition range_size :: "address_range \<Rightarrow> u64" where
  "range_size r = ar_end r - ar_start r"

definition range_overlaps :: "address_range \<Rightarrow> address_range \<Rightarrow> bool" where
  "range_overlaps r s \<longleftrightarrow> ar_start r < ar_end s \<and> ar_start s < ar_end r"

text \<open>The addresses a range covers, and the condition construction establishes.\<close>

definition range_set :: "address_range \<Rightarrow> nat set" where
  "range_set r = {unat (ar_start r)..<unat (ar_end r)}"

definition range_ok :: "address_range \<Rightarrow> bool" where
  "range_ok r \<longleftrightarrow> ar_start r < ar_end r"

lemma range_new_Inr_iff:
  "range_new start sz = Inr r \<longleftrightarrow>
     sz \<noteq> 0 \<and> ar_start r = start \<and> unat (ar_end r) = unat start + unat sz"
proof -
  have "sz \<noteq> 0 \<longleftrightarrow> 0 < unat sz" by (simp add: unat_gt_0)
  then show ?thesis
    by (cases r) (auto simp: range_new_def and_then_Inr_iff ok_or_Inr_iff checked_add_Some_iff)
qed

lemma range_new_Inl_iff:
  "range_new start sz = Inl e \<longleftrightarrow>
     (sz = 0 \<and> e = RangeEmpty)
     \<or> (sz \<noteq> 0 \<and> 2 ^ 64 \<le> unat start + unat sz \<and> e = RangeOverflow)"
  by (auto simp: range_new_def and_then_def ok_or_def checked_add_def split: option.splits)

lemma range_new_ok: "range_new start sz = Inr r \<Longrightarrow> range_ok r"
  by (auto simp: range_new_Inr_iff range_ok_def word_less_nat_alt unat_gt_0)

lemma range_new_set:
  "range_new start sz = Inr r \<Longrightarrow> range_set r = {unat start..<unat start + unat sz}"
  by (auto simp: range_new_Inr_iff range_set_def)

lemma range_size_new: "range_new start sz = Inr r \<Longrightarrow> range_size r = sz"
proof -
  assume "range_new start sz = Inr r"
  then have eq: "ar_start r = start" "unat (ar_end r) = unat start + unat sz"
    by (auto simp: range_new_Inr_iff)
  then have "start \<le> ar_end r" by (simp add: word_le_nat_alt)
  then have "unat (range_size r) = unat (ar_end r) - unat start"
    by (simp add: range_size_def eq(1) unat_sub)
  with eq(2) show ?thesis by (simp add: word_unat_eq_iff)
qed

lemma range_overlaps_iff:
  assumes "range_ok r" and "range_ok s"
  shows "range_overlaps r s \<longleftrightarrow> range_set r \<inter> range_set s \<noteq> {}"
proof -
  have "range_set r \<inter> range_set s
      = {max (unat (ar_start r)) (unat (ar_start s))..<min (unat (ar_end r)) (unat (ar_end s))}"
    by (auto simp: range_set_def)
  with assms show ?thesis
    by (auto simp: range_overlaps_def range_ok_def word_less_nat_alt)
qed

lemma range_overlaps_sym: "range_overlaps r s \<longleftrightarrow> range_overlaps s r"
  by (auto simp: range_overlaps_def)

end
