(* ===== verification/Mmio_Access.thy ===== *)
theory Mmio_Access
  imports Platform
begin

text \<open>
  \<open>mmio.rs\<close>: decoding the AArch64 stage-2 data aborts the monitor emulates.  \<open>decode_region\<close> reads
  an access from the instruction syndrome of \<open>ESR_EL2\<close>; \<open>decode_store_post_index_region\<close> reads a
  post-indexed store from the faulting instruction when the hardware leaves the syndrome out.
  \<open>store_data\<close> and \<open>load_data\<close> move the data between the device and the guest's registers.
  The 31 guest registers are a list; register 31 is the zero register.
\<close>

record access =
  acc_offset :: u64
  acc_register :: nat
  acc_write :: bool
  acc_sign_extend :: bool
  acc_size :: u8
  acc_wide :: bool

record writeback =
  wb_register :: nat
  wb_value :: u64

definition ipa :: "u64 \<Rightarrow> u64 \<Rightarrow> u64 option" where
  "ipa far hpfar =
     (let mask = drop_bit 8 (IPA_LIMIT - 1) AND NOT 0xf
      in if hpfar AND NOT mask = 0
         then Some (push_bit 8 (hpfar AND mask) OR (far AND 0xfff)) else None)"

definition decode_region :: "u64 \<Rightarrow> u64 \<Rightarrow> u64 \<Rightarrow> u64 \<Rightarrow> u64 \<Rightarrow> access option" where
  "decode_region esr far hpfar base len =
     (if drop_bit 26 esr \<noteq> 0x24
         \<or> esr AND push_bit 25 1 = 0
         \<or> esr AND push_bit 24 1 = 0
         \<or> esr AND 0x780 \<noteq> 0
         \<or> esr AND 0x3f \<notin> {6, 7}
      then None
      else do {
        ipa \<leftarrow> ipa far hpfar;
        let size = (push_bit (unat (drop_bit 22 esr AND 3)) 1 :: u8);
        offset \<leftarrow> checked_sub ipa base;
        end \<leftarrow> checked_add offset (ucast size);
        if end > len \<or> offset mod ucast size \<noteq> 0 then None
        else do {
          let sign_extend = (esr AND push_bit 21 1 \<noteq> 0);
          let wide = (esr AND push_bit 15 1 \<noteq> 0);
          let write = (esr AND push_bit 6 1 \<noteq> 0);
          if sign_extend \<and> (write \<or> size = 8)
             \<or> size = 8 \<and> \<not> wide
             \<or> size \<noteq> 8 \<and> \<not> sign_extend \<and> wide
          then None
          else Some \<lparr>acc_offset = offset,
                     acc_register = unat (drop_bit 16 esr AND 31),
                     acc_write = write, acc_sign_extend = sign_extend,
                     acc_size = size, acc_wide = wide\<rparr>
        }
      })"

definition decode_store_post_index_region ::
  "u64 \<Rightarrow> u64 \<Rightarrow> u64 \<Rightarrow> u32 \<Rightarrow> u64 \<Rightarrow> u64 \<Rightarrow> u64 list \<Rightarrow> (access \<times> writeback) option" where
  "decode_store_post_index_region esr far hpfar instruction base len registers =
     (if drop_bit 26 esr \<noteq> 0x24
         \<or> esr AND push_bit 25 1 = 0
         \<or> esr AND push_bit 24 1 \<noteq> 0
         \<or> esr AND 0x780 \<noteq> 0
         \<or> esr AND push_bit 6 1 = 0
         \<or> esr AND 0x3f \<notin> {6, 7}
         \<or> instruction AND 0x3fe00c00 \<noteq> 0x38000400
      then None
      else let source = unat (instruction AND 31);
               address_register = unat (drop_bit 5 instruction AND 31)
        in if address_register = 31 \<or> address_register = source then None
        else let virtual_address = registers ! address_register
        in if virtual_address \<noteq> far then None
        else do {
          let size = (push_bit (unat (drop_bit 30 instruction)) 1 :: u8);
          physical_address \<leftarrow> ipa far hpfar;
          offset \<leftarrow> checked_sub physical_address base;
          end \<leftarrow> checked_add offset (ucast size);
          if end > len \<or> offset mod ucast size \<noteq> 0 then None
          else do {
            let raw = (ucast (drop_bit 12 instruction AND 0x1ff) :: u16);
            let immediate = signed_drop_bit 7 (push_bit 7 raw);
            Some (\<lparr>acc_offset = offset, acc_register = source, acc_write = True,
                   acc_sign_extend = False, acc_size = size, acc_wide = (size = 8)\<rparr>,
                  \<lparr>wb_register = address_register,
                   wb_value = virtual_address + scast immediate\<rparr>)
          }
        })"

definition store_data :: "access \<Rightarrow> u64 list \<Rightarrow> u64" where
  "store_data a registers =
     (if acc_register a < length registers then registers ! acc_register a else 0)
     AND drop_bit (64 - unat (acc_size a) * 8) (- 1)"

definition store_value :: "access \<Rightarrow> u64 list \<Rightarrow> u32" where
  "store_value a registers = ucast (store_data a registers)"

definition load_data :: "access \<Rightarrow> u64 \<Rightarrow> u64 list \<Rightarrow> u64 list" where
  "load_data a v registers =
     (if acc_register a < length registers
      then let bits = unat (acc_size a) * 8;
               mask = drop_bit (64 - bits) (- 1);
               v' = v AND mask;
               signed = (if acc_sign_extend a
                         then signed_drop_bit (64 - bits) (push_bit (64 - bits) v') else v')
           in registers[acc_register a :=
                (if acc_wide a then signed else ucast (ucast signed :: u32))]
      else registers)"

definition load_value :: "access \<Rightarrow> u32 \<Rightarrow> u64 list \<Rightarrow> u64 list" where
  "load_value a v registers = load_data a (ucast v) registers"


section \<open>The intermediate physical address\<close>

lemma ipa_Some:
  assumes "ipa far hpfar = Some p"
  shows "unat p < unat IPA_LIMIT" and "drop_bit 12 p = drop_bit 4 hpfar"
    and "p AND 0xfff = far AND 0xfff"
proof -
  from assms have zero: "hpfar AND NOT 0xffffff0 = 0"
    and p: "p = push_bit 8 (hpfar AND 0xffffff0) OR (far AND 0xfff)"
    by (simp_all add: ipa_def Let_def split: if_splits)
  have eq: "(0xffffff0 :: u64) = push_bit 4 (mask 24)" "(0xfff :: u64) = mask 12"
    "(0x1000000000 :: u64) = push_bit 36 1"
    by (simp_all add: mask_eq_exp_minus_1)
  have low: "\<not> bit hpfar i" if "i < 4 \<or> 28 \<le> i" for i
  proof (cases "i < 64")
    case True
    with zero that have "bit (hpfar AND NOT (push_bit 4 (mask 24))) i = bit hpfar i"
      by (auto simp: bit_simps)
    with zero show ?thesis by (simp add: eq)
  next
    case False
    then show ?thesis using bit_imp_le_length [of hpfar i] by auto
  qed
  have high: "4 \<le> i \<and> i < 28" if "bit hpfar i" for i
    using low [of i] that by (meson not_le)
  have p': "p = push_bit 8 hpfar OR (far AND mask 12)"
    unfolding p eq by (rule bit_word_eqI) (auto simp: bit_simps dest: high)
  have "take_bit 36 p = p"
    unfolding p' by (rule bit_word_eqI) (auto simp: bit_simps dest: high)
  then have "unat (take_bit 36 p) = unat p" by simp
  then have "take_bit 36 (unat p) = unat p" by (simp add: unsigned_take_bit_eq)
  then have "unat p < 2 ^ 36" by (metis take_bit_nat_less_exp)
  then show "unat p < unat IPA_LIMIT" by simp
  show "drop_bit 12 p = drop_bit 4 hpfar"
    unfolding p' by (rule bit_word_eqI) (auto simp: bit_simps dest: high)
  show "p AND 0xfff = far AND 0xfff"
    unfolding p' eq by (rule bit_word_eqI) (auto simp: bit_simps dest: high)
qed

section \<open>What a decoded access satisfies\<close>

text \<open>
  \<open>access_ok len a\<close>: the access is a naturally aligned 1-, 2-, 4- or 8-byte access that lies inside
  a region of \<open>len\<close> bytes, names one of the 32 register encodings, and combines its width and
  extension flags the way an integer load or store can.
\<close>

definition access_ok :: "u64 \<Rightarrow> access \<Rightarrow> bool" where
  "access_ok len a \<longleftrightarrow>
     unat (acc_size a) \<in> {1, 2, 4, 8}
     \<and> unat (acc_offset a) + unat (acc_size a) \<le> unat len
     \<and> unat (acc_offset a) mod unat (acc_size a) = 0
     \<and> acc_register a < 32
     \<and> (acc_sign_extend a \<longrightarrow> \<not> acc_write a \<and> acc_size a \<noteq> 8)
     \<and> (acc_size a = 8 \<longrightarrow> acc_wide a)
     \<and> (acc_wide a \<longrightarrow> acc_size a = 8 \<or> acc_sign_extend a)"

lemma two_bit_cases: "unat (x AND 3) \<in> {0, 1, 2, 3}"
  using unat_and_mask_less [of x 2] by (auto simp: mask_eq_exp_minus_1)

lemma size_shift_cases:
  "k \<in> {0, 1, 2, 3} \<Longrightarrow> (2 ^ k :: u8) \<in> {1, 2, 4, 8}"
  by auto

lemma five_bits: "unat (x AND 31) < 32"
  using unat_and_mask_less [of x 5] by (simp add: mask_eq_exp_minus_1)

text \<open>Decoding with a syndrome: what the caller may rely on.\<close>

lemma decode_region_Some:
  assumes "decode_region esr far hpfar base len = Some a"
  obtains p where "ipa far hpfar = Some p"
    and "unat p = unat base + unat (acc_offset a)"
    and "access_ok len a"
proof -
  define sz where "sz = (2 ^ unat (drop_bit 22 esr AND 3) :: u8)"
  have sz: "sz \<in> {1, 2, 4, 8}"
    unfolding sz_def by (rule size_shift_cases [OF two_bit_cases])
  from assms obtain p e where p: "ipa far hpfar = Some p"
    and off: "checked_sub p base = Some (acc_offset a)"
    and e: "checked_add (acc_offset a) (ucast sz) = Some e"
    and le: "\<not> e > len" and al: "ucast sz dvd acc_offset a"
    and f: "acc_size a = sz" "acc_register a = unat (drop_bit 16 esr AND 31)"
    and c: "\<not> (acc_sign_extend a \<and> (acc_write a \<or> sz = 8)
       \<or> sz = 8 \<and> \<not> acc_wide a \<or> sz \<noteq> 8 \<and> \<not> acc_sign_extend a \<and> acc_wide a)"
    by (auto simp: decode_region_def sz_def Let_def bind_eq_Some_conv split: if_splits)
  from off have "unat p = unat base + unat (acc_offset a)"
    by (simp add: checked_sub_Some_iff)
  moreover have "unat (acc_offset a) mod unat sz = 0"
    using sz al word_exp_dvd_iff [of 0 "acc_offset a"] word_exp_dvd_iff [of 1 "acc_offset a"]
      word_exp_dvd_iff [of 2 "acc_offset a"] word_exp_dvd_iff [of 3 "acc_offset a"] by auto
  moreover have "unat (acc_offset a) + unat sz \<le> unat len"
    using e le sz by (auto simp: checked_add_Some_iff word_less_nat_alt)
  ultimately show thesis
    using p c f sz five_bits [of "drop_bit 16 esr"]
    by (intro that) (auto simp: access_ok_def)
qed

text \<open>
  Decoding without a syndrome.  The nine immediate bits are read as a signed offset, and the
  address written back is the faulting address displaced by it.
\<close>

lemma immediate_9_bits:
  fixes raw :: u32
  defines "imm \<equiv> signed_drop_bit 7 (push_bit 7 (ucast (raw AND 0x1ff) :: u16))"
  shows "(scast imm :: u64) = word_of_int (signed_take_bit 8 (uint raw))"
proof -
  have m: "(0x1ff :: u32) = mask 9" by (simp add: mask_eq_exp_minus_1)
  show ?thesis
    unfolding imm_def m
    by (rule bit_word_eqI)
       (auto simp: bit_simps min_def split: if_splits, (subgoal_tac "n = 8"; simp)+)
qed

lemma decode_store_post_index_Some:
  assumes "decode_store_post_index_region esr far hpfar instruction base len registers
             = Some (a, w)"
  obtains p where "ipa far hpfar = Some p"
    and "unat p = unat base + unat (acc_offset a)"
    and "access_ok len a" and "acc_write a"
    and "wb_register w < 31" and "wb_register w \<noteq> acc_register a"
    and "registers ! wb_register w = far"
    and "wb_value w = far + word_of_int (signed_take_bit 8 (uint (drop_bit 12 instruction)))"
proof -
  define sz where "sz = (2 ^ unat (drop_bit 30 instruction) :: u8)"
  have "drop_bit 30 instruction AND mask 2 = drop_bit 30 instruction"
    by (rule bit_word_eqI) (auto simp: bit_simps dest: bit_imp_le_length)
  then have "drop_bit 30 instruction AND 3 = drop_bit 30 instruction"
    by (simp add: mask_eq_exp_minus_1)
  then have sz: "sz \<in> {1, 2, 4, 8}"
    unfolding sz_def using size_shift_cases [OF two_bit_cases [of "drop_bit 30 instruction"]]
    by simp
  from assms obtain p e where p: "ipa far hpfar = Some p"
    and off: "checked_sub p base = Some (acc_offset a)"
    and e: "checked_add (acc_offset a) (ucast sz) = Some e"
    and le: "\<not> e > len" and al: "ucast sz dvd acc_offset a"
    and f: "acc_size a = sz" "acc_register a = unat (instruction AND 31)" "acc_write a"
      "\<not> acc_sign_extend a" "acc_wide a \<longleftrightarrow> sz = 8"
    and w: "wb_register w = unat (drop_bit 5 instruction AND 31)"
      "wb_register w \<noteq> 31" "wb_register w \<noteq> acc_register a"
      "registers ! wb_register w = far"
      "wb_value w = far
         + scast (signed_drop_bit 7 (push_bit 7 (ucast (drop_bit 12 instruction AND 0x1ff) :: u16)))"
    by (auto simp: decode_store_post_index_region_def sz_def Let_def bind_eq_Some_conv
        split: if_splits)
  from off have "unat p = unat base + unat (acc_offset a)"
    by (simp add: checked_sub_Some_iff)
  moreover have "unat (acc_offset a) mod unat sz = 0"
    using sz al word_exp_dvd_iff [of 0 "acc_offset a"] word_exp_dvd_iff [of 1 "acc_offset a"]
      word_exp_dvd_iff [of 2 "acc_offset a"] word_exp_dvd_iff [of 3 "acc_offset a"] by auto
  moreover have "unat (acc_offset a) + unat sz \<le> unat len"
    using e le sz by (auto simp: checked_add_Some_iff word_less_nat_alt)
  moreover have "wb_register w < 31"
    using five_bits [of "drop_bit 5 instruction"] w(1,2) by simp
  ultimately show thesis
    using p f sz w five_bits [of instruction] immediate_9_bits [of "drop_bit 12 instruction"]
    by (intro that) (auto simp: access_ok_def)
qed

section \<open>Moving data\<close>

text \<open>The number of bits an access moves, and what a load leaves in its register.\<close>

definition access_bits :: "access \<Rightarrow> nat" where
  "access_bits a = unat (acc_size a) * 8"

definition extended :: "access \<Rightarrow> u64 \<Rightarrow> u64" where
  "extended a v =
     (if acc_sign_extend a
      then let s = signed_take_bit (access_bits a - 1) v in if acc_wide a then s else take_bit 32 s
      else take_bit (access_bits a) v)"

lemma high_mask: "n \<le> 64 \<Longrightarrow> drop_bit (64 - n) (- 1 :: u64) = mask n"
  by (rule bit_word_eqI) (auto simp: bit_simps)

lemma sign_extension_by_shifts:
  fixes v :: u64
  assumes "0 < n" and "n \<le> 64"
  shows "signed_drop_bit (64 - n) (push_bit (64 - n) (take_bit n v)) = signed_take_bit (n - 1) v"
proof (rule bit_word_eqI)
  fix i assume "i < LENGTH(64)"
  with assms show "bit (signed_drop_bit (64 - n) (push_bit (64 - n) (take_bit n v))) i
      = bit (signed_take_bit (n - 1) v) i"
    by (cases "i = n - 1") (auto simp: bit_simps min_def not_le)
qed

lemma narrow_roundtrip: "(ucast (ucast (w :: u64) :: u32) :: u64) = take_bit 32 w"
  by (rule bit_word_eqI) (auto simp: bit_simps)

lemma store_data_eq:
  assumes "access_ok len a"
  shows "store_data a registers
    = take_bit (access_bits a)
        (if acc_register a < length registers then registers ! acc_register a else 0)"
proof -
  have "access_bits a \<le> 64" using assms by (auto simp: access_ok_def access_bits_def)
  then show ?thesis
    by (simp add: store_data_def high_mask take_bit_eq_mask flip: access_bits_def)
qed

lemma load_data_eq:
  assumes "access_ok len a"
  shows "load_data a v registers
    = (if acc_register a < length registers
       then registers[acc_register a := extended a v] else registers)"
proof -
  have n: "access_bits a \<in> {8, 16, 32, 64}" and wide: "access_bits a = 64 \<Longrightarrow> acc_wide a"
    and zext: "\<not> acc_sign_extend a \<Longrightarrow> acc_wide a \<Longrightarrow> access_bits a = 64"
    using assms by (auto simp: access_ok_def access_bits_def word_unat_eq_iff)
  have "take_bit 32 (take_bit (access_bits a) v) = take_bit (access_bits a) v"
    if "access_bits a \<noteq> 64"
    using n that by (auto simp: min_def)
  then have "extended a v
      = (let s = (if acc_sign_extend a
                  then signed_drop_bit (64 - access_bits a)
                         (push_bit (64 - access_bits a) (take_bit (access_bits a) v))
                  else take_bit (access_bits a) v)
         in if acc_wide a then s else ucast (ucast s :: u32))"
    using n wide zext sign_extension_by_shifts [of "access_bits a" v]
    by (auto simp: extended_def narrow_roundtrip Let_def)
  moreover have "access_bits a \<le> 64" using n by auto
  ultimately show ?thesis
    by (simp only: load_data_def Let_def high_mask flip: access_bits_def take_bit_eq_mask)
qed

lemma length_load_data [simp]: "length (load_data a v registers) = length registers"
  by (simp add: load_data_def Let_def)

lemma load_data_other:
  "i \<noteq> acc_register a \<Longrightarrow> load_data a v registers ! i = registers ! i"
  by (simp add: load_data_def Let_def)

section \<open>Properties\<close>

text \<open>
  C6: A data abort that decodes as an access of a device region comes from a physical address inside
  the region: the address is the base plus the decoded offset, and the access is naturally aligned,
  ends inside the region and has a width and extension that a load or store can have.
\<close>

theorem decode_region_sound:
  assumes "decode_region esr far hpfar base len = Some a"
  shows "access_ok len a
    \<and> (\<exists>p. ipa far hpfar = Some p \<and> unat p = unat base + unat (acc_offset a)
         \<and> unat p < unat IPA_LIMIT \<and> p AND 0xfff = far AND 0xfff)"
  using assms by (rule decode_region_Some) (auto dest: ipa_Some)

text \<open>A sign-extending byte load to \<open>x3\<close> from offset \<open>0x18\<close> of the UART page.\<close>

theorem decode_region_sound_witness:
  "access_ok 64
     \<lparr>acc_offset = 0x18, acc_register = 3, acc_write = False, acc_sign_extend = True, acc_size = 1,
      acc_wide = True\<rparr>
   \<and> (\<exists>p. ipa 0x18 0x700060 = Some p \<and> unat p = unat (0x70006000 :: u64) + 0x18
        \<and> unat p < unat IPA_LIMIT \<and> p AND 0xfff = 0x18 AND 0xfff)"
proof -
  let ?a = "\<lparr>acc_offset = 0x18, acc_register = 3, acc_write = False, acc_sign_extend = True,
    acc_size = 1, acc_wide = True\<rparr>"
  have "decode_region 0x93238007 0x18 0x700060 0x70006000 64 = Some ?a"
    by (simp add: decode_region_def ipa_def Let_def checked_sub_def checked_add_def)
  from decode_region_sound [OF this] show ?thesis by simp
qed

text \<open>
  C7: The same for a store whose syndrome the hardware leaves out: the decoded instruction is a
  post-indexed integer store to the faulting address, and the value written back to its base register
  is that address displaced by the signed nine-bit immediate.
\<close>

theorem decode_store_post_index_sound:
  assumes "decode_store_post_index_region esr far hpfar instruction base len registers = Some (a, w)"
  shows "access_ok len a \<and> acc_write a
    \<and> (\<exists>p. ipa far hpfar = Some p \<and> unat p = unat base + unat (acc_offset a))
    \<and> wb_register w < 31 \<and> wb_register w \<noteq> acc_register a \<and> registers ! wb_register w = far
    \<and> wb_value w = far + word_of_int (signed_take_bit 8 (uint (drop_bit 12 instruction)))"
  using assms by (rule decode_store_post_index_Some) auto

text \<open>\<open>STR W1, [X2], #-4\<close> at offset \<open>0x100\<close> of the distributor.\<close>

theorem decode_store_post_index_sound_witness:
  "wb_register \<lparr>wb_register = 2, wb_value = 0xfc\<rparr> < 31
   \<and> (0xfc :: u64) = 0x100 + word_of_int (signed_take_bit 8 (uint (drop_bit 12 (0xb81fc441 :: u32))))"
proof -
  let ?a = "\<lparr>acc_offset = 0x100, acc_register = 1, acc_write = True, acc_sign_extend = False,
    acc_size = 4, acc_wide = False\<rparr>"
  let ?w = "\<lparr>wb_register = 2, wb_value = 0xfc\<rparr>"
  have "decode_store_post_index_region 0x92000047 0x100 0x500410 0xb81fc441 0x50041000 0x1000
      [0, 0, 0x100] = Some (?a, ?w)"
    by (simp add: decode_store_post_index_region_def ipa_def Let_def checked_sub_def
        checked_add_def signed_drop_bit_word_numeral)
  from decode_store_post_index_sound [OF this] show ?thesis by simp
qed

text \<open>
  C8: Completing a decoded access moves exactly its bits.  A store hands the device the low bits of the
  source register, zero for the zero register; a load leaves the sign- or zero-extended value in the
  destination register and no other register changes.
\<close>

theorem access_moves_data:
  assumes "access_ok len a"
  shows "store_data a registers
      = take_bit (access_bits a)
          (if acc_register a < length registers then registers ! acc_register a else 0)
    \<and> load_data a v registers
      = (if acc_register a < length registers
         then registers[acc_register a := extended a v] else registers)"
  using store_data_eq [OF assms] load_data_eq [OF assms] by blast

theorem access_moves_data_witness:
  "load_data \<lparr>acc_offset = 0, acc_register = 1, acc_write = False, acc_sign_extend = True,
     acc_size = 1, acc_wide = True\<rparr> 0x180 [7, 8] = [7, - 128]"
proof -
  let ?a = "\<lparr>acc_offset = 0, acc_register = 1, acc_write = False, acc_sign_extend = True,
     acc_size = 1, acc_wide = True\<rparr>"
  have ok: "access_ok 1 ?a" by (simp add: access_ok_def)
  have "extended ?a 0x180 = - 128" by (simp add: extended_def access_bits_def)
  then show ?thesis using access_moves_data [OF ok, of "[7, 8]" "0x180"] by simp
qed

end
