(* ===== verification/Memory_Controller.thy ===== *)
theory Memory_Controller
  imports Mmio_Access
begin

text \<open>
  \<open>mc.rs\<close>: memory discovery through the Tegra memory controller.  \<open>validate\<close> is the check made
  before the monitor copies itself to its resident region, \<open>guest_high_end\<close> bounds the upper RAM
  bank that software devices may touch, and \<open>read_override\<close> is the virtual carveout the guest
  reads instead of the disabled GSC5 registers.  The register reads of the source are a function
  from register offset to value.
\<close>

definition MC_BASE :: u64 where [simp]: "MC_BASE = 0x70019000"
definition MC_SIZE :: u64 where [simp]: "MC_SIZE = 4096"
definition EMEM_CFG :: u64 where [simp]: "EMEM_CFG = 0x50"
definition GSC5_BOM :: u64 where [simp]: "GSC5_BOM = 0xd4c"
definition GSC5_HI :: u64 where [simp]: "GSC5_HI = 0xd50"
definition GSC5_SIZE :: u64 where [simp]: "GSC5_SIZE = 0xd54"

text \<open>The word accesses to the controller's page that the monitor emulates.\<close>

definition mc_decode :: "u64 \<Rightarrow> u64 \<Rightarrow> u64 \<Rightarrow> access option" where
  "mc_decode esr far hpfar = do {
     access \<leftarrow> decode_region esr far hpfar MC_BASE MC_SIZE;
     if acc_size access = 4 \<and> esr AND 0x3f = 7 \<and> (\<not> acc_sign_extend access \<or> acc_wide access)
     then Some access else None
   }"

text \<open>Low address, high address and size registers of the eight carveouts.\<close>

definition CARVEOUTS :: "(u64 \<times> u64 \<times> u64) list" where
  "CARVEOUTS =
     [(0x670, 0x9d4, 0x674), (0x9a0, 0x9a8, 0x9a4), (0x648, 0x978, 0x64c),
      (0xc0c, 0xc10, 0xc14), (0xc5c, 0xc60, 0xc64), (0xcac, 0xcb0, 0xcb4),
      (0xcfc, 0xd00, 0xd04), (GSC5_BOM, GSC5_HI, GSC5_SIZE)]"

datatype placement_error = RamSize | FirmwareCarveout | Gsc5InUse

definition carveout_address :: "(u64 \<Rightarrow> u32) \<Rightarrow> u64 \<times> u64 \<times> u64 \<Rightarrow> u64" where
  "carveout_address read c =
     (case c of (bom, high, sz) \<Rightarrow> ucast (read bom) OR push_bit 32 (ucast (read high)))"

definition validate_carveout :: "(u64 \<Rightarrow> u32) \<Rightarrow> u64 \<times> u64 \<times> u64 \<Rightarrow> bool" where
  "validate_carveout read c =
     (case c of (bom, high, sz) \<Rightarrow>
        let address = carveout_address read c
        in read sz \<noteq> 0 \<and> 0x80000000 \<le> address \<and> address \<le> 0x100000000)"

definition validate :: "(u64 \<Rightarrow> u32) \<Rightarrow> placement_error + unit" where
  "validate read =
     (let config = read EMEM_CFG in
      and_then
        (if config AND push_bit 31 1 \<noteq> 0 then ok_or (checked_sub (config AND 0x3fff) 0x800) RamSize
         else Inr config)
        (\<lambda>megabytes.
          let bytes = push_bit 20 (ucast megabytes :: u64) in
          if bytes = 0 \<or> bytes > IPA_LIMIT - 0x80000000 then Inl RamSize
          else
            let top = foldl (\<lambda>top c. if validate_carveout read c
                                      then min top (carveout_address read c) else top)
                        (0x80000000 + min bytes 0x80000000) CARVEOUTS in
            if top < RESIDENT_BASE + RESIDENT_SIZE then Inl FirmwareCarveout
            else if read GSC5_SIZE \<noteq> 0 then Inl Gsc5InUse
            else Inr ()))"

definition read_override :: "u64 \<Rightarrow> u32 option" where
  "read_override offset =
     (if offset = GSC5_BOM then Some (ucast RESIDENT_BASE)
      else if offset = GSC5_HI then Some (ucast (drop_bit 32 RESIDENT_BASE))
      else if offset = GSC5_SIZE then Some (ucast (drop_bit 17 RESIDENT_SIZE))
      else None)"




section \<open>Scanning the carveouts\<close>

lemma scan_ge_iff:
  fixes top :: "'a::linorder"
  shows "x \<le> foldl (\<lambda>t c. if P c then min t (f c) else t) top cs
    \<longleftrightarrow> x \<le> top \<and> (\<forall>c \<in> set cs. P c \<longrightarrow> x \<le> f c)"
  by (induction cs arbitrary: top) auto

lemma unat_megabytes: "unat (push_bit 20 (ucast (m :: u32)) :: u64) = unat m * 2 ^ 20"
proof -
  have "unat m < 2 ^ 32" using unat_bounds(3) [of m] by simp
  then show ?thesis
    by (simp add: push_bit_eq_mult unat_word_ariths unsigned_ucast_eq take_bit_nat_eq_self)
qed

text \<open>
  The RAM the controller reports, in bytes: the register at \<open>0x50\<close> counts megabytes, unless its highest bit is
  set; then the lowest fourteen bits count them and 2048 of them are not to be used.
\<close>

definition reported_ram :: "(u64 \<Rightarrow> u32) \<Rightarrow> nat option" where
  "reported_ram read =
     (let config = unat (read 0x50); low = config mod 2 ^ 14
      in if config < 2 ^ 31 then Some (config * 2 ^ 20)
         else if 2048 \<le> low then Some ((low - 2048) * 2 ^ 20) else None)"

lemma reported_ram_word:
  "reported_ram read =
     (let config = read EMEM_CFG in
      map_option (\<lambda>m. unat m * 2 ^ 20)
        (if bit config 31 then checked_sub (config AND 0x3fff) 0x800 else Some config))"
proof -
  define c where "c = read EMEM_CFG"
  have m: "(0x3fff :: u32) = mask 14" by (simp add: mask_eq_exp_minus_1)
  have low: "unat (c AND 0x3fff) = unat c mod 2 ^ 14"
    unfolding m take_bit_eq_mask [symmetric] by (simp add: take_bit_eq_mod unat_mod)
  have "bit c 31 \<longleftrightarrow> odd (unat c div 2 ^ 31)" using bit_unsigned_iff [of c 31, where ?'a = nat] by (simp add: bit_iff_odd [of "unat c"])
  also have "\<dots> \<longleftrightarrow> \<not> unat c < 2 ^ 31"
  proof (cases "unat c < 2 ^ 31")
    case False
    then have "unat c div 2 ^ 31 = 1" using unat_bounds(3) [of c] by (intro div_nat_eqI) simp_all
    with False show ?thesis by simp
  qed simp
  finally have high: "bit c 31 \<longleftrightarrow> \<not> unat c < 2 ^ 31" .
  show ?thesis
  proof (cases "0x800 \<le> c AND 0x3fff")
    case True
    then have "unat ((c AND 0x3fff) - 0x800) = unat c mod 2 ^ 14 - 2048" "2048 \<le> unat c mod 2 ^ 14"
      using low by (simp_all add: unat_sub word_le_nat_alt)
    then show ?thesis using True high by (simp add: reported_ram_def checked_sub_def Let_def flip: c_def EMEM_CFG_def)
  next
    case False
    then have "\<not> 2048 \<le> unat c mod 2 ^ 14" using low by (simp add: word_le_nat_alt)
    then show ?thesis using False high by (simp add: reported_ram_def checked_sub_def Let_def flip: c_def EMEM_CFG_def)
  qed
qed

text \<open>
  The placement the monitor needs, over the numbers in the registers: some RAM within the 36-bit space that
  reaches past the end of the resident region, no enabled carveout that starts in the lower bank before that end,
  and GSC5 unused.
\<close>

definition carveout_start :: "(u64 \<Rightarrow> u32) \<Rightarrow> u64 \<times> u64 \<times> u64 \<Rightarrow> nat" where
  "carveout_start read c = (case c of (bom, high, sz) \<Rightarrow> unat (read bom) + 2 ^ 32 * unat (read high))"

definition carveout_clear :: "(u64 \<Rightarrow> u32) \<Rightarrow> u64 \<times> u64 \<times> u64 \<Rightarrow> bool" where
  "carveout_clear read c =
     (case c of (bom, high, sz) \<Rightarrow>
        read sz = 0 \<or> carveout_start read c < 0x80000000 \<or> 0xffc00000 \<le> carveout_start read c)"

definition placement_ok :: "(u64 \<Rightarrow> u32) \<Rightarrow> bool" where
  "placement_ok read \<longleftrightarrow>
     (\<exists>n. reported_ram read = Some n \<and> 0xffc00000 \<le> 0x80000000 + n \<and> 0x80000000 + n \<le> 2 ^ 36)
     \<and> list_all (carveout_clear read)
         [(0x670, 0x9d4, 0x674), (0x9a0, 0x9a8, 0x9a4), (0x648, 0x978, 0x64c), (0xc0c, 0xc10, 0xc14),
          (0xc5c, 0xc60, 0xc64), (0xcac, 0xcb0, 0xcb4), (0xcfc, 0xd00, 0xd04), (0xd4c, 0xd50, 0xd54)]
     \<and> read 0xd54 = 0"

lemma unat_carveout_address: "unat (carveout_address read c) = carveout_start read c"
proof -
  obtain bom high sz where c: "c = (bom, high, sz)" by (cases c)
  let ?low = "ucast (read bom) :: u64" and ?high = "push_bit 32 (ucast (read high)) :: u64"
  have h: "unat ?high = 2 ^ 32 * unat (read high)"
    using unat_bounds(3) [of "read high"]
    by (simp add: push_bit_eq_mult unat_word_ariths unsigned_ucast_eq take_bit_nat_eq_self)
  have l: "unat ?low = unat (read bom)" by (simp add: unsigned_ucast_eq take_bit_nat_eq_self unat_bounds(3) order.strict_trans [OF unat_bounds(3)])
  have "?low AND ?high = 0"
    by (rule bit_word_eqI) (auto simp: bit_simps dest: bit_imp_le_length)
  then have "?low OR ?high = ?low + ?high" by (metis disjunctive_add_eq_or)
  moreover have "unat (?low + ?high) = unat ?low + unat ?high"
    using unat_bounds(3) [of "read bom"] unat_bounds(3) [of "read high"] by (intro unat_add_no_overflow) (simp add: h l)
  ultimately show ?thesis by (simp add: c carveout_address_def carveout_start_def h l)
qed

lemma carveouts_clear:
  "(\<forall>c \<in> set CARVEOUTS. validate_carveout read c \<longrightarrow> 0xffc00000 \<le> carveout_address read c)
     \<longleftrightarrow> list_all (carveout_clear read) CARVEOUTS"
proof -
  have "(validate_carveout read c \<longrightarrow> 0xffc00000 \<le> carveout_address read c) \<longleftrightarrow> carveout_clear read c" for c
    using unat_carveout_address [of read c]
    by (cases c) (auto simp: validate_carveout_def carveout_clear_def word_le_nat_alt not_le)
  then show ?thesis by (simp add: list_all_iff)
qed

lemma placement_ok_iff:
  "placement_ok read \<longleftrightarrow>
     (\<exists>n. reported_ram read = Some n \<and> 0xffc00000 \<le> 0x80000000 + n \<and> 0x80000000 + n \<le> 2 ^ 36)
     \<and> (\<forall>c \<in> set CARVEOUTS. validate_carveout read c \<longrightarrow> 0xffc00000 \<le> carveout_address read c)
     \<and> read GSC5_SIZE = 0"
  unfolding carveouts_clear by (simp add: placement_ok_def CARVEOUTS_def)

lemma scan_below:
  fixes m :: u32
  shows "foldl (\<lambda>top c. if validate_carveout read c then min top (carveout_address read c) else top)
      (0x80000000 + min (push_bit 20 (ucast m)) 0x80000000 :: u64) CARVEOUTS < 0xffc00000
    \<longleftrightarrow> \<not> (0xffc00000 \<le> 0x80000000 + unat m * 2 ^ 20
        \<and> (\<forall>c \<in> set CARVEOUTS. validate_carveout read c \<longrightarrow> 0xffc00000 \<le> carveout_address read c))"
proof -
  let ?start = "0x80000000 + min (push_bit 20 (ucast m)) 0x80000000 :: u64"
  have "0xffc00000 \<le> ?start \<longleftrightarrow> 0xffc00000 \<le> 0x80000000 + unat m * 2 ^ 20"
    by (auto simp: word_le_nat_alt min_def unat_word_ariths unat_megabytes)
  then show ?thesis by (simp only: scan_ge_iff flip: not_le)
qed

text \<open>
  C9: The boot check accepts a memory controller exactly when the monitor's placement is safe: the RAM
  it reports reaches past the resident region and stays in the 36-bit space, none of the eight carveouts
  that is enabled starts in the lower bank of RAM before the end of that region, and the GSC5 carveout, which
  the monitor shows to the guest as its own, is unused.
\<close>

theorem validate_ok_iff: "validate read = Inr () \<longleftrightarrow> placement_ok read"
proof -
  let ?c = "read EMEM_CFG"
  let ?m = "if bit ?c 31 then checked_sub (?c AND 0x3fff) 0x800 else Some ?c"
  have bit31: "?c AND 0x80000000 \<noteq> 0 \<longleftrightarrow> bit ?c 31"
    using masked_bit_iff [of ?c 31] by simp
  show ?thesis
  proof (cases ?m)
    case None
    then have "validate read = Inl RamSize"
      using bit31 by (simp add: validate_def Let_def split: if_splits)
    moreover have "reported_ram read = None"
      using None by (auto simp: reported_ram_word Let_def split: if_splits)
    ultimately show ?thesis by (simp add: placement_ok_iff)
  next
    case (Some m)
    let ?b = "push_bit 20 (ucast m) :: u64"
    let ?start = "0x80000000 + min ?b 0x80000000 :: u64"
    let ?top = "foldl (\<lambda>top c. if validate_carveout read c
                         then min top (carveout_address read c) else top) ?start CARVEOUTS"
    have size: "(?b = 0 \<or> ?b > IPA_LIMIT - 0x80000000)
        \<longleftrightarrow> unat m = 0 \<or> 2 ^ 36 < 0x80000000 + unat m * 2 ^ 20"
      by (simp add: word_less_nat_alt unat_eq_0 [symmetric] unat_megabytes
          del: unat_eq_zero push_bit_of_1)
    note top = scan_below [of read m]
    have "validate read =
        (if ?b = 0 \<or> ?b > IPA_LIMIT - 0x80000000 then Inl RamSize
         else if ?top < 0xffc00000 then Inl FirmwareCarveout
         else if read GSC5_SIZE \<noteq> 0 then Inl Gsc5InUse else Inr ())"
      using Some bit31 by (auto simp: validate_def Let_def split: if_splits)
    then have "validate read = Inr () \<longleftrightarrow>
        \<not> (?b = 0 \<or> ?b > IPA_LIMIT - 0x80000000) \<and> \<not> ?top < 0xffc00000 \<and> read GSC5_SIZE = 0"
      by simp
    moreover have "reported_ram read = Some (unat m * 2 ^ 20)"
      using Some by (auto simp: reported_ram_word Let_def split: if_splits)
    ultimately show ?thesis
      unfolding size top placement_ok_iff by auto
  qed
qed


lemma mc_decode_Some:
  assumes "mc_decode esr far hpfar = Some a"
  shows "access_ok MC_SIZE a" and "acc_size a = 4" and "unat (acc_offset a) mod 4 = 0"
    and "unat (acc_offset a) + 4 \<le> 4096"
proof -
  from assms have d: "decode_region esr far hpfar MC_BASE MC_SIZE = Some a" and s: "acc_size a = 4"
    by (auto simp: mc_decode_def bind_eq_Some_conv split: if_splits)
  from d show ok: "access_ok MC_SIZE a" by (rule decode_region_Some)
  show "acc_size a = 4" by (fact s)
  show "unat (acc_offset a) mod 4 = 0" and "unat (acc_offset a) + 4 \<le> 4096"
    using ok s by (auto simp: access_ok_def)
qed

section \<open>Properties\<close>



end
