(* ===== verification/Bakery.thy ===== *)
theory Bakery
  imports Platform
begin

text \<open>
  The Bakery lock of \<open>psci.rs\<close> (\<open>Claims\<close>) and of \<open>arch/aarch64/sync.rs\<close> (\<open>Mutex\<close>): Lamport's
  algorithm over one 64-bit slot per CPU, in which bit 0 is the choosing flag and the other bits
  hold the ticket number.  A state gives every slot and, for every CPU, how far it is through
  \<open>enter\<close>.  One step is one sequentially consistent load or store of the source, so the steps of
  the four CPUs interleave freely.  The last section proves mutual exclusion.
\<close>


section \<open>Tickets\<close>

text \<open>
  \<open>(theirs, other) >= (number, caller)\<close> in the source compares a ticket number and its owner
  lexicographically.
\<close>

datatype ticket = Ticket (ticket_number: u64) (ticket_owner: nat)

instantiation ticket :: linorder
begin

definition less_eq_ticket :: "ticket \<Rightarrow> ticket \<Rightarrow> bool" where
  "less_eq_ticket a b \<longleftrightarrow> ticket_number a < ticket_number b
     \<or> ticket_number a = ticket_number b \<and> ticket_owner a \<le> ticket_owner b"

definition less_ticket :: "ticket \<Rightarrow> ticket \<Rightarrow> bool" where
  "less_ticket a b \<longleftrightarrow> ticket_number a < ticket_number b
     \<or> ticket_number a = ticket_number b \<and> ticket_owner a < ticket_owner b"

instance
proof
  fix x y z :: ticket
  show "x < y \<longleftrightarrow> x \<le> y \<and> \<not> y \<le> x"
    by (auto simp: less_eq_ticket_def less_ticket_def)
  show "x \<le> x" by (simp add: less_eq_ticket_def)
  show "x \<le> y \<Longrightarrow> y \<le> z \<Longrightarrow> x \<le> z"
    by (auto simp: less_eq_ticket_def)
  show "x \<le> y \<Longrightarrow> y \<le> x \<Longrightarrow> x = y"
    by (auto simp: less_eq_ticket_def intro: ticket.expand)
  show "x \<le> y \<or> y \<le> x"
    by (auto simp: less_eq_ticket_def)
qed

end


section \<open>The algorithm\<close>

text \<open>
  Where a CPU is in \<open>enter\<close>.  \<open>Reading i m\<close>: it has set its choosing flag and read the slots below
  \<open>i\<close>, whose greatest number is \<open>m\<close>.  \<open>Retry\<close>: it has withdrawn after finding the greatest
  representable number.  \<open>WaitChoosing i n\<close> and \<open>WaitTurn i n\<close>: it has published the number \<open>n\<close> and
  waits for CPU \<open>i\<close>, first for its choosing flag and then for its number.  \<open>Held n\<close>: \<open>enter\<close> has
  returned and the claim is not dropped yet.
\<close>

datatype phase =
    Idle
  | Retry
  | Reading nat u64
  | WaitChoosing nat u64
  | WaitTurn nat u64
  | Held u64

record bakery =
  slots :: "nat \<Rightarrow> u64"
  phases :: "nat \<Rightarrow> phase"

definition claims_new :: bakery where
  "claims_new = \<lparr>slots = (\<lambda>_. 0), phases = (\<lambda>_. Idle)\<rparr>"

definition max_number :: u64 where
  "max_number = drop_bit 1 (- 1)"

text \<open>The first store of \<open>enter\<close>, made on entry and again after a withdrawal.\<close>

definition claim_enter :: "nat \<Rightarrow> bakery \<Rightarrow> bakery" where
  "claim_enter c s = s\<lparr>slots := (slots s)(c := 1), phases := (phases s)(c := Reading 0 0)\<rparr>"

text \<open>
  The next access of CPU \<open>c\<close> inside \<open>enter\<close>.  A spin that does not find its condition leaves the
  state as it is.
\<close>

definition claim_step :: "nat \<Rightarrow> bakery \<Rightarrow> bakery" where
  "claim_step c s =
     (case phases s c of
        Idle \<Rightarrow> s
      | Retry \<Rightarrow> claim_enter c s
      | Reading i m \<Rightarrow>
          if i < CPU_COUNT
          then s\<lparr>phases := (phases s)(c := Reading (Suc i) (max m (drop_bit 1 (slots s i))))\<rparr>
          else if m = max_number
          then s\<lparr>slots := (slots s)(c := 0), phases := (phases s)(c := Retry)\<rparr>
          else s\<lparr>slots := (slots s)(c := push_bit 1 (m + 1)),
                 phases := (phases s)(c := WaitChoosing 0 (m + 1))\<rparr>
      | WaitChoosing i n \<Rightarrow>
          if i \<ge> CPU_COUNT then s\<lparr>phases := (phases s)(c := Held n)\<rparr>
          else if i = c then s\<lparr>phases := (phases s)(c := WaitChoosing (Suc i) n)\<rparr>
          else if slots s i AND 1 \<noteq> 0 then s
          else s\<lparr>phases := (phases s)(c := WaitTurn i n)\<rparr>
      | WaitTurn i n \<Rightarrow>
          let theirs = drop_bit 1 (slots s i) in
          if theirs = 0 \<or> Ticket theirs i \<ge> Ticket n c
          then s\<lparr>phases := (phases s)(c := WaitChoosing (Suc i) n)\<rparr>
          else s
      | Held n \<Rightarrow> s)"

text \<open>Dropping the \<open>Claim\<close>.\<close>

definition claim_drop :: "nat \<Rightarrow> bakery \<Rightarrow> bakery" where
  "claim_drop c s = s\<lparr>slots := (slots s)(c := 0), phases := (phases s)(c := Idle)\<rparr>"

definition holds_claim :: "bakery \<Rightarrow> nat \<Rightarrow> bool" where
  "holds_claim s c \<longleftrightarrow> (case phases s c of Held n \<Rightarrow> True | _ \<Rightarrow> False)"

text \<open>All interleavings of the four CPUs.\<close>

inductive claim_move :: "bakery \<Rightarrow> bakery \<Rightarrow> bool" where
  move_enter: "c < CPU_COUNT \<Longrightarrow> phases s c = Idle \<Longrightarrow> claim_move s (claim_enter c s)"
| move_step: "c < CPU_COUNT \<Longrightarrow> claim_move s (claim_step c s)"
| move_drop: "c < CPU_COUNT \<Longrightarrow> holds_claim s c \<Longrightarrow> claim_move s (claim_drop c s)"

inductive claim_reachable :: "bakery \<Rightarrow> bool" where
  reach_new: "claim_reachable claims_new"
| reach_move: "claim_reachable s \<Longrightarrow> claim_move s t \<Longrightarrow> claim_reachable t"


section \<open>Mutual exclusion\<close>

fun numbered :: "phase \<Rightarrow> u64 option" where
  "numbered (WaitChoosing i n) = Some n"
| "numbered (WaitTurn i n) = Some n"
| "numbered (Held n) = Some n"
| "numbered _ = None"

text \<open>
  \<open>passed p j\<close>: a CPU in phase \<open>p\<close> has finished waiting for CPU \<open>j\<close>.  \<open>cleared p j\<close>: it has at least
  seen \<open>j\<close>'s choosing flag down since publishing its own number.
\<close>

fun passed :: "phase \<Rightarrow> nat \<Rightarrow> bool" where
  "passed (WaitChoosing i n) j = (j < i)"
| "passed (WaitTurn i n) j = (j < i)"
| "passed (Held n) j = True"
| "passed _ j = False"

fun cleared :: "phase \<Rightarrow> nat \<Rightarrow> bool" where
  "cleared (WaitTurn i n) j = (j \<le> i)"
| "cleared p j = passed p j"

fun slot_of :: "phase \<Rightarrow> u64" where
  "slot_of Idle = 0"
| "slot_of Retry = 0"
| "slot_of (Reading i m) = 1"
| "slot_of (WaitChoosing i n) = push_bit 1 n"
| "slot_of (WaitTurn i n) = push_bit 1 n"
| "slot_of (Held n) = push_bit 1 n"

definition number_ok :: "u64 \<Rightarrow> bool" where
  "number_ok n \<longleftrightarrow> 0 < n \<and> n \<le> max_number"

text \<open>
  The invariant.  Each slot shows its CPU's phase.  A CPU still reading slots has already counted
  the number of every CPU that cleared it and whose slot it has read.  A CPU that passed another
  numbered one holds the smaller ticket.
\<close>

definition slots_shown :: "bakery \<Rightarrow> bool" where
  "slots_shown s \<longleftrightarrow> (\<forall>c. slots s c = slot_of (phases s c))"

definition phases_ok :: "bakery \<Rightarrow> bool" where
  "phases_ok s \<longleftrightarrow>
     (\<forall>c n. numbered (phases s c) = Some n \<longrightarrow> number_ok n)
     \<and> (\<forall>c i m. phases s c = Reading i m \<longrightarrow> m \<le> max_number \<and> i \<le> CPU_COUNT)
     \<and> (\<forall>c i n. phases s c = WaitTurn i n \<longrightarrow> i \<noteq> c)
     \<and> (\<forall>c. CPU_COUNT \<le> c \<longrightarrow> phases s c = Idle)"

definition counted :: "bakery \<Rightarrow> bool" where
  "counted s \<longleftrightarrow>
     (\<forall>c j n i m. c \<noteq> j \<longrightarrow> numbered (phases s c) = Some n \<longrightarrow> cleared (phases s c) j \<longrightarrow>
        phases s j = Reading i m \<longrightarrow> c < i \<longrightarrow> n \<le> m)"

definition ordered :: "bakery \<Rightarrow> bool" where
  "ordered s \<longleftrightarrow>
     (\<forall>c j n n'. c \<noteq> j \<longrightarrow> numbered (phases s c) = Some n \<longrightarrow> passed (phases s c) j \<longrightarrow>
        numbered (phases s j) = Some n' \<longrightarrow> Ticket n c < Ticket n' j)"

definition bakery_inv :: "bakery \<Rightarrow> bool" where
  "bakery_inv s \<longleftrightarrow> slots_shown s \<and> phases_ok s \<and> counted s \<and> ordered s"

lemmas bakery_inv_defs = bakery_inv_def slots_shown_def phases_ok_def counted_def ordered_def

lemma bakery_invD:
  assumes "bakery_inv s"
  shows "numbered (phases s c) = Some n \<Longrightarrow> number_ok n"
    and "phases s c = Reading i m \<Longrightarrow> m \<le> max_number \<and> i \<le> CPU_COUNT"
    and "phases s c = WaitTurn i n \<Longrightarrow> i \<noteq> c"
    and "CPU_COUNT \<le> c \<Longrightarrow> phases s c = Idle"
  using assms unfolding bakery_inv_def phases_ok_def by simp_all

lemma bakery_inv_counted:
  "bakery_inv s \<Longrightarrow> c \<noteq> j \<Longrightarrow> numbered (phases s c) = Some n \<Longrightarrow> cleared (phases s c) j \<Longrightarrow>
     phases s j = Reading i m \<Longrightarrow> c < i \<Longrightarrow> n \<le> m"
  unfolding bakery_inv_def counted_def by simp

lemma bakery_inv_ordered:
  "bakery_inv s \<Longrightarrow> c \<noteq> j \<Longrightarrow> numbered (phases s c) = Some n \<Longrightarrow> passed (phases s c) j \<Longrightarrow>
     numbered (phases s j) = Some n' \<Longrightarrow> Ticket n c < Ticket n' j"
  unfolding bakery_inv_def ordered_def by simp

lemma bakery_inv_slot: "bakery_inv s \<Longrightarrow> slots s c = slot_of (phases s c)"
  by (simp add: bakery_inv_def slots_shown_def)

lemma max_number_eq: "max_number = 0x7fffffffffffffff"
  by (simp add: max_number_def mask_eq_exp_minus_1)

lemma drop_push_number:
  assumes "n \<le> max_number"
  shows "drop_bit 1 (push_bit 1 n) = n"
proof (rule bit_word_eqI)
  have "unat n < 2 ^ 63" using assms by (simp add: max_number_eq word_le_nat_alt)
  then have t: "take_bit 63 n = n"
    by (simp add: word_unat_eq_iff unsigned_take_bit_eq take_bit_nat_eq_self)
  fix i assume "i < LENGTH(64)"
  moreover have "bit n i \<Longrightarrow> i < 63" using t by (metis bit_take_bit_iff)
  ultimately show "bit (drop_bit 1 (push_bit 1 n)) i = bit n i"
    by (simp only: bit_drop_bit_eq o_apply bit_push_bit_iff) auto
qed

lemma number_ok_slot:
  assumes "number_ok n"
  shows "drop_bit 1 (push_bit 1 n) = n" and "push_bit 1 n AND 1 = 0"
proof -
  show "drop_bit 1 (push_bit 1 n) = n"
    using assms by (intro drop_push_number) (simp add: number_ok_def)
  show "push_bit 1 n AND 1 = 0"
    by (rule bit_word_eqI) (simp only: bit_and_iff bit_push_bit_iff bit_1_iff, simp)
qed

lemma number_ok_Suc: "m \<le> max_number \<Longrightarrow> m \<noteq> max_number \<Longrightarrow> number_ok (m + 1) \<and> m < m + 1"
proof -
  assume "m \<le> max_number" "m \<noteq> max_number"
  then have "unat m < 0x7fffffffffffffff"
    by (simp add: max_number_eq word_le_nat_alt word_unat_eq_iff)
  then have "unat (m + 1) = unat m + 1" by (simp add: unat_word_ariths)
  then show ?thesis
    using \<open>unat m < 0x7fffffffffffffff\<close>
    by (simp add: number_ok_def max_number_eq word_le_nat_alt word_less_nat_alt)
qed

text \<open>What the loads of \<open>claim_step\<close> see, in terms of the phases.\<close>

lemma slot_number:
  assumes "bakery_inv s"
  shows "drop_bit 1 (slots s c) = (case numbered (phases s c) of None \<Rightarrow> 0 | Some n \<Rightarrow> n)"
proof -
  have "numbered (phases s c) = Some n \<Longrightarrow> drop_bit 1 (push_bit 1 n) = n" for n
    using number_ok_slot(1) bakery_invD(1) [OF assms] by blast
  then show ?thesis
    by (cases "phases s c") (simp_all add: bakery_inv_slot [OF assms])
qed

lemma slot_choosing:
  assumes "bakery_inv s"
  shows "slots s c AND 1 \<noteq> 0 \<longleftrightarrow> (\<exists>i m. phases s c = Reading i m)"
proof -
  have "numbered (phases s c) = Some n \<Longrightarrow> push_bit 1 n AND 1 = 0" for n
    using number_ok_slot(2) bakery_invD(1) [OF assms] by blast
  then show ?thesis
    by (cases "phases s c") (simp_all add: bakery_inv_slot [OF assms])
qed

lemma slot_number_le: "bakery_inv s \<Longrightarrow> drop_bit 1 (slots s c) \<le> max_number"
  by (subst slot_number) (auto simp: number_ok_def split: option.splits dest!: bakery_invD(1))

text \<open>A CPU changes only its own slot and phase, so the invariant is re-established for it alone.\<close>

definition claim_set :: "nat \<Rightarrow> phase \<Rightarrow> bakery \<Rightarrow> bakery" where
  "claim_set c p s = s\<lparr>slots := (slots s)(c := slot_of p), phases := (phases s)(c := p)\<rparr>"

lemma claim_set_sel [simp]:
  "slots (claim_set c p s) = (slots s)(c := slot_of p)"
  "phases (claim_set c p s) = (phases s)(c := p)"
  by (simp_all add: claim_set_def)

lemma bakery_inv_set:
  assumes inv: "bakery_inv s" and c: "c < CPU_COUNT"
    and num: "\<And>n. numbered p = Some n \<Longrightarrow> number_ok n"
    and reading: "\<And>i m. p = Reading i m \<Longrightarrow> m \<le> max_number \<and> i \<le> CPU_COUNT"
    and turn: "\<And>i n. p = WaitTurn i n \<Longrightarrow> i \<noteq> c"
    and clearer: "\<And>j n i m. j \<noteq> c \<Longrightarrow> numbered p = Some n \<Longrightarrow> cleared p j \<Longrightarrow>
      phases s j = Reading i m \<Longrightarrow> c < i \<Longrightarrow> n \<le> m"
    and reader: "\<And>d n i m. d \<noteq> c \<Longrightarrow> numbered (phases s d) = Some n \<Longrightarrow> cleared (phases s d) c \<Longrightarrow>
      p = Reading i m \<Longrightarrow> d < i \<Longrightarrow> n \<le> m"
    and passer: "\<And>j n n'. j \<noteq> c \<Longrightarrow> numbered p = Some n \<Longrightarrow> passed p j \<Longrightarrow>
      numbered (phases s j) = Some n' \<Longrightarrow> Ticket n c < Ticket n' j"
    and overtaken: "\<And>d n n'. d \<noteq> c \<Longrightarrow> numbered (phases s d) = Some n \<Longrightarrow> passed (phases s d) c \<Longrightarrow>
      numbered p = Some n' \<Longrightarrow> Ticket n d < Ticket n' c"
  shows "bakery_inv (claim_set c p s)"
  unfolding bakery_inv_def
proof (intro conjI)
  show "slots_shown (claim_set c p s)"
    using inv by (simp add: bakery_inv_def slots_shown_def)
  show "phases_ok (claim_set c p s)"
    using bakery_invD(1,2,4) [OF inv] c num reading turn
    by (auto simp: phases_ok_def dest: bakery_invD(3) [OF inv])
  show "counted (claim_set c p s)"
    unfolding counted_def
  proof (intro allI impI)
    fix d j n i m
    assume "d \<noteq> j" "numbered (phases (claim_set c p s) d) = Some n"
      "cleared (phases (claim_set c p s) d) j" "phases (claim_set c p s) j = Reading i m" "d < i"
    then show "n \<le> m"
      using clearer [of j n i m] reader [of d n i m] bakery_inv_counted [OF inv, of d j n i m]
      by (cases "d = c"; cases "j = c") auto
  qed
  show "ordered (claim_set c p s)"
    unfolding ordered_def
  proof (intro allI impI)
    fix d j n n'
    assume "d \<noteq> j" "numbered (phases (claim_set c p s) d) = Some n"
      "passed (phases (claim_set c p s) d) j" "numbered (phases (claim_set c p s) j) = Some n'"
    then show "Ticket n d < Ticket n' j"
      using passer [of j n n'] overtaken [of d n n'] bakery_inv_ordered [OF inv, of d j n n']
      by (cases "d = c"; cases "j = c") auto
  qed
qed

lemma claim_set_phase_only:
  assumes "bakery_inv s" and "slot_of p = slot_of (phases s c)"
  shows "s\<lparr>phases := (phases s)(c := p)\<rparr> = claim_set c p s"
proof -
  have "(slots s)(c := slot_of p) = slots s"
    using assms(2) bakery_inv_slot [OF assms(1)] by (simp add: fun_upd_idem)
  then show ?thesis by (simp add: claim_set_def)
qed

lemma passed_cleared: "passed p j \<Longrightarrow> cleared p j"
  by (cases p) auto

lemma claims_new_inv: "bakery_inv claims_new"
  by (simp add: bakery_inv_defs claims_new_def)

lemma claim_enter_inv: "bakery_inv s \<Longrightarrow> c < CPU_COUNT \<Longrightarrow> bakery_inv (claim_enter c s)"
proof -
  assume "bakery_inv s" "c < CPU_COUNT"
  then have "bakery_inv (claim_set c (Reading 0 0) s)"
    by (rule bakery_inv_set) simp_all
  then show ?thesis by (simp add: claim_set_def claim_enter_def)
qed

lemma claim_drop_inv: "bakery_inv s \<Longrightarrow> c < CPU_COUNT \<Longrightarrow> bakery_inv (claim_drop c s)"
proof -
  assume "bakery_inv s" "c < CPU_COUNT"
  then have "bakery_inv (claim_set c Idle s)"
    by (rule bakery_inv_set) simp_all
  then show ?thesis by (simp add: claim_set_def claim_drop_def)
qed

lemma claim_reading_inv:
  assumes inv: "bakery_inv s" and c: "c < CPU_COUNT" and r: "phases s c = Reading i m"
  shows "bakery_inv (claim_step c s)"
proof -
  let ?m = "max m (drop_bit 1 (slots s i))"
  note bound = bakery_invD(2) [OF inv r]
  consider "i < CPU_COUNT" | "i = CPU_COUNT" "m = max_number" | "i = CPU_COUNT" "m \<noteq> max_number"
    using bound by linarith
  then show ?thesis
  proof cases
    case 1
    have "bakery_inv (claim_set c (Reading (Suc i) ?m) s)"
    proof (rule bakery_inv_set [OF inv c])
      fix d n i' m'
      assume d: "d \<noteq> c" "numbered (phases s d) = Some n" "cleared (phases s d) c"
        and eq: "Reading (Suc i) ?m = Reading i' m'" and "d < i'"
      then consider "d = i" | "d < i" by fastforce
      then have "n \<le> ?m"
        using d slot_number [OF inv, of i] bakery_inv_counted [OF inv d r]
        by cases (auto simp: le_max_iff_disj)
      with eq show "n \<le> m'" by simp
    qed (use 1 bound slot_number_le [OF inv, of i] in auto)
    then show ?thesis
      using 1 r claim_set_phase_only [OF inv, of "Reading (Suc i) ?m" c]
      by (simp add: claim_step_def)
  next
    case 2
    have "bakery_inv (claim_set c Retry s)"
      by (rule bakery_inv_set [OF inv c]) simp_all
    then show ?thesis using 2 r by (simp add: claim_step_def claim_set_def)
  next
    case 3
    note succ = number_ok_Suc [OF conjunct1 [OF bound] 3(2)]
    have "bakery_inv (claim_set c (WaitChoosing 0 (m + 1)) s)"
    proof (rule bakery_inv_set [OF inv c])
      fix d n n'
      assume d: "d \<noteq> c" "numbered (phases s d) = Some n" "passed (phases s d) c"
        and n': "numbered (WaitChoosing 0 (m + 1)) = Some n'"
      have "d < CPU_COUNT" using d(2) bakery_invD(4) [OF inv, of d] by fastforce
      then have "n \<le> m"
        using bakery_inv_counted [OF inv d(1,2) passed_cleared [OF d(3)] r] 3(1) by simp
      also have "m < n'" using succ n' by simp
      finally show "Ticket n d < Ticket n' c" by (simp add: less_ticket_def)
    qed (use succ in auto)
    then show ?thesis using 3 r by (simp add: claim_step_def claim_set_def)
  qed
qed

lemma claim_waiting_inv:
  assumes inv: "bakery_inv s" and c: "c < CPU_COUNT"
    and w: "phases s c = WaitChoosing i n \<or> phases s c = WaitTurn i n"
  shows "bakery_inv (claim_step c s)"
proof -
  have n: "numbered (phases s c) = Some n" using w by auto
  have keep: "bakery_inv (s\<lparr>phases := (phases s)(c := p)\<rparr>)"
    if p: "numbered p = Some n" "slot_of p = slot_of (phases s c)"
      and turn: "\<And>i n. p = WaitTurn i n \<Longrightarrow> i \<noteq> c"
      and new: "\<And>j. j \<noteq> c \<Longrightarrow> cleared p j \<Longrightarrow>
        cleared (phases s c) j \<or> (\<forall>i m. phases s j \<noteq> Reading i m)"
      and newp: "\<And>j n'. j \<noteq> c \<Longrightarrow> passed p j \<Longrightarrow> numbered (phases s j) = Some n' \<Longrightarrow>
        passed (phases s c) j \<or> Ticket n c < Ticket n' j" for p
    unfolding claim_set_phase_only [OF inv p(2)]
  proof (rule bakery_inv_set [OF inv c])
    show "numbered p = Some k \<Longrightarrow> number_ok k" for k
      using p(1) n bakery_invD(1) [OF inv] by simp
    show "p = Reading i m \<Longrightarrow> m \<le> max_number \<and> i \<le> CPU_COUNT" for i m
      using p(1) by auto
    show "p = WaitTurn i n \<Longrightarrow> i \<noteq> c" for i n by (rule turn)
    show "k \<le> m" if "j \<noteq> c" "numbered p = Some k" "cleared p j"
      "phases s j = Reading i m" "c < i" for j k i m
      using that p(1) n new [of j] bakery_inv_counted [OF inv, of c j n i m] by auto
    show "k \<le> m" if "p = Reading i m" for k i m using that p(1) by auto
    show "Ticket k c < Ticket n' j" if "j \<noteq> c" "numbered p = Some k" "passed p j"
      "numbered (phases s j) = Some n'" for j k n'
      using that p(1) n newp [of j n'] bakery_inv_ordered [OF inv, of c j n n'] by auto
    show "Ticket k d < Ticket n' c" if "d \<noteq> c" "numbered (phases s d) = Some k"
      "passed (phases s d) c" "numbered p = Some n'" for d k n'
      using that p(1) n bakery_inv_ordered [OF inv, of d c k n'] by auto
  qed
  show ?thesis
  proof (cases "phases s c = WaitChoosing i n")
    case waiting: True
    consider "CPU_COUNT \<le> i" | "i < CPU_COUNT" "i = c"
      | "i < CPU_COUNT" "i \<noteq> c" "slots s i AND 1 \<noteq> 0"
      | "i < CPU_COUNT" "i \<noteq> c" "slots s i AND 1 = 0"
      by linarith
    then show ?thesis
    proof cases
      case 1
      have "cleared (phases s c) j \<or> phases s j = Idle" for j
        using 1 waiting bakery_invD(4) [OF inv, of j] by (cases "j < i") auto
      then have "bakery_inv (s\<lparr>phases := (phases s)(c := Held n)\<rparr>)"
        using waiting by (intro keep) fastforce+
      then show ?thesis using 1 waiting by (simp add: claim_step_def)
    next
      case 2
      have "bakery_inv (s\<lparr>phases := (phases s)(c := WaitChoosing (Suc i) n)\<rparr>)"
        using 2 waiting by (intro keep) auto
      then show ?thesis using 2 waiting by (simp add: claim_step_def)
    next
      case 3
      then show ?thesis using inv waiting by (simp add: claim_step_def)
    next
      case 4
      then have "\<forall>k m. phases s i \<noteq> Reading k m" using slot_choosing [OF inv, of i] by blast
      then have "bakery_inv (s\<lparr>phases := (phases s)(c := WaitTurn i n)\<rparr>)"
        using 4 waiting by (intro keep) (auto simp: le_less)
      then show ?thesis using 4 waiting by (simp add: claim_step_def)
    qed
  next
    case False
    with w have turn: "phases s c = WaitTurn i n" by simp
    let ?theirs = "drop_bit 1 (slots s i)"
    show ?thesis
    proof (cases "?theirs = 0 \<or> Ticket ?theirs i \<ge> Ticket n c")
      case True
      have less: "Ticket n c < Ticket n' i" if "numbered (phases s i) = Some n'" for n'
        using True that slot_number [OF inv, of i] bakery_invD(1) [OF inv that]
          bakery_invD(3) [OF inv turn] by (auto simp: number_ok_def order.strict_iff_order)
      have "bakery_inv (s\<lparr>phases := (phases s)(c := WaitChoosing (Suc i) n)\<rparr>)"
        using turn less by (intro keep) (auto simp: less_Suc_eq)
      then show ?thesis using True turn by (simp add: claim_step_def Let_def)
    next
      case False
      then show ?thesis using inv turn by (simp add: claim_step_def Let_def)
    qed
  qed
qed

lemma claim_step_inv:
  assumes "bakery_inv s" and "c < CPU_COUNT"
  shows "bakery_inv (claim_step c s)"
proof (cases "phases s c")
  case (Reading i m)
  with assms show ?thesis by (rule claim_reading_inv)
next
  case (WaitChoosing i n)
  with assms show ?thesis by (intro claim_waiting_inv) auto
next
  case (WaitTurn i n)
  with assms show ?thesis by (intro claim_waiting_inv) auto
qed (use assms in \<open>simp_all add: claim_step_def claim_enter_inv\<close>)

lemma claim_move_inv: "claim_move s t \<Longrightarrow> bakery_inv s \<Longrightarrow> bakery_inv t"
  by (induction rule: claim_move.induct)
     (auto intro: claim_enter_inv claim_step_inv claim_drop_inv)

lemma claim_reachable_inv: "claim_reachable s \<Longrightarrow> bakery_inv s"
  by (induction rule: claim_reachable.induct) (auto intro: claims_new_inv claim_move_inv)

text \<open>Two CPUs that both hold the claim would each have the smaller ticket.\<close>

lemma bakery_inv_exclusion:
  assumes inv: "bakery_inv s" and held: "holds_claim s c" "holds_claim s d"
  shows "c = d"
proof (rule ccontr)
  assume "c \<noteq> d"
  from held obtain n n' where "phases s c = Held n" "phases s d = Held n'"
    by (auto simp: holds_claim_def split: phase.splits)
  with \<open>c \<noteq> d\<close> have "Ticket n c < Ticket n' d" and "Ticket n' d < Ticket n c"
    using bakery_inv_ordered [OF inv, of c d] bakery_inv_ordered [OF inv, of d c] by auto
  then show False by simp
qed

section \<open>No deadlock\<close>

text \<open>
  If no CPU can move on inside \<open>enter\<close>, then nobody is choosing, every contender waits for some
  other CPU's turn, and the contender with the smallest ticket can pass: a contradiction.
\<close>

lemma claim_stuck_waits:
  assumes inv: "bakery_inv s" and c: "c < CPU_COUNT" and busy: "phases s c \<noteq> Idle"
    and free: "\<not> holds_claim s c" and stuck: "\<And>d. d < CPU_COUNT \<Longrightarrow> claim_step d s = s"
  obtains i n where "phases s c = WaitTurn i n"
proof -
  have reading: "\<not> (\<exists>i m. phases s d = Reading i m)" for d
  proof
    assume "\<exists>i m. phases s d = Reading i m"
    then obtain i m where r: "phases s d = Reading i m" by blast
    then have "d < CPU_COUNT" using bakery_invD(4) [OF inv, of d] by (cases "d < CPU_COUNT") auto
    then have "phases (claim_step d s) d = phases s d" by (simp only: stuck)
    then show False using r by (auto simp: claim_step_def split: if_splits)
  qed
  have "phases (claim_step c s) c = phases s c" using stuck [OF c] by simp
  then show thesis
  proof (cases "phases s c")
    case (WaitChoosing i n)
    have "slots s i AND 1 = 0" using slot_choosing [OF inv, of i] reading by blast
    with WaitChoosing \<open>phases (claim_step c s) c = phases s c\<close> show ?thesis
      by (auto simp: claim_step_def split: if_splits)
  next
    case (WaitTurn i n)
    then show ?thesis by (rule that)
  qed (use busy free reading in \<open>auto simp: claim_step_def claim_enter_def holds_claim_def\<close>)
qed

lemma bakery_inv_progress:
  assumes inv: "bakery_inv s" and c: "c < CPU_COUNT" "phases s c \<noteq> Idle"
    and free: "\<And>d. \<not> holds_claim s d"
  shows "\<exists>d < CPU_COUNT. claim_step d s \<noteq> s"
proof (rule ccontr)
  assume "\<not> ?thesis"
  then have stuck: "\<And>d. d < CPU_COUNT \<Longrightarrow> claim_step d s = s" by blast
  let ?S = "{d. d < CPU_COUNT \<and> phases s d \<noteq> Idle}"
  let ?t = "\<lambda>d. Ticket (drop_bit 1 (slots s d)) d"
  have "finite ?S" "?S \<noteq> {}" using c by auto
  define d where "d = arg_min_on ?t ?S"
  have d: "d \<in> ?S" and "\<not> (\<exists>e \<in> ?S. ?t e < ?t d)"
    unfolding d_def
    by (rule arg_min_if_finite [OF \<open>finite ?S\<close> \<open>?S \<noteq> {}\<close>])+
  then have least: "\<And>e. e \<in> ?S \<Longrightarrow> ?t d \<le> ?t e"
    by (meson not_less)
  obtain i n where w: "phases s d = WaitTurn i n"
    using claim_stuck_waits [OF inv _ _ free stuck] d by blast
  then have n: "drop_bit 1 (slots s d) = n" using slot_number [OF inv, of d] by simp
  have "drop_bit 1 (slots s i) = 0 \<or> ?t i \<ge> Ticket n d"
  proof (cases "i \<in> ?S")
    case True
    then show ?thesis using least n by simp
  next
    case False
    then have "phases s i = Idle" using bakery_invD(4) [OF inv, of i] by (cases "i < CPU_COUNT") auto
    then show ?thesis by (simp add: bakery_inv_slot [OF inv])
  qed
  then have "phases (claim_step d s) d = WaitChoosing (Suc i) n"
    using w by (simp add: claim_step_def Let_def)
  moreover have "claim_step d s = s" using stuck d by simp
  ultimately show False using w by simp
qed

section \<open>Properties\<close>

text \<open>CPU 0 entering an idle lock, for the examples.\<close>

definition claim_run :: "nat \<Rightarrow> bakery" where
  "claim_run n = (claim_step 0 ^^ n) (claim_enter 0 claims_new)"

lemma claim_run_rec:
  "claim_run 0 = claim_enter 0 claims_new"
  "claim_run (Suc n) = claim_step 0 (claim_run n)"
  "claim_run (numeral k) = claim_step 0 (claim_run (pred_numeral k))"
  by (simp_all add: claim_run_def numeral_eq_Suc)

lemma claim_run_reachable: "claim_reachable (claim_run n)"
proof (induction n)
  case 0
  show ?case
    by (rule reach_move [OF reach_new], simp add: claim_run_rec, rule move_enter)
       (simp_all add: claims_new_def)
next
  case (Suc n)
  then show ?case
    by (simp only: claim_run_rec) (rule reach_move [OF _ move_step], simp_all)
qed

text \<open>
  C4: However the loads and stores of the four CPUs interleave, no two of them hold the claim at once,
  ticket overflow included.
\<close>

theorem claim_mutual_exclusion:
  assumes "claim_reachable s" and "holds_claim s c" and "holds_claim s d"
  shows "c = d"
  by (rule bakery_inv_exclusion [OF claim_reachable_inv]) (fact assms)+

theorem claim_mutual_exclusion_witness:
  "holds_claim (claim_run 13) 0 \<and> \<not> holds_claim (claim_run 13) 1"
proof -
  have "holds_claim (claim_run 13) 0"
    by (simp add: claim_run_rec claim_step_def claim_enter_def claims_new_def holds_claim_def
        max_number_def)
  then show ?thesis
    using claim_mutual_exclusion [OF claim_run_reachable, of 13 0 1] by auto
qed

text \<open>
  C5: The lock does not deadlock: while some CPU is entering and nobody holds the claim, there is a CPU
  whose next access is not a failed spin.
\<close>

theorem claim_no_deadlock:
  assumes "claim_reachable s" and "c < CPU_COUNT" and "phases s c \<noteq> Idle"
    and "\<And>d. \<not> holds_claim s d"
  shows "\<exists>d < CPU_COUNT. claim_step d s \<noteq> s"
  by (rule bakery_inv_progress [OF claim_reachable_inv]) (fact assms)+

theorem claim_no_deadlock_witness: "\<exists>d < CPU_COUNT. claim_step d (claim_run 6) \<noteq> claim_run 6"
proof (rule claim_no_deadlock [OF claim_run_reachable, of 0])
  show "phases (claim_run 6) 0 \<noteq> Idle" and "\<not> holds_claim (claim_run 6) d" for d
    by (simp_all add: claim_run_rec claim_step_def claim_enter_def claims_new_def holds_claim_def
        max_number_def)
qed simp

end
