(* ===== verification/Psci.thy ===== *)
theory Psci
  imports Bakery
begin

text \<open>
  \<open>psci.rs\<close> and the PSCI handler of \<open>vm/vcpu.rs\<close>: power state of the four virtual CPUs.  The first
  part translates each operation as it runs undisturbed.  The second part splits \<open>request\<close> and
  \<open>take_launch\<close> into their single shared-memory accesses, so that the four CPUs interleave freely
  around the Bakery lock, and proves what every interleaving keeps.  The firmware's answer to a
  physical \<open>CPU_ON\<close> is a parameter of the step that makes the call.
\<close>


section \<open>Constants and data\<close>

definition CPU_OFF :: u32 where [simp]: "CPU_OFF = 0x84000002"
definition CPU_ON32 :: u32 where [simp]: "CPU_ON32 = 0x84000003"
definition CPU_ON64 :: u32 where [simp]: "CPU_ON64 = 0xc4000003"
definition AFFINITY32 :: u32 where [simp]: "AFFINITY32 = 0x84000004"
definition AFFINITY64 :: u32 where [simp]: "AFFINITY64 = 0xc4000004"
definition FEATURES :: u32 where [simp]: "FEATURES = 0x8400000a"

text \<open>Status codes are \<open>i64\<close>; they are kept as the 64-bit words that end in the guest's \<open>x0\<close>.\<close>

definition NOT_SUPPORTED :: u64 where [simp]: "NOT_SUPPORTED = - 1"
definition INVALID_PARAMS :: u64 where [simp]: "INVALID_PARAMS = - 2"
definition ALREADY_ON :: u64 where [simp]: "ALREADY_ON = - 4"
definition ON_PENDING :: u64 where [simp]: "ON_PENDING = - 5"

definition ST_ON :: u8 where [simp]: "ST_ON = 0"
definition ST_OFF :: u8 where [simp]: "ST_OFF = 1"
definition ST_PENDING :: u8 where [simp]: "ST_PENDING = 2"
definition ST_CLAIMED :: u8 where [simp]: "ST_CLAIMED = 3"

record launch =
  la_entry :: u64
  la_context :: u64

record cpu =
  cpu_state :: u8
  physical_started :: bool
  cpu_entry :: u64
  cpu_context :: u64

definition cpu_new :: "bool \<Rightarrow> cpu" where
  "cpu_new boot_cpu =
     \<lparr>cpu_state = (if boot_cpu then ST_ON else ST_OFF), physical_started = boot_cpu,
      cpu_entry = 0, cpu_context = 0\<rparr>"

text \<open>The four \<open>Cpu\<close>s of a \<open>Machine\<close>, indexed by CPU number.\<close>

type_synonym cpus = "nat \<Rightarrow> cpu"

definition machine_new :: cpus where
  "machine_new = (\<lambda>c. cpu_new (c = 0))"


section \<open>Operations that run undisturbed\<close>

definition online_mask :: "cpus \<Rightarrow> u8" where
  "online_mask cs =
     foldl (\<lambda>mask index. mask OR push_bit index (if cpu_state (cs index) = ST_ON then 1 else 0)) 0
       [0..<CPU_COUNT]"

definition affinity :: "cpus \<Rightarrow> nat \<Rightarrow> u64" where
  "affinity cs target =
     (if target \<ge> CPU_COUNT then INVALID_PARAMS
      else let state = cpu_state (cs target)
           in ucast (if state = ST_CLAIMED then ST_PENDING else state))"

definition cpu_id :: "u64 \<Rightarrow> nat option" where
  "cpu_id target = (if target < of_nat CPU_COUNT then Some (unat target) else None)"

definition guest_entry :: "u64 \<Rightarrow> bool" where
  "guest_entry entry \<longleftrightarrow>
     entry \<ge> RAM_BASE \<and> entry mod 4 = 0 \<and> entry < IPA_LIMIT \<and> \<not> resident entry"

text \<open>\<open>request\<close>, with the firmware's answer should the target have to be started physically.\<close>

definition request :: "nat \<Rightarrow> launch \<Rightarrow> u64 \<Rightarrow> cpus \<Rightarrow> u64 \<times> cpus" where
  "request target launch firmware cs =
     (if target \<ge> CPU_COUNT then (INVALID_PARAMS, cs)
      else if \<not> guest_entry (la_entry launch) then (INVALID_PARAMS, cs)
      else let cpu = cs target in
        if cpu_state cpu = ST_ON then (ALREADY_ON, cs)
        else if cpu_state cpu \<noteq> ST_OFF then (ON_PENDING, cs)
        else
          let cpu = cpu\<lparr>cpu_state := ST_CLAIMED, cpu_entry := la_entry launch,
                        cpu_context := la_context launch\<rparr> in
          if \<not> physical_started cpu \<and> firmware \<noteq> 0
          then (firmware, cs(target := cpu\<lparr>cpu_state := ST_OFF\<rparr>))
          else (0, cs(target := cpu\<lparr>physical_started := True, cpu_state := ST_PENDING\<rparr>)))"

definition take_launch :: "nat \<Rightarrow> cpus \<Rightarrow> launch option \<times> cpus" where
  "take_launch caller cs =
     (let cpu = cs caller in
      if cpu_state cpu \<noteq> ST_PENDING then (None, cs)
      else (Some \<lparr>la_entry = cpu_entry cpu, la_context = cpu_context cpu\<rparr>,
            cs(caller := cpu\<lparr>cpu_state := ST_ON\<rparr>)))"

definition power_off :: "nat \<Rightarrow> cpus \<Rightarrow> cpus" where
  "power_off caller cs = cs(caller := (cs caller)\<lparr>cpu_state := ST_OFF\<rparr>)"

definition suspend :: "u32 \<Rightarrow> bool" where
  "suspend function \<longleftrightarrow> function \<in> {0x84000001, 0xc4000001, 0x8400000e, 0xc400000e}"

definition feature :: "u32 \<Rightarrow> u64 option" where
  "feature function =
     (if suspend function then Some NOT_SUPPORTED
      else if function \<in> {CPU_ON32, CPU_ON64, CPU_OFF, AFFINITY32, AFFINITY64} then Some 0
      else None)"

text \<open>
  \<open>vcpu::handle\<close>: what an SMC of the guest comes to.  \<open>Forward\<close> is the \<open>false\<close> the handler returns
  for a call the native firmware keeps; \<open>PowerOff\<close> is the branch that does not return to the guest.
\<close>

datatype outcome = Forward | Return "u64 list" | PowerOff

definition handle_smc :: "nat \<Rightarrow> u64 \<Rightarrow> u64 list \<Rightarrow> cpus \<Rightarrow> outcome \<times> cpus" where
  "handle_smc caller firmware registers cs =
     (let function = (ucast (registers ! 0) :: u32);
          argument = (\<lambda>narrow i. if function = narrow then ucast (ucast (registers ! i) :: u32)
                                  else registers ! i)
      in if function = CPU_ON32 \<or> function = CPU_ON64 then
           (case cpu_id (argument CPU_ON32 1) of
              None \<Rightarrow> (Return (registers[0 := INVALID_PARAMS]), cs)
            | Some target \<Rightarrow>
                (case request target
                        \<lparr>la_entry = argument CPU_ON32 2, la_context = argument CPU_ON32 3\<rparr>
                        firmware cs of
                   (status, cs') \<Rightarrow> (Return (registers[0 := status]), cs')))
         else if function = CPU_OFF then (PowerOff, power_off caller cs)
         else if function = AFFINITY32 \<or> function = AFFINITY64 then
           (let status =
              (if argument AFFINITY32 2 \<noteq> 0 then INVALID_PARAMS
               else case cpu_id (argument AFFINITY32 1) of
                      None \<Rightarrow> INVALID_PARAMS | Some target \<Rightarrow> affinity cs target)
            in (Return (registers[0 := status]), cs))
         else if function = FEATURES then
           (case feature (ucast (registers ! 1)) of
              None \<Rightarrow> (Forward, cs) | Some status \<Rightarrow> (Return (registers[0 := status]), cs))
         else if suspend function then (Return (registers[0 := NOT_SUPPORTED]), cs)
         else (Forward, cs))"

lemma cpu_id_Some_iff: "cpu_id w = Some t \<longleftrightarrow> unat w = t \<and> t < CPU_COUNT"
  by (auto simp: cpu_id_def word_less_nat_alt)

lemma guest_entry_iff:
  "guest_entry e \<longleftrightarrow>
     2 ^ 31 \<le> unat e \<and> unat e < 2 ^ 36 \<and> unat e mod 4 = 0
     \<and> \<not> (0xfec00000 \<le> unat e \<and> unat e < 0xffc00000)"
proof -
  have "e mod 4 = 0 \<longleftrightarrow> unat (e mod 4) = 0" by (simp add: unat_eq_zero)
  then show ?thesis
    by (auto simp: guest_entry_def resident_iff word_le_nat_alt word_less_nat_alt unat_mod_distrib)
qed

section \<open>Operations that interleave\<close>

text \<open>
  Where a CPU is.  \<open>Dormant\<close>: firmware has not started it.  \<open>Dispatch\<close> to \<open>TakeOn\<close>: the loop of
  \<open>rust_cpu_dispatch\<close>, before each access of \<open>take_launch\<close>.  \<open>Guest\<close>: running guest code.  The others
  are the accesses of \<open>request\<close> in source order: inside \<open>enter\<close>, the load of the target's state, the
  store of \<open>CLAIMED\<close>, the drop of the claim (with the status to return, or the launch to go on with),
  the stores of entry and context, the load of \<open>physical_started\<close>, the firmware call, and the final
  stores.
\<close>

datatype task =
    Dormant
  | Dispatch
  | TakeEntry
  | TakeContext u64
  | TakeOn launch
  | Guest
  | Lock nat launch
  | Inspect nat launch
  | ClaimTarget nat launch
  | Release "u64 + nat \<times> launch"
  | StoreEntry nat launch
  | StoreContext nat launch
  | CheckStarted nat launch
  | Boot nat launch
  | BootFailed nat u64
  | MarkStarted nat launch
  | MakePending nat launch

text \<open>
  What happens to one CPU, for the specification: it is claimed for a launch, started by firmware or
  refused, enters the guest with a launch, and stops.
\<close>

datatype life_event =
    Claimed launch
  | Started
  | Refused
  | Entered launch
  | Stopped

record psci_system =
  mach_cpus :: cpus
  mach_claims :: bakery
  tasks :: "nat \<Rightarrow> task"
  answers :: "nat \<Rightarrow> u64"
  history :: "nat \<Rightarrow> life_event list"

definition psci_boot :: psci_system where
  "psci_boot =
     \<lparr>mach_cpus = machine_new, mach_claims = claims_new,
      tasks = (\<lambda>c. if c = 0 then Guest else Dormant), answers = (\<lambda>_. 0), history = (\<lambda>_. [])\<rparr>"

definition set_task :: "nat \<Rightarrow> task \<Rightarrow> psci_system \<Rightarrow> psci_system" where
  "set_task c k s = s\<lparr>tasks := (tasks s)(c := k)\<rparr>"

definition set_cpu :: "nat \<Rightarrow> cpu \<Rightarrow> psci_system \<Rightarrow> psci_system" where
  "set_cpu t cpu s = s\<lparr>mach_cpus := (mach_cpus s)(t := cpu)\<rparr>"

definition record_event :: "nat \<Rightarrow> life_event \<Rightarrow> psci_system \<Rightarrow> psci_system" where
  "record_event t e s = s\<lparr>history := (history s)(t := e # history s t)\<rparr>"

text \<open>\<open>request\<close> returns to the guest with a status.\<close>

definition answer :: "nat \<Rightarrow> u64 \<Rightarrow> psci_system \<Rightarrow> psci_system" where
  "answer c status s = (set_task c Guest s)\<lparr>answers := (answers s)(c := status)\<rparr>"

text \<open>A guest on CPU \<open>c\<close> calls \<open>CPU_ON\<close>, or \<open>CPU_OFF\<close>, which stores \<open>OFF\<close> and re-enters the dispatch loop.\<close>

definition guest_cpu_on :: "nat \<Rightarrow> nat \<Rightarrow> launch \<Rightarrow> psci_system \<Rightarrow> psci_system" where
  "guest_cpu_on c t l s =
     (if t \<ge> CPU_COUNT \<or> \<not> guest_entry (la_entry l) then answer c INVALID_PARAMS s
      else set_task c (Lock t l) (s\<lparr>mach_claims := claim_enter c (mach_claims s)\<rparr>))"

definition guest_cpu_off :: "nat \<Rightarrow> psci_system \<Rightarrow> psci_system" where
  "guest_cpu_off c s =
     set_task c Dispatch
       (record_event c Stopped (s\<lparr>mach_cpus := power_off c (mach_cpus s)\<rparr>))"

text \<open>The next access of CPU \<open>c\<close>; \<open>firmware\<close> is the status of the SMC, should this be the firmware call.\<close>

definition psci_step :: "nat \<Rightarrow> u64 \<Rightarrow> psci_system \<Rightarrow> psci_system" where
  "psci_step c firmware s =
     (let own = mach_cpus s c in
      case tasks s c of
        Dormant \<Rightarrow> s
      | Dispatch \<Rightarrow> if cpu_state own \<noteq> ST_PENDING then s else set_task c TakeEntry s
      | TakeEntry \<Rightarrow> set_task c (TakeContext (cpu_entry own)) s
      | TakeContext entry \<Rightarrow>
          set_task c (TakeOn \<lparr>la_entry = entry, la_context = cpu_context own\<rparr>) s
      | TakeOn l \<Rightarrow>
          set_task c Guest (record_event c (Entered l) (set_cpu c (own\<lparr>cpu_state := ST_ON\<rparr>) s))
      | Guest \<Rightarrow> s
      | Lock t l \<Rightarrow>
          let claims = claim_step c (mach_claims s);
              s = s\<lparr>mach_claims := claims\<rparr>
          in if holds_claim claims c then set_task c (Inspect t l) s else s
      | Inspect t l \<Rightarrow>
          let state = cpu_state (mach_cpus s t) in
          if state = ST_OFF then set_task c (ClaimTarget t l) s
          else if state = ST_ON then set_task c (Release (Inl ALREADY_ON)) s
          else set_task c (Release (Inl ON_PENDING)) s
      | ClaimTarget t l \<Rightarrow>
          set_task c (Release (Inr (t, l)))
            (record_event t (Claimed l)
              (set_cpu t ((mach_cpus s t)\<lparr>cpu_state := ST_CLAIMED\<rparr>) s))
      | Release result \<Rightarrow>
          let s = s\<lparr>mach_claims := claim_drop c (mach_claims s)\<rparr> in
          (case result of Inl status \<Rightarrow> answer c status s
           | Inr (t, l) \<Rightarrow> set_task c (StoreEntry t l) s)
      | StoreEntry t l \<Rightarrow>
          set_task c (StoreContext t l)
            (set_cpu t ((mach_cpus s t)\<lparr>cpu_entry := la_entry l\<rparr>) s)
      | StoreContext t l \<Rightarrow>
          set_task c (CheckStarted t l)
            (set_cpu t ((mach_cpus s t)\<lparr>cpu_context := la_context l\<rparr>) s)
      | CheckStarted t l \<Rightarrow>
          if physical_started (mach_cpus s t) then set_task c (MakePending t l) s
          else set_task c (Boot t l) s
      | Boot t l \<Rightarrow>
          if firmware \<noteq> 0 then set_task c (BootFailed t firmware) s
          else set_task c (MarkStarted t l) (set_task t Dispatch (record_event t Started s))
      | BootFailed t status \<Rightarrow>
          answer c status
            (record_event t Refused (set_cpu t ((mach_cpus s t)\<lparr>cpu_state := ST_OFF\<rparr>) s))
      | MarkStarted t l \<Rightarrow>
          set_task c (MakePending t l)
            (set_cpu t ((mach_cpus s t)\<lparr>physical_started := True\<rparr>) s)
      | MakePending t l \<Rightarrow>
          answer c 0 (set_cpu t ((mach_cpus s t)\<lparr>cpu_state := ST_PENDING\<rparr>) s))"

text \<open>All interleavings.\<close>

inductive psci_move :: "psci_system \<Rightarrow> psci_system \<Rightarrow> bool" where
  psci_on: "c < CPU_COUNT \<Longrightarrow> tasks s c = Guest \<Longrightarrow> psci_move s (guest_cpu_on c t l s)"
| psci_off: "c < CPU_COUNT \<Longrightarrow> tasks s c = Guest \<Longrightarrow> psci_move s (guest_cpu_off c s)"
| psci_access: "c < CPU_COUNT \<Longrightarrow> psci_move s (psci_step c firmware s)"

inductive psci_reachable :: "psci_system \<Rightarrow> bool" where
  psci_start: "psci_reachable psci_boot"
| psci_more: "psci_reachable s \<Longrightarrow> psci_move s t \<Longrightarrow> psci_reachable t"

section \<open>Life of one CPU\<close>

text \<open>
  The abstract machine a CPU's history has to follow, with the flag that firmware has started it: a
  claim passes exactly one launch to exactly one entry, firmware is asked only while the CPU has never
  been started, and is not asked again once it has accepted.
\<close>

datatype life = LOff | LClaimed launch | LOn

fun life_step :: "bool \<times> life \<Rightarrow> life_event \<Rightarrow> (bool \<times> life) option" where
  "life_step (b, LOff) (Claimed l) = Some (b, LClaimed l)"
| "life_step (False, LClaimed l) Started = Some (True, LClaimed l)"
| "life_step (False, LClaimed l) Refused = Some (False, LOff)"
| "life_step (True, LClaimed l) (Entered l') = (if l' = l then Some (True, LOn) else None)"
| "life_step (True, LOn) Stopped = Some (True, LOff)"
| "life_step _ _ = None"

fun lifecycle :: "nat \<Rightarrow> life_event list \<Rightarrow> (bool \<times> life) option" where
  "lifecycle t [] = Some (if t = 0 then (True, LOn) else (False, LOff))"
| "lifecycle t (e # h) =
     (case lifecycle t h of None \<Rightarrow> None | Some p \<Rightarrow> life_step p e)"

text \<open>
  The invariant.  \<open>cpu_ok\<close> relates a CPU's shared fields to its life, \<open>task_ok\<close> what a CPU is doing to
  the fields it relies on.
\<close>

type_synonym lives = "nat \<Rightarrow> bool \<times> life"

definition cpu_ok :: "cpus \<Rightarrow> lives \<Rightarrow> nat \<Rightarrow> bool" where
  "cpu_ok cs lf t \<longleftrightarrow>
     (let cpu = cs t in
       (case snd (lf t) of
          LOff \<Rightarrow> cpu_state cpu = ST_OFF
        | LOn \<Rightarrow> cpu_state cpu = ST_ON \<and> fst (lf t)
        | LClaimed l \<Rightarrow> guest_entry (la_entry l)
            \<and> (cpu_state cpu = ST_CLAIMED
               \<or> cpu_state cpu = ST_PENDING \<and> fst (lf t)
                 \<and> cpu_entry cpu = la_entry l \<and> cpu_context cpu = la_context l))
       \<and> (cpu_state cpu \<noteq> ST_CLAIMED \<longrightarrow> physical_started cpu = fst (lf t)))"

definition running :: "cpus \<Rightarrow> nat \<Rightarrow> bool" where
  "running cs c \<longleftrightarrow> cpu_state (cs c) = ST_ON"

definition owned :: "cpus \<Rightarrow> lives \<Rightarrow> nat \<Rightarrow> nat \<Rightarrow> launch \<Rightarrow> bool" where
  "owned cs lf c t l \<longleftrightarrow>
     running cs c \<and> t < CPU_COUNT \<and> cpu_state (cs t) = ST_CLAIMED \<and> snd (lf t) = LClaimed l"

fun task_ok :: "cpus \<Rightarrow> lives \<Rightarrow> nat \<Rightarrow> task \<Rightarrow> bool" where
  "task_ok cs lf c Dormant \<longleftrightarrow> \<not> fst (lf c) \<and> \<not> running cs c"
| "task_ok cs lf c Dispatch \<longleftrightarrow> fst (lf c) \<and> \<not> running cs c"
| "task_ok cs lf c TakeEntry \<longleftrightarrow> fst (lf c) \<and> cpu_state (cs c) = ST_PENDING"
| "task_ok cs lf c (TakeContext e) \<longleftrightarrow>
     fst (lf c) \<and> cpu_state (cs c) = ST_PENDING \<and> e = cpu_entry (cs c)"
| "task_ok cs lf c (TakeOn l) \<longleftrightarrow>
     fst (lf c) \<and> cpu_state (cs c) = ST_PENDING
     \<and> la_entry l = cpu_entry (cs c) \<and> la_context l = cpu_context (cs c)"
| "task_ok cs lf c Guest \<longleftrightarrow> running cs c"
| "task_ok cs lf c (Lock t l) \<longleftrightarrow> running cs c \<and> t < CPU_COUNT \<and> guest_entry (la_entry l)"
| "task_ok cs lf c (Inspect t l) \<longleftrightarrow> running cs c \<and> t < CPU_COUNT \<and> guest_entry (la_entry l)"
| "task_ok cs lf c (ClaimTarget t l) \<longleftrightarrow>
     running cs c \<and> t < CPU_COUNT \<and> guest_entry (la_entry l) \<and> cpu_state (cs t) = ST_OFF"
| "task_ok cs lf c (Release r) \<longleftrightarrow>
     (case r of Inl status \<Rightarrow> running cs c
      | Inr (t, l) \<Rightarrow> owned cs lf c t l \<and> physical_started (cs t) = fst (lf t))"
| "task_ok cs lf c (StoreEntry t l) \<longleftrightarrow> owned cs lf c t l \<and> physical_started (cs t) = fst (lf t)"
| "task_ok cs lf c (StoreContext t l) \<longleftrightarrow>
     owned cs lf c t l \<and> physical_started (cs t) = fst (lf t) \<and> cpu_entry (cs t) = la_entry l"
| "task_ok cs lf c (CheckStarted t l) \<longleftrightarrow>
     owned cs lf c t l \<and> physical_started (cs t) = fst (lf t)
     \<and> cpu_entry (cs t) = la_entry l \<and> cpu_context (cs t) = la_context l"
| "task_ok cs lf c (Boot t l) \<longleftrightarrow>
     owned cs lf c t l \<and> \<not> physical_started (cs t) \<and> \<not> fst (lf t)
     \<and> cpu_entry (cs t) = la_entry l \<and> cpu_context (cs t) = la_context l"
| "task_ok cs lf c (BootFailed t status) \<longleftrightarrow>
     (\<exists>l. owned cs lf c t l) \<and> \<not> physical_started (cs t) \<and> \<not> fst (lf t)"
| "task_ok cs lf c (MarkStarted t l) \<longleftrightarrow>
     owned cs lf c t l \<and> fst (lf t)
     \<and> cpu_entry (cs t) = la_entry l \<and> cpu_context (cs t) = la_context l"
| "task_ok cs lf c (MakePending t l) \<longleftrightarrow>
     owned cs lf c t l \<and> physical_started (cs t) \<and> fst (lf t)
     \<and> cpu_entry (cs t) = la_entry l \<and> cpu_context (cs t) = la_context l"

text \<open>The CPU whose power-up a task carries on, and the tasks that run under the Bakery claim.\<close>

fun owns :: "task \<Rightarrow> nat option" where
  "owns (Release (Inr (t, l))) = Some t"
| "owns (StoreEntry t l) = Some t"
| "owns (StoreContext t l) = Some t"
| "owns (CheckStarted t l) = Some t"
| "owns (Boot t l) = Some t"
| "owns (BootFailed t status) = Some t"
| "owns (MarkStarted t l) = Some t"
| "owns (MakePending t l) = Some t"
| "owns _ = None"

fun locked :: "task \<Rightarrow> bool" where
  "locked (Inspect t l) = True"
| "locked (ClaimTarget t l) = True"
| "locked (Release r) = True"
| "locked _ = False"

definition psci_good :: "psci_system \<Rightarrow> lives \<Rightarrow> bool" where
  "psci_good s lf \<longleftrightarrow> bakery_inv (mach_claims s)
     \<and> (\<forall>c. locked (tasks s c) \<longrightarrow> holds_claim (mach_claims s) c)
     \<and> (\<forall>c d t. owns (tasks s c) = Some t \<longrightarrow> owns (tasks s d) = Some t \<longrightarrow> c = d)
     \<and> (\<forall>c. CPU_COUNT \<le> c \<longrightarrow> tasks s c = Dormant)
     \<and> (\<forall>t. lifecycle t (history s t) = Some (lf t))
     \<and> (\<forall>t. cpu_ok (mach_cpus s) lf t)
     \<and> (\<forall>c. task_ok (mach_cpus s) lf c (tasks s c))"

definition psci_inv :: "psci_system \<Rightarrow> bool" where
  "psci_inv s \<longleftrightarrow> (\<exists>lf. psci_good s lf)"

lemma psci_goodD:
  assumes "psci_good s lf"
  shows "bakery_inv (mach_claims s)"
    and "locked (tasks s c) \<Longrightarrow> holds_claim (mach_claims s) c"
    and "owns (tasks s c) = Some t \<Longrightarrow> owns (tasks s d) = Some t \<Longrightarrow> c = d"
    and "CPU_COUNT \<le> c \<Longrightarrow> tasks s c = Dormant"
    and "lifecycle t (history s t) = Some (lf t)"
    and "cpu_ok (mach_cpus s) lf t"
    and "task_ok (mach_cpus s) lf c (tasks s c)"
  using assms unfolding psci_good_def by blast+

text \<open>A CPU that owns a target finds it claimed; two CPUs never run under the claim at once.\<close>

lemma owns_claimed:
  "task_ok cs lf c k \<Longrightarrow> owns k = Some t \<Longrightarrow>
     cpu_state (cs t) = ST_CLAIMED \<and> t < CPU_COUNT \<and> running cs c \<and> (\<exists>l. snd (lf t) = LClaimed l)"
  by (induction k rule: owns.induct) (auto simp: owned_def)

lemma psci_good_lock:
  assumes good: "psci_good s lf" and "locked (tasks s c)" "locked (tasks s d)"
  shows "c = d"
  using psci_goodD(2) [OF good assms(2)] psci_goodD(2) [OF good assms(3)]
  by (rule bakery_inv_exclusion [OF psci_goodD(1) [OF good]])

lemma claim_others:
  "d \<noteq> c \<Longrightarrow> holds_claim (claim_enter c b) d = holds_claim b d"
  "d \<noteq> c \<Longrightarrow> holds_claim (claim_step c b) d = holds_claim b d"
  "d \<noteq> c \<Longrightarrow> holds_claim (claim_drop c b) d = holds_claim b d"
  by (auto simp: holds_claim_def claim_enter_def claim_step_def claim_drop_def Let_def
      split: phase.splits)

text \<open>
  One step of CPU \<open>c\<close> changes its own task, and the shared fields and life of at most one CPU, in a way
  that does not disturb the others.
\<close>

lemma psci_good_step:
  assumes good: "psci_good s lf"
    and claims: "bakery_inv (mach_claims s')"
      "\<And>d. d \<noteq> c \<Longrightarrow> holds_claim (mach_claims s') d = holds_claim (mach_claims s) d"
    and lock: "locked (tasks s' c) \<Longrightarrow> holds_claim (mach_claims s') c"
    and own: "\<And>t d. owns (tasks s' c) = Some t \<Longrightarrow> d \<noteq> c \<Longrightarrow> owns (tasks s d) \<noteq> Some t"
    and idle: "\<And>d. CPU_COUNT \<le> d \<Longrightarrow> tasks s' d = Dormant"
    and tasks: "\<And>d. d \<noteq> c \<Longrightarrow> owns (tasks s' d) = owns (tasks s d) \<and> (locked (tasks s' d) \<longrightarrow> locked (tasks s d))"
    and life: "\<And>t. lifecycle t (history s' t) = Some (lf' t)"
    and cpus: "\<And>t. cpu_ok (mach_cpus s') lf' t"
    and ok: "task_ok (mach_cpus s') lf' c (tasks s' c)"
      "\<And>d. d \<noteq> c \<Longrightarrow> task_ok (mach_cpus s') lf' d (tasks s' d)"
  shows "psci_good s' lf'"
  unfolding psci_good_def
proof (intro conjI allI impI)
  show "locked (tasks s' d) \<Longrightarrow> holds_claim (mach_claims s') d" for d
    using lock claims(2) tasks psci_goodD(2) [OF good] by (cases "d = c") auto
  show "owns (tasks s' a) = Some t \<Longrightarrow> owns (tasks s' b) = Some t \<Longrightarrow> a = b" for a b t
    using own [of t] tasks psci_goodD(3) [OF good, of a t b]
    by (cases "a = c"; cases "b = c") auto
  show "task_ok (mach_cpus s') lf' d (tasks s' d)" for d
    using ok by (cases "d = c") auto
qed (use claims(1) idle life cpus in auto)

text \<open>The shared fields untouched.\<close>

lemma psci_good_task:
  assumes good: "psci_good s lf" and c: "c < CPU_COUNT"
    and same: "mach_cpus s' = mach_cpus s" "history s' = history s" "tasks s' = (tasks s)(c := k)"
    and claims: "bakery_inv (mach_claims s')"
      "\<And>d. d \<noteq> c \<Longrightarrow> holds_claim (mach_claims s') d = holds_claim (mach_claims s) d"
    and lock: "locked k \<Longrightarrow> holds_claim (mach_claims s') c"
    and own: "owns k = None \<or> owns k = owns (tasks s c)"
    and ok: "task_ok (mach_cpus s) lf c k"
  shows "psci_good s' lf"
proof (rule psci_good_step [OF good claims, where c = c])
  show "owns (tasks s' c) = Some t \<Longrightarrow> d \<noteq> c \<Longrightarrow> owns (tasks s d) \<noteq> Some t" for t d
    using own same(3) psci_goodD(3) [OF good, of c t d] by auto
qed (use same lock ok c psci_goodD(4-7) [OF good] in auto)

lemma cpu_ok_cong: "cs t = cs' t \<Longrightarrow> lf t = lf' t \<Longrightarrow> cpu_ok cs lf t = cpu_ok cs' lf' t"
  by (simp add: cpu_ok_def cong: life.case_cong)

text \<open>The claim untouched, and the fields of CPU \<open>t\<close> changed by CPU \<open>c\<close>.\<close>

lemma psci_good_cpu:
  assumes good: "psci_good s lf" and c: "c < CPU_COUNT"
    and same: "mach_claims s' = mach_claims s" "tasks s' = (tasks s)(c := k)"
      "mach_cpus s' = (mach_cpus s)(t := cpu)" "\<And>d. d \<noteq> t \<Longrightarrow> history s' d = history s d"
    and lock: "locked k \<Longrightarrow> locked (tasks s c)"
    and own: "owns k = None \<or> owns k = owns (tasks s c)
      \<or> owns k = Some t \<and> cpu_state (mach_cpus s t) \<noteq> ST_CLAIMED"
    and life: "lifecycle t (history s' t) = Some p"
    and cpu: "cpu_ok (mach_cpus s') (lf(t := p)) t"
    and ok: "task_ok (mach_cpus s') (lf(t := p)) c k"
      "\<And>d. d \<noteq> c \<Longrightarrow> task_ok (mach_cpus s') (lf(t := p)) d (tasks s d)"
  shows "psci_good s' (lf(t := p))"
proof (rule psci_good_step [OF good, where c = c])
  show "owns (tasks s d) \<noteq> Some t'" if "owns (tasks s' c) = Some t'" "d \<noteq> c" for t' d
  proof
    assume d: "owns (tasks s d) = Some t'"
    then have "cpu_state (mach_cpus s t') = ST_CLAIMED"
      using owns_claimed psci_goodD(7) [OF good] by blast
    with d show False
      using own same(2) that psci_goodD(3) [OF good, of c t' d] by auto
  qed
  show "cpu_ok (mach_cpus s') (lf(t := p)) u" for u
    using cpu psci_goodD(6) [OF good, of u] same(3)
      cpu_ok_cong [of "mach_cpus s'" u "mach_cpus s" "lf(t := p)" lf]
    by (cases "u = t") simp_all
  show "lifecycle u (history s' u) = Some ((lf(t := p)) u)" for u
    using life same(4) psci_goodD(5) [OF good] by auto
qed (use same lock ok c psci_goodD(1,2,4) [OF good] in auto)

text \<open>Who is disturbed by a change to CPU \<open>t\<close>: its owner, a CPU about to claim it, and itself.\<close>

lemma task_ok_frame:
  assumes "task_ok cs lf d k" and "d \<noteq> t" and "owns k \<noteq> Some t" and "\<And>l. k \<noteq> ClaimTarget t l"
  shows "task_ok (cs(t := cpu)) (lf(t := p)) d k"
  using assms
  by (induction k rule: owns.induct) (auto simp: owned_def running_def split: sum.splits)

lemma quiet_cpu:
  assumes "task_ok cs lf t k" and "cpu_state (cs t) = ST_OFF \<or> cpu_state (cs t) = ST_CLAIMED"
  shows "k = Dormant \<or> k = Dispatch"
  using assms
  by (induction k rule: owns.induct) (auto simp: owned_def running_def split: sum.splits)

lemma owner_others:
  assumes good: "psci_good s lf" and own: "owns (tasks s c) = Some t" and d: "d \<noteq> c"
    and new: "cpu_state cpu \<noteq> ST_ON" "fst p = fst (lf t)"
  shows "task_ok ((mach_cpus s)(t := cpu)) (lf(t := p)) d (tasks s d)"
proof -
  have claimed: "cpu_state (mach_cpus s t) = ST_CLAIMED"
    using owns_claimed [OF psci_goodD(7) [OF good] own] by simp
  note ok = psci_goodD(7) [OF good, of d]
  show ?thesis
  proof (cases "d = t")
    case True
    then show ?thesis
      using quiet_cpu [of "mach_cpus s" lf t "tasks s t"] ok claimed new by (auto simp: running_def)
  next
    case False
    show ?thesis
      using ok False claimed own d psci_goodD(3) [OF good, of c t d]
      by (intro task_ok_frame) auto
  qed
qed

lemma self_others:
  assumes good: "psci_good s lf" and d: "d \<noteq> c"
    and state: "cpu_state (mach_cpus s c) = ST_ON \<or> cpu_state (mach_cpus s c) = ST_PENDING"
  shows "task_ok ((mach_cpus s)(c := cpu)) (lf(c := p)) d (tasks s d)"
  using psci_goodD(7) [OF good, of d] state d owns_claimed [OF psci_goodD(7) [OF good, of d]]
  by (intro task_ok_frame) auto

lemma claimer_others:
  assumes good: "psci_good s lf" and k: "tasks s c = ClaimTarget t l" and d: "d \<noteq> c"
    and new: "cpu_state cpu = ST_CLAIMED" "fst p = fst (lf t)"
  shows "task_ok ((mach_cpus s)(t := cpu)) (lf(t := p)) d (tasks s d)"
proof -
  have off: "cpu_state (mach_cpus s t) = ST_OFF"
    using psci_goodD(7) [OF good, of c] k by simp
  note ok = psci_goodD(7) [OF good, of d]
  show ?thesis
  proof (cases "d = t")
    case True
    then show ?thesis
      using quiet_cpu [of "mach_cpus s" lf t "tasks s t"] ok off new by (auto simp: running_def)
  next
    case False
    have "\<not> locked (tasks s d)" using psci_good_lock [OF good, of c d] k d by auto
    then show ?thesis
      using ok False off owns_claimed [OF ok]
      by (intro task_ok_frame) auto
  qed
qed

lemmas psci_update_defs = set_task_def set_cpu_def record_event_def answer_def

lemma psci_boot_good: "psci_good psci_boot (\<lambda>c. if c = 0 then (True, LOn) else (False, LOff))"
  by (auto simp: psci_good_def psci_boot_def claims_new_inv machine_new_def cpu_new_def cpu_ok_def
      running_def)

lemma guest_cpu_on_good:
  assumes good: "psci_good s lf" and c: "c < CPU_COUNT" and k: "tasks s c = Guest"
  shows "psci_good (guest_cpu_on c t l s) lf"
proof -
  note ok = psci_goodD(7) [OF good, of c]
  show ?thesis
  proof (cases "t \<ge> CPU_COUNT \<or> \<not> guest_entry (la_entry l)")
    case True
    then show ?thesis
      using ok k psci_goodD(1) [OF good]
      by (intro psci_good_task [OF good c, where k = Guest])
         (simp_all add: guest_cpu_on_def psci_update_defs)
  next
    case False
    then show ?thesis
      using ok k claim_enter_inv [OF psci_goodD(1) [OF good] c]
      by (intro psci_good_task [OF good c, where k = "Lock t l"])
         (simp_all add: guest_cpu_on_def psci_update_defs claim_others)
  qed
qed

lemma guest_cpu_off_good:
  assumes good: "psci_good s lf" and c: "c < CPU_COUNT" and k: "tasks s c = Guest"
  shows "psci_good (guest_cpu_off c s) (lf(c := (True, LOff)))"
proof -
  have on: "cpu_state (mach_cpus s c) = ST_ON"
    using psci_goodD(7) [OF good, of c] k by (simp add: running_def)
  moreover have "lf c = (True, LOn) \<and> physical_started (mach_cpus s c)"
    using psci_goodD(6) [OF good, of c] on
    by (cases "lf c"; cases "snd (lf c)") (auto simp: cpu_ok_def Let_def)
  ultimately show ?thesis
    using k psci_goodD(5) [OF good, of c] self_others [OF good, of _ c]
    by (intro psci_good_cpu [OF good c, where k = Dispatch and cpu = "(mach_cpus s c)\<lparr>cpu_state := ST_OFF\<rparr>"])
       (simp_all add: guest_cpu_off_def psci_update_defs power_off_def cpu_ok_def running_def)
qed

text \<open>The steps of \<open>take_launch\<close>.\<close>

lemma take_step_good:
  assumes good: "psci_good s lf" and c: "c < CPU_COUNT"
    and k: "tasks s c \<in> {Dormant, Dispatch, TakeEntry, Guest} \<or> (\<exists>e. tasks s c = TakeContext e)"
  shows "psci_good (psci_step c fw s) lf"
proof -
  note ok = psci_goodD(7) [OF good, of c] psci_goodD(6) [OF good, of c]
  have next_task: "psci_good (set_task c k' s) lf"
    if "task_ok (mach_cpus s) lf c k'" "owns k' = None" "\<not> locked k'" for k'
    using that psci_goodD(1) [OF good]
    by (intro psci_good_task [OF good c, where k = k']) (simp_all add: set_task_def)
  show ?thesis
    using k ok good by (auto simp: psci_step_def Let_def running_def intro!: next_task)
qed

lemma take_on_good:
  assumes good: "psci_good s lf" and c: "c < CPU_COUNT" and k: "tasks s c = TakeOn l"
  shows "psci_good (psci_step c fw s) (lf(c := (True, LOn)))"
proof -
  have pending: "cpu_state (mach_cpus s c) = ST_PENDING \<and> fst (lf c)
      \<and> la_entry l = cpu_entry (mach_cpus s c) \<and> la_context l = cpu_context (mach_cpus s c)"
    using psci_goodD(7) [OF good, of c] k by simp
  moreover have "snd (lf c) = LClaimed l \<and> physical_started (mach_cpus s c)"
    using psci_goodD(6) [OF good, of c] pending
    by (cases "snd (lf c)") (auto simp: cpu_ok_def Let_def intro: launch.equality)
  ultimately show ?thesis
    using k psci_goodD(5) [OF good, of c] self_others [OF good, of _ c]
    by (intro psci_good_cpu [OF good c, where k = Guest and cpu = "(mach_cpus s c)\<lparr>cpu_state := ST_ON\<rparr>"];
        cases "lf c")
       (simp_all add: psci_step_def psci_update_defs cpu_ok_def running_def)
qed

text \<open>The steps of \<open>request\<close>: those that touch only the claim, then those of the owner.\<close>

lemma lock_step_good:
  assumes good: "psci_good s lf" and c: "c < CPU_COUNT"
    and k: "(\<exists>t l. tasks s c = Lock t l \<or> tasks s c = Inspect t l) \<or> (\<exists>r. tasks s c = Release r)"
  shows "psci_good (psci_step c fw s) lf"
proof -
  note ok = psci_goodD(7) [OF good, of c]
  from k consider t l where "tasks s c = Lock t l" | t l where "tasks s c = Inspect t l"
    | status where "tasks s c = Release (Inl status)" | t l where "tasks s c = Release (Inr (t, l))"
    by (metis old.sum.exhaust surj_pair)
  then show ?thesis
  proof cases
    case 1
    define k' where
      "k' = (if holds_claim (claim_step c (mach_claims s)) c then Inspect t l else Lock t l)"
    show ?thesis
      using 1 ok claim_step_inv [OF psci_goodD(1) [OF good] c]
      by (intro psci_good_task [OF good c, where k = k'])
         (auto simp: k'_def psci_step_def psci_update_defs claim_others Let_def split: if_splits)
  next
    case 2
    have next_task: "psci_good (set_task c k' s) lf"
      if "task_ok (mach_cpus s) lf c k'" "owns k' = None" for k'
      using that psci_goodD(1,2) [OF good] 2
      by (intro psci_good_task [OF good c, where k = k']) (simp_all add: set_task_def)
    show ?thesis using 2 ok by (auto simp: psci_step_def Let_def intro!: next_task)
  next
    case 3
    then show ?thesis
      using ok claim_drop_inv [OF psci_goodD(1) [OF good] c]
      by (intro psci_good_task [OF good c, where k = Guest])
         (simp_all add: psci_step_def psci_update_defs claim_others)
  next
    case 4
    then show ?thesis
      using ok claim_drop_inv [OF psci_goodD(1) [OF good] c]
      by (intro psci_good_task [OF good c, where k = "StoreEntry t l"])
         (simp_all add: psci_step_def psci_update_defs claim_others)
  qed
qed

lemma claim_target_good:
  assumes good: "psci_good s lf" and c: "c < CPU_COUNT" and k: "tasks s c = ClaimTarget t l"
  shows "psci_good (psci_step c fw s) (lf(t := (fst (lf t), LClaimed l)))"
proof -
  have off: "cpu_state (mach_cpus s t) = ST_OFF" and t: "t < CPU_COUNT"
    and entry: "guest_entry (la_entry l)" and "running (mach_cpus s) c"
    using psci_goodD(7) [OF good, of c] k by simp_all
  moreover have "snd (lf t) = LOff" and "physical_started (mach_cpus s t) = fst (lf t)"
    using psci_goodD(6) [OF good, of t] off
    by (cases "snd (lf t)"; auto simp: cpu_ok_def Let_def)+
  moreover have "c \<noteq> t" using off \<open>running (mach_cpus s) c\<close> by (auto simp: running_def)
  ultimately show ?thesis
    using k psci_goodD(5) [OF good, of t] claimer_others [OF good k]
    by (intro psci_good_cpu [OF good c, where k = "Release (Inr (t, l))"
          and cpu = "(mach_cpus s t)\<lparr>cpu_state := ST_CLAIMED\<rparr>"]; cases "lf t")
       (simp_all add: psci_step_def psci_update_defs cpu_ok_def running_def owned_def)
qed

lemma owner_step_good:
  assumes good: "psci_good s lf" and c: "c < CPU_COUNT"
    and own: "owns (tasks s c) = Some t" "owns k = Some t \<or> owns k = None" "\<not> locked k"
    and same: "mach_claims s' = mach_claims s" "tasks s' = (tasks s)(c := k)"
      "mach_cpus s' = (mach_cpus s)(t := cpu)" "history s' = history s"
    and cpu: "cpu_state cpu \<noteq> ST_ON" "cpu_ok ((mach_cpus s)(t := cpu)) lf t"
    and ok: "task_ok ((mach_cpus s)(t := cpu)) lf c k"
  shows "psci_good s' lf"
proof -
  have "psci_good s' (lf(t := lf t))"
    using own same cpu ok psci_goodD(5) [OF good, of t] owner_others [OF good own(1), where p = "lf t"]
    by (intro psci_good_cpu [OF good c, where k = k and cpu = cpu]) auto
  then show ?thesis by simp
qed

lemma publish_step_good:
  assumes good: "psci_good s lf" and c: "c < CPU_COUNT"
    and k: "tasks s c = StoreEntry t l \<or> tasks s c = StoreContext t l \<or> tasks s c = CheckStarted t l
      \<or> tasks s c = MarkStarted t l \<or> tasks s c = MakePending t l"
  shows "psci_good (psci_step c fw s) lf"
proof -
  have own: "owns (tasks s c) = Some t" using k by auto
  have st: "cpu_state (mach_cpus s t) = ST_CLAIMED" and ct: "c \<noteq> t" and l: "snd (lf t) = LClaimed l"
    and run: "running (mach_cpus s) c" and t: "t < CPU_COUNT"
    using k psci_goodD(7) [OF good, of c] by (auto simp: owned_def running_def)
  have entry: "guest_entry (la_entry l)"
    using psci_goodD(6) [OF good, of t] l by (simp add: cpu_ok_def Let_def)
  note ok = psci_goodD(7) [OF good, of c]
  from k show ?thesis
  proof (elim disjE)
    assume k: "tasks s c = StoreEntry t l"
    show ?thesis
      by (rule owner_step_good [OF good c own, where k = "StoreContext t l"
            and cpu = "(mach_cpus s t)\<lparr>cpu_entry := la_entry l\<rparr>"])
         (use k st ct l entry ok run t in \<open>simp_all add: psci_step_def psci_update_defs cpu_ok_def owned_def running_def\<close>)
  next
    assume k: "tasks s c = StoreContext t l"
    show ?thesis
      by (rule owner_step_good [OF good c own, where k = "CheckStarted t l"
            and cpu = "(mach_cpus s t)\<lparr>cpu_context := la_context l\<rparr>"])
         (use k st ct l entry ok run t in \<open>simp_all add: psci_step_def psci_update_defs cpu_ok_def owned_def running_def\<close>)
  next
    assume k: "tasks s c = CheckStarted t l"
    define k' where "k' = (if physical_started (mach_cpus s t) then MakePending t l else Boot t l)"
    show ?thesis
      using k ok psci_goodD(1) [OF good]
      by (intro psci_good_task [OF good c, where k = k'])
         (auto simp: k'_def psci_step_def psci_update_defs owned_def split: if_splits)
  next
    assume k: "tasks s c = MarkStarted t l"
    show ?thesis
      by (rule owner_step_good [OF good c own, where k = "MakePending t l"
            and cpu = "(mach_cpus s t)\<lparr>physical_started := True\<rparr>"])
         (use k st ct l entry ok run t in \<open>simp_all add: psci_step_def psci_update_defs cpu_ok_def owned_def running_def\<close>)
  next
    assume k: "tasks s c = MakePending t l"
    show ?thesis
      by (rule owner_step_good [OF good c own, where k = Guest
            and cpu = "(mach_cpus s t)\<lparr>cpu_state := ST_PENDING\<rparr>"])
         (use k st ct l entry ok run t in \<open>simp_all add: psci_step_def psci_update_defs cpu_ok_def owned_def running_def\<close>)
  qed
qed

lemma boot_failed_good:
  assumes good: "psci_good s lf" and c: "c < CPU_COUNT" and k: "tasks s c = BootFailed t status"
  shows "psci_good (psci_step c fw s) (lf(t := (False, LOff)))"
proof -
  obtain l where l: "snd (lf t) = LClaimed l" and st: "cpu_state (mach_cpus s t) = ST_CLAIMED"
    and no: "\<not> physical_started (mach_cpus s t)" "\<not> fst (lf t)" and run: "running (mach_cpus s) c"
    using psci_goodD(7) [OF good, of c] k by (auto simp: owned_def)
  then have lf: "lf t = (False, LClaimed l)" and ct: "c \<noteq> t"
    by (auto simp: running_def prod_eq_iff)
  show ?thesis
    using k st no lf ct run psci_goodD(5) [OF good, of t] owner_others [OF good, of c t]
    by (intro psci_good_cpu [OF good c, where k = Guest
          and cpu = "(mach_cpus s t)\<lparr>cpu_state := ST_OFF\<rparr>"])
       (simp_all add: psci_step_def psci_update_defs cpu_ok_def running_def)
qed

text \<open>The firmware call: a refusal changes nothing yet, an acceptance wakes the target.\<close>

lemma boot_step_good:
  assumes good: "psci_good s lf" and c: "c < CPU_COUNT" and k: "tasks s c = Boot t l"
  shows "\<exists>lf'. psci_good (psci_step c fw s) lf'"
proof (cases "fw = 0")
  case False
  have "psci_good (psci_step c fw s) lf"
    using k False psci_goodD(1) [OF good] psci_goodD(7) [OF good, of c]
    by (intro psci_good_task [OF good c, where k = "BootFailed t fw"])
       (auto simp: psci_step_def psci_update_defs)
  then show ?thesis by blast
next
  case True
  have own: "owned (mach_cpus s) lf c t l" and no: "\<not> physical_started (mach_cpus s t)" "\<not> fst (lf t)"
    and data: "cpu_entry (mach_cpus s t) = la_entry l" "cpu_context (mach_cpus s t) = la_context l"
    using psci_goodD(7) [OF good, of c] k by simp_all
  then have lf: "lf t = (False, LClaimed l)" and ct: "c \<noteq> t" and t: "t < CPU_COUNT"
    and st: "cpu_state (mach_cpus s t) = ST_CLAIMED"
    by (auto simp: owned_def running_def prod_eq_iff)
  have dormant: "tasks s t = Dormant"
    using quiet_cpu [OF psci_goodD(7) [OF good, of t]] psci_goodD(7) [OF good, of t] st no by auto
  let ?s = "psci_step c fw s" and ?lf = "lf(t := (True, LClaimed l))"
  have same: "mach_claims ?s = mach_claims s" "mach_cpus ?s = mach_cpus s"
    "tasks ?s = (tasks s)(t := Dispatch, c := MarkStarted t l)"
    "history ?s = (history s)(t := Started # history s t)"
    using k True by (auto simp: psci_step_def psci_update_defs)
  have "psci_good ?s ?lf"
  proof (rule psci_good_step [OF good, where c = c])
    show "owns (tasks s d) \<noteq> Some t'" if "owns (tasks ?s c) = Some t'" "d \<noteq> c" for t' d
      using that same(3) k psci_goodD(3) [OF good, of c t d] by auto
    show "lifecycle u (history ?s u) = Some (?lf u)" for u
      using psci_goodD(5) [OF good] same(4) lf by auto
    show "cpu_ok (mach_cpus ?s) ?lf u" for u
      using psci_goodD(6) [OF good, of u] same(2) cpu_ok_cong [of "mach_cpus ?s" u "mach_cpus s" ?lf lf] st lf
      by (cases "u = t") (simp_all add: cpu_ok_def)
    show "task_ok (mach_cpus ?s) ?lf c (tasks ?s c)"
      using own data same ct by (simp add: owned_def)
    show "task_ok (mach_cpus ?s) ?lf d (tasks ?s d)" if "d \<noteq> c" for d
    proof (cases "d = t")
      case True
      then show ?thesis using same ct st by (simp add: running_def)
    next
      case False
      then have "task_ok ((mach_cpus s)(t := mach_cpus s t)) ?lf d (tasks s d)"
        using that k st psci_goodD(3) [OF good, of c t d] psci_goodD(7) [OF good, of d]
        by (intro task_ok_frame) auto
      then show ?thesis using False that same by simp
    qed
  qed (use same ct c t dormant psci_goodD(1,4) [OF good] in auto)
  then show ?thesis by blast
qed

lemma psci_step_inv:
  assumes inv: "psci_inv s" and c: "c < CPU_COUNT"
  shows "psci_inv (psci_step c fw s)"
proof -
  obtain lf where good: "psci_good s lf" using inv by (auto simp: psci_inv_def)
  have "\<exists>lf'. psci_good (psci_step c fw s) lf'"
  proof (cases "tasks s c")
    case (TakeOn l)
    then show ?thesis using take_on_good [OF good c] by blast
  next
    case (ClaimTarget t l)
    then show ?thesis using claim_target_good [OF good c] by blast
  next
    case (Boot t l)
    then show ?thesis using boot_step_good [OF good c] by blast
  next
    case (BootFailed t l)
    then show ?thesis using boot_failed_good [OF good c] by blast
  qed (rule exI [of _ lf], rule take_step_good [OF good c] lock_step_good [OF good c]
        publish_step_good [OF good c], simp)+
  then show ?thesis by (simp add: psci_inv_def)
qed

lemma psci_reachable_inv: "psci_reachable s \<Longrightarrow> psci_inv s"
proof (induction rule: psci_reachable.induct)
  case psci_start
  then show ?case using psci_boot_good by (auto simp: psci_inv_def)
next
  case (psci_more s t)
  from psci_more(2,3) show ?case
  proof (induction rule: psci_move.induct)
    case (psci_access c s firmware)
    then show ?case by (intro psci_step_inv)
  qed (auto simp: psci_inv_def dest: guest_cpu_on_good guest_cpu_off_good)
qed

lemma task_ok_started:
  "task_ok cs lf t k \<Longrightarrow> cpu_ok cs lf t \<Longrightarrow> k = Dormant \<longleftrightarrow> \<not> fst (lf t)"
  by (induction k rule: owns.induct; cases "snd (lf t)")
     (auto simp: cpu_ok_def Let_def running_def owned_def split: sum.splits)


section \<open>A run\<close>

lemma psci_steps_reachable: "psci_reachable s \<Longrightarrow> c < CPU_COUNT \<Longrightarrow> psci_reachable ((psci_step c fw ^^ n) s)"
proof (induction n)
  case (Suc n)
  then show ?case using psci_more [OF _ psci_access] by simp
qed simp

text \<open>The boot CPU on its way through \<open>CPU_ON\<close> for CPU 1, with nobody else moving.\<close>

definition cpu_on_run :: "nat \<Rightarrow> psci_system" where
  "cpu_on_run n =
     (psci_step 0 0 ^^ n) (guest_cpu_on 0 1 \<lparr>la_entry = 0x80280000, la_context = 7\<rparr> psci_boot)"

lemma cpu_on_run_reachable: "psci_reachable (cpu_on_run n)"
  unfolding cpu_on_run_def
  by (intro psci_steps_reachable psci_more [OF psci_start] psci_on) (simp_all add: psci_boot_def)

lemma cpu_on_run_rec:
  "cpu_on_run 0 = guest_cpu_on 0 1 \<lparr>la_entry = 0x80280000, la_context = 7\<rparr> psci_boot"
  "cpu_on_run (Suc n) = psci_step 0 0 (cpu_on_run n)"
  "cpu_on_run (numeral k) = psci_step 0 0 (cpu_on_run (pred_numeral k))"
  by (simp_all add: cpu_on_run_def numeral_eq_Suc)

lemma claim_step_simps:
  "phases s c = Reading i m \<Longrightarrow> i < CPU_COUNT \<Longrightarrow>
     claim_step c s = s\<lparr>phases := (phases s)(c := Reading (Suc i) (max m (drop_bit 1 (slots s i))))\<rparr>"
  "phases s c = Reading i m \<Longrightarrow> \<not> i < CPU_COUNT \<Longrightarrow> m \<noteq> max_number \<Longrightarrow>
     claim_step c s = s\<lparr>slots := (slots s)(c := push_bit 1 (m + 1)),
       phases := (phases s)(c := WaitChoosing 0 (m + 1))\<rparr>"
  "phases s c = WaitChoosing i n \<Longrightarrow> CPU_COUNT \<le> i \<Longrightarrow>
     claim_step c s = s\<lparr>phases := (phases s)(c := Held n)\<rparr>"
  "phases s c = WaitChoosing i n \<Longrightarrow> i < CPU_COUNT \<Longrightarrow> i = c \<Longrightarrow>
     claim_step c s = s\<lparr>phases := (phases s)(c := WaitChoosing (Suc i) n)\<rparr>"
  "phases s c = WaitChoosing i n \<Longrightarrow> i < CPU_COUNT \<Longrightarrow> i \<noteq> c \<Longrightarrow> slots s i AND 1 = 0 \<Longrightarrow>
     claim_step c s = s\<lparr>phases := (phases s)(c := WaitTurn i n)\<rparr>"
  "phases s c = WaitTurn i n \<Longrightarrow> slots s i = 0 \<Longrightarrow>
     claim_step c s = s\<lparr>phases := (phases s)(c := WaitChoosing (Suc i) n)\<rparr>"
  by (auto simp: claim_step_def)

lemma psci_step_lock:
  "tasks s c = Lock t l \<Longrightarrow> psci_step c fw s =
     (if holds_claim (claim_step c (mach_claims s)) c
      then set_task c (Inspect t l) (s\<lparr>mach_claims := claim_step c (mach_claims s)\<rparr>)
      else s\<lparr>mach_claims := claim_step c (mach_claims s)\<rparr>)"
  by (simp add: psci_step_def Let_def)

lemmas psci_run_simps = cpu_on_run_rec psci_step_def psci_step_lock claim_step_simps guest_cpu_on_def
  psci_boot_def claim_enter_def psci_update_defs guest_entry_def resident_def claims_new_def
  machine_new_def cpu_new_def holds_claim_def max_number_def


section \<open>Properties\<close>

text \<open>
  C1: In every interleaving of the four CPUs, the history of each CPU is a run of the abstract life
  cycle: a claim is followed by at most one firmware call and by exactly one entry, with the launch
  that was claimed, or by the firmware's refusal.  The shared power state is the abstract one, and a
  CPU is dormant exactly until firmware has started it.
\<close>

theorem psci_refines_lifecycle:
  assumes "psci_reachable s"
  shows "\<exists>started life. lifecycle t (history s t) = Some (started, life)
    \<and> (cpu_state (mach_cpus s t) = ST_OFF \<longleftrightarrow> life = LOff)
    \<and> (cpu_state (mach_cpus s t) = ST_ON \<longleftrightarrow> life = LOn)
    \<and> (tasks s t = Dormant \<longleftrightarrow> \<not> started)"
proof -
  obtain lf where good: "psci_good s lf"
    using psci_reachable_inv [OF assms] by (auto simp: psci_inv_def)
  note cpu = psci_goodD(6) [OF good, of t] and ok = psci_goodD(7) [OF good, of t]
  have "tasks s t = Dormant \<longleftrightarrow> \<not> fst (lf t)" by (rule task_ok_started [OF ok cpu])
  moreover have "cpu_state (mach_cpus s t) = ST_OFF \<longleftrightarrow> snd (lf t) = LOff"
    "cpu_state (mach_cpus s t) = ST_ON \<longleftrightarrow> snd (lf t) = LOn"
    using cpu by (cases "snd (lf t)"; auto simp: cpu_ok_def Let_def)+
  ultimately show ?thesis
    using psci_goodD(5) [OF good, of t] by (cases "lf t") auto
qed

theorem psci_refines_lifecycle_witness:
  "\<exists>started life. lifecycle 1 (history (cpu_on_run 19) 1) = Some (started, life)
    \<and> (cpu_state (mach_cpus (cpu_on_run 19) 1) = ST_OFF \<longleftrightarrow> life = LOff)
    \<and> (cpu_state (mach_cpus (cpu_on_run 19) 1) = ST_ON \<longleftrightarrow> life = LOn)
    \<and> (tasks (cpu_on_run 19) 1 = Dormant \<longleftrightarrow> \<not> started)"
  by (rule psci_refines_lifecycle [OF cpu_on_run_reachable])

text \<open>
  C2: A CPU about to enter the guest holds exactly the launch that was claimed for it, and its entry is
  a valid guest entry, outside the resident area.
\<close>

theorem psci_enters_claimed_launch:
  assumes "psci_reachable s" and "tasks s c = TakeOn l"
  shows "guest_entry (la_entry l) \<and> lifecycle c (history s c) = Some (True, LClaimed l)"
proof -
  obtain lf where good: "psci_good s lf"
    using psci_reachable_inv [OF assms(1)] by (auto simp: psci_inv_def)
  have take: "cpu_state (mach_cpus s c) = ST_PENDING \<and> fst (lf c)
      \<and> la_entry l = cpu_entry (mach_cpus s c) \<and> la_context l = cpu_context (mach_cpus s c)"
    using psci_goodD(7) [OF good, of c] assms(2) by simp
  then have "snd (lf c) = LClaimed l \<and> guest_entry (la_entry l)"
    using psci_goodD(6) [OF good, of c]
    by (cases "snd (lf c)") (auto simp: cpu_ok_def Let_def intro: launch.equality)
  with take show ?thesis
    using psci_goodD(5) [OF good, of c] by (auto simp: prod_eq_iff)
qed

theorem psci_enters_claimed_launch_witness:
  "guest_entry 0x80280000
   \<and> lifecycle 1 (history ((psci_step 1 0 ^^ 3) (cpu_on_run 22)) 1)
       = Some (True, LClaimed \<lparr>la_entry = 0x80280000, la_context = 7\<rparr>)"
proof -
  let ?l = "\<lparr>la_entry = 0x80280000, la_context = 7\<rparr>"
  have "tasks ((psci_step 1 0 ^^ 3) (cpu_on_run 22)) 1 = TakeOn ?l"
    by (simp add: numeral_3_eq_3 psci_run_simps)
  from psci_enters_claimed_launch [OF psci_steps_reachable [OF cpu_on_run_reachable] this]
  show ?thesis by simp
qed

text \<open>
  C3: The firmware is asked to start a CPU only while that CPU is dormant, was never started, and is
  claimed for this very launch; and no other CPU is carrying on a power-up of the same target.
\<close>

theorem psci_firmware_call:
  assumes "psci_reachable s" and "tasks s c = Boot t l"
  shows "tasks s t = Dormant \<and> lifecycle t (history s t) = Some (False, LClaimed l)
    \<and> (d \<noteq> c \<longrightarrow> owns (tasks s d) \<noteq> Some t)"
proof -
  obtain lf where good: "psci_good s lf"
    using psci_reachable_inv [OF assms(1)] by (auto simp: psci_inv_def)
  have "owned (mach_cpus s) lf c t l" "\<not> fst (lf t)"
    using psci_goodD(7) [OF good, of c] assms(2) by simp_all
  then have "lifecycle t (history s t) = Some (False, LClaimed l)" "tasks s t = Dormant"
    using psci_goodD(5) [OF good, of t] psci_goodD(7) [OF good, of t]
      quiet_cpu [OF psci_goodD(7) [OF good, of t]]
    by (auto simp: owned_def prod_eq_iff)
  moreover have "d \<noteq> c \<longrightarrow> owns (tasks s d) \<noteq> Some t"
    using psci_goodD(3) [OF good, of c t d] assms(2) by auto
  ultimately show ?thesis by blast
qed

theorem psci_firmware_call_witness:
  "tasks (cpu_on_run 19) 1 = Dormant
   \<and> lifecycle 1 (history (cpu_on_run 19) 1)
       = Some (False, LClaimed \<lparr>la_entry = 0x80280000, la_context = 7\<rparr>)
   \<and> owns (tasks (cpu_on_run 19) 2) \<noteq> Some 1"
proof -
  have "tasks (cpu_on_run 19) 0 = Boot 1 \<lparr>la_entry = 0x80280000, la_context = 7\<rparr>"
    by (simp add: psci_run_simps)
  from psci_firmware_call [OF cpu_on_run_reachable this, of 2] show ?thesis by simp
qed

end
