(* ===== verification/Payload.thy ===== *)
theory Payload
  imports Platform
begin

text \<open>
  \<open>payload.rs\<close>: the checksum shared by packages and uploads, and the 256-byte descriptor of a packaged
  raw EL1 payload.  A byte array that the source fills field by field is filled here by the same
  sequence of \<open>splice\<close>s.
\<close>


section \<open>CRC-32\<close>

text \<open>The state of a \<open>Crc32\<close> is its word.\<close>

definition crc_new :: u32 where
  "crc_new = NOT 0"

definition crc_bit :: "u32 \<Rightarrow> u32" where
  "crc_bit c = drop_bit 1 c XOR (0xedb88320 AND (0 - (c AND 1)))"

definition crc_byte :: "u32 \<Rightarrow> u8 \<Rightarrow> u32" where
  "crc_byte c b = (crc_bit ^^ 8) (c XOR ucast b)"

definition crc_update :: "u32 \<Rightarrow> bytes \<Rightarrow> u32" where
  "crc_update c bs = foldl crc_byte c bs"

definition crc_finish :: "u32 \<Rightarrow> u32" where
  "crc_finish c = NOT c"

definition crc32 :: "bytes \<Rightarrow> u32" where
  "crc32 bs = crc_finish (crc_update crc_new bs)"

definition checksum :: "bytes \<Rightarrow> u32" where
  "checksum bs = crc_finish (foldl (\<lambda>c b. crc_update c [b]) crc_new bs)"

lemma checksum_eq: "checksum bs = crc32 bs"
  by (simp add: checksum_def crc32_def crc_update_def)

lemma crc_update_append: "crc_update (crc_update c xs) ys = crc_update c (xs @ ys)"
  by (simp add: crc_update_def)

text \<open>
  The register is a linear feedback shift register: one step is linear and invertible, and a step
  whose low bit is clear is a plain shift.
\<close>

lemma minus_low_bit: "(0 :: u32) - (c AND 1) = (if bit c 0 then - 1 else 0)"
  by (simp add: and_one_eq mod_2_eq_odd bit_0)

lemma bit_crc_bit:
  "bit (crc_bit c) i \<longleftrightarrow> bit c (Suc i) \<noteq> (bit c 0 \<and> bit (0xedb88320 :: u32) i)"
proof -
  have "bit (drop_bit 1 c) i = bit c (Suc i)" by (simp only: bit_drop_bit_eq o_apply plus_1_eq_Suc)
  then show ?thesis
    by (cases "bit c 0"; simp only: crc_bit_def minus_low_bit bit_xor_iff bit_and_iff)
       (auto dest: bit_imp_le_length)
qed

lemma crc_bit_xor: "crc_bit (a XOR b) = crc_bit a XOR crc_bit b"
proof (rule bit_word_eqI)
  fix i
  have "bit (crc_bit (a XOR b)) i \<longleftrightarrow>
      (bit a (Suc i) \<noteq> bit b (Suc i)) \<noteq> ((bit a 0 \<noteq> bit b 0) \<and> bit (0xedb88320 :: u32) i)"
    by (simp only: bit_crc_bit bit_xor_iff)
  also have "\<dots> \<longleftrightarrow> bit (crc_bit a XOR crc_bit b) i"
    by (simp only: bit_crc_bit bit_xor_iff) blast
  finally show "bit (crc_bit (a XOR b)) i \<longleftrightarrow> bit (crc_bit a XOR crc_bit b) i" .
qed

lemma crc_bit_zero: "crc_bit c = 0 \<Longrightarrow> c = 0"
proof (rule ccontr)
  assume z: "crc_bit c = 0" and "c \<noteq> 0"
  have b0: "\<not> bit c 0"
  proof
    assume "bit c 0"
    have "\<not> bit c 32" using bit_imp_le_length [of c 32] by auto
    moreover have "bit (0xedb88320 :: u32) 31" by simp
    ultimately have "bit (crc_bit c) 31" using \<open>bit c 0\<close> bit_crc_bit [of c 31] by simp
    with z show False by simp
  qed
  obtain i where "bit c i" using \<open>c \<noteq> 0\<close> bit_eq_iff [of c 0] by auto
  with b0 obtain j where "bit c (Suc j)" by (cases i) auto
  then have "bit (crc_bit c) j" using b0 bit_crc_bit [of c j] by simp
  with z show False by simp
qed

lemma crc_bits_xor: "(crc_bit ^^ n) (a XOR b) = (crc_bit ^^ n) a XOR (crc_bit ^^ n) b"
  by (induction n) (simp_all add: crc_bit_xor)

lemma crc_bits_inj: "(crc_bit ^^ n) a = (crc_bit ^^ n) b \<Longrightarrow> a = b"
proof -
  have zero: "(crc_bit ^^ n) c = 0 \<Longrightarrow> c = 0" for c
    by (induction n) (auto dest: crc_bit_zero)
  assume "(crc_bit ^^ n) a = (crc_bit ^^ n) b"
  then have "(crc_bit ^^ n) (a XOR b) = 0" by (simp add: crc_bits_xor)
  then have "a XOR b = 0" by (rule zero)
  then show "a = b" by (auto simp: bit_eq_iff bit_xor_iff)
qed

text \<open>The bits of a message in the order in which they enter the register, each byte from its lowest bit.\<close>

definition message_bits :: "bytes \<Rightarrow> bool list" where
  "message_bits bs = concat (map (\<lambda>b. map (bit b) [0..<8]) bs)"

definition crc_feed :: "u32 \<Rightarrow> bool \<Rightarrow> u32" where
  "crc_feed c b = crc_bit (c XOR of_bool b)"

text \<open>Up to 32 bits enter the register as one number.\<close>

lemma crc_feed_word:
  "length bits \<le> 32 \<Longrightarrow> foldl crc_feed c bits = (crc_bit ^^ length bits) (c XOR horner_sum of_bool 2 bits)"
proof (induction bits arbitrary: c)
  case (Cons b bits)
  let ?w = "horner_sum of_bool 2 bits :: u32"
  have small: "\<not> bit ?w 31" using Cons.prems by (simp add: bit_horner_sum_bit_word_iff)
  have unshift: "crc_bit (push_bit 1 ?w) = ?w"
  proof (rule bit_word_eqI)
    fix i assume "i < LENGTH(32)"
    then show "bit (crc_bit (push_bit 1 ?w)) i = bit ?w i"
      using small by (cases "i = 31") (simp_all only: bit_crc_bit bit_push_bit_iff, auto)
  qed
  have number: "of_bool b XOR push_bit 1 ?w = horner_sum of_bool 2 (b # bits)"
  proof (rule bit_word_eqI)
    fix i assume "i < LENGTH(32)"
    then show "bit (of_bool b XOR push_bit 1 ?w) i = bit (horner_sum of_bool 2 (b # bits) :: u32) i"
      by (cases i) (simp_all only: bit_horner_sum_bit_word_iff bit_xor_iff bit_push_bit_iff bit_of_bool_iff, auto)
  qed
  have "crc_feed c b XOR ?w = crc_bit ((c XOR of_bool b) XOR push_bit 1 ?w)"
    unfolding crc_feed_def by (simp only: crc_bit_xor [of "c XOR of_bool b"] unshift)
  also have "(c XOR of_bool b) XOR push_bit 1 ?w = c XOR horner_sum of_bool 2 (b # bits)"
    by (simp only: xor.assoc number)
  finally show ?case using Cons by (simp add: funpow_swap1 del: horner_sum_simps)
qed simp

lemma crc_byte_feed: "crc_byte c b = foldl crc_feed c (map (bit b) [0..<8])"
proof -
  have "horner_sum of_bool 2 (map (bit b) [0..<8]) = (ucast b :: u32)"
  proof (rule bit_word_eqI)
    fix i assume "i < LENGTH(32)"
    moreover have "\<not> bit b i" if "8 \<le> i" using that by (auto dest: bit_imp_le_length)
    ultimately show "bit (horner_sum of_bool 2 (map (bit b) [0..<8]) :: u32) i = bit (ucast b :: u32) i"
      by (cases "i < 8") (simp_all add: bit_horner_sum_bit_word_iff bit_unsigned_iff del: upt_Suc upt_rec_numeral)
  qed
  then show ?thesis by (simp add: crc_feed_word crc_byte_def del: upt_Suc)
qed

lemma crc_update_feed: "crc_update c bs = foldl crc_feed c (message_bits bs)"
  by (induction bs arbitrary: c) (simp_all add: crc_update_def message_bits_def crc_byte_feed)

lemma crc_feed_inj: "foldl crc_feed c bits = foldl crc_feed d bits \<Longrightarrow> c = d"
proof (induction bits arbitrary: c d)
  case (Cons b bits)
  then have "crc_bit (c XOR of_bool b) = crc_bit (d XOR of_bool b)" by (simp add: crc_feed_def)
  then have "c XOR of_bool b = d XOR of_bool b" using crc_bits_inj [of 1] by simp
  then have "(c XOR of_bool b) XOR of_bool b = (d XOR of_bool b) XOR of_bool b" by (rule arg_cong)
  then show ?case by (simp only: xor.assoc xor_self_eq xor.right_neutral)
qed simp


section \<open>The payload descriptor\<close>

definition LOAD_BASE :: u64 where [simp]: "LOAD_BASE = BL33_LOAD_BASE"
definition MAX_PACKAGE_SIZE :: u64 where [simp]: "MAX_PACKAGE_SIZE = 64 * 1024 * 1024"
definition MAX_RUNTIME_SIZE :: u64 where [simp]: "MAX_RUNTIME_SIZE = 64 * 1024 * 1024"
definition CONFIG_OFFSET :: nat where [simp]: "CONFIG_OFFSET = 4096"
definition CONFIG_SIZE :: nat where [simp]: "CONFIG_SIZE = 256"
definition CONFIG_CRC_OFFSET :: nat where [simp]: "CONFIG_CRC_OFFSET = 132"

text \<open>\<open>b"SVRAW001"\<close>.\<close>

definition CONFIG_MAGIC :: bytes where
  "CONFIG_MAGIC = [0x53, 0x56, 0x52, 0x41, 0x57, 0x30, 0x30, 0x31]"

datatype payload_error =
  PayloadTruncated | PayloadHeader | PayloadChecksum | PackageRange | RuntimeRange | PayloadEntry

definition config_crc :: "bytes \<Rightarrow> u32" where
  "config_crc bs =
     checksum (map (\<lambda>(i, b). if CONFIG_CRC_OFFSET \<le> i \<and> i < CONFIG_CRC_OFFSET + 4 then 0 else b)
       (enumerate 0 bs))"

definition config_u32_at :: "bytes \<Rightarrow> nat \<Rightarrow> payload_error + u32" where
  "config_u32_at bs offset =
     and_then (ok_or (slice_get offset (offset + 4) bs) PayloadTruncated) (\<lambda>d. Inr (from_le32 d))"

definition config_u64_at :: "bytes \<Rightarrow> nat \<Rightarrow> payload_error + u64" where
  "config_u64_at bs offset =
     and_then (ok_or (slice_get offset (offset + 8) bs) PayloadTruncated) (\<lambda>d. Inr (from_le64 d))"

text \<open>The registers are the source's \<open>[u64; 8]\<close>.\<close>

record payload =
  pl_package_size :: u64
  pl_bootstrap_size :: u64
  pl_offset :: u64
  pl_file_size :: u64
  pl_runtime_size :: u64
  pl_entry_offset :: u64
  pl_registers :: "u64 list"
  pl_preserve_boot_args :: bool
  pl_usb_uart :: bool
  pl_usb_control :: bool
  pl_usb_net :: bool
  pl_require_upload :: bool
  pl_crc32 :: u32

definition payload_validate :: "payload \<Rightarrow> payload_error + unit" where
  "payload_validate p =
     (if pl_bootstrap_size p < of_nat (CONFIG_OFFSET + CONFIG_SIZE)
         \<or> pl_bootstrap_size p mod 16 \<noteq> 0
         \<or> pl_offset p < pl_bootstrap_size p
         \<or> pl_offset p mod 16 \<noteq> 0
         \<or> checked_add (pl_offset p) (pl_file_size p) \<noteq> Some (pl_package_size p)
         \<or> pl_package_size p > MAX_PACKAGE_SIZE
      then Inl PackageRange
      else if pl_file_size p = 0 \<or> pl_runtime_size p < pl_file_size p
              \<or> pl_runtime_size p > MAX_RUNTIME_SIZE
      then Inl RuntimeRange
      else if pl_entry_offset p mod 4 \<noteq> 0
              \<or> (case checked_add (pl_entry_offset p) 4 of
                   None \<Rightarrow> True | Some e \<Rightarrow> e > pl_file_size p)
      then Inl PayloadEntry
      else if pl_preserve_boot_args p \<and> list_ex (\<lambda>v. v \<noteq> 0) (pl_registers p)
      then Inl PayloadHeader
      else if pl_require_upload p \<and> \<not> (pl_usb_uart p \<or> pl_usb_control p \<or> pl_usb_net p)
      then Inl PayloadHeader
      else Inr ())"

definition payload_entry :: "payload \<Rightarrow> payload_error + u64" where
  "payload_entry p =
     and_then (payload_validate p)
       (\<lambda>_. ok_or (checked_add LOAD_BASE (pl_entry_offset p)) PayloadEntry)"

definition payload_source :: "payload \<Rightarrow> bytes \<Rightarrow> payload_error + bytes" where
  "payload_source p package =
     and_then (payload_validate p) (\<lambda>_.
       if word_of_nat (length package) \<noteq> pl_package_size p then Inl PackageRange
       else and_then (ok_or (slice_from (unat (pl_offset p)) package) PackageRange) (\<lambda>source.
         if crc32 source \<noteq> pl_crc32 p then Inl PayloadChecksum else Inr source))"

definition config_flags :: "payload \<Rightarrow> u32" where
  "config_flags p =
     of_bool (pl_preserve_boot_args p)
     OR push_bit 1 (of_bool (pl_usb_uart p))
     OR push_bit 2 (of_bool (pl_usb_control p))
     OR push_bit 3 (of_bool (pl_require_upload p))
     OR push_bit 4 (of_bool (pl_usb_net p))"

text \<open>The stores of a loop over an array of words, \<open>base + 8 * i\<close> for the \<open>i\<close>-th.\<close>

definition store_words :: "nat \<Rightarrow> u64 list \<Rightarrow> bytes \<Rightarrow> bytes" where
  "store_words base ws bs =
     foldl (\<lambda>bs (i, w). splice (base + i * 8) (to_le64 w) bs) bs (enumerate 0 ws)"

definition payload_encode :: "payload \<Rightarrow> payload_error + bytes" where
  "payload_encode p =
     and_then (payload_validate p) (\<lambda>_.
       let bs = replicate CONFIG_SIZE 0;
           bs = splice 0 CONFIG_MAGIC bs;
           bs = splice 8 (to_le32 1) bs;
           bs = splice 12 (to_le32 (config_flags p)) bs;
           bs = store_words 16
                  [pl_package_size p, pl_bootstrap_size p, pl_offset p, pl_file_size p,
                   pl_runtime_size p, pl_entry_offset p] bs;
           bs = store_words 64 (pl_registers p) bs;
           bs = splice 128 (to_le32 (pl_crc32 p)) bs;
           crc = config_crc bs
       in Inr (splice CONFIG_CRC_OFFSET (to_le32 crc) bs))"

text \<open>\<open>for \<dots> { *value = f(i)?; }\<close>: the loop stops at the first error.\<close>

fun try_map :: "('a \<Rightarrow> 'e + 'b) \<Rightarrow> 'a list \<Rightarrow> 'e + 'b list" where
  "try_map f [] = Inr []"
| "try_map f (x # xs) = and_then (f x) (\<lambda>y. and_then (try_map f xs) (\<lambda>ys. Inr (y # ys)))"

definition payload_decode :: "bytes \<Rightarrow> payload_error + payload option" where
  "payload_decode bs =
     (if length bs \<noteq> CONFIG_SIZE then Inl PayloadTruncated
      else if list_all (\<lambda>b. b = 0) bs then Inr None
      else if slice_get 0 8 bs \<noteq> Some CONFIG_MAGIC then Inl PayloadHeader
      else and_then (config_u32_at bs 8) (\<lambda>version.
        if version \<noteq> 1 then Inl PayloadHeader
        else and_then (config_u32_at bs 12) (\<lambda>flags.
          if flags AND NOT 31 \<noteq> 0 then Inl PayloadHeader
          else and_then (config_u32_at bs CONFIG_CRC_OFFSET) (\<lambda>crc.
            if config_crc bs \<noteq> crc then Inl PayloadChecksum
            else and_then (try_map (\<lambda>i. config_u64_at bs (64 + i * 8)) [0..<8]) (\<lambda>registers.
              and_then (config_u64_at bs 16) (\<lambda>package_size.
              and_then (config_u64_at bs 24) (\<lambda>bootstrap_size.
              and_then (config_u64_at bs 32) (\<lambda>offset.
              and_then (config_u64_at bs 40) (\<lambda>file_size.
              and_then (config_u64_at bs 48) (\<lambda>runtime_size.
              and_then (config_u64_at bs 56) (\<lambda>entry_offset.
              and_then (config_u32_at bs 128) (\<lambda>crc32.
                let p = \<lparr>pl_package_size = package_size, pl_bootstrap_size = bootstrap_size,
                         pl_offset = offset, pl_file_size = file_size,
                         pl_runtime_size = runtime_size, pl_entry_offset = entry_offset,
                         pl_registers = registers,
                         pl_preserve_boot_args = (flags AND 1 \<noteq> 0),
                         pl_usb_uart = (flags AND 2 \<noteq> 0),
                         pl_usb_control = (flags AND 4 \<noteq> 0),
                         pl_usb_net = (flags AND 16 \<noteq> 0),
                         pl_require_upload = (flags AND 8 \<noteq> 0), pl_crc32 = crc32\<rparr>
                in and_then (payload_validate p) (\<lambda>_.
                     and_then (payload_encode p) (\<lambda>encoded.
                       if encoded \<noteq> bs then Inl PayloadHeader else Inr (Some p)))))))))))))))"

section \<open>Encoding and decoding\<close>

lemma length_config_magic [simp]: "length CONFIG_MAGIC = 8"
  by (simp add: CONFIG_MAGIC_def)

lemma store_words_fill:
  "length pre = base \<Longrightarrow>
     store_words base ws (pre @ rest)
       = (pre @ concat (map to_le64 ws)) @ drop (8 * length ws) rest"
proof -
  have "length pre = base + i * 8 \<Longrightarrow>
      foldl (\<lambda>bs (i, w). splice (base + i * 8) (to_le64 w) bs) (pre @ rest) (enumerate i ws)
        = (pre @ concat (map to_le64 ws)) @ drop (8 * length ws) rest" for i
  proof (induction ws arbitrary: pre rest i)
    case (Cons w ws)
    have "splice (base + i * 8) (to_le64 w) (pre @ rest) = (pre @ to_le64 w) @ drop 8 rest"
      using Cons.prems by (simp add: splice_fill)
    moreover have "length (pre @ to_le64 w) = base + Suc i * 8"
      using Cons.prems by simp
    ultimately show ?case
      using Cons.IH [of "pre @ to_le64 w" "Suc i" "drop 8 rest"] by (simp add: add.commute)
  qed simp
  then show "length pre = base \<Longrightarrow> ?thesis"
    by (simp add: store_words_def)
qed

text \<open>The bytes of a descriptor, with its checksum field.\<close>

definition config_layout :: "payload \<Rightarrow> bytes \<Rightarrow> bytes" where
  "config_layout p crc =
     CONFIG_MAGIC @ to_le32 1 @ to_le32 (config_flags p)
     @ to_le64 (pl_package_size p) @ to_le64 (pl_bootstrap_size p) @ to_le64 (pl_offset p)
     @ to_le64 (pl_file_size p) @ to_le64 (pl_runtime_size p) @ to_le64 (pl_entry_offset p)
     @ concat (map to_le64 (pl_registers p)) @ to_le32 (pl_crc32 p) @ crc @ replicate 120 0"

lemma length_concat_le64: "length (concat (map to_le64 ws)) = 8 * length ws"
  by (induction ws) simp_all

lemma payload_encode_layout:
  assumes "length (pl_registers p) = 8"
  shows "payload_encode p =
    and_then (payload_validate p) (\<lambda>_.
      Inr (config_layout p (to_le32 (config_crc (config_layout p (replicate 4 0))))))"
proof -
  have first: "replicate CONFIG_SIZE (0 :: u8) = [] @ replicate 256 0" by simp
  show ?thesis
    unfolding payload_encode_def first
    using assms
    by (simp add: splice_fill splice_fill_start store_words_fill length_concat_le64 config_layout_def
        del: append.simps append_assoc append_Nil)
       (simp add: splice_def length_concat_le64 replicate_append_same flip: replicate_add)
qed

lemma length_config_layout:
  "length (pl_registers p) = 8 \<Longrightarrow> length crc = 4 \<Longrightarrow> length (config_layout p crc) = 256"
  by (simp add: config_layout_def length_concat_le64)

text \<open>The checksum covers its own field as zeros.\<close>

lemma config_crc_field:
  assumes "length (pl_registers p) = 8" and "length c = 4" and "length d = 4"
  shows "config_crc (config_layout p c) = config_crc (config_layout p d)"
proof -
  let ?z = "\<lambda>(i, b). if CONFIG_CRC_OFFSET \<le> i \<and> i < CONFIG_CRC_OFFSET + 4 then 0 else b"
  define pre where "pre = take 132 (config_layout p c)"
  define post where "post = replicate 120 (0 :: u8)"
  have eq: "config_layout p c = pre @ c @ post" "config_layout p d = pre @ d @ post"
    and pre: "length pre = 132"
    using assms by (simp_all add: pre_def post_def config_layout_def length_concat_le64)
  have zeroed: "map ?z (enumerate 132 e) = replicate 4 0" if "length e = 4" for e
    using that by (intro nth_equalityI) (simp_all add: nth_enumerate_eq)
  have "map ?z (enumerate 132 c) = map ?z (enumerate 132 d)"
    by (simp only: zeroed [OF assms(2)] zeroed [OF assms(3)])
  then have "map ?z (enumerate 0 (pre @ c @ post)) = map ?z (enumerate 0 (pre @ d @ post))"
    using assms pre by (simp add: enumerate_append_eq)
  then show ?thesis by (simp add: config_crc_def eq)
qed

lemma config_flags_bits:
  "config_flags p AND NOT 31 = 0"
  "config_flags p AND 1 \<noteq> 0 \<longleftrightarrow> pl_preserve_boot_args p"
  "config_flags p AND 2 \<noteq> 0 \<longleftrightarrow> pl_usb_uart p"
  "config_flags p AND 4 \<noteq> 0 \<longleftrightarrow> pl_usb_control p"
  "config_flags p AND 8 \<noteq> 0 \<longleftrightarrow> pl_require_upload p"
  "config_flags p AND 16 \<noteq> 0 \<longleftrightarrow> pl_usb_net p"
  by (cases "pl_preserve_boot_args p"; cases "pl_usb_uart p"; cases "pl_usb_control p";
      cases "pl_require_upload p"; cases "pl_usb_net p"; simp add: config_flags_def)+

lemma config_fields:
  assumes "length (pl_registers p) = 8" and "length crc = 4"
  shows "slice_get 0 8 (config_layout p crc) = Some CONFIG_MAGIC"
    and "config_u32_at (config_layout p crc) 8 = Inr 1"
    and "config_u32_at (config_layout p crc) 12 = Inr (config_flags p)"
    and "config_u64_at (config_layout p crc) 16 = Inr (pl_package_size p)"
    and "config_u64_at (config_layout p crc) 24 = Inr (pl_bootstrap_size p)"
    and "config_u64_at (config_layout p crc) 32 = Inr (pl_offset p)"
    and "config_u64_at (config_layout p crc) 40 = Inr (pl_file_size p)"
    and "config_u64_at (config_layout p crc) 48 = Inr (pl_runtime_size p)"
    and "config_u64_at (config_layout p crc) 56 = Inr (pl_entry_offset p)"
    and "config_u32_at (config_layout p crc) 128 = Inr (pl_crc32 p)"
    and "config_u32_at (config_layout p crc) 132 = Inr (from_le32 crc)"
    and "try_map (\<lambda>i. config_u64_at (config_layout p crc) (64 + i * 8)) [0..<8]
      = Inr (pl_registers p)"
proof -
  note simps = config_u32_at_def config_u64_at_def slice_get_def config_layout_def
    length_concat_le64
  show "slice_get 0 8 (config_layout p crc) = Some CONFIG_MAGIC"
    "config_u32_at (config_layout p crc) 8 = Inr 1"
    "config_u32_at (config_layout p crc) 12 = Inr (config_flags p)"
    "config_u64_at (config_layout p crc) 16 = Inr (pl_package_size p)"
    "config_u64_at (config_layout p crc) 24 = Inr (pl_bootstrap_size p)"
    "config_u64_at (config_layout p crc) 32 = Inr (pl_offset p)"
    "config_u64_at (config_layout p crc) 40 = Inr (pl_file_size p)"
    "config_u64_at (config_layout p crc) 48 = Inr (pl_runtime_size p)"
    "config_u64_at (config_layout p crc) 56 = Inr (pl_entry_offset p)"
    "config_u32_at (config_layout p crc) 128 = Inr (pl_crc32 p)"
    "config_u32_at (config_layout p crc) 132 = Inr (from_le32 crc)"
    using assms by (simp_all add: simps)
  from assms(1) obtain r0 r1 r2 r3 r4 r5 r6 r7
    where regs: "pl_registers p = [r0, r1, r2, r3, r4, r5, r6, r7]"
    by (auto simp: length_Suc_conv eval_nat_numeral)
  have upt: "[0..<8] = [0, 1, 2, 3, 4, 5, 6, 7 :: nat]" by (simp add: upt_rec)
  show "try_map (\<lambda>i. config_u64_at (config_layout p crc) (64 + i * 8)) [0..<8]
      = Inr (pl_registers p)"
    unfolding upt using assms(2) by (simp add: simps regs)
qed

lemma payload_decode_encode:
  assumes "length (pl_registers p) = 8" and "payload_validate p = Inr ()"
  shows "\<exists>bs. payload_encode p = Inr bs \<and> length bs = CONFIG_SIZE
    \<and> payload_decode bs = Inr (Some p)"
proof -
  define bs where "bs = config_layout p (to_le32 (config_crc (config_layout p (replicate 4 0))))"
  have enc: "payload_encode p = Inr bs"
    using payload_encode_layout [OF assms(1)] assms(2) by (simp add: bs_def)
  have len: "length bs = 256" unfolding bs_def by (rule length_config_layout [OF assms(1)]) simp
  note fields = config_fields [OF assms(1), of "to_le32 (config_crc (config_layout p (replicate 4 0)))",
      folded bs_def]
  have crc: "config_crc bs = config_crc (config_layout p (replicate 4 0))"
    unfolding bs_def by (rule config_crc_field [OF assms(1)]) simp_all
  have "hd bs = 0x53" by (simp add: bs_def config_layout_def CONFIG_MAGIC_def)
  then have "\<not> list_all (\<lambda>b. b = 0) bs" using len by (cases bs) auto
  have eta: "\<lparr>pl_package_size = pl_package_size p, pl_bootstrap_size = pl_bootstrap_size p,
      pl_offset = pl_offset p, pl_file_size = pl_file_size p, pl_runtime_size = pl_runtime_size p,
      pl_entry_offset = pl_entry_offset p, pl_registers = pl_registers p,
      pl_preserve_boot_args = pl_preserve_boot_args p, pl_usb_uart = pl_usb_uart p,
      pl_usb_control = pl_usb_control p, pl_usb_net = pl_usb_net p,
      pl_require_upload = pl_require_upload p, pl_crc32 = pl_crc32 p\<rparr> = p"
    by simp
  have "payload_decode bs = Inr (Some p)"
    using config_flags_bits(1) [of p] \<open>\<not> list_all (\<lambda>b. b = 0) bs\<close>
    by (simp add: payload_decode_def fields len crc config_flags_bits(2-) Let_def)
       (simp only: eta assms(2) enc and_then_simps, simp)
  with enc len show ?thesis by simp
qed

section \<open>Properties\<close>

text \<open>
  C11: A valid payload description survives packaging: it encodes to exactly 256 bytes, and the monitor
  decodes those bytes to the same description.
\<close>

theorem payload_roundtrip:
  assumes "length (pl_registers p) = 8" and "payload_validate p = Inr ()"
  shows "\<exists>bs. payload_encode p = Inr bs \<and> length bs = CONFIG_SIZE
    \<and> payload_decode bs = Inr (Some p)"
  by (rule payload_decode_encode [OF assms])

text \<open>The description the packaging tests use.\<close>

definition sample_payload :: payload where
  "sample_payload =
     \<lparr>pl_package_size = 0x20040, pl_bootstrap_size = 0x20000, pl_offset = 0x20000,
      pl_file_size = 0x40, pl_runtime_size = 0x1000, pl_entry_offset = 4,
      pl_registers = [1, 2, 3, 4, 5, 6, 7, 8], pl_preserve_boot_args = False, pl_usb_uart = True,
      pl_usb_control = False, pl_usb_net = True, pl_require_upload = True, pl_crc32 = 0x12345678\<rparr>"

lemma sample_payload_valid:
  "length (pl_registers sample_payload) = 8" "payload_validate sample_payload = Inr ()"
  by (simp_all add: sample_payload_def payload_validate_def checked_add_def)

theorem payload_roundtrip_witness:
  "\<exists>bs. payload_encode sample_payload = Inr bs \<and> length bs = CONFIG_SIZE
    \<and> payload_decode bs = Inr (Some sample_payload)"
  by (rule payload_roundtrip [OF sample_payload_valid])

text \<open>
  What an accepted descriptor has to be, in numbers and bytes of its own: the placement the packaging promises, and
  the 256 bytes a description is written as.
\<close>

definition well_described :: "payload \<Rightarrow> bool" where
  "well_described p \<longleftrightarrow>
     length (pl_registers p) = 8
     \<and> 4352 \<le> unat (pl_bootstrap_size p) \<and> 16 dvd unat (pl_bootstrap_size p)
     \<and> unat (pl_bootstrap_size p) \<le> unat (pl_offset p) \<and> 16 dvd unat (pl_offset p)
     \<and> unat (pl_offset p) + unat (pl_file_size p) = unat (pl_package_size p) \<and> unat (pl_package_size p) \<le> 2 ^ 26
     \<and> 0 < unat (pl_file_size p) \<and> unat (pl_file_size p) \<le> unat (pl_runtime_size p) \<and> unat (pl_runtime_size p) \<le> 2 ^ 26
     \<and> 4 dvd unat (pl_entry_offset p) \<and> unat (pl_entry_offset p) + 4 \<le> unat (pl_file_size p)
     \<and> (if pl_preserve_boot_args p then pl_registers p = replicate 8 0 else True)
     \<and> (if pl_require_upload p then pl_usb_uart p \<or> pl_usb_control p \<or> pl_usb_net p else True)"

definition flag_byte :: "payload \<Rightarrow> u8" where
  "flag_byte p = of_bool (pl_preserve_boot_args p) + 2 * of_bool (pl_usb_uart p) + 4 * of_bool (pl_usb_control p)
     + 8 * of_bool (pl_require_upload p) + 16 * of_bool (pl_usb_net p)"

definition payload_wire :: "payload \<Rightarrow> bytes \<Rightarrow> bytes" where
  "payload_wire p crc =
     map of_char ''SVRAW001'' @ [1, 0, 0, 0] @ [flag_byte p, 0, 0, 0]
     @ concat (map to_le64 ([pl_package_size p, pl_bootstrap_size p, pl_offset p, pl_file_size p,
         pl_runtime_size p, pl_entry_offset p] @ pl_registers p))
     @ to_le32 (pl_crc32 p) @ crc @ replicate 120 0"

lemma unat_dvd_iff: "0 < k \<Longrightarrow> k < 2 ^ 64 \<Longrightarrow> (w :: u64) mod of_nat k = 0 \<longleftrightarrow> k dvd unat w"
  by (simp add: word_unat_eq_iff unat_mod_distrib unat_of_nat dvd_eq_mod_eq_0)

lemma payload_validate_well_described:
  assumes "payload_validate p = Inr ()" and "length (pl_registers p) = 8"
  shows "well_described p"
proof -
  have regs: "pl_registers p = replicate 8 0" if "\<not> list_ex (\<lambda>v. v \<noteq> 0) (pl_registers p)"
    using that assms(2) replicate_eqI [of "pl_registers p" 8 0] by (auto simp: list_ex_iff)
  have mods: "pl_bootstrap_size p mod 16 = 0 \<longleftrightarrow> 16 dvd unat (pl_bootstrap_size p)"
    "pl_offset p mod 16 = 0 \<longleftrightarrow> 16 dvd unat (pl_offset p)" "pl_entry_offset p mod 4 = 0 \<longleftrightarrow> 4 dvd unat (pl_entry_offset p)"
    using unat_dvd_iff [of 16 "pl_bootstrap_size p"] unat_dvd_iff [of 16 "pl_offset p"] unat_dvd_iff [of 4 "pl_entry_offset p"]
    by simp_all
  have guard: "(if c then Inl e else x) = Inr y \<longleftrightarrow> \<not> c \<and> x = Inr y" for c and e :: 'e and x :: "'e + 'a" and y by simp
  have f: "0x1100 \<le> pl_bootstrap_size p" "pl_bootstrap_size p mod 16 = 0" "pl_bootstrap_size p \<le> pl_offset p"
    "pl_offset p mod 16 = 0" "checked_add (pl_offset p) (pl_file_size p) = Some (pl_package_size p)"
    "pl_package_size p \<le> 0x4000000" "pl_file_size p \<noteq> 0" "pl_file_size p \<le> pl_runtime_size p" "pl_runtime_size p \<le> 0x4000000"
    "pl_entry_offset p mod 4 = 0" "case checked_add (pl_entry_offset p) 4 of None \<Rightarrow> False | Some e \<Rightarrow> e \<le> pl_file_size p"
    "pl_preserve_boot_args p \<Longrightarrow> \<not> list_ex (\<lambda>v. v \<noteq> 0) (pl_registers p)"
    "pl_require_upload p \<Longrightarrow> pl_usb_uart p \<or> pl_usb_control p \<or> pl_usb_net p"
    using assms(1) unfolding payload_validate_def guard de_Morgan_disj not_less
    by (simp_all add: not_less split: option.splits)
  have "4352 \<le> unat (pl_bootstrap_size p)" "unat (pl_bootstrap_size p) \<le> unat (pl_offset p)"
    "unat (pl_package_size p) \<le> 2 ^ 26" "unat (pl_file_size p) \<le> unat (pl_runtime_size p)" "unat (pl_runtime_size p) \<le> 2 ^ 26"
    using f(1,3,6,8,9) by (simp_all add: word_le_nat_alt)
  moreover have "0 < unat (pl_file_size p)" using f(7) by (simp add: unat_gt_0)
  moreover have "unat (pl_entry_offset p) + 4 \<le> unat (pl_file_size p)"
    using f(11) by (auto simp: checked_add_Some_iff word_le_nat_alt split: option.splits)
  moreover have "unat (pl_offset p) + unat (pl_file_size p) = unat (pl_package_size p)"
    using f(5) by (simp add: checked_add_Some_iff)
  ultimately show ?thesis using f(2,4,10,12,13) assms(2) regs by (simp add: well_described_def mods)
qed

lemma payload_wire_layout: "config_layout p crc = payload_wire p crc"
proof -
  have small: "to_le32 w = [ucast w, 0, 0, 0]" if "unat w < 256" for w
  proof -
    have four: "4 = Suc (Suc (Suc (Suc 0)))" by simp
    show ?thesis unfolding to_le32_def four using that by simp
  qed
  have "unat (config_flags p) < 256 \<and> ucast (config_flags p) = flag_byte p"
    by (cases "pl_preserve_boot_args p"; cases "pl_usb_uart p"; cases "pl_usb_control p";
      cases "pl_require_upload p"; cases "pl_usb_net p"; simp add: config_flags_def flag_byte_def)
  then have "to_le32 (config_flags p) = [flag_byte p, 0, 0, 0]" by (simp add: small)
  moreover have "to_le32 1 = [1, 0, 0, 0]" by code_simp
  moreover have "map of_char ''SVRAW001'' = CONFIG_MAGIC" by code_simp
  ultimately show ?thesis by (simp add: config_layout_def payload_wire_def)
qed

lemma config_crc_zeros:
  assumes "length (pl_registers p) = 8"
  shows "config_crc (config_layout p (replicate 4 0)) = crc32 (config_layout p (replicate 4 0))"
proof -
  let ?z = "\<lambda>(i, b). if CONFIG_CRC_OFFSET \<le> i \<and> i < CONFIG_CRC_OFFSET + 4 then 0 else b"
  let ?bs = "config_layout p (replicate 4 0)"
  define pre where "pre = take 132 ?bs"
  have eq: "?bs = pre @ replicate 4 0 @ replicate 120 0" "length pre = 132"
    using assms by (simp_all add: pre_def config_layout_def length_concat_le64)
  have "map ?z (enumerate 0 ?bs) = ?bs"
  proof (rule nth_equalityI)
    fix i assume "i < length (map ?z (enumerate 0 ?bs))"
    moreover have "?bs ! i = 0" if "132 \<le> i" "i < 136" using that eq by (simp add: nth_append)
    ultimately show "map ?z (enumerate 0 ?bs) ! i = ?bs ! i" by (simp add: nth_enumerate_eq)
  qed simp
  then show ?thesis by (simp add: config_crc_def checksum_eq)
qed

lemma payload_decode_Some:
  assumes "payload_decode bs = Inr (Some p)"
  shows "payload_encode p = Inr bs" "payload_validate p = Inr ()" "length (pl_registers p) = 8"
proof -
  have regs: "try_map g xs = Inr ys \<Longrightarrow> length ys = length xs" for g :: "'a \<Rightarrow> 'e + 'b" and xs ys
    by (induction xs arbitrary: ys) (auto simp: and_then_Inr_iff)
  from assms show "payload_encode p = Inr bs" "payload_validate p = Inr ()" "length (pl_registers p) = 8"
    by (auto simp: payload_decode_def and_then_Inr_iff Let_def split: if_splits dest!: regs)
qed

text \<open>
  C12: What the monitor accepts.  A decoded descriptor is a well placed package (its sizes and offsets are
  ordered, aligned and bounded, the entry lies in the image, boot arguments and upload flags are consistent), and
  its 256 bytes are the one wire form of this description with its checksum, so that no two blocks decode to the
  same description.  Whatever package the descriptor is then used on, the source is refused or it is the image
  at the descriptor's offset with its size and checksum, entered at the load address plus the entry offset.
\<close>

theorem payload_accepted:
  assumes "payload_decode bs = Inr (Some p)" and "length package < 2 ^ 64"
  shows "well_described p \<and> bs = payload_wire p (to_le32 (crc32 (payload_wire p [0, 0, 0, 0])))
    \<and> (case payload_entry p of Inl e \<Rightarrow> False | Inr e \<Rightarrow> unat e = 0xaa000000 + unat (pl_entry_offset p))
    \<and> (case payload_source p package of Inl e \<Rightarrow> True
       | Inr source \<Rightarrow> length package = unat (pl_package_size p) \<and> source = drop (unat (pl_offset p)) package
           \<and> length source = unat (pl_file_size p) \<and> crc32 source = pl_crc32 p)"
proof -
  note dec = payload_decode_Some [OF assms(1)]
  have well: "well_described p" by (rule payload_validate_well_described [OF dec(2,3)])
  have zero: "replicate 4 (0 :: u8) = [0, 0, 0, 0]" by (simp add: numeral_eq_Suc)
  have "bs = config_layout p (to_le32 (config_crc (config_layout p (replicate 4 0))))"
    using dec(1,2) payload_encode_layout [OF dec(3)] by simp
  then have wire: "bs = payload_wire p (to_le32 (crc32 (payload_wire p [0, 0, 0, 0])))"
    using config_crc_zeros [OF dec(3)] by (simp only: payload_wire_layout zero)
  have "unat (pl_entry_offset p) \<le> 0x4000000" using well by (simp add: well_described_def)
  then have entry: "case payload_entry p of Inl e \<Rightarrow> False | Inr e \<Rightarrow> unat e = 0xaa000000 + unat (pl_entry_offset p)"
    using dec(2) unat_add_no_overflow [of LOAD_BASE "pl_entry_offset p"]
    by (simp add: payload_entry_def checked_add_def)
  have source: "length package = unat (pl_package_size p) \<and> source = drop (unat (pl_offset p)) package
      \<and> length source = unat (pl_file_size p) \<and> crc32 source = pl_crc32 p" if "payload_source p package = Inr source" for source
  proof -
    have src: "source = drop (unat (pl_offset p)) package" "crc32 source = pl_crc32 p"
      "word_of_nat (length package) = pl_package_size p"
      using that dec(2) by (auto simp: payload_source_def and_then_Inr_iff ok_or_Inr_iff slice_from_def split: if_splits)
    have "unat (pl_package_size p) = length package mod 2 ^ 64" unfolding src(3) [symmetric] by (simp add: unat_of_nat)
    then have "length package = unat (pl_package_size p)" using assms(2) by simp
    moreover have "unat (pl_offset p) + unat (pl_file_size p) = unat (pl_package_size p)" using well by (simp add: well_described_def)
    ultimately show ?thesis using src(1,2) by simp
  qed
  show ?thesis using well wire entry source by (simp split: sum.split)
qed

definition sample_image :: bytes where
  "sample_image = replicate 64 7"

definition sealed_payload :: payload where
  "sealed_payload = sample_payload\<lparr>pl_crc32 := crc32 sample_image\<rparr>"

text \<open>A sealed package of the sample image is accepted, with the image as its source.\<close>

theorem payload_accepted_witness:
  "\<exists>bs. payload_decode bs = Inr (Some sealed_payload) \<and> well_described sealed_payload
    \<and> bs = payload_wire sealed_payload (to_le32 (crc32 (payload_wire sealed_payload [0, 0, 0, 0])))
    \<and> payload_source sealed_payload (replicate 0x20000 0 @ sample_image) = Inr sample_image
    \<and> length sample_image = unat (pl_file_size sealed_payload)"
proof -
  let ?package = "replicate 0x20000 0 @ sample_image"
  have valid: "payload_validate sealed_payload = Inr ()"
    by (simp add: sealed_payload_def sample_payload_def payload_validate_def checked_add_def)
  have regs: "length (pl_registers sealed_payload) = 8" by (simp add: sealed_payload_def sample_payload_def)
  obtain bs where dec: "payload_decode bs = Inr (Some sealed_payload)"
    using payload_decode_encode [OF regs valid] by blast
  have source: "payload_source sealed_payload ?package = Inr sample_image"
    using valid by (simp add: payload_source_def sealed_payload_def sample_payload_def slice_from_def sample_image_def)
  have "length ?package < 2 ^ 64" by (simp add: sample_image_def)
  from payload_accepted [OF dec this] dec source show ?thesis by auto
qed

text \<open>
  C13: No error burst of at most 32 bits goes unnoticed: when two messages differ only within 32 consecutive
  bits, wherever these lie in their bytes, their checksums differ.
\<close>

theorem crc32_detects_burst:
  assumes "message_bits m = start @ xs @ rest" and "message_bits m' = start @ ys @ rest"
    and "length xs = length ys" and "length xs \<le> 32" and "xs \<noteq> ys"
  shows "crc32 m \<noteq> crc32 m'"
proof
  let ?c = "foldl crc_feed crc_new start"
  let ?x = "horner_sum of_bool 2 xs :: u32" and ?y = "horner_sum of_bool 2 ys :: u32"
  assume "crc32 m = crc32 m'"
  then have "foldl crc_feed (foldl crc_feed ?c xs) rest = foldl crc_feed (foldl crc_feed ?c ys) rest"
    by (simp add: crc32_def crc_finish_def crc_update_feed assms(1,2))
  then have "foldl crc_feed ?c xs = foldl crc_feed ?c ys" by (rule crc_feed_inj)
  then have "?c XOR ?x = ?c XOR ?y"
    using crc_feed_word [of xs ?c] crc_feed_word [of ys ?c] assms(3,4) by (auto dest: crc_bits_inj)
  then have "?c XOR (?c XOR ?x) = ?c XOR (?c XOR ?y)" by (rule arg_cong)
  then have eq: "?x = ?y" by (simp only: xor.assoc [symmetric] xor_self_eq xor.left_neutral)
  have "xs = ys"
  proof (rule nth_equalityI)
    fix i assume "i < length xs"
    then show "xs ! i = ys ! i"
      using arg_cong [OF eq, of "\<lambda>w. bit w i"] assms(3,4) by (simp add: bit_horner_sum_bit_word_iff)
  qed (rule assms(3))
  with assms(5) show False by contradiction
qed

text \<open>A burst of 30 bits across five bytes.\<close>

theorem crc32_detects_burst_witness:
  "crc32 [1, 0x83, 4, 5, 6, 0x07, 8] \<noteq> crc32 [1, 0x03, 5, 7, 9, 0x00, 8]"
proof (rule crc32_detects_burst)
  show "message_bits [1, 0x83, 4, 5, 6, 0x07, 8] = take 15 (message_bits [1, 0x83, 4, 5, 6, 0x07, 8])
      @ take 30 (drop 15 (message_bits [1, 0x83, 4, 5, 6, 0x07, 8])) @ drop 45 (message_bits [1, 0x83, 4, 5, 6, 0x07, 8])"
    by code_simp
  show "message_bits [1, 0x03, 5, 7, 9, 0x00, 8] = take 15 (message_bits [1, 0x83, 4, 5, 6, 0x07, 8])
      @ take 30 (drop 15 (message_bits [1, 0x03, 5, 7, 9, 0x00, 8])) @ drop 45 (message_bits [1, 0x83, 4, 5, 6, 0x07, 8])"
    by code_simp
qed code_simp+

end
