(* ===== verification/Loader_Protocol.thy ===== *)
theory Loader_Protocol
  imports Payload
begin

text \<open>
  The wire format of \<open>loader.rs\<close>: message headers, bundle and image descriptors, responses, and the
  ranges of guest RAM an upload may touch.
\<close>

definition LOADER_MAGIC :: bytes where
  "LOADER_MAGIC = [0x53, 0x57, 0x56, 0x4c]"

definition LOADER_VERSION :: u16 where [simp]: "LOADER_VERSION = 2"
definition HEADER_SIZE :: nat where [simp]: "HEADER_SIZE = 32"
definition MAX_MESSAGE_SIZE :: nat where [simp]: "MAX_MESSAGE_SIZE = 4096"
definition MAX_BODY_SIZE :: nat where [simp]: "MAX_BODY_SIZE = MAX_MESSAGE_SIZE - HEADER_SIZE"
definition BUNDLE_DESCRIPTOR_SIZE :: nat where [simp]: "BUNDLE_DESCRIPTOR_SIZE = 80"
definition IMAGE_DESCRIPTOR_SIZE :: nat where [simp]: "IMAGE_DESCRIPTOR_SIZE = 32"
definition MAX_IMAGES :: nat where [simp]: "MAX_IMAGES = 16"
definition MAX_RESPONSE_SIZE :: nat where [simp]: "MAX_RESPONSE_SIZE = HEADER_SIZE + 48"
definition REPLY_FLAG :: u16 where [simp]: "REPLY_FLAG = 0x8000"
definition PRESERVE_BOOT_ARGS :: u32 where [simp]: "PRESERVE_BOOT_ARGS = 1"
definition GUEST_RAM_BASE :: u64 where [simp]: "GUEST_RAM_BASE = 0x80000000"
definition GUEST_RAM_END :: u64 where [simp]: "GUEST_RAM_END = RESIDENT_BASE"
definition BOOT_STACK_SIZE :: u64 where [simp]: "BOOT_STACK_SIZE = 64 * 1024"
definition FRAMEBUFFER_BASE :: u64 where [simp]: "FRAMEBUFFER_BASE = 0xf5a00000"
definition FRAMEBUFFER_SIZE :: u64 where [simp]: "FRAMEBUFFER_SIZE = 4 * 1024 * 1024"

datatype opcode =
  Hello | BeginBundle | BeginImage | Data | EndImage | CommitBundle | Abort | Boot | Status

fun opcode_code :: "opcode \<Rightarrow> u16" where
  "opcode_code Hello = 1"
| "opcode_code BeginBundle = 2"
| "opcode_code BeginImage = 3"
| "opcode_code Data = 4"
| "opcode_code EndImage = 5"
| "opcode_code CommitBundle = 6"
| "opcode_code Abort = 7"
| "opcode_code Boot = 8"
| "opcode_code Status = 9"

definition opcode_decode :: "u16 \<Rightarrow> opcode option" where
  "opcode_decode v =
     (if v = 1 then Some Hello else if v = 2 then Some BeginBundle
      else if v = 3 then Some BeginImage else if v = 4 then Some Data
      else if v = 5 then Some EndImage else if v = 6 then Some CommitBundle
      else if v = 7 then Some Abort else if v = 8 then Some Boot
      else if v = 9 then Some Status else None)"

datatype loader_state = LIdle | LBundle | LReceiving | LReady | LDisabled

fun state_code :: "loader_state \<Rightarrow> u64" where
  "state_code LIdle = 0"
| "state_code LBundle = 1"
| "state_code LReceiving = 2"
| "state_code LReady = 3"
| "state_code LDisabled = 4"

datatype status_code =
  Ok | UnknownOpcode | BadLength | BadState | InvalidDescriptor | BadOffset | Checksum | Storage
  | GuestRunning | ImageCount | Overlap | Entry

fun status_value :: "status_code \<Rightarrow> u64" where
  "status_value Ok = 0"
| "status_value UnknownOpcode = 1"
| "status_value BadLength = 2"
| "status_value BadState = 3"
| "status_value InvalidDescriptor = 4"
| "status_value BadOffset = 5"
| "status_value Checksum = 6"
| "status_value Storage = 7"
| "status_value GuestRunning = 8"
| "status_value ImageCount = 9"
| "status_value Overlap = 10"
| "status_value Entry = 11"

datatype protocol_error = Truncated | Magic | Version | Length | Reply


section \<open>Reading fields\<close>

definition u16_at :: "bytes \<Rightarrow> nat \<Rightarrow> protocol_error + u16" where
  "u16_at bs offset =
     and_then (ok_or (slice_get offset (offset + 2) bs) Truncated) (\<lambda>v. Inr (from_le16 v))"

definition u32_at :: "bytes \<Rightarrow> nat \<Rightarrow> protocol_error + u32" where
  "u32_at bs offset =
     and_then (ok_or (slice_get offset (offset + 4) bs) Truncated) (\<lambda>v. Inr (from_le32 v))"

definition u64_at :: "bytes \<Rightarrow> nat \<Rightarrow> protocol_error + u64" where
  "u64_at bs offset =
     and_then (ok_or (slice_get offset (offset + 8) bs) Truncated) (\<lambda>v. Inr (from_le64 v))"

lemma fields_at:
  "offset + 2 \<le> length bs \<Longrightarrow> u16_at bs offset = Inr (from_le16 (take 2 (drop offset bs)))"
  "offset + 4 \<le> length bs \<Longrightarrow> u32_at bs offset = Inr (from_le32 (take 4 (drop offset bs)))"
  "offset + 8 \<le> length bs \<Longrightarrow> u64_at bs offset = Inr (from_le64 (take 8 (drop offset bs)))"
  by (simp_all add: u16_at_def u32_at_def u64_at_def slice_get_def)

text \<open>\<open>Result::ok\<close>.\<close>

definition ok :: "'e + 'a \<Rightarrow> 'a option" where
  "ok r = (case r of Inl e \<Rightarrow> None | Inr v \<Rightarrow> Some v)"

lemma ok_simps [simp]: "ok (Inl e) = None" "ok (Inr v) = Some v"
  by (simp_all add: ok_def)


section \<open>Headers\<close>

record header =
  h_opcode :: u16
  h_request_id :: u32
  h_length :: u32
  h_arg0 :: u64
  h_arg1 :: u64

definition header_request :: "opcode \<Rightarrow> u32 \<Rightarrow> u32 \<Rightarrow> header" where
  "header_request opcode request_id len =
     \<lparr>h_opcode = opcode_code opcode, h_request_id = request_id, h_length = len,
      h_arg0 = 0, h_arg1 = 0\<rparr>"

text \<open>\<open>encode\<close> fills the caller's 32-byte buffer.\<close>

definition header_encode :: "header \<Rightarrow> bytes \<Rightarrow> bytes" where
  "header_encode h output =
     (let output = splice 0 LOADER_MAGIC output;
          output = splice 4 (to_le16 LOADER_VERSION) output;
          output = splice 6 (to_le16 (h_opcode h)) output;
          output = splice 8 (to_le32 (h_request_id h)) output;
          output = splice 12 (to_le32 (h_length h)) output;
          output = splice 16 (to_le64 (h_arg0 h)) output
      in splice 24 (to_le64 (h_arg1 h)) output)"

definition header_decode :: "bytes \<Rightarrow> protocol_error + header" where
  "header_decode bs =
     (if length bs < HEADER_SIZE then Inl Truncated
      else if take 4 bs \<noteq> LOADER_MAGIC then Inl Magic
      else and_then (u16_at bs 4) (\<lambda>version.
        if version \<noteq> LOADER_VERSION then Inl Version
        else and_then (u16_at bs 6) (\<lambda>opcode.
          and_then (u32_at bs 8) (\<lambda>request_id.
          and_then (u32_at bs 12) (\<lambda>len.
          and_then (u64_at bs 16) (\<lambda>arg0.
          and_then (u64_at bs 24) (\<lambda>arg1.
            if unat len > MAX_BODY_SIZE \<or> length bs \<noteq> HEADER_SIZE + unat len then Inl Length
            else Inr \<lparr>h_opcode = opcode, h_request_id = request_id, h_length = len,
                      h_arg0 = arg0, h_arg1 = arg1\<rparr>)))))))"


section \<open>Guest RAM\<close>

text \<open>
  The boot stack and the framebuffer.  The source unwraps these two constructions, which succeed
  (\<open>protected_ranges_eq\<close>).
\<close>

definition protected_ranges :: "(range_error + address_range) list" where
  "protected_ranges =
     [range_new (STACK_TOP - BOOT_STACK_SIZE) BOOT_STACK_SIZE,
      range_new FRAMEBUFFER_BASE FRAMEBUFFER_SIZE]"

definition guest_range :: "u64 \<Rightarrow> u64 \<Rightarrow> bool" where
  "guest_range address sz =
     (case range_new address sz of
        Inl e \<Rightarrow> False
      | Inr r \<Rightarrow>
          \<not> (ar_start r < GUEST_RAM_BASE \<or> ar_end r > GUEST_RAM_END)
          \<and> list_all (\<lambda>p. case p of Inl e \<Rightarrow> True | Inr s \<Rightarrow> \<not> range_overlaps r s)
              protected_ranges)"

text \<open>The addresses an upload may write.\<close>

definition uploadable :: "nat set" where
  "uploadable = {0x80000000..<0xfec00000} - {0x8a7f0000..<0x8a800000} - {0xf5a00000..<0xf5e00000}"

lemma protected_ranges_eq:
  "protected_ranges =
     [Inr \<lparr>ar_start = 0x8a7f0000, ar_end = 0x8a800000\<rparr>,
      Inr \<lparr>ar_start = 0xf5a00000, ar_end = 0xf5e00000\<rparr>]"
  by (simp add: protected_ranges_def range_new_def checked_add_def)

lemma guest_range_iff:
  "guest_range a n \<longleftrightarrow> n \<noteq> 0 \<and> {unat a..<unat a + unat n} \<subseteq> uploadable"
proof (cases "range_new a n")
  case (Inl e)
  then have "n = 0 \<or> 2 ^ 64 \<le> unat a + unat n" by (auto simp: range_new_Inl_iff)
  moreover have "\<not> {unat a..<unat a + unat n} \<subseteq> uploadable" if "2 ^ 64 \<le> unat a + unat n"
  proof
    assume "{unat a..<unat a + unat n} \<subseteq> uploadable"
    moreover have "2 ^ 64 - 1 \<in> {unat a..<unat a + unat n}"
      using that unat_bounds(4) [of a] by auto
    ultimately show False by (auto simp: uploadable_def)
  qed
  ultimately show ?thesis by (auto simp: guest_range_def Inl)
next
  case (Inr r)
  then have r: "ar_start r = a" "unat (ar_end r) = unat a + unat n" and n: "n \<noteq> 0"
    by (simp_all add: range_new_Inr_iff)
  have pos: "0 < unat n" using n by (simp add: unat_gt_0)
  have "guest_range a n \<longleftrightarrow>
      0x80000000 \<le> unat a \<and> unat a + unat n \<le> 0xfec00000
      \<and> \<not> (unat a < 0x8a800000 \<and> 0x8a7f0000 < unat a + unat n)
      \<and> \<not> (unat a < 0xf5e00000 \<and> 0xf5a00000 < unat a + unat n)"
    using r by (auto simp: guest_range_def Inr protected_ranges_eq range_overlaps_def
        word_less_nat_alt not_less)
  also have "\<dots> \<longleftrightarrow> {unat a..<unat a + unat n} \<subseteq> uploadable"
    (is "?L \<longleftrightarrow> ?R")
  proof
    assume ?L then show ?R by (auto simp: uploadable_def)
  next
    assume R: ?R
    have in_range: "x \<in> uploadable" if "unat a \<le> x" "x < unat a + unat n" for x
      using R that by auto
    obtain k where k: "unat n = Suc k" using pos by (cases "unat n") auto
    show ?L
      using in_range [of "unat a"] in_range [of "unat a + k"] in_range [of "0x8a7f0000"]
        in_range [of "0xf5a00000"] k
      by (auto simp: uploadable_def)
  qed
  finally show ?thesis using n by simp
qed

section \<open>Descriptors\<close>

record bundle_descriptor =
  bd_entry :: u64
  bd_image_count :: u32
  bd_flags :: u32
  bd_registers :: "u64 list"

definition preserve_boot_args :: "bundle_descriptor \<Rightarrow> bool" where
  "preserve_boot_args b \<longleftrightarrow> bd_flags b AND PRESERVE_BOOT_ARGS \<noteq> 0"

definition bundle_validate :: "bundle_descriptor \<Rightarrow> bool" where
  "bundle_validate b \<longleftrightarrow>
     bd_image_count b \<noteq> 0
     \<and> unat (bd_image_count b) \<le> MAX_IMAGES
     \<and> bd_entry b mod 4 = 0
     \<and> guest_range (bd_entry b) 4
     \<and> bd_flags b AND NOT PRESERVE_BOOT_ARGS = 0
     \<and> (\<not> preserve_boot_args b \<or> list_all (\<lambda>v. v = 0) (bd_registers b))"

definition bundle_encode :: "bundle_descriptor \<Rightarrow> bytes \<Rightarrow> bytes" where
  "bundle_encode b output =
     (let output = splice 0 (to_le64 (bd_entry b)) output;
          output = splice 8 (to_le32 (bd_image_count b)) output;
          output = splice 12 (to_le32 (bd_flags b)) output
      in store_words 16 (bd_registers b) output)"

definition bundle_decode :: "bytes \<Rightarrow> bundle_descriptor option" where
  "bundle_decode bs =
     (if length bs \<noteq> BUNDLE_DESCRIPTOR_SIZE then None
      else do {
        registers \<leftarrow> ok (try_map (\<lambda>i. u64_at bs (16 + i * 8)) [0..<8]);
        entry \<leftarrow> ok (u64_at bs 0);
        image_count \<leftarrow> ok (u32_at bs 8);
        flags \<leftarrow> ok (u32_at bs 12);
        let d = \<lparr>bd_entry = entry, bd_image_count = image_count, bd_flags = flags,
                 bd_registers = registers\<rparr>;
        if bundle_validate d then Some d else None
      })"

record image_descriptor =
  im_address :: u64
  im_file_size :: u64
  im_runtime_size :: u64
  im_crc32 :: u32
  im_flags :: u32

definition image_validate :: "image_descriptor \<Rightarrow> bool" where
  "image_validate d \<longleftrightarrow>
     im_file_size d \<noteq> 0
     \<and> im_runtime_size d \<ge> im_file_size d
     \<and> im_flags d = 0
     \<and> guest_range (im_address d) (im_runtime_size d)"

definition contains_entry :: "image_descriptor \<Rightarrow> u64 \<Rightarrow> bool" where
  "contains_entry d entry \<longleftrightarrow>
     entry mod 4 = 0
     \<and> (case checked_add (im_address d) (im_file_size d) of
          None \<Rightarrow> False
        | Some e \<Rightarrow> entry \<ge> im_address d
            \<and> (case checked_add entry 4 of None \<Rightarrow> False | Some v \<Rightarrow> v \<le> e))"

text \<open>\<open>None\<close> is the panic of \<open>expect("validated image")\<close>.\<close>

definition image_overlaps :: "image_descriptor \<Rightarrow> image_descriptor \<Rightarrow> bool option" where
  "image_overlaps d e =
     (case (range_new (im_address d) (im_runtime_size d),
            range_new (im_address e) (im_runtime_size e)) of
        (Inr l, Inr r) \<Rightarrow> Some (range_overlaps l r)
      | _ \<Rightarrow> None)"

definition image_encode :: "image_descriptor \<Rightarrow> bytes \<Rightarrow> bytes" where
  "image_encode d output =
     (let output = splice 0 (to_le64 (im_address d)) output;
          output = splice 8 (to_le64 (im_file_size d)) output;
          output = splice 16 (to_le64 (im_runtime_size d)) output;
          output = splice 24 (to_le32 (im_crc32 d)) output
      in splice 28 (to_le32 (im_flags d)) output)"

definition image_decode :: "bytes \<Rightarrow> image_descriptor option" where
  "image_decode bs =
     (if length bs \<noteq> IMAGE_DESCRIPTOR_SIZE then None
      else do {
        address \<leftarrow> ok (u64_at bs 0);
        file_size \<leftarrow> ok (u64_at bs 8);
        runtime_size \<leftarrow> ok (u64_at bs 16);
        crc \<leftarrow> ok (u32_at bs 24);
        flags \<leftarrow> ok (u32_at bs 28);
        let d = \<lparr>im_address = address, im_file_size = file_size, im_runtime_size = runtime_size,
                 im_crc32 = crc, im_flags = flags\<rparr>;
        if image_validate d then Some d else None
      })"


section \<open>Responses\<close>

datatype action = NoAction | BootBundle bundle_descriptor

record response =
  rs_header :: header
  rs_body :: bytes

definition response_new :: "header \<Rightarrow> status_code \<Rightarrow> loader_state \<Rightarrow> bytes \<Rightarrow> response" where
  "response_new request code state body =
     \<lparr>rs_header =
        \<lparr>h_opcode = h_opcode request OR REPLY_FLAG, h_request_id = h_request_id request,
         h_length = word_of_nat (length body), h_arg0 = status_value code,
         h_arg1 = state_code state\<rparr>,
      rs_body = splice 0 body (replicate 48 0)\<rparr>"

definition response_status :: "response \<Rightarrow> u64" where
  "response_status r = h_arg0 (rs_header r)"

definition response_body :: "response \<Rightarrow> bytes" where
  "response_body r = take (unat (h_length (rs_header r))) (rs_body r)"

definition response_encode :: "response \<Rightarrow> bytes \<Rightarrow> bytes \<times> nat" where
  "response_encode r output =
     (let output = splice 0 (header_encode (rs_header r) (replicate HEADER_SIZE 0)) output;
          len = unat (h_length (rs_header r))
      in (splice HEADER_SIZE (take len (rs_body r)) output, HEADER_SIZE + len))"

section \<open>Encoding and decoding\<close>

lemma length_loader_magic [simp]: "length LOADER_MAGIC = 4"
  by (simp add: LOADER_MAGIC_def)

lemma header_encode_layout:
  "length output = 32 \<Longrightarrow>
     header_encode h output =
       LOADER_MAGIC @ to_le16 LOADER_VERSION @ to_le16 (h_opcode h) @ to_le32 (h_request_id h)
       @ to_le32 (h_length h) @ to_le64 (h_arg0 h) @ to_le64 (h_arg1 h)"
  by (simp add: header_encode_def splice_fill splice_fill_start del: append_assoc)

lemma header_decode_encode:
  assumes "length output = 32" and "unat (h_length h) \<le> MAX_BODY_SIZE"
    and "length body = unat (h_length h)"
  shows "header_decode (header_encode h output @ body) = Inr h"
  using assms by (cases h) (simp add: header_encode_layout header_decode_def fields_at)

lemma header_decode_Inr:
  assumes "header_decode bs = Inr h"
  shows "32 \<le> length bs" and "length bs = 32 + unat (h_length h)" and "length bs \<le> MAX_MESSAGE_SIZE"
  using assms by (auto simp: header_decode_def and_then_Inr_iff split: if_splits)

lemma bundle_encode_layout:
  "length output = 80 \<Longrightarrow> length (bd_registers b) = 8 \<Longrightarrow>
     bundle_encode b output =
       to_le64 (bd_entry b) @ to_le32 (bd_image_count b) @ to_le32 (bd_flags b)
       @ concat (map to_le64 (bd_registers b))"
  by (simp add: bundle_encode_def splice_fill splice_fill_start store_words_fill
      del: append_assoc)

lemma bundle_decode_encode:
  assumes "length output = 80" and "length (bd_registers b) = 8" and "bundle_validate b"
  shows "bundle_decode (bundle_encode b output) = Some b"
proof -
  from assms(2) obtain r0 r1 r2 r3 r4 r5 r6 r7
    where regs: "bd_registers b = [r0, r1, r2, r3, r4, r5, r6, r7]"
    by (auto simp: length_Suc_conv eval_nat_numeral)
  have upt: "[0..<8] = [0, 1, 2, 3, 4, 5, 6, 7 :: nat]" by (simp add: upt_rec)
  have "length (bundle_encode b output) = 80"
    using assms by (simp add: bundle_encode_layout length_concat_le64)
  moreover have "try_map (\<lambda>i. u64_at (bundle_encode b output) (16 + i * 8)) [0..<8] = Inr (bd_registers b)"
    unfolding upt using assms by (simp add: bundle_encode_layout regs fields_at)
  moreover have "u64_at (bundle_encode b output) 0 = Inr (bd_entry b)"
    "u32_at (bundle_encode b output) 8 = Inr (bd_image_count b)"
    "u32_at (bundle_encode b output) 12 = Inr (bd_flags b)"
    using assms by (simp_all add: bundle_encode_layout fields_at length_concat_le64)
  ultimately show ?thesis
    using assms(3) by (cases b) (simp add: bundle_decode_def Let_def)
qed

lemma bundle_decode_Some:
  assumes "bundle_decode bs = Some b"
  shows "bundle_validate b" and "length (bd_registers b) = 8"
proof -
  have len: "try_map f xs = Inr ys \<Longrightarrow> length ys = length xs"
    for f :: "nat \<Rightarrow> protocol_error + u64" and xs ys
    by (induction xs arbitrary: ys) (auto simp: and_then_Inr_iff)
  from assms show "bundle_validate b" and "length (bd_registers b) = 8"
    by (auto simp: bundle_decode_def Let_def bind_eq_Some_conv ok_def dest: len
        split: if_splits sum.splits)
qed

lemma image_decode_encode:
  assumes "length output = 32" and "image_validate d"
  shows "image_decode (image_encode d output) = Some d"
proof -
  have "image_encode d output = to_le64 (im_address d) @ to_le64 (im_file_size d)
      @ to_le64 (im_runtime_size d) @ to_le32 (im_crc32 d) @ to_le32 (im_flags d)"
    using assms(1)
    by (simp add: image_encode_def splice_fill splice_fill_start del: append_assoc)
  then show ?thesis
    using assms(2) by (cases d) (simp add: image_decode_def fields_at Let_def)
qed

lemma image_decode_Some: "image_decode bs = Some d \<Longrightarrow> image_validate d"
  by (auto simp: image_decode_def Let_def bind_eq_Some_conv split: if_splits)

text \<open>The addresses of an image, and what validation gives.\<close>

definition image_set :: "image_descriptor \<Rightarrow> nat set" where
  "image_set d = {unat (im_address d)..<unat (im_address d) + unat (im_runtime_size d)}"

lemma image_validateD:
  assumes "image_validate d"
  shows "0 < unat (im_file_size d)" and "unat (im_file_size d) \<le> unat (im_runtime_size d)"
    and "image_set d \<subseteq> uploadable"
    and "unat (im_address d) + unat (im_runtime_size d) \<le> 0xfec00000"
proof -
  show pos: "0 < unat (im_file_size d)" and le: "unat (im_file_size d) \<le> unat (im_runtime_size d)"
    and sub: "image_set d \<subseteq> uploadable"
    using assms
    by (auto simp: image_validate_def word_le_nat_alt image_set_def guest_range_iff unat_gt_0)
  obtain k where k: "unat (im_runtime_size d) = Suc k"
    using pos le by (cases "unat (im_runtime_size d)") auto
  then have "unat (im_address d) + k \<in> uploadable" using sub by (auto simp: image_set_def)
  then show "unat (im_address d) + unat (im_runtime_size d) \<le> 0xfec00000"
    using k by (simp add: uploadable_def)
qed

lemma image_overlaps_valid:
  assumes "image_validate d" and "image_validate e"
  shows "image_overlaps d e = Some (image_set d \<inter> image_set e \<noteq> {})"
proof -
  have new: "\<exists>r. range_new (im_address f) (im_runtime_size f) = Inr r \<and> range_ok r
      \<and> range_set r = image_set f" if "image_validate f" for f
  proof -
    have "0 < unat (im_runtime_size f)" using image_validateD(1,2) [OF that] by linarith
    then have "im_runtime_size f \<noteq> 0" and "\<not> 2 ^ 64 \<le> unat (im_address f) + unat (im_runtime_size f)"
      using image_validateD(4) [OF that] by auto
    then obtain r where r: "range_new (im_address f) (im_runtime_size f) = Inr r"
      by (cases "range_new (im_address f) (im_runtime_size f)") (auto simp: range_new_Inl_iff)
    then show ?thesis using range_new_ok [OF r] range_new_set [OF r] by (auto simp: image_set_def)
  qed
  from new [OF assms(1)] new [OF assms(2)] show ?thesis
    by (auto simp: image_overlaps_def range_overlaps_iff)
qed

section \<open>Properties\<close>

text \<open>
  C14: What a client encodes, the loader reads back: a header in front of a body of the length it
  announces, a valid bundle descriptor, and a valid image descriptor.
\<close>

theorem loader_messages_roundtrip:
  assumes "length out32 = HEADER_SIZE" and "length out80 = BUNDLE_DESCRIPTOR_SIZE"
    and "length body = unat (h_length h)" and "length body \<le> MAX_BODY_SIZE"
    and "bundle_validate b" and "length (bd_registers b) = 8" and "image_validate d"
  shows "header_decode (header_encode h out32 @ body) = Inr h
    \<and> bundle_decode (bundle_encode b out80) = Some b
    \<and> image_decode (image_encode d out32) = Some d"
  using assms header_decode_encode [of out32 h body] bundle_decode_encode [of out80 b]
    image_decode_encode [of out32 d] by simp

definition sample_bundle :: bundle_descriptor where
  "sample_bundle =
     \<lparr>bd_entry = 0x80280000, bd_image_count = 1, bd_flags = 0,
      bd_registers = [0x83000000, 0, 0, 0, 0, 0, 0, 0]\<rparr>"

definition sample_image_descriptor :: image_descriptor where
  "sample_image_descriptor =
     \<lparr>im_address = 0x80280000, im_file_size = 8, im_runtime_size = 16,
      im_crc32 = crc32 [1, 2, 3, 4, 5, 6, 7, 8], im_flags = 0\<rparr>"

lemma sample_bundle_valid: "bundle_validate sample_bundle"
  by (simp add: sample_bundle_def bundle_validate_def guest_range_def range_new_def checked_add_def
      protected_ranges_eq range_overlaps_def preserve_boot_args_def)

lemma sample_image_valid: "image_validate sample_image_descriptor"
  by (simp add: sample_image_descriptor_def image_validate_def guest_range_def range_new_def
      checked_add_def protected_ranges_eq range_overlaps_def)

theorem loader_messages_roundtrip_witness:
  "header_decode (header_encode (header_request Data 7 3) (replicate 32 0xff) @ [1, 2, 3])
     = Inr (header_request Data 7 3)
   \<and> bundle_decode (bundle_encode sample_bundle (replicate 80 0)) = Some sample_bundle
   \<and> image_decode (image_encode sample_image_descriptor (replicate 32 0xff))
     = Some sample_image_descriptor"
  by (rule loader_messages_roundtrip)
     (simp_all add: sample_bundle_valid sample_image_valid header_request_def, simp add: sample_bundle_def)

end
