(* ===== verification/Loader.thy ===== *)
theory Loader
  imports Loader_Protocol
begin

text \<open>
  The state machine of \<open>loader.rs\<close>, one definition per opcode, over a storage given as a dictionary of
  the two operations of the \<open>Storage\<close> trait; the laws of the trait as a locale; and the storage of
  \<open>usb.rs\<close>, plain guest memory, which satisfies them.  Handling a message returns the protocol error
  or the response and action, with the new loader and storage; the outer \<open>None\<close> is a panic.
\<close>


section \<open>Storage\<close>

datatype storage_error = StorageError

record 'm storage_ops =
  st_write :: "u64 \<Rightarrow> bytes \<Rightarrow> 'm \<Rightarrow> (storage_error + unit) \<times> 'm"
  st_zero :: "u64 \<Rightarrow> u64 \<Rightarrow> 'm \<Rightarrow> (storage_error + unit) \<times> 'm"


section \<open>The loader\<close>

record loader =
  ld_state :: loader_state
  ld_bundle :: "bundle_descriptor option"
  ld_images :: "image_descriptor option list"
  ld_completed :: nat
  ld_current :: "image_descriptor option"
  ld_received :: u64
  ld_crc32 :: u32
  ld_claimed :: bool

definition loader_new :: loader where
  "loader_new =
     \<lparr>ld_state = LIdle, ld_bundle = None, ld_images = replicate MAX_IMAGES None, ld_completed = 0,
      ld_current = None, ld_received = 0, ld_crc32 = crc_new, ld_claimed = False\<rparr>"

definition loader_clear :: "loader_state \<Rightarrow> loader \<Rightarrow> loader" where
  "loader_clear state l =
     l\<lparr>ld_state := state, ld_bundle := None, ld_images := replicate (length (ld_images l)) None,
       ld_completed := 0, ld_current := None, ld_received := 0, ld_crc32 := crc_new\<rparr>"

definition loader_disable :: "loader \<Rightarrow> loader" where
  "loader_disable l = loader_clear LDisabled l"

type_synonym 'm handled = "((protocol_error + response \<times> action) \<times> loader \<times> 'm) option"

definition loader_reply :: "loader \<Rightarrow> header \<Rightarrow> status_code \<Rightarrow> response \<times> action" where
  "loader_reply l h code = (response_new h code (ld_state l) [], NoAction)"

definition replied :: "header \<Rightarrow> status_code \<Rightarrow> loader \<Rightarrow> 'm \<Rightarrow> 'm handled" where
  "replied h code l m = Some (Inr (loader_reply l h code), l, m)"

definition loader_hello :: "header \<Rightarrow> loader \<Rightarrow> 'm \<Rightarrow> 'm handled" where
  "loader_hello h l m =
     (let body = replicate 32 0;
          body = splice 0 (to_le64 GUEST_RAM_BASE) body;
          body = splice 8 (to_le64 GUEST_RAM_END) body;
          body = splice 16 (to_le32 (word_of_nat MAX_BODY_SIZE)) body;
          body = splice 20 (to_le32 (word_of_nat BUNDLE_DESCRIPTOR_SIZE)) body;
          body = splice 24 (to_le32 (word_of_nat IMAGE_DESCRIPTOR_SIZE)) body;
          body = splice 28 (to_le32 (word_of_nat MAX_IMAGES)) body
      in Some (Inr (response_new h Ok (ld_state l) body, NoAction), l, m))"

definition loader_status :: "header \<Rightarrow> loader \<Rightarrow> 'm \<Rightarrow> 'm handled" where
  "loader_status h l m =
     (let body = replicate 48 0;
          body = splice 0 (to_le32 (ucast (state_code (ld_state l)))) body;
          body = splice 4 (to_le32 (of_bool (ld_claimed l))) body;
          body = splice 8 (to_le64 (ld_received l)) body;
          body = (case ld_bundle l of None \<Rightarrow> body
                  | Some b \<Rightarrow> splice 16 (to_le32 (bd_image_count b)) body);
          body = splice 20 (to_le32 (word_of_nat (ld_completed l))) body;
          body = (case ld_current l of None \<Rightarrow> body
                  | Some d \<Rightarrow>
                      splice 40 (to_le64 (im_runtime_size d))
                        (splice 32 (to_le64 (im_file_size d))
                          (splice 24 (to_le64 (im_address d)) body)))
      in Some (Inr (response_new h Ok (ld_state l) body, NoAction), l, m))"

definition loader_begin_bundle :: "header \<Rightarrow> bytes \<Rightarrow> loader \<Rightarrow> 'm \<Rightarrow> 'm handled" where
  "loader_begin_bundle h body l m =
     (if ld_state l = LDisabled then replied h GuestRunning l m
      else if ld_state l \<noteq> LIdle then replied h BadState l m
      else if h_arg0 h \<noteq> 0 \<or> h_arg1 h \<noteq> 0 then replied h BadLength l m
      else case bundle_decode body of
        None \<Rightarrow> replied h InvalidDescriptor l m
      | Some b \<Rightarrow>
          replied h Ok (l\<lparr>ld_bundle := Some b, ld_state := LBundle, ld_claimed := True\<rparr>) m)"

text \<open>\<open>iter().flatten().any(|other| image.overlaps(*other))\<close>, with the panic of \<open>overlaps\<close>.\<close>

fun any_overlap :: "image_descriptor \<Rightarrow> image_descriptor option list \<Rightarrow> bool option" where
  "any_overlap d [] = Some False"
| "any_overlap d (None # es) = any_overlap d es"
| "any_overlap d (Some e # es) =
     (case image_overlaps d e of
        None \<Rightarrow> None
      | Some True \<Rightarrow> Some True
      | Some False \<Rightarrow> any_overlap d es)"

definition loader_begin_image :: "header \<Rightarrow> bytes \<Rightarrow> loader \<Rightarrow> 'm \<Rightarrow> 'm handled" where
  "loader_begin_image h body l m =
     (if ld_state l \<noteq> LBundle then replied h BadState l m
      else if h_arg0 h \<noteq> 0 \<or> h_arg1 h \<noteq> 0 then replied h BadLength l m
      else case ld_bundle l of
        None \<Rightarrow> replied h BadState (loader_clear LIdle l) m
      | Some b \<Rightarrow>
          if ld_completed l \<ge> unat (bd_image_count b) then replied h ImageCount l m
          else case image_decode body of
            None \<Rightarrow> replied h InvalidDescriptor l m
          | Some d \<Rightarrow> do {
              finished \<leftarrow> slice_get 0 (ld_completed l) (ld_images l);
              overlap \<leftarrow> any_overlap d finished;
              if overlap then replied h Overlap l m
              else replied h Ok
                     (l\<lparr>ld_current := Some d, ld_received := 0, ld_crc32 := crc_new,
                        ld_state := LReceiving\<rparr>) m
            })"

definition loader_data ::
  "'m storage_ops \<Rightarrow> header \<Rightarrow> bytes \<Rightarrow> loader \<Rightarrow> 'm \<Rightarrow> 'm handled" where
  "loader_data ops h body l m =
     (if ld_state l \<noteq> LReceiving then replied h BadState l m
      else case ld_current l of
        None \<Rightarrow> replied h BadState (loader_clear LIdle l) m
      | Some d \<Rightarrow>
          if body = [] then replied h BadLength l m
          else if h_arg0 h \<noteq> ld_received l \<or> h_arg1 h \<noteq> 0
                  \<or> (case checked_add (ld_received l) (word_of_nat (length body)) of
                       None \<Rightarrow> True | Some e \<Rightarrow> e > im_file_size d)
          then replied h BadOffset l m
          else case checked_add (im_address d) (ld_received l) of
            None \<Rightarrow> replied h BadOffset l m
          | Some address \<Rightarrow>
              (case st_write ops address body m of
                 (Inl e, m) \<Rightarrow> replied h Storage l m
               | (Inr _, m) \<Rightarrow> do {
                   received \<leftarrow> checked_add (ld_received l) (word_of_nat (length body));
                   let l = l\<lparr>ld_crc32 := crc_update (ld_crc32 l) body, ld_received := received\<rparr>;
                   let r = response_new h Ok (ld_state l) [];
                   let r = r\<lparr>rs_header := (rs_header r)\<lparr>h_arg1 := ld_received l\<rparr>\<rparr>;
                   Some (Inr (r, NoAction), l, m)
                 }))"

definition loader_end_image :: "'m storage_ops \<Rightarrow> header \<Rightarrow> loader \<Rightarrow> 'm \<Rightarrow> 'm handled" where
  "loader_end_image ops h l m =
     (if ld_state l \<noteq> LReceiving then replied h BadState l m
      else case ld_current l of
        None \<Rightarrow> replied h BadState (loader_clear LIdle l) m
      | Some d \<Rightarrow>
          if ld_received l \<noteq> im_file_size d then replied h BadLength l m
          else if crc_finish (ld_crc32 l) \<noteq> im_crc32 d then replied h Checksum l m
          else do {
            zero_size \<leftarrow> checked_sub (im_runtime_size d) (im_file_size d);
            (result, m) \<leftarrow>
              (if zero_size \<noteq> 0
               then do {
                 start \<leftarrow> checked_add (im_address d) (im_file_size d);
                 Some (st_zero ops start zero_size m)
               }
               else Some (Inr (), m));
            (case result of
               Inl e \<Rightarrow> replied h Storage l m
             | Inr _ \<Rightarrow>
                 if ld_completed l \<ge> length (ld_images l) then None
                 else replied h Ok
                        (l\<lparr>ld_images := (ld_images l)[ld_completed l := Some d],
                           ld_completed := ld_completed l + 1, ld_current := None,
                           ld_received := 0, ld_crc32 := crc_new, ld_state := LBundle\<rparr>) m)
          })"

definition loader_commit :: "header \<Rightarrow> loader \<Rightarrow> 'm \<Rightarrow> 'm handled" where
  "loader_commit h l m =
     (if ld_state l \<noteq> LBundle then replied h BadState l m
      else case ld_bundle l of
        None \<Rightarrow> replied h BadState (loader_clear LIdle l) m
      | Some b \<Rightarrow>
          if ld_completed l \<noteq> unat (bd_image_count b) then replied h ImageCount l m
          else do {
            finished \<leftarrow> slice_get 0 (ld_completed l) (ld_images l);
            if \<not> list_ex (\<lambda>d. case d of None \<Rightarrow> False | Some d \<Rightarrow> contains_entry d (bd_entry b)) finished
            then replied h Entry l m
            else replied h Ok (l\<lparr>ld_state := LReady\<rparr>) m
          })"

definition loader_abort :: "header \<Rightarrow> loader \<Rightarrow> 'm \<Rightarrow> 'm handled" where
  "loader_abort h l m =
     (if ld_state l \<notin> {LBundle, LReceiving, LReady} then replied h BadState l m
      else replied h Ok (loader_clear LIdle l) m)"

definition loader_boot :: "header \<Rightarrow> loader \<Rightarrow> 'm \<Rightarrow> 'm handled" where
  "loader_boot h l m =
     (if ld_state l \<noteq> LReady then replied h BadState l m
      else case ld_bundle l of
        None \<Rightarrow> replied h BadState (loader_clear LIdle l) m
      | Some b \<Rightarrow>
          let l = loader_clear LDisabled l
          in Some (Inr (response_new h Ok (ld_state l) [], BootBundle b), l, m))"

definition loader_handle ::
  "'m storage_ops \<Rightarrow> bytes \<Rightarrow> loader \<Rightarrow> 'm \<Rightarrow> 'm handled" where
  "loader_handle ops message l m =
     (case header_decode message of
        Inl e \<Rightarrow> Some (Inl e, l, m)
      | Inr h \<Rightarrow>
          if h_opcode h AND REPLY_FLAG \<noteq> 0 then Some (Inl Reply, l, m)
          else
            let body = drop HEADER_SIZE message in
            case opcode_decode (h_opcode h) of
              None \<Rightarrow> replied h UnknownOpcode l m
            | Some opcode \<Rightarrow>
                let is_empty = (body = [] \<and> h_arg0 h = 0 \<and> h_arg1 h = 0) in
                (case opcode of
                   Hello \<Rightarrow> if is_empty then loader_hello h l m else replied h BadLength l m
                 | Status \<Rightarrow> if is_empty then loader_status h l m else replied h BadLength l m
                 | BeginBundle \<Rightarrow> loader_begin_bundle h body l m
                 | BeginImage \<Rightarrow> loader_begin_image h body l m
                 | Data \<Rightarrow> loader_data ops h body l m
                 | EndImage \<Rightarrow> if is_empty then loader_end_image ops h l m else replied h BadLength l m
                 | CommitBundle \<Rightarrow> if is_empty then loader_commit h l m else replied h BadLength l m
                 | Abort \<Rightarrow> if is_empty then loader_abort h l m else replied h BadLength l m
                 | Boot \<Rightarrow> if is_empty then loader_boot h l m else replied h BadLength l m))"

text \<open>A session: the messages of a client, in order.\<close>

fun loader_session :: "'m storage_ops \<Rightarrow> bytes list \<Rightarrow> loader \<Rightarrow> 'm \<Rightarrow> (loader \<times> 'm) option" where
  "loader_session ops [] l m = Some (l, m)"
| "loader_session ops (message # rest) l m =
     (case loader_handle ops message l m of
        None \<Rightarrow> None
      | Some (result, l, m) \<Rightarrow> loader_session ops rest l m)"

section \<open>What a loader has established\<close>

text \<open>
  \<open>loaded mem d\<close>: memory holds the image \<open>d\<close> describes, its file bytes with the announced checksum
  and zeros up to its runtime size.  \<open>bootable\<close>: the committed images of a bundle.
\<close>

definition file_bytes :: "(nat \<Rightarrow> u8) \<Rightarrow> image_descriptor \<Rightarrow> nat \<Rightarrow> bytes" where
  "file_bytes mem d n = map mem [unat (im_address d)..<unat (im_address d) + n]"

definition loaded :: "(nat \<Rightarrow> u8) \<Rightarrow> image_descriptor \<Rightarrow> bool" where
  "loaded mem d \<longleftrightarrow> image_validate d
     \<and> crc32 (file_bytes mem d (unat (im_file_size d))) = im_crc32 d
     \<and> (\<forall>x. unat (im_address d) + unat (im_file_size d) \<le> x
          \<longrightarrow> x < unat (im_address d) + unat (im_runtime_size d) \<longrightarrow> mem x = 0)"

definition separate :: "image_descriptor \<Rightarrow> image_descriptor \<Rightarrow> bool" where
  "separate d e \<longleftrightarrow> image_set d \<inter> image_set e = {}"

definition bootable :: "(nat \<Rightarrow> u8) \<Rightarrow> bundle_descriptor \<Rightarrow> image_descriptor list \<Rightarrow> bool" where
  "bootable mem b ds \<longleftrightarrow>
     bundle_validate b \<and> length ds = unat (bd_image_count b)
     \<and> list_all (loaded mem) ds \<and> sorted_wrt separate ds
     \<and> list_ex (\<lambda>d. contains_entry d (bd_entry b)) ds"

text \<open>The invariant of a loader and its storage.\<close>

definition finished_images :: "(nat \<Rightarrow> u8) \<Rightarrow> loader \<Rightarrow> image_descriptor list \<Rightarrow> bool" where
  "finished_images mem l ds \<longleftrightarrow>
     length (ld_images l) = MAX_IMAGES \<and> length ds = ld_completed l
     \<and> ld_completed l \<le> MAX_IMAGES \<and> take (ld_completed l) (ld_images l) = map Some ds
     \<and> list_all (loaded mem) ds \<and> sorted_wrt separate ds"

definition stage_ok :: "(nat \<Rightarrow> u8) \<Rightarrow> loader \<Rightarrow> image_descriptor list \<Rightarrow> bool" where
  "stage_ok mem l ds \<longleftrightarrow>
     (case ld_state l of
        LIdle \<Rightarrow> ds = [] \<and> ld_bundle l = None \<and> ld_current l = None
      | LDisabled \<Rightarrow> ds = [] \<and> ld_bundle l = None \<and> ld_current l = None
      | LBundle \<Rightarrow> (\<exists>b. ld_bundle l = Some b \<and> bundle_validate b
          \<and> length ds \<le> unat (bd_image_count b)) \<and> ld_current l = None
      | LReceiving \<Rightarrow> (\<exists>b d. ld_bundle l = Some b \<and> bundle_validate b
          \<and> length ds < unat (bd_image_count b) \<and> ld_current l = Some d \<and> image_validate d
          \<and> list_all (separate d) ds
          \<and> ld_received l \<le> im_file_size d
          \<and> ld_crc32 l = crc_update crc_new (file_bytes mem d (unat (ld_received l))))
      | LReady \<Rightarrow> (\<exists>b. ld_bundle l = Some b \<and> bootable mem b ds))"

definition loader_inv :: "(nat \<Rightarrow> u8) \<Rightarrow> loader \<Rightarrow> bool" where
  "loader_inv mem l \<longleftrightarrow> (\<exists>ds. finished_images mem l ds \<and> stage_ok mem l ds)"

lemma separate_sym: "separate d e \<longleftrightarrow> separate e d"
  by (auto simp: separate_def)

lemma loader_new_inv: "loader_inv mem loader_new"
  by (auto simp: loader_inv_def finished_images_def stage_ok_def loader_new_def)

lemma loader_clear_inv:
  assumes "loader_inv mem l" and "state = LIdle \<or> state = LDisabled"
  shows "loader_inv mem (loader_clear state l)"
  using assms
  by (auto simp: loader_inv_def finished_images_def stage_ok_def loader_clear_def)

text \<open>Memory that changes only outside the finished images keeps them.\<close>

lemma loaded_frame:
  assumes "loaded mem d" and "\<And>x. x \<in> image_set d \<Longrightarrow> mem' x = mem x"
  shows "loaded mem' d"
proof -
  have le: "unat (im_file_size d) \<le> unat (im_runtime_size d)"
    using assms(1) image_validateD(2) by (auto simp: loaded_def)
  then have "file_bytes mem' d (unat (im_file_size d)) = file_bytes mem d (unat (im_file_size d))"
    using assms(2) by (auto simp: file_bytes_def image_set_def)
  moreover have "mem' x = mem x" if "unat (im_address d) + unat (im_file_size d) \<le> x"
    "x < unat (im_address d) + unat (im_runtime_size d)" for x
    using assms(2) that by (auto simp: image_set_def)
  ultimately show ?thesis using assms(1) by (simp add: loaded_def)
qed

lemma any_overlap_valid:
  assumes "image_validate d" and "list_all image_validate ds"
  shows "any_overlap d (map Some ds) = Some (\<not> list_all (separate d) ds)"
  using assms(2)
  by (induction ds) (auto simp: image_overlaps_valid [OF assms(1)] separate_def split: bool.splits)

text \<open>
  What handling one message guarantees: it does not panic, keeps the invariant, touches no memory
  outside the uploadable area, boots only a bootable bundle, and a message that is not answered with
  \<open>Ok\<close> changes nothing.
\<close>

definition handled_ok :: "('m \<Rightarrow> nat \<Rightarrow> u8) \<Rightarrow> loader \<Rightarrow> 'm \<Rightarrow> 'm handled \<Rightarrow> bool" where
  "handled_ok byte_at l m outcome \<longleftrightarrow>
     (\<exists>r l' m'. outcome = Some (r, l', m')
        \<and> loader_inv (byte_at m') l'
        \<and> (\<forall>x. x \<notin> uploadable \<longrightarrow> byte_at m' x = byte_at m x)
        \<and> (case r of
             Inl e \<Rightarrow> l' = l \<and> byte_at m' = byte_at m
           | Inr (response, act) \<Rightarrow>
               (response_status response \<noteq> status_value Ok
                \<longrightarrow> l' = l \<and> byte_at m' = byte_at m \<and> act = NoAction)
               \<and> (\<forall>b. act = BootBundle b \<longrightarrow> (\<exists>ds. bootable (byte_at m') b ds))))"

lemma response_status_new [simp]: "response_status (response_new h code st body) = status_value code"
  by (simp add: response_status_def response_new_def)

lemma status_value_Ok: "status_value code = 0 \<longleftrightarrow> code = Ok"
  by (cases code) simp_all

lemma handled_rejected:
  assumes "loader_inv (byte_at m) l" and "byte_at m' = byte_at m"
  shows "handled_ok byte_at l m (replied h code l m')"
  using assms by (simp add: handled_ok_def replied_def loader_reply_def)

lemma handled_accepted:
  assumes "loader_inv (byte_at m') l'" and "\<And>x. x \<notin> uploadable \<Longrightarrow> byte_at m' x = byte_at m x"
  shows "handled_ok byte_at l m (replied h Ok l' m')"
  using assms by (simp add: handled_ok_def replied_def loader_reply_def)

lemma handled_info:
  assumes "loader_inv (byte_at m) l"
  shows "handled_ok byte_at l m (Some (Inr (response_new h Ok st body, NoAction), l, m))"
  using assms by (simp add: handled_ok_def)

lemma begin_bundle_ok:
  assumes inv: "loader_inv (byte_at m) l"
  shows "handled_ok byte_at l m (loader_begin_bundle h body l m)"
proof (cases "ld_state l = LIdle \<and> h_arg0 h = 0 \<and> h_arg1 h = 0 \<and> bundle_decode body \<noteq> None")
  case True
  then obtain b where b: "bundle_decode body = Some b" by blast
  let ?l = "l\<lparr>ld_bundle := Some b, ld_state := LBundle, ld_claimed := True\<rparr>"
  have "loader_inv (byte_at m) ?l"
    using inv True bundle_decode_Some(1) [OF b]
    by (auto simp: loader_inv_def finished_images_def stage_ok_def bundle_validate_def)
  then have "handled_ok byte_at l m (replied h Ok ?l m)" by (rule handled_accepted) simp
  then show ?thesis using True b by (simp add: loader_begin_bundle_def)
next
  case False
  with inv show ?thesis
    by (auto simp: loader_begin_bundle_def intro!: handled_rejected split: option.splits)
qed

lemma finished_slice:
  "finished_images mem l ds \<Longrightarrow> slice_get 0 (ld_completed l) (ld_images l) = Some (map Some ds)"
  by (simp add: finished_images_def slice_get_def)

lemma finished_valid: "finished_images mem l ds \<Longrightarrow> list_all image_validate ds"
  by (auto simp: finished_images_def loaded_def list_all_iff)

lemma begin_image_ok:
  assumes inv: "loader_inv (byte_at m) l"
  shows "handled_ok byte_at l m (loader_begin_image h body l m)"
proof (cases "ld_state l = LBundle \<and> h_arg0 h = 0 \<and> h_arg1 h = 0")
  case True
  obtain ds b where fin: "finished_images (byte_at m) l ds" and b: "ld_bundle l = Some b"
    "bundle_validate b" "length ds \<le> unat (bd_image_count b)"
    using inv True by (auto simp: loader_inv_def stage_ok_def)
  have reject: "handled_ok byte_at l m (replied h code l m)" for code
    by (rule handled_rejected) (simp_all add: inv)
  have count: "length ds = ld_completed l" using fin by (simp add: finished_images_def)
  show ?thesis
  proof (cases "ld_completed l < unat (bd_image_count b) \<and> image_decode body \<noteq> None")
    case more: True
    then obtain d where d: "image_decode body = Some d" by blast
    have valid: "image_validate d" by (rule image_decode_Some [OF d])
    let ?l = "l\<lparr>ld_current := Some d, ld_received := 0, ld_crc32 := crc_new, ld_state := LReceiving\<rparr>"
    have eq: "loader_begin_image h body l m =
        (if \<not> list_all (separate d) ds then replied h Overlap l m else replied h Ok ?l m)"
      using True b d more finished_slice [OF fin] any_overlap_valid [OF valid finished_valid [OF fin]]
      by (simp add: loader_begin_image_def)
    have "loader_inv (byte_at m) ?l" if "list_all (separate d) ds"
      unfolding loader_inv_def
      using fin b more valid that count
      by (intro exI [of _ ds])
         (auto simp: finished_images_def stage_ok_def file_bytes_def crc_update_def)
    then show ?thesis unfolding eq using reject handled_accepted [of byte_at m ?l m l h] by auto
  next
    case False
    then show ?thesis
      using True b reject by (auto simp: loader_begin_image_def split: option.splits)
  qed
next
  case False
  with inv show ?thesis
    by (auto simp: loader_begin_image_def intro!: handled_rejected split: option.splits)
qed

lemma commit_ok:
  assumes inv: "loader_inv (byte_at m) l"
  shows "handled_ok byte_at l m (loader_commit h l m)"
proof (cases "ld_state l = LBundle")
  case True
  obtain ds b where fin: "finished_images (byte_at m) l ds" and b: "ld_bundle l = Some b"
    "bundle_validate b" "length ds \<le> unat (bd_image_count b)"
    using inv True by (auto simp: loader_inv_def stage_ok_def)
  have reject: "handled_ok byte_at l m (replied h code l m)" for code
    by (rule handled_rejected) (simp_all add: inv)
  have count: "length ds = ld_completed l" using fin by (simp add: finished_images_def)
  let ?e = "list_ex (\<lambda>d. contains_entry d (bd_entry b)) ds"
  have "list_ex (\<lambda>d. case d of None \<Rightarrow> False | Some d \<Rightarrow> contains_entry d (bd_entry b)) (map Some ds) = ?e"
    by (simp add: list_ex_iff)
  then have eq: "loader_commit h l m =
      (if ld_completed l \<noteq> unat (bd_image_count b) then replied h ImageCount l m
       else if \<not> ?e then replied h Entry l m else replied h Ok (l\<lparr>ld_state := LReady\<rparr>) m)"
    using True b finished_slice [OF fin]
    by (cases "ld_completed l = unat (bd_image_count b)") (simp_all add: loader_commit_def)
  have "loader_inv (byte_at m) (l\<lparr>ld_state := LReady\<rparr>)"
    if "ld_completed l = unat (bd_image_count b)" ?e
    unfolding loader_inv_def
    using fin b that count
    by (intro exI [of _ ds]) (auto simp: finished_images_def stage_ok_def bootable_def)
  then show ?thesis
    unfolding eq using reject handled_accepted [of byte_at m "l\<lparr>ld_state := LReady\<rparr>" m l h] by auto
next
  case False
  with inv show ?thesis
    by (auto simp: loader_commit_def intro!: handled_rejected split: option.splits)
qed

lemma abort_ok:
  assumes inv: "loader_inv (byte_at m) l"
  shows "handled_ok byte_at l m (loader_abort h l m)"
  using inv loader_clear_inv [OF inv]
  by (auto simp: loader_abort_def intro!: handled_rejected handled_accepted)

lemma boot_ok:
  assumes inv: "loader_inv (byte_at m) l"
  shows "handled_ok byte_at l m (loader_boot h l m)"
proof (cases "ld_state l = LReady")
  case True
  then obtain ds b where "ld_bundle l = Some b" "bootable (byte_at m) b ds"
    using inv by (auto simp: loader_inv_def stage_ok_def)
  then show ?thesis
    using True loader_clear_inv [OF inv] by (auto simp: loader_boot_def handled_ok_def Let_def)
next
  case False
  with inv show ?thesis by (auto simp: loader_boot_def intro!: handled_rejected)
qed

section \<open>The storage interface\<close>

text \<open>
  The laws of the \<open>Storage\<close> trait the loader relies on: a write or a zeroing that reports success has
  exactly the stated effect on memory and was in the uploadable area; one that reports an error has
  no effect.
\<close>

definition overwrite :: "nat \<Rightarrow> bytes \<Rightarrow> (nat \<Rightarrow> u8) \<Rightarrow> nat \<Rightarrow> u8" where
  "overwrite a bs mem x = (if a \<le> x \<and> x < a + length bs then bs ! (x - a) else mem x)"

lemma overwrite_other: "\<not> (a \<le> x \<and> x < a + length bs) \<Longrightarrow> overwrite a bs mem x = mem x"
  by (simp add: overwrite_def del: de_Morgan_conj)

lemma overwrite_Nil [simp]: "overwrite a [] mem = mem"
  by (rule ext) (auto simp: overwrite_def)

lemma map_overwrite: "map (overwrite a bs mem) [a..<a + length bs] = bs"
  by (rule nth_equalityI) (simp_all add: overwrite_def)

locale storage =
  fixes ops :: "'m storage_ops" and byte_at :: "'m \<Rightarrow> nat \<Rightarrow> u8"
  assumes write_ok: "length bs < 2 ^ 64 \<Longrightarrow> st_write ops a bs m = (Inr u, m') \<Longrightarrow>
      {unat a..<unat a + length bs} \<subseteq> uploadable
      \<and> byte_at m' = overwrite (unat a) bs (byte_at m)"
    and write_err: "st_write ops a bs m = (Inl e, m') \<Longrightarrow> byte_at m' = byte_at m"
    and zero_ok: "st_zero ops a n m = (Inr u, m') \<Longrightarrow>
      {unat a..<unat a + unat n} \<subseteq> uploadable
      \<and> byte_at m' = overwrite (unat a) (replicate (unat n) 0) (byte_at m)"
    and zero_err: "st_zero ops a n m = (Inl e, m') \<Longrightarrow> byte_at m' = byte_at m"
begin

lemma data_ok:
  assumes inv: "loader_inv (byte_at m) l" and body: "length body < 2 ^ 64"
  shows "handled_ok byte_at l m (loader_data ops h body l m)"
proof (cases "ld_state l = LReceiving")
  case True
  then obtain ds b d where fin: "finished_images (byte_at m) l ds" and b: "ld_bundle l = Some b"
    "bundle_validate b" "length ds < unat (bd_image_count b)" and d: "ld_current l = Some d"
    and valid: "image_validate d" and sep: "list_all (separate d) ds"
    and le: "ld_received l \<le> im_file_size d"
    and crc: "ld_crc32 l = crc_update crc_new (file_bytes (byte_at m) d (unat (ld_received l)))"
    using inv by (auto simp: loader_inv_def stage_ok_def)
  have reject: "handled_ok byte_at l m (replied h code l m')" if "byte_at m' = byte_at m" for code m'
    by (rule handled_rejected) (simp_all add: inv that)
  let ?n = "word_of_nat (length body) :: u64"
  have n: "unat ?n = length body" using body by (simp add: unat_of_nat)
  show ?thesis
  proof (cases "body = [] \<or> h_arg0 h \<noteq> ld_received l \<or> h_arg1 h \<noteq> 0
      \<or> (case checked_add (ld_received l) ?n of None \<Rightarrow> True | Some e \<Rightarrow> e > im_file_size d)
      \<or> checked_add (im_address d) (ld_received l) = None")
    case bad: True
    then show ?thesis
      using True d reject [OF refl] by (auto simp: loader_data_def split: option.splits)
  next
    case False
    then obtain e a where e: "checked_add (ld_received l) ?n = Some e" "e \<le> im_file_size d"
      and a: "checked_add (im_address d) (ld_received l) = Some a"
      by (auto split: option.splits)
    have e': "unat e = unat (ld_received l) + length body" using e(1) n by (simp add: checked_add_Some_iff)
    have a': "unat a = unat (im_address d) + unat (ld_received l)"
      using a by (simp add: checked_add_Some_iff)
    obtain w m' where w: "st_write ops a body m = (w, m')" by force
    show ?thesis
    proof (cases w)
      case (Inl err)
      then have "loader_data ops h body l m = replied h Storage l m'"
        using True d False e a w by (simp add: loader_data_def)
      then show ?thesis using reject write_err w Inl by auto
    next
      case (Inr u)
      have mem: "byte_at m' = overwrite (unat a) body (byte_at m)"
        and up: "{unat a..<unat a + length body} \<subseteq> uploadable"
        using write_ok [OF body] w Inr by auto
      let ?l = "l\<lparr>ld_crc32 := crc_update (ld_crc32 l) body, ld_received := e\<rparr>"
      let ?r = "response_new h Ok (ld_state l) []"
      have eq: "loader_data ops h body l m
          = Some (Inr (?r\<lparr>rs_header := (rs_header ?r)\<lparr>h_arg1 := e\<rparr>\<rparr>, NoAction), ?l, m')"
        using True d False e a w Inr by (simp add: loader_data_def Let_def)
      have inside: "x \<in> image_set d" if "unat a \<le> x" "x < unat a + length body" for x
        using that a' e' e(2) image_validateD(2) [OF valid]
        by (auto simp: image_set_def word_le_nat_alt)
      have "file_bytes (byte_at m') d (unat e)
          = file_bytes (byte_at m) d (unat (ld_received l)) @ body"
      proof -
        have "[unat (im_address d)..<unat (im_address d) + unat e]
            = [unat (im_address d)..<unat a] @ [unat a..<unat a + length body]"
          using a' e' upt_add_eq_append [of "unat (im_address d)" "unat a" "length body"]
          by (simp add: add.assoc)
        moreover have "map (byte_at m') [unat (im_address d)..<unat a]
            = map (byte_at m) [unat (im_address d)..<unat a]"
          by (simp add: mem overwrite_def)
        ultimately show ?thesis
          using a' by (simp add: file_bytes_def mem map_overwrite)
      qed
      moreover have "finished_images (byte_at m') ?l ds"
      proof -
        have "loaded (byte_at m') f" if "f \<in> set ds" for f
        proof (rule loaded_frame)
          show "loaded (byte_at m) f" using fin that by (auto simp: finished_images_def list_all_iff)
          show "byte_at m' x = byte_at m x" if "x \<in> image_set f" for x
            unfolding mem using inside [of x] sep \<open>f \<in> set ds\<close> that
            by (intro overwrite_other) (auto simp: separate_def list_all_iff)
        qed
        then show ?thesis using fin by (simp add: finished_images_def list_all_iff)
      qed
      ultimately have "loader_inv (byte_at m') ?l"
        unfolding loader_inv_def using b d valid sep crc e True
        by (intro exI [of _ ds]) (auto simp: stage_ok_def crc_update_append)
      then show ?thesis
        unfolding eq handled_ok_def using up mem
        by (auto simp: response_status_def response_new_def overwrite_def)
    qed
  qed
next
  case False
  with inv show ?thesis
    by (auto simp: loader_data_def intro!: handled_rejected split: option.splits)
qed

lemma end_image_ok:
  assumes inv: "loader_inv (byte_at m) l"
  shows "handled_ok byte_at l m (loader_end_image ops h l m)"
proof (cases "ld_state l = LReceiving")
  case True
  then obtain ds b d where fin: "finished_images (byte_at m) l ds" and b: "ld_bundle l = Some b"
    "bundle_validate b" "length ds < unat (bd_image_count b)" and d: "ld_current l = Some d"
    and valid: "image_validate d" and sep: "list_all (separate d) ds"
    and crc: "ld_crc32 l = crc_update crc_new (file_bytes (byte_at m) d (unat (ld_received l)))"
    using inv by (auto simp: loader_inv_def stage_ok_def)
  have reject: "handled_ok byte_at l m (replied h code l m')" if "byte_at m' = byte_at m" for code m'
    by (rule handled_rejected) (simp_all add: inv that)
  show ?thesis
  proof (cases "ld_received l = im_file_size d \<and> crc_finish (ld_crc32 l) = im_crc32 d")
    case False
    then show ?thesis
      using True d reject [OF refl] by (auto simp: loader_end_image_def)
  next
    case full: True
    note img = image_validateD [OF valid]
    let ?f = "im_file_size d" and ?z = "im_runtime_size d - im_file_size d"
    let ?s = "im_address d + ?f"
    have sub: "checked_sub (im_runtime_size d) ?f = Some ?z"
      using img(2) by (simp add: checked_sub_def word_le_nat_alt)
    then have z: "unat ?z = unat (im_runtime_size d) - unat ?f"
      using img(2) by (simp add: checked_sub_Some_iff)
    have add: "checked_add (im_address d) ?f = Some ?s"
      using img(2,4) by (simp add: checked_add_def)
    then have s: "unat ?s = unat (im_address d) + unat ?f" by (simp add: checked_add_Some_iff)
    define zeroed where "zeroed = (if ?z \<noteq> 0 then st_zero ops ?s ?z m else (Inr (), m))"
    obtain w m' where w: "zeroed = (w, m')" by force
    let ?l = "l\<lparr>ld_images := (ld_images l)[ld_completed l := Some d],
        ld_completed := ld_completed l + 1, ld_current := None, ld_received := 0,
        ld_crc32 := crc_new, ld_state := LBundle\<rparr>"
    have room: "ld_completed l < length (ld_images l)" "length ds = ld_completed l"
      using fin b by (auto simp: finished_images_def bundle_validate_def)
    have eq: "loader_end_image ops h l m =
        (case w of Inl e \<Rightarrow> replied h Storage l m' | Inr u \<Rightarrow> replied h Ok ?l m')"
      using True d full room(1) add w unfolding zeroed_def loader_end_image_def
      by (cases w) (auto simp: sub)
    show ?thesis
    proof (cases w)
      case (Inl e)
      then have "byte_at m' = byte_at m" using w zero_err by (auto simp: zeroed_def split: if_splits)
      then show ?thesis using reject by (simp add: eq Inl)
    next
      case (Inr u)
      have mem: "byte_at m' = overwrite (unat ?s) (replicate (unat ?z) 0) (byte_at m)"
        using w Inr zero_ok by (auto simp: zeroed_def overwrite_def split: if_splits)
      have outside: "byte_at m' x = byte_at m x" if "x \<notin> image_set d \<or> x < unat ?s" for x
        unfolding mem using that s z img(2) by (intro overwrite_other) (auto simp: image_set_def)
      have new: "loaded (byte_at m') d"
      proof -
        have "file_bytes (byte_at m') d (unat ?f) = file_bytes (byte_at m) d (unat ?f)"
          using outside s by (simp add: file_bytes_def)
        moreover have "byte_at m' x = 0" if "unat (im_address d) + unat ?f \<le> x"
          "x < unat (im_address d) + unat (im_runtime_size d)" for x
          unfolding mem using that s z by (simp add: overwrite_def)
        ultimately show ?thesis using valid full crc by (auto simp: loaded_def crc32_def)
      qed
      have old: "loaded (byte_at m') f" if "f \<in> set ds" for f
      proof (rule loaded_frame)
        show "loaded (byte_at m) f" using fin that by (auto simp: finished_images_def list_all_iff)
        show "byte_at m' x = byte_at m x" if "x \<in> image_set f" for x
          using sep \<open>f \<in> set ds\<close> that by (intro outside) (auto simp: separate_def list_all_iff)
      qed
      have "take (Suc (ld_completed l)) (ld_images ?l) = map Some (ds @ [d])"
        using fin room by (simp add: finished_images_def take_Suc_conv_app_nth)
      then have "finished_images (byte_at m') ?l (ds @ [d])"
        using fin room new old sep
        by (auto simp: finished_images_def list_all_iff sorted_wrt_append separate_sym)
      moreover have "stage_ok (byte_at m') ?l (ds @ [d])" using b by (simp add: stage_ok_def)
      ultimately have "loader_inv (byte_at m') ?l" by (auto simp: loader_inv_def)
      then have "handled_ok byte_at l m (replied h Ok ?l m')"
      proof (rule handled_accepted)
        show "x \<notin> uploadable \<Longrightarrow> byte_at m' x = byte_at m x" for x
          using img(3) by (intro outside) auto
      qed
      then show ?thesis by (simp add: eq Inr)
    qed
  qed
next
  case False
  with inv show ?thesis
    by (auto simp: loader_end_image_def intro!: handled_rejected split: option.splits)
qed

lemma handle_ok:
  assumes inv: "loader_inv (byte_at m) l"
  shows "handled_ok byte_at l m (loader_handle ops message l m)"
proof (cases "header_decode message")
  case (Inl e)
  then show ?thesis using inv by (simp add: loader_handle_def handled_ok_def)
next
  case (Inr h)
  define body where "body = drop HEADER_SIZE message"
  have "length body < 2 ^ 64"
    using header_decode_Inr(3) [OF Inr] by (simp add: body_def)
  note ok = data_ok [OF inv this] data_ok [OF inv, of "[]", simplified] end_image_ok [OF inv] begin_bundle_ok [of byte_at, OF inv]
    begin_image_ok [of byte_at, OF inv] commit_ok [of byte_at, OF inv] abort_ok [of byte_at, OF inv]
    boot_ok [of byte_at, OF inv]
  have reject: "handled_ok byte_at l m (replied h code l m)" for code
    by (rule handled_rejected) (simp_all add: inv)
  have info: "handled_ok byte_at l m (loader_hello h l m)" "handled_ok byte_at l m (loader_status h l m)"
    unfolding loader_hello_def loader_status_def Let_def
    by (rule handled_info, rule inv)+
  have reply: "handled_ok byte_at l m (Some (Inl Reply, l, m))"
    using inv by (simp add: handled_ok_def)
  show ?thesis
    unfolding loader_handle_def Inr Let_def body_def [symmetric]
    by (cases "opcode_decode (h_opcode h)"; simp add: reject reply)
       (simp add: ok reject info reply split: opcode.split)
qed

lemma session_ok:
  assumes "loader_inv (byte_at m) l"
  shows "\<exists>l' m'. loader_session ops messages l m = Some (l', m') \<and> loader_inv (byte_at m') l'
    \<and> (\<forall>x. x \<notin> uploadable \<longrightarrow> byte_at m' x = byte_at m x)"
  using assms
proof (induction messages arbitrary: l m)
  case (Cons message messages)
  obtain r l' m' where "loader_handle ops message l m = Some (r, l', m')"
    "loader_inv (byte_at m') l'" "\<forall>x. x \<notin> uploadable \<longrightarrow> byte_at m' x = byte_at m x"
    using handle_ok [OF Cons.prems, of message] by (auto simp: handled_ok_def)
  with Cons.IH [of m' l'] show ?case by auto
qed simp

end

section \<open>Guest memory (usb.rs)\<close>

text \<open>
  \<open>GuestMemory\<close>: physical memory, byte by byte; a range that \<open>guest_range\<close> rejects is an error.
\<close>

type_synonym memory = "nat \<Rightarrow> u8"

definition guest_memory_write :: "u64 \<Rightarrow> bytes \<Rightarrow> memory \<Rightarrow> (storage_error + unit) \<times> memory" where
  "guest_memory_write address bs mem =
     (if \<not> guest_range address (word_of_nat (length bs)) then (Inl StorageError, mem)
      else (Inr (), overwrite (unat address) bs mem))"

definition guest_memory_zero :: "u64 \<Rightarrow> u64 \<Rightarrow> memory \<Rightarrow> (storage_error + unit) \<times> memory" where
  "guest_memory_zero address len mem =
     (if \<not> guest_range address len then (Inl StorageError, mem)
      else (Inr (), overwrite (unat address) (replicate (unat len) 0) mem))"

definition guest_memory :: "memory storage_ops" where
  "guest_memory = \<lparr>st_write = guest_memory_write, st_zero = guest_memory_zero\<rparr>"

interpretation gm: storage guest_memory "\<lambda>m. m"
  by unfold_locales
     (auto simp: guest_memory_def guest_memory_write_def guest_memory_zero_def guest_range_iff
       unat_of_nat split: if_splits)

section \<open>Messages of a client\<close>

text \<open>The message \<open>LoaderTransport::request\<close> of \<open>switchvisorctl\<close> builds.\<close>

definition client_message :: "u32 \<Rightarrow> opcode \<Rightarrow> u64 \<Rightarrow> bytes \<Rightarrow> bytes" where
  "client_message request_id opcode arg0 body =
     header_encode ((header_request opcode request_id (word_of_nat (length body)))\<lparr>h_arg0 := arg0\<rparr>)
       (replicate HEADER_SIZE 0) @ body"

lemma opcode_decode_code: "opcode_decode (opcode_code opcode) = Some opcode"
  by (cases opcode) (simp_all add: opcode_decode_def)

lemma opcode_code_request: "opcode_code opcode AND REPLY_FLAG = 0"
  by (cases opcode) simp_all

lemma handle_client_message:
  fixes i arg0 opcode
  assumes "length body \<le> MAX_BODY_SIZE"
  defines "h \<equiv> (header_request opcode i (word_of_nat (length body)))\<lparr>h_arg0 := arg0\<rparr>"
  shows "loader_handle ops (client_message i opcode arg0 body) l m =
    (let is_empty = (body = [] \<and> arg0 = 0) in
     case opcode of
       Hello \<Rightarrow> if is_empty then loader_hello h l m else replied h BadLength l m
     | Status \<Rightarrow> if is_empty then loader_status h l m else replied h BadLength l m
     | BeginBundle \<Rightarrow> loader_begin_bundle h body l m
     | BeginImage \<Rightarrow> loader_begin_image h body l m
     | Data \<Rightarrow> loader_data ops h body l m
     | EndImage \<Rightarrow> if is_empty then loader_end_image ops h l m else replied h BadLength l m
     | CommitBundle \<Rightarrow> if is_empty then loader_commit h l m else replied h BadLength l m
     | Abort \<Rightarrow> if is_empty then loader_abort h l m else replied h BadLength l m
     | Boot \<Rightarrow> if is_empty then loader_boot h l m else replied h BadLength l m)"
proof -
  have len: "unat (h_length h) = length body"
    using assms(1) by (simp add: h_def header_request_def unat_of_nat)
  have msg: "client_message i opcode arg0 body = header_encode h (replicate 32 0) @ body"
    by (simp add: client_message_def h_def)
  have dec: "header_decode (client_message i opcode arg0 body) = Inr h"
    unfolding msg using assms(1) len by (intro header_decode_encode) simp_all
  have body: "drop HEADER_SIZE (client_message i opcode arg0 body) = body"
    by (simp add: msg header_encode_layout)
  have h: "h_opcode h = opcode_code opcode" "h_arg0 h = arg0" "h_arg1 h = 0"
    by (simp_all add: h_def header_request_def)
  show ?thesis
    unfolding loader_handle_def dec body
    using h opcode_code_request [of opcode] by (simp add: opcode_decode_code split: opcode.split)
qed

lemma client_header [simp]:
  "h_arg0 ((header_request opcode i n)\<lparr>h_arg0 := a\<rparr>) = a"
  "h_arg1 ((header_request opcode i n)\<lparr>h_arg0 := a\<rparr>) = 0"
  by (simp_all add: header_request_def)

section \<open>A session\<close>

text \<open>The upload of one image in two pieces.\<close>

definition sample_upload :: "bytes list" where
  "sample_upload =
     [client_message 1 BeginBundle 0 (bundle_encode sample_bundle (replicate 80 0)),
      client_message 2 BeginImage 0 (image_encode sample_image_descriptor (replicate 32 0)),
      client_message 3 Data 0 [1, 2, 3, 4, 5],
      client_message 4 Data 5 [6, 7, 8],
      client_message 5 EndImage 0 [],
      client_message 6 CommitBundle 0 []]"





section \<open>Properties\<close>

text \<open>
  C15: Whatever messages a client sends, the loader answers each of them without a panic, and no byte
  outside the uploadable part of guest RAM changes: neither the monitor's resident area, nor its boot
  stack, nor the framebuffer, nor device memory.
\<close>

theorem loader_session_safe:
  "\<exists>l mem'. loader_session guest_memory messages loader_new mem = Some (l, mem')
     \<and> (\<forall>x. x \<notin> uploadable \<longrightarrow> mem' x = mem x)"
  using gm.session_ok [OF loader_new_inv] by blast

theorem loader_session_safe_witness:
  "\<exists>l mem'. loader_session guest_memory sample_upload loader_new (\<lambda>_. 7) = Some (l, mem')
     \<and> mem' 0x8a7f0000 = 7 \<and> mem' 0xfec00000 = 7"
proof -
  obtain l mem' where "loader_session guest_memory sample_upload loader_new (\<lambda>_. 7) = Some (l, mem')"
    and same: "\<forall>x. x \<notin> uploadable \<longrightarrow> mem' x = 7"
    using loader_session_safe [of sample_upload "\<lambda>_. 7"] by blast
  moreover have "mem' 0x8a7f0000 = 7" "mem' 0xfec00000 = 7"
    by (rule same [rule_format]; simp add: uploadable_def)+
  ultimately show ?thesis by blast
qed



text \<open>
  C17: A message that is not carried out, be it malformed and refused with a protocol error or answered with
  another status than \<open>Ok\<close>, leaves the loader and the memory as they were and asks for no action.
\<close>

theorem loader_rejection_changes_nothing:
  assumes "loader_session guest_memory messages loader_new mem = Some (l, m)"
    and "loader_handle guest_memory message l m = Some (result, l', m')"
    and "case result of Inl e \<Rightarrow> True | Inr (response, act) \<Rightarrow> response_status response \<noteq> status_value Ok"
  shows "l' = l \<and> m' = m \<and> (case result of Inl e \<Rightarrow> True | Inr (response, act) \<Rightarrow> act = NoAction)"
proof -
  have "loader_inv m l"
    using gm.session_ok [OF loader_new_inv, of messages mem] assms(1) by auto
  from gm.handle_ok [OF this, of message] show ?thesis
    using assms(3) by (auto simp: handled_ok_def assms(2) split: sum.splits)
qed

text \<open>Data before a bundle has begun, and a message that is too short.\<close>

theorem loader_rejection_changes_nothing_witness:
  "(\<exists>response. loader_handle guest_memory (client_message 1 Data 0 [1]) loader_new (\<lambda>_. 0)
     = Some (Inr (response, NoAction), loader_new, \<lambda>_. 0))
   \<and> (\<exists>e. loader_handle guest_memory [1, 2, 3] loader_new (\<lambda>_. 0) = Some (Inl e, loader_new, \<lambda>_. 0))"
proof
  obtain r act l' m' where
    h: "loader_handle guest_memory (client_message 1 Data 0 [1]) loader_new (\<lambda>_. 0)
      = Some (Inr (r, act), l', m')" and "response_status r = status_value BadState"
    by (simp add: handle_client_message loader_data_def replied_def loader_reply_def loader_new_def)
  then have "l' = loader_new \<and> m' = (\<lambda>_. 0) \<and> act = NoAction"
    using loader_rejection_changes_nothing [of "[]" "\<lambda>_. 0" loader_new "\<lambda>_. 0", OF _ h] by simp
  with h show "\<exists>response. loader_handle guest_memory (client_message 1 Data 0 [1]) loader_new (\<lambda>_. 0)
     = Some (Inr (response, NoAction), loader_new, \<lambda>_. 0)" by simp
next
  obtain e l' m' where h: "loader_handle guest_memory [1, 2, 3] loader_new (\<lambda>_. 0) = Some (Inl e, l', m')"
    by (simp add: loader_handle_def header_decode_def)
  then show "\<exists>e. loader_handle guest_memory [1, 2, 3] loader_new (\<lambda>_. 0) = Some (Inl e, loader_new, \<lambda>_. 0)"
    using loader_rejection_changes_nothing [of "[]" "\<lambda>_. 0" loader_new "\<lambda>_. 0", OF _ h] by simp
qed

end
