(* ===== verification/Client.thy ===== *)
theory Client
  imports Loader
begin

text \<open>
  The upload side of \<open>switchvisorctl\<close>: preparing a bundle from a manifest (\<open>bundle.rs\<close>) and
  transferring it (\<open>main.rs\<close>).  Files are given by their contents.  How \<open>Read::read\<close> cuts a file
  into chunks and how the USB host stack carries a message are parameters.  \<open>device\<close> is the other end,
  \<open>service_loader\<close> of \<open>usb.rs\<close> with the loader and guest memory.
\<close>


section \<open>Preparing a bundle\<close>

datatype bundle_error =
    BadNumber string
  | FileError string
  | FileTooLarge string
  | RegistersWithArgs
  | RegisterCount
  | BundleVersion u32
  | BundleImages
  | BadExtent string
  | OverlapsOther string
  | BadEntry
  | BadSingle

text \<open>\<open>u64::from_str_radix\<close>: an optional plus sign and at least one digit.\<close>

definition digit_value :: "nat \<Rightarrow> char \<Rightarrow> nat option" where
  "digit_value radix c =
     (let n = of_char c :: nat;
          v = (if 48 \<le> n \<and> n \<le> 57 then n - 48
               else if 97 \<le> n \<and> n \<le> 122 then n - 87
               else if 65 \<le> n \<and> n \<le> 90 then n - 55 else 36)
      in if v < radix then Some v else None)"

fun digits_value :: "nat \<Rightarrow> nat \<Rightarrow> string \<Rightarrow> nat option" where
  "digits_value radix acc [] = Some acc"
| "digits_value radix acc (c # cs) =
     (case digit_value radix c of
        None \<Rightarrow> None
      | Some d \<Rightarrow> let acc = acc * radix + d in
          if acc < 2 ^ 64 then digits_value radix acc cs else None)"

definition from_str_radix :: "nat \<Rightarrow> string \<Rightarrow> u64 option" where
  "from_str_radix radix s =
     (let digits = (case s of [] \<Rightarrow> [] | c # cs \<Rightarrow> if c = CHR ''+'' then cs else s)
      in if digits = [] then None else map_option word_of_nat (digits_value radix 0 digits))"

definition number :: "string \<Rightarrow> bundle_error + u64" where
  "number s =
     ok_or
       (if take 2 s = ''0x'' \<or> take 2 s = ''0X'' then from_str_radix 16 (drop 2 s)
        else from_str_radix 10 s)
       (BadNumber s)"

datatype manifest_number = Integer u64 | Text string

fun manifest_value :: "manifest_number \<Rightarrow> bundle_error + u64" where
  "manifest_value (Integer v) = Inr v"
| "manifest_value (Text s) = number s"

record manifest_image =
  mi_path :: string
  mi_address :: manifest_number
  mi_runtime_size :: "manifest_number option"

record manifest =
  mf_version :: u32
  mf_entry :: manifest_number
  mf_preserve_boot_args :: "bool option"
  mf_registers :: "manifest_number list option"
  mf_images :: "manifest_image list"

record prepared_image =
  pi_path :: string
  pi_descriptor :: image_descriptor

record prepared_bundle =
  pb_descriptor :: bundle_descriptor
  pb_images :: "prepared_image list"

text \<open>
  A file is read as a list of non-empty chunks no longer than the buffer (\<open>reads\<close> is a parameter), or
  cannot be opened.
\<close>

type_synonym files = "string \<Rightarrow> bytes option"
type_synonym reads = "nat \<Rightarrow> bytes \<Rightarrow> bytes list"

fun crc_loop :: "u64 \<Rightarrow> u32 \<Rightarrow> bytes list \<Rightarrow> (u64 \<times> u32) option" where
  "crc_loop len crc [] = Some (len, crc)"
| "crc_loop len crc (chunk # chunks) =
     (case checked_add len (word_of_nat (length chunk)) of
        None \<Rightarrow> None
      | Some len \<Rightarrow> crc_loop len (crc_update crc chunk) chunks)"

definition file_crc :: "files \<Rightarrow> reads \<Rightarrow> string \<Rightarrow> bundle_error + u64 \<times> u32" where
  "file_crc files reads path =
     (case files path of
        None \<Rightarrow> Inl (FileError path)
      | Some content \<Rightarrow>
          (case crc_loop 0 crc_new (reads (64 * 1024) content) of
             None \<Rightarrow> Inl (FileTooLarge path)
           | Some (len, crc) \<Rightarrow> Inr (len, crc_finish crc)))"

text \<open>The ends are of validated descriptors, so they do not overflow.\<close>

definition descriptors_overlap :: "image_descriptor \<Rightarrow> image_descriptor \<Rightarrow> bool" where
  "descriptors_overlap l r \<longleftrightarrow>
     (let left_end = im_address l + im_runtime_size l;
          right_end = im_address r + im_runtime_size r
      in im_address l < right_end \<and> im_address r < left_end)"

definition manifest_registers :: "manifest \<Rightarrow> bundle_error + u32 \<times> u64 list" where
  "manifest_registers f =
     (case mf_registers f of
        None \<Rightarrow>
          Inr (if (case mf_preserve_boot_args f of None \<Rightarrow> True | Some b \<Rightarrow> b)
               then PRESERVE_BOOT_ARGS else 0, replicate 8 0)
      | Some values \<Rightarrow>
          if mf_preserve_boot_args f = Some True then Inl RegistersWithArgs
          else if length values \<noteq> 8 then Inl RegisterCount
          else and_then (try_map manifest_value values) (\<lambda>registers. Inr (0, registers)))"

fun prepare_images ::
  "files \<Rightarrow> reads \<Rightarrow> prepared_image list \<Rightarrow> manifest_image list
     \<Rightarrow> bundle_error + prepared_image list" where
  "prepare_images files reads images [] = Inr images"
| "prepare_images files reads images (i # is) =
     and_then (file_crc files reads (mi_path i)) (\<lambda>(file_size, crc).
     and_then (manifest_value (mi_address i)) (\<lambda>address.
     and_then (case mi_runtime_size i of None \<Rightarrow> Inr file_size | Some v \<Rightarrow> manifest_value v)
       (\<lambda>runtime_size.
         let d = \<lparr>im_address = address, im_file_size = file_size, im_runtime_size = runtime_size,
                  im_crc32 = crc, im_flags = 0\<rparr>
         in if \<not> image_validate d then Inl (BadExtent (mi_path i))
            else if list_ex (\<lambda>other. descriptors_overlap d (pi_descriptor other)) images
            then Inl (OverlapsOther (mi_path i))
            else prepare_images files reads
                   (images @ [\<lparr>pi_path = mi_path i, pi_descriptor = d\<rparr>]) is)))"

text \<open>
  The manifest is the one \<open>serde_json\<close> parsed, with the paths of its files joined to its directory: \<open>files\<close>
  and the paths stand for the file system.
\<close>

definition from_manifest :: "files \<Rightarrow> reads \<Rightarrow> manifest \<Rightarrow> bundle_error + prepared_bundle" where
  "from_manifest files reads f =
     (if mf_version f \<noteq> 1 then Inl (BundleVersion (mf_version f))
      else if mf_images f = [] \<or> length (mf_images f) > MAX_IMAGES then Inl BundleImages
      else
        and_then (prepare_images files reads [] (mf_images f)) (\<lambda>images.
        and_then (manifest_registers f) (\<lambda>(flags, registers).
        and_then (manifest_value (mf_entry f)) (\<lambda>entry.
          let d = \<lparr>bd_entry = entry, bd_image_count = word_of_nat (length images),
                   bd_flags = flags, bd_registers = registers\<rparr>
          in if \<not> bundle_validate d
                \<or> \<not> list_ex (\<lambda>i. contains_entry (pi_descriptor i) (bd_entry d)) images
             then Inl BadEntry
             else Inr \<lparr>pb_descriptor = d, pb_images = images\<rparr>))))"

definition single_bundle ::
  "files \<Rightarrow> reads \<Rightarrow> string \<Rightarrow> u64 \<Rightarrow> u64 \<Rightarrow> u64 \<Rightarrow> u32 \<Rightarrow> u64 list
     \<Rightarrow> bundle_error + prepared_bundle" where
  "single_bundle files reads path address runtime_size entry flags registers =
     and_then (file_crc files reads path) (\<lambda>(file_size, crc).
       let image = \<lparr>im_address = address, im_file_size = file_size,
                    im_runtime_size = runtime_size, im_crc32 = crc, im_flags = 0\<rparr>;
           d = \<lparr>bd_entry = entry, bd_image_count = 1, bd_flags = flags, bd_registers = registers\<rparr>
       in if \<not> image_validate image \<or> \<not> bundle_validate d \<or> \<not> contains_entry image entry
          then Inl BadSingle
          else Inr \<lparr>pb_descriptor = d,
                    pb_images = [\<lparr>pi_path = path, pi_descriptor = image\<rparr>]\<rparr>)"


section \<open>Transferring a bundle\<close>

datatype client_error =
    BodyTooLarge
  | TransferFailed
  | ResponseSize nat
  | ResponseHeader protocol_error
  | ResponseMismatch
  | Rejected opcode u64 u64
  | TruncatedResponse
  | HelloSize nat
  | CapabilityMismatch
  | FileUnreadable string
  | Acknowledged u64 u64
  | FileChanged string

text \<open>
  \<open>tr_exchange zlp message\<close> sends one OUT transfer, followed by a zero-length packet if \<open>zlp\<close>, and
  returns the next IN transfer.
\<close>

record 'd transport =
  tr_packet :: nat
  tr_exchange :: "bool \<Rightarrow> bytes \<Rightarrow> 'd \<Rightarrow> (client_error + bytes) \<times> 'd"

text \<open>A \<open>LoaderTransport\<close>: the next request id and the device behind the endpoints.\<close>

type_synonym 'd link = "u32 \<times> 'd"

definition body_u32 :: "bytes \<Rightarrow> nat \<Rightarrow> client_error + u32" where
  "body_u32 body offset =
     and_then (ok_or (slice_get offset (offset + 4) body) TruncatedResponse) (\<lambda>v. Inr (from_le32 v))"

definition body_u64 :: "bytes \<Rightarrow> nat \<Rightarrow> client_error + u64" where
  "body_u64 body offset =
     and_then (ok_or (slice_get offset (offset + 8) body) TruncatedResponse) (\<lambda>v. Inr (from_le64 v))"

record capabilities =
  cp_guest_ram_base :: u64
  cp_guest_ram_end :: u64
  cp_max_chunk_size :: nat
  cp_bundle_descriptor_size :: nat
  cp_image_descriptor_size :: nat
  cp_max_images :: nat

definition read_capabilities :: "bytes \<Rightarrow> client_error + capabilities" where
  "read_capabilities body =
     (if length body \<noteq> 32 then Inl (HelloSize (length body))
      else
        and_then (body_u64 body 0) (\<lambda>base.
        and_then (body_u64 body 8) (\<lambda>limit.
        and_then (body_u32 body 16) (\<lambda>chunk.
        and_then (body_u32 body 20) (\<lambda>bundle_size.
        and_then (body_u32 body 24) (\<lambda>image_size.
        and_then (body_u32 body 28) (\<lambda>images.
          Inr \<lparr>cp_guest_ram_base = base, cp_guest_ram_end = limit,
               cp_max_chunk_size = unat chunk, cp_bundle_descriptor_size = unat bundle_size,
               cp_image_descriptor_size = unat image_size, cp_max_images = unat images\<rparr>)))))))"

definition client_request ::
  "'d transport \<Rightarrow> opcode \<Rightarrow> u64 \<Rightarrow> bytes \<Rightarrow> 'd link \<Rightarrow> (client_error + header \<times> bytes) \<times> 'd link" where
  "client_request tr opcode arg0 body link =
     (case link of (request_id, dev) \<Rightarrow>
        if length body > MAX_BODY_SIZE then (Inl BodyTooLarge, link)
        else
          let next_id = max (request_id + 1) 1;
              message = client_message request_id opcode arg0 body;
              zlp = (length message < HEADER_SIZE + MAX_BODY_SIZE
                     \<and> length message mod tr_packet tr = 0)
          in case tr_exchange tr zlp message dev of (result, dev) \<Rightarrow>
            (and_then result (\<lambda>reply.
               if length reply < HEADER_SIZE \<or> length reply > MAX_RESPONSE_SIZE
               then Inl (ResponseSize (length reply))
               else case header_decode reply of
                 Inl e \<Rightarrow> Inl (ResponseHeader e)
               | Inr h \<Rightarrow>
                   if h_request_id h \<noteq> request_id
                      \<or> h_opcode h \<noteq> (opcode_code opcode OR REPLY_FLAG)
                   then Inl ResponseMismatch
                   else if h_arg0 h \<noteq> status_value Ok
                   then Inl (Rejected opcode (h_arg0 h) (h_arg1 h))
                   else Inr (h, drop HEADER_SIZE reply)),
             (next_id, dev)))"

text \<open>\<open>?\<close> on a request: go on with its answer, or return its error with the link as it is then.\<close>

definition after ::
  "('e + 'a) \<times> 's \<Rightarrow> ('a \<Rightarrow> 's \<Rightarrow> ('e + 'b) \<times> 's) \<Rightarrow> ('e + 'b) \<times> 's" where
  "after r f = (case r of (Inl e, s) \<Rightarrow> (Inl e, s) | (Inr x, s) \<Rightarrow> f x s)"

definition validate_capabilities :: "capabilities \<Rightarrow> prepared_bundle \<Rightarrow> client_error + unit" where
  "validate_capabilities c bundle =
     (if cp_guest_ram_base c \<noteq> GUEST_RAM_BASE \<or> cp_guest_ram_end c \<noteq> GUEST_RAM_END
         \<or> cp_bundle_descriptor_size c \<noteq> BUNDLE_DESCRIPTOR_SIZE
         \<or> cp_image_descriptor_size c \<noteq> IMAGE_DESCRIPTOR_SIZE
         \<or> cp_max_chunk_size c = 0 \<or> cp_max_chunk_size c > MAX_BODY_SIZE
         \<or> cp_max_images c > MAX_IMAGES
         \<or> length (pb_images bundle) > cp_max_images c
      then Inl CapabilityMismatch else Inr ())"

fun send_chunks ::
  "'d transport \<Rightarrow> u64 \<Rightarrow> bytes list \<Rightarrow> 'd link \<Rightarrow> (client_error + u64) \<times> 'd link" where
  "send_chunks tr offset [] link = (Inr offset, link)"
| "send_chunks tr offset (chunk # chunks) link =
     after (client_request tr Data offset chunk link) (\<lambda>(reply, _) link.
       let offset = offset + word_of_nat (length chunk)
       in if h_arg1 reply \<noteq> offset then (Inl (Acknowledged (h_arg1 reply) offset), link)
          else send_chunks tr offset chunks link)"

definition send_image ::
  "'d transport \<Rightarrow> files \<Rightarrow> reads \<Rightarrow> nat \<Rightarrow> prepared_image \<Rightarrow> 'd link
     \<Rightarrow> (client_error + unit) \<times> 'd link" where
  "send_image tr files reads chunk_size img link =
     after (client_request tr BeginImage 0
              (image_encode (pi_descriptor img) (replicate IMAGE_DESCRIPTOR_SIZE 0)) link)
       (\<lambda>_ link.
         case files (pi_path img) of
           None \<Rightarrow> (Inl (FileUnreadable (pi_path img)), link)
         | Some content \<Rightarrow>
             after (send_chunks tr 0 (reads chunk_size content) link) (\<lambda>offset link.
               if offset \<noteq> im_file_size (pi_descriptor img)
               then (Inl (FileChanged (pi_path img)), link)
               else after (client_request tr EndImage 0 [] link) (\<lambda>_ link. (Inr (), link))))"

fun send_images ::
  "'d transport \<Rightarrow> files \<Rightarrow> reads \<Rightarrow> nat \<Rightarrow> prepared_image list \<Rightarrow> 'd link
     \<Rightarrow> (client_error + unit) \<times> 'd link" where
  "send_images tr files reads chunk_size [] link = (Inr (), link)"
| "send_images tr files reads chunk_size (i # is) link =
     after (send_image tr files reads chunk_size i link)
       (\<lambda>_ link. send_images tr files reads chunk_size is link)"

definition transfer_bundle ::
  "'d transport \<Rightarrow> files \<Rightarrow> reads \<Rightarrow> prepared_bundle \<Rightarrow> bool \<Rightarrow> 'd link
     \<Rightarrow> (client_error + unit) \<times> 'd link" where
  "transfer_bundle tr files reads bundle boot link =
     after (client_request tr Hello 0 [] link) (\<lambda>(_, hello) link.
       case read_capabilities hello of
         Inl e \<Rightarrow> (Inl e, link)
       | Inr c \<Rightarrow>
           (case validate_capabilities c bundle of
              Inl e \<Rightarrow> (Inl e, link)
            | Inr _ \<Rightarrow>
                after (client_request tr BeginBundle 0
                         (bundle_encode (pb_descriptor bundle)
                            (replicate BUNDLE_DESCRIPTOR_SIZE 0)) link) (\<lambda>_ link.
                  case after (send_images tr files reads (cp_max_chunk_size c) (pb_images bundle) link)
                         (\<lambda>_ link.
                           after (client_request tr CommitBundle 0 [] link) (\<lambda>_ link.
                             if boot then after (client_request tr Boot 0 [] link) (\<lambda>_ link. (Inr (), link))
                             else (Inr (), link))) of
                    (Inl e, link) \<Rightarrow> (Inl e, snd (client_request tr Abort 0 [] link))
                  | (Inr _, link) \<Rightarrow> (Inr (), link))))"

text \<open>
  The device: \<open>service_loader\<close> handing a complete message to the loader and its response to the host,
  and keeping the descriptor of a boot action.  Without a response the host's IN transfer times out.
  One bulk transfer carries one whole message; the packets it is split into, and the empty packet that ends
  one of a full length, are the transport's.
\<close>

record device =
  dv_loader :: loader
  dv_memory :: memory
  dv_boot :: "bundle_descriptor option"

definition device_exchange :: "bool \<Rightarrow> bytes \<Rightarrow> device \<Rightarrow> (client_error + bytes) \<times> device" where
  "device_exchange zlp message dev =
     (case loader_handle guest_memory message (dv_loader dev) (dv_memory dev) of
        None \<Rightarrow> (Inl TransferFailed, dev)
      | Some (Inl e, l, m) \<Rightarrow> (Inl TransferFailed, dev\<lparr>dv_loader := l, dv_memory := m\<rparr>)
      | Some (Inr (r, act), l, m) \<Rightarrow>
          (case response_encode r (replicate MAX_RESPONSE_SIZE 0) of
             (encoded, len) \<Rightarrow>
               (Inr (take len encoded),
                dev\<lparr>dv_loader := l, dv_memory := m,
                    dv_boot := (case act of NoAction \<Rightarrow> dv_boot dev | BootBundle b \<Rightarrow> Some b)\<rparr>)))"

definition device_transport :: "device transport" where
  "device_transport = \<lparr>tr_packet = 512, tr_exchange = device_exchange\<rparr>"

section \<open>What preparation establishes\<close>

definition valid_reads :: "reads \<Rightarrow> bool" where
  "valid_reads reads \<longleftrightarrow>
     (\<forall>n content. 0 < n \<longrightarrow> concat (reads n content) = content
        \<and> (\<forall>chunk \<in> set (reads n content). chunk \<noteq> [] \<and> length chunk \<le> n))"

text \<open>The image a file is uploaded as: its descriptor is valid and describes the file.\<close>

definition describes :: "files \<Rightarrow> prepared_image \<Rightarrow> bool" where
  "describes files i \<longleftrightarrow> image_validate (pi_descriptor i)
     \<and> (\<exists>content. files (pi_path i) = Some content
          \<and> length content = unat (im_file_size (pi_descriptor i))
          \<and> crc32 content = im_crc32 (pi_descriptor i))"

definition prepared_ok :: "files \<Rightarrow> prepared_bundle \<Rightarrow> bool" where
  "prepared_ok files pb \<longleftrightarrow>
     bundle_validate (pb_descriptor pb) \<and> length (bd_registers (pb_descriptor pb)) = 8
     \<and> length (pb_images pb) = unat (bd_image_count (pb_descriptor pb))
     \<and> list_all (describes files) (pb_images pb)
     \<and> sorted_wrt separate (map pi_descriptor (pb_images pb))
     \<and> list_ex (\<lambda>i. contains_entry (pi_descriptor i) (bd_entry (pb_descriptor pb))) (pb_images pb)"

lemma crc_loop_eq:
  assumes "crc_loop len crc chunks = Some (n, c)" and "\<forall>chunk \<in> set chunks. length chunk < 2 ^ 64"
  shows "unat n = unat len + length (concat chunks) \<and> c = crc_update crc (concat chunks)"
  using assms
proof (induction chunks arbitrary: len crc)
  case (Cons chunk chunks)
  obtain len' where l: "checked_add len (word_of_nat (length chunk)) = Some len'"
    and rest: "crc_loop len' (crc_update crc chunk) chunks = Some (n, c)"
    using Cons.prems(1) by (auto split: option.splits)
  have "unat len' = unat len + length chunk"
    using l Cons.prems(2) by (simp add: checked_add_Some_iff unat_of_nat)
  with Cons.IH [OF rest] Cons.prems(2) show ?case by (simp add: crc_update_append)
qed (simp add: crc_update_def)

lemma file_crc_Inr:
  assumes "valid_reads reads" and "file_crc files reads path = Inr (n, c)"
  shows "\<exists>content. files path = Some content \<and> length content = unat n \<and> crc32 content = c"
proof -
  obtain content n' c' where f: "files path = Some content"
    and loop: "crc_loop 0 crc_new (reads (64 * 1024) content) = Some (n', c')"
    and "n = n'" "c = crc_finish c'"
    using assms(2) by (auto simp: file_crc_def split: option.splits)
  moreover have r: "concat (reads (64 * 1024) content) = content"
    "\<forall>chunk \<in> set (reads (64 * 1024) content). length chunk \<le> 64 * 1024"
    using assms(1) by (simp_all add: valid_reads_def)
  moreover have "\<forall>chunk \<in> set (reads (64 * 1024) content). length chunk < 2 ^ 64"
  proof
    fix chunk assume "chunk \<in> set (reads (64 * 1024) content)"
    with r(2) have "length chunk \<le> 64 * 1024" by (rule bspec)
    then show "length chunk < 2 ^ 64" by simp
  qed
  ultimately show ?thesis using crc_loop_eq [OF loop] by (auto simp: crc32_def)
qed

lemma intervals_disjoint:
  fixes a b :: nat
  assumes "0 < n" and "0 < m"
  shows "{a..<a + n} \<inter> {b..<b + m} = {} \<longleftrightarrow> a + n \<le> b \<or> b + m \<le> a"
proof
  assume "{a..<a + n} \<inter> {b..<b + m} = {}"
  then have "max a b \<notin> {a..<a + n} \<inter> {b..<b + m}" by blast
  then show "a + n \<le> b \<or> b + m \<le> a" using assms by auto
qed auto

lemma descriptors_overlap_valid:
  assumes "image_validate d" and "image_validate e"
  shows "descriptors_overlap d e \<longleftrightarrow> \<not> separate d e"
proof -
  have ends: "unat (im_address f + im_runtime_size f) = unat (im_address f) + unat (im_runtime_size f)"
    if "image_validate f" for f
    using image_validateD(4) [OF that] by (intro unat_add_no_overflow) simp
  have pos: "0 < unat (im_runtime_size f)" if "image_validate f" for f
    using image_validateD(1,2) [OF that] by linarith
  show ?thesis
    unfolding descriptors_overlap_def Let_def separate_def image_set_def word_less_nat_alt
      ends [OF assms(1)] ends [OF assms(2)]
      intervals_disjoint [OF pos [OF assms(1)] pos [OF assms(2)]]
    by linarith
qed

lemma prepare_images_Inr:
  assumes "valid_reads reads"
  shows "prepare_images files reads images is = Inr result \<Longrightarrow>
    list_all (describes files) images \<Longrightarrow> sorted_wrt separate (map pi_descriptor images) \<Longrightarrow>
    list_all (describes files) result \<and> sorted_wrt separate (map pi_descriptor result)
    \<and> length result = length images + length is"
proof (induction "is" arbitrary: images)
  case (Cons i "is")
  obtain n c address runtime where crc: "file_crc files reads (mi_path i) = Inr (n, c)"
    and step: "prepare_images files reads
      (images @ [\<lparr>pi_path = mi_path i, pi_descriptor = \<lparr>im_address = address, im_file_size = n,
         im_runtime_size = runtime, im_crc32 = c, im_flags = 0\<rparr>\<rparr>]) is = Inr result"
    and valid: "image_validate \<lparr>im_address = address, im_file_size = n,
         im_runtime_size = runtime, im_crc32 = c, im_flags = 0\<rparr>"
    and sep: "\<not> list_ex (\<lambda>other. descriptors_overlap \<lparr>im_address = address, im_file_size = n,
         im_runtime_size = runtime, im_crc32 = c, im_flags = 0\<rparr> (pi_descriptor other)) images"
    using Cons.prems(1) by (auto simp: and_then_Inr_iff Let_def split: if_splits)
  let ?i = "\<lparr>pi_path = mi_path i, pi_descriptor = \<lparr>im_address = address, im_file_size = n,
         im_runtime_size = runtime, im_crc32 = c, im_flags = 0\<rparr>\<rparr>"
  have "describes files ?i"
    using file_crc_Inr [OF assms crc] valid by (auto simp: describes_def)
  moreover have "separate (pi_descriptor other) (pi_descriptor ?i)" if "other \<in> set images" for other
    using sep that Cons.prems(2) descriptors_overlap_valid [OF valid]
    by (auto simp: list_ex_iff list_all_iff describes_def separate_sym)
  ultimately show ?case
    using Cons.IH [OF step] Cons.prems(2,3) by (auto simp: sorted_wrt_append)
qed auto

lemma manifest_registers_length:
  assumes "manifest_registers f = Inr (flags, registers)"
  shows "length registers = 8"
proof -
  have "try_map g xs = Inr ys \<Longrightarrow> length ys = length xs"
    for g :: "manifest_number \<Rightarrow> bundle_error + u64" and xs ys
    by (induction xs arbitrary: ys) (auto simp: and_then_Inr_iff)
  with assms show ?thesis
    by (auto simp: manifest_registers_def and_then_Inr_iff split: option.splits if_splits)
qed

lemma from_manifest_ok:
  assumes "valid_reads reads" and "from_manifest files reads f = Inr pb"
  shows "prepared_ok files pb"
proof -
  obtain images flags registers entry where
    images: "prepare_images files reads [] (mf_images f) = Inr images"
    and regs: "manifest_registers f = Inr (flags, registers)"
    and pb: "pb = \<lparr>pb_descriptor = \<lparr>bd_entry = entry, bd_image_count = word_of_nat (length images),
        bd_flags = flags, bd_registers = registers\<rparr>, pb_images = images\<rparr>"
    and ok: "bundle_validate (pb_descriptor pb)"
      "list_ex (\<lambda>i. contains_entry (pi_descriptor i) (bd_entry (pb_descriptor pb))) images"
    and count: "length (mf_images f) \<le> MAX_IMAGES"
    using assms(2)
    by (auto simp: from_manifest_def and_then_Inr_iff Let_def not_less split: if_splits)
  have "list_all (describes files) images \<and> sorted_wrt separate (map pi_descriptor images)
      \<and> length images = length (mf_images f)"
    using prepare_images_Inr [OF assms(1) images] by simp
  then show ?thesis
    using ok count manifest_registers_length [OF regs]
    by (auto simp: prepared_ok_def pb unat_of_nat)
qed

section \<open>Each request of a transfer\<close>

text \<open>A response reaches the client unchanged.\<close>

definition plain_response :: "response \<Rightarrow> opcode \<Rightarrow> u32 \<Rightarrow> bytes \<Rightarrow> bool" where
  "plain_response r opcode i body \<longleftrightarrow>
     h_opcode (rs_header r) = (opcode_code opcode OR REPLY_FLAG) \<and> h_request_id (rs_header r) = i
     \<and> h_arg0 (rs_header r) = status_value Ok \<and> unat (h_length (rs_header r)) = length body
     \<and> length body \<le> 48 \<and> length (rs_body r) = 48 \<and> take (length body) (rs_body r) = body"

lemma plain_response_new:
  assumes "length body \<le> 48"
  shows "plain_response (response_new ((header_request opcode i n)\<lparr>h_arg0 := a\<rparr>) Ok st body) opcode i body"
  using assms
  by (simp add: plain_response_def response_new_def header_request_def unat_of_nat splice_def)

lemma response_encode_plain:
  assumes "plain_response r opcode i body"
  shows "response_encode r (replicate MAX_RESPONSE_SIZE 0)
    = (header_encode (rs_header r) (replicate 32 0) @ body @ replicate (48 - length body) 0,
       32 + length body)"
proof -
  have "length (header_encode (rs_header r) (replicate 32 0)) = 32"
    by (simp add: header_encode_layout)
  then show ?thesis
    using assms by (simp add: response_encode_def plain_response_def splice_def Let_def)
qed

lemma device_request:
  assumes "length body \<le> MAX_BODY_SIZE"
    and "loader_handle guest_memory (client_message i opcode arg0 body) (dv_loader dev) (dv_memory dev)
      = Some (Inr (r, act), l, m)"
    and plain: "plain_response r opcode i reply"
  shows "client_request device_transport opcode arg0 body (i, dev)
    = (Inr (rs_header r, reply),
       (max (i + 1) 1, dev\<lparr>dv_loader := l, dv_memory := m,
          dv_boot := (case act of NoAction \<Rightarrow> dv_boot dev | BootBundle b \<Rightarrow> Some b)\<rparr>))"
proof -
  let ?h = "header_encode (rs_header r) (replicate 32 0)"
  have len: "length ?h = 32" by (simp add: header_encode_layout)
  have dec: "header_decode (?h @ reply) = Inr (rs_header r)"
    using plain by (intro header_decode_encode) (simp_all add: plain_response_def)
  have "device_exchange zlp (client_message i opcode arg0 body) dev
      = (Inr (?h @ reply), dev\<lparr>dv_loader := l, dv_memory := m,
          dv_boot := (case act of NoAction \<Rightarrow> dv_boot dev | BootBundle b \<Rightarrow> Some b)\<rparr>)" for zlp
    using assms(2) len 
    by (simp add: device_exchange_def response_encode_plain [OF plain, simplified])
  then show ?thesis
    using assms(1) plain len dec
    by (simp add: client_request_def device_transport_def Let_def plain_response_def)
qed

text \<open>The loader between images: \<open>ds\<close> are done.\<close>

definition between_images :: "loader \<Rightarrow> bundle_descriptor \<Rightarrow> image_descriptor list \<Rightarrow> bool" where
  "between_images l b ds \<longleftrightarrow>
     ld_state l = LBundle \<and> ld_bundle l = Some b \<and> length (ld_images l) = MAX_IMAGES
     \<and> length ds = ld_completed l \<and> ld_completed l \<le> MAX_IMAGES
     \<and> take (ld_completed l) (ld_images l) = map Some ds \<and> list_all image_validate ds"

lemma overwrite_append:
  "overwrite (a + length xs) ys (overwrite a xs mem) = overwrite a (xs @ ys) mem"
  by (rule ext) (auto simp: overwrite_def nth_append)

definition uploading :: "loader \<Rightarrow> image_descriptor \<Rightarrow> nat \<Rightarrow> bytes \<Rightarrow> loader" where
  "uploading l d n bs =
     l\<lparr>ld_current := Some d, ld_received := word_of_nat n,
       ld_crc32 := crc_update crc_new bs, ld_state := LReceiving\<rparr>"

lemma begin_image_step:
  assumes "between_images l b ds" and "length ds < unat (bd_image_count b)"
    and "image_validate d" and "list_all (separate d) ds"
  shows "client_request device_transport BeginImage 0
      (image_encode d (replicate IMAGE_DESCRIPTOR_SIZE 0)) (i, dev\<lparr>dv_loader := l\<rparr>)
    = (Inr (rs_header (response_new ((header_request BeginImage i 32)\<lparr>h_arg0 := 0\<rparr>) Ok LReceiving []), []),
       (max (i + 1) 1, dev\<lparr>dv_loader := uploading l d 0 []\<rparr>))"
proof -
  let ?body = "image_encode d (replicate IMAGE_DESCRIPTOR_SIZE 0)"
  have len: "length ?body = 32" by (simp add: image_encode_def)
  have dec: "image_decode ?body = Some d" by (rule image_decode_encode) (simp_all add: assms)
  have slice: "slice_get 0 (ld_completed l) (ld_images l) = Some (map Some ds)"
    and valid: "list_all image_validate ds"
    using assms(1) by (simp_all add: between_images_def slice_get_def)
  have "loader_handle guest_memory (client_message i BeginImage 0 ?body) l (dv_memory dev)
      = replied ((header_request BeginImage i 32)\<lparr>h_arg0 := 0\<rparr>) Ok (uploading l d 0 []) (dv_memory dev)"
    using assms len dec slice any_overlap_valid [OF assms(3) valid]
    by (simp add: handle_client_message loader_begin_image_def between_images_def uploading_def
        crc_update_def)
  then show ?thesis
    using len
    by (subst device_request [where act = NoAction and reply = "[]"])
       (auto simp: replied_def loader_reply_def plain_response_new uploading_def)
qed

lemma image_part_uploadable:
  assumes "image_validate d" and "n + k \<le> unat (im_runtime_size d)" and "0 < k"
  shows "guest_range (im_address d + word_of_nat n) (word_of_nat k)"
    and "unat (im_address d + word_of_nat n) = unat (im_address d) + n"
    and "checked_add (im_address d) (word_of_nat n) = Some (im_address d + word_of_nat n)"
proof -
  note img = image_validateD [OF assms(1)]
  have small: "n + k < 2 ^ 64" using assms(2) img(4) by simp
  then have n: "unat (word_of_nat n :: u64) = n" and k: "unat (word_of_nat k :: u64) = k"
    by (simp_all add: unat_of_nat)
  have fit: "unat (im_address d) + unat (word_of_nat n :: u64) < 2 ^ 64"
    using assms(2) img(4) n by simp
  then show start: "unat (im_address d + word_of_nat n) = unat (im_address d) + n"
    using n by (simp add: unat_add_no_overflow)
  show "checked_add (im_address d) (word_of_nat n) = Some (im_address d + word_of_nat n)"
    using fit by (simp add: checked_add_def)
  have "(word_of_nat k :: u64) \<noteq> 0" using k assms(3) by (metis unat_0 less_irrefl)
  moreover have "{unat (im_address d) + n..<unat (im_address d) + n + k} \<subseteq> image_set d"
    using assms(2) by (auto simp: image_set_def)
  ultimately show "guest_range (im_address d + word_of_nat n) (word_of_nat k)"
    using img(3) by (auto simp: guest_range_iff start k)
qed

lemma data_step:
  assumes valid: "image_validate d" and chunk: "chunk \<noteq> []" "length chunk \<le> MAX_BODY_SIZE"
    and fits: "length bs + length chunk \<le> unat (im_file_size d)"
    and dev: "dv_loader dev = uploading l d (length bs) bs"
  shows "\<exists>h. client_request device_transport Data (word_of_nat (length bs)) chunk (i, dev)
    = (Inr (h, []), (max (i + 1) 1,
         dev\<lparr>dv_loader := uploading l d (length (bs @ chunk)) (bs @ chunk),
             dv_memory := overwrite (unat (im_address d) + length bs) chunk (dv_memory dev)\<rparr>))
      \<and> h_arg1 h = word_of_nat (length (bs @ chunk))"
proof -
  note img = image_validateD [OF valid]
  let ?n = "word_of_nat (length bs) :: u64" and ?k = "word_of_nat (length chunk) :: u64"
  have pos: "0 < length chunk" using chunk(1) by simp
  have le: "length bs + length chunk \<le> unat (im_runtime_size d)" using fits img(2) by simp
  have small: "length bs + length chunk < 2 ^ 64" using le img(4) by simp
  note part = image_part_uploadable [OF valid le pos]
  have nk: "unat ?n = length bs" "unat ?k = length chunk" using small by (simp_all add: unat_of_nat)
  have add: "checked_add ?n ?k = Some (?n + ?k)" and sum: "unat (?n + ?k) = length bs + length chunk"
    using small nk by (simp_all add: checked_add_def unat_add_no_overflow)
  let ?h = "(header_request Data i (word_of_nat (length chunk)))\<lparr>h_arg0 := ?n\<rparr>"
  let ?r = "response_new ?h Ok LReceiving []"
  let ?r' = "?r\<lparr>rs_header := (rs_header ?r)\<lparr>h_arg1 := ?n + ?k\<rparr>\<rparr>"
  have data: "loader_data guest_memory ?h chunk (uploading l d (length bs) bs) (dv_memory dev)
      = Some (Inr (?r', NoAction), uploading l d (length (bs @ chunk)) (bs @ chunk),
          overwrite (unat (im_address d) + length bs) chunk (dv_memory dev))"
    using chunk part add sum fits
    by (simp add: loader_data_def uploading_def guest_memory_def guest_memory_write_def
        word_less_nat_alt Let_def crc_update_append)
  have "client_request device_transport Data ?n chunk (i, dev)
    = (Inr (rs_header ?r', []), (max (i + 1) 1,
         dev\<lparr>dv_loader := uploading l d (length (bs @ chunk)) (bs @ chunk),
             dv_memory := overwrite (unat (im_address d) + length bs) chunk (dv_memory dev)\<rparr>))"
  proof (subst device_request [where act = NoAction and reply = "[]"])
    show "plain_response ?r' Data i []"
      using plain_response_new [where opcode = Data and i = i and body = "[]"
          and n = "word_of_nat (length chunk)" and a = ?n and st = LReceiving]
      by (simp add: plain_response_def)
  qed (use chunk data dev in \<open>simp_all add: handle_client_message\<close>)
  then show ?thesis by simp
qed

lemma send_chunks_ok:
  assumes valid: "image_validate d"
    and "\<forall>chunk \<in> set chunks. chunk \<noteq> [] \<and> length chunk \<le> MAX_BODY_SIZE"
    and "length (bs @ concat chunks) \<le> unat (im_file_size d)"
    and "dv_loader dev = uploading l d (length bs) bs"
  shows "\<exists>j. send_chunks device_transport (word_of_nat (length bs)) chunks (i, dev)
    = (Inr (word_of_nat (length (bs @ concat chunks))), (j,
         dev\<lparr>dv_loader := uploading l d (length (bs @ concat chunks)) (bs @ concat chunks),
             dv_memory := overwrite (unat (im_address d) + length bs) (concat chunks) (dv_memory dev)\<rparr>))"
  using assms(2-)
proof (induction chunks arbitrary: bs i dev)
  case Nil
  then show ?case by simp
next
  case (Cons chunk chunks)
  then have chunk: "chunk \<noteq> []" "length chunk \<le> MAX_BODY_SIZE"
    and fits: "length bs + length chunk \<le> unat (im_file_size d)" by simp_all
  let ?dev = "dev\<lparr>dv_loader := uploading l d (length (bs @ chunk)) (bs @ chunk),
      dv_memory := overwrite (unat (im_address d) + length bs) chunk (dv_memory dev)\<rparr>"
  obtain h where step: "client_request device_transport Data (word_of_nat (length bs)) chunk (i, dev)
      = (Inr (h, []), (max (i + 1) 1, ?dev))"
    and ack: "h_arg1 h = word_of_nat (length (bs @ chunk))"
    using data_step [OF valid chunk fits Cons.prems(3)] by blast
  have "length ((bs @ chunk) @ concat chunks) \<le> unat (im_file_size d)"
    using Cons.prems(2) by simp
  then obtain j where rest: "send_chunks device_transport (word_of_nat (length (bs @ chunk))) chunks
      (max (i + 1) 1, ?dev)
    = (Inr (word_of_nat (length ((bs @ chunk) @ concat chunks))), (j,
         ?dev\<lparr>dv_loader := uploading l d (length ((bs @ chunk) @ concat chunks)) ((bs @ chunk) @ concat chunks),
             dv_memory := overwrite (unat (im_address d) + length (bs @ chunk)) (concat chunks) (dv_memory ?dev)\<rparr>))"
    using Cons.IH [of "bs @ chunk" ?dev "max (i + 1) 1"] Cons.prems(1) by auto
  have mem: "overwrite (unat (im_address d) + length (bs @ chunk)) (concat chunks) (dv_memory ?dev)
      = overwrite (unat (im_address d) + length bs) (concat (chunk # chunks)) (dv_memory dev)"
    using overwrite_append [of "unat (im_address d) + length bs" chunk "concat chunks"]
    by (simp add: add.assoc)
  show ?case
    using step rest ack unfolding mem by (simp add: after_def add.assoc)
qed

text \<open>Memory after an image, and after all images of a bundle.\<close>

definition placed :: "files \<Rightarrow> memory \<Rightarrow> prepared_image \<Rightarrow> memory" where
  "placed files mem p =
     (let d = pi_descriptor p in
      overwrite (unat (im_address d))
        (the (files (pi_path p))
         @ replicate (unat (im_runtime_size d) - unat (im_file_size d)) 0) mem)"

definition deployed :: "files \<Rightarrow> prepared_image list \<Rightarrow> memory \<Rightarrow> memory" where
  "deployed files ps mem = foldl (placed files) mem ps"

lemma end_image_step:
  assumes valid: "image_validate d" and dev: "dv_loader dev = uploading l d (length content) content"
    and between: "between_images l b ds" "length ds < unat (bd_image_count b)" "bundle_validate b"
    and content: "length content = unat (im_file_size d)" "crc32 content = im_crc32 d"
  shows "\<exists>l' h. client_request device_transport EndImage 0 [] (i, dev)
    = (Inr (h, []), (max (i + 1) 1, dev\<lparr>dv_loader := l',
         dv_memory := overwrite (unat (im_address d) + length content)
           (replicate (unat (im_runtime_size d) - unat (im_file_size d)) 0) (dv_memory dev)\<rparr>))
    \<and> between_images l' b (ds @ [d])"
proof -
  note img = image_validateD [OF valid]
  let ?z = "im_runtime_size d - im_file_size d"
  let ?zeros = "replicate (unat (im_runtime_size d) - unat (im_file_size d)) (0 :: u8)"
  let ?mem = "overwrite (unat (im_address d) + length content) ?zeros (dv_memory dev)"
  have sub: "checked_sub (im_runtime_size d) (im_file_size d) = Some ?z"
    using img(2) by (simp add: checked_sub_def word_le_nat_alt)
  then have z: "unat ?z = unat (im_runtime_size d) - unat (im_file_size d)"
    using img(2) by (simp add: checked_sub_Some_iff)
  have add: "checked_add (im_address d) (im_file_size d) = Some (im_address d + im_file_size d)"
    using img(2,4) by (simp add: checked_add_def)
  have zero: "st_zero guest_memory (im_address d + im_file_size d) ?z (dv_memory dev) = (Inr (), ?mem)"
    if "?z \<noteq> 0"
  proof -
    have "0 < unat ?z" using that by (simp add: unat_gt_0)
    moreover have "unat (im_file_size d) + unat ?z \<le> unat (im_runtime_size d)"
      using z img(2) by simp
    ultimately have "guest_range (im_address d + im_file_size d) ?z"
      "unat (im_address d + im_file_size d) = unat (im_address d) + unat (im_file_size d)"
      using image_part_uploadable [OF valid, of "unat (im_file_size d)" "unat ?z"] by simp_all
    then show ?thesis by (simp add: guest_memory_def guest_memory_zero_def content(1) flip: z)
  qed
  have no_zero: "?mem = dv_memory dev" if "?z = 0"
    using z that by simp
  have received: "(word_of_nat (length content) :: u64) = im_file_size d" by (simp add: content(1))
  have crc: "crc_finish (crc_update crc_new content) = im_crc32 d" using content(2) by (simp add: crc32_def)
  have order: "\<not> im_runtime_size d < im_file_size d" using img(2) by (simp add: word_less_nat_alt)
  have room: "ld_completed l < length (ld_images l)"
    using between by (simp add: between_images_def bundle_validate_def)
  let ?l = "(uploading l d (length content) content)\<lparr>ld_images := (ld_images l)[ld_completed l := Some d],
      ld_completed := ld_completed l + 1, ld_current := None, ld_received := 0,
      ld_crc32 := crc_new, ld_state := LBundle\<rparr>"
  let ?h = "(header_request EndImage i (word_of_nat (length ([] :: bytes))))\<lparr>h_arg0 := 0\<rparr>"
  have "loader_end_image guest_memory ?h (uploading l d (length content) content) (dv_memory dev)
      = replied ?h Ok ?l ?mem"
    using zero no_zero room
    by (cases "?z = 0") (simp_all add: loader_end_image_def uploading_def received crc sub add not_le order checked_sub_def)
  then have "client_request device_transport EndImage 0 [] (i, dev)
      = (Inr (rs_header (response_new ?h Ok LBundle []), []), (max (i + 1) 1,
          dev\<lparr>dv_loader := ?l, dv_memory := ?mem\<rparr>))"
    by (subst device_request [where act = NoAction and reply = "[]"])
       (auto simp: handle_client_message dev replied_def loader_reply_def plain_response_new)
  moreover have "between_images ?l b (ds @ [d])"
    using between valid room
    by (auto simp: between_images_def uploading_def take_Suc_conv_app_nth)
  ultimately show ?thesis by blast
qed

lemma send_image_ok:
  assumes reads: "valid_reads reads" "0 < n" "n \<le> MAX_BODY_SIZE"
    and between: "between_images (dv_loader dev) b ds" "length ds < unat (bd_image_count b)"
      "bundle_validate b"
    and p: "describes files p" "list_all (separate (pi_descriptor p)) ds"
  shows "\<exists>j l'. send_image device_transport files reads n p (i, dev)
      = (Inr (), (j, dev\<lparr>dv_loader := l', dv_memory := placed files (dv_memory dev) p\<rparr>))
    \<and> between_images l' b (ds @ [pi_descriptor p])"
proof -
  let ?d = "pi_descriptor p" and ?l = "dv_loader dev"
  obtain content where path: "files (pi_path p) = Some content"
    and content: "length content = unat (im_file_size ?d)" "crc32 content = im_crc32 ?d"
    and valid: "image_validate ?d"
    using p(1) by (auto simp: describes_def)
  let ?dev1 = "dev\<lparr>dv_loader := uploading ?l ?d 0 []\<rparr>"
  have r: "concat (reads n content) = content"
    "\<forall>chunk \<in> set (reads n content). chunk \<noteq> [] \<and> length chunk \<le> MAX_BODY_SIZE"
    using reads by (auto simp: valid_reads_def intro: order_trans)
  obtain h1 where first: "client_request device_transport BeginImage 0
      (image_encode ?d (replicate IMAGE_DESCRIPTOR_SIZE 0)) (i, dev) = (Inr (h1, []), (max (i + 1) 1, ?dev1))"
    using begin_image_step [OF between(1,2) valid p(2), of i dev] by auto
  obtain j where chunks: "send_chunks device_transport 0 (reads n content) (max (i + 1) 1, ?dev1)
      = (Inr (word_of_nat (length content)), (j, ?dev1\<lparr>dv_loader := uploading ?l ?d (length content) content,
           dv_memory := overwrite (unat (im_address ?d)) content (dv_memory dev)\<rparr>))"
    using send_chunks_ok [OF valid r(2), of "[]" ?dev1 ?l "max (i + 1) 1"] r(1) content(1) by auto
  let ?dev2 = "dev\<lparr>dv_loader := uploading ?l ?d (length content) content,
      dv_memory := overwrite (unat (im_address ?d)) content (dv_memory dev)\<rparr>"
  obtain l' h2 where last: "client_request device_transport EndImage 0 [] (j, ?dev2)
      = (Inr (h2, []), (max (j + 1) 1, ?dev2\<lparr>dv_loader := l',
           dv_memory := overwrite (unat (im_address ?d) + length content)
             (replicate (unat (im_runtime_size ?d) - unat (im_file_size ?d)) 0) (dv_memory ?dev2)\<rparr>))"
    and l': "between_images l' b (ds @ [?d])"
    using end_image_step [OF valid _ between content, of ?dev2 j] by auto
  have "send_image device_transport files reads n p (i, dev)
      = (Inr (), (max (j + 1) 1, dev\<lparr>dv_loader := l', dv_memory := placed files (dv_memory dev) p\<rparr>))"
    using first chunks last overwrite_append [of "unat (im_address ?d)" content, unfolded content(1)]
    by (simp add: send_image_def after_def path content(1) placed_def Let_def)
  with l' show ?thesis by blast
qed

lemma send_images_ok:
  assumes "valid_reads reads" "0 < n" "n \<le> MAX_BODY_SIZE"
    and "between_images (dv_loader dev) b ds" "bundle_validate b"
    and "length ds + length ps = unat (bd_image_count b)"
    and "list_all (describes files) ps" "sorted_wrt separate (ds @ map pi_descriptor ps)"
  shows "\<exists>j l'. send_images device_transport files reads n ps (i, dev)
      = (Inr (), (j, dev\<lparr>dv_loader := l', dv_memory := deployed files ps (dv_memory dev)\<rparr>))
    \<and> between_images l' b (ds @ map pi_descriptor ps)"
  using assms(4,6-)
proof (induction ps arbitrary: ds i dev)
  case Nil
  then show ?case by (auto simp: deployed_def intro!: exI [of _ "dv_loader dev"])
next
  case (Cons p ps)
  have p: "describes files p" and sep: "list_all (separate (pi_descriptor p)) ds"
    using Cons.prems(3,4) by (auto simp: sorted_wrt_append list_all_iff separate_sym)
  have less: "length ds < unat (bd_image_count b)" using Cons.prems(2) by simp
  obtain j l' where first: "send_image device_transport files reads n p (i, dev)
      = (Inr (), (j, dev\<lparr>dv_loader := l', dv_memory := placed files (dv_memory dev) p\<rparr>))"
    and l': "between_images l' b (ds @ [pi_descriptor p])"
    using send_image_ok [OF assms(1-3) Cons.prems(1) less assms(5) p sep] by blast
  let ?dev = "dev\<lparr>dv_loader := l', dv_memory := placed files (dv_memory dev) p\<rparr>"
  obtain j' l'' where "send_images device_transport files reads n ps (j, ?dev)
      = (Inr (), (j', ?dev\<lparr>dv_loader := l'', dv_memory := deployed files ps (dv_memory ?dev)\<rparr>))"
    and "between_images l'' b ((ds @ [pi_descriptor p]) @ map pi_descriptor ps)"
    using Cons.IH [of ?dev "ds @ [pi_descriptor p]" j] l' Cons.prems(2-) by auto
  with first show ?case by (auto simp: after_def deployed_def)
qed

text \<open>The other requests.\<close>

lemma hello_step:
  "\<exists>h hello c. client_request device_transport Hello 0 [] (i, dev) = (Inr (h, hello), (max (i + 1) 1, dev))
    \<and> read_capabilities hello = Inr c \<and> cp_max_chunk_size c = MAX_BODY_SIZE
    \<and> (length (pb_images pb) \<le> MAX_IMAGES \<longrightarrow> validate_capabilities c pb = Inr ())"
proof -
  define hello where "hello = to_le64 GUEST_RAM_BASE @ to_le64 GUEST_RAM_END @ to_le32 4064
      @ to_le32 80 @ to_le32 32 @ to_le32 16"
  let ?h = "(header_request Hello i (word_of_nat (length ([] :: bytes))))\<lparr>h_arg0 := 0\<rparr>"
  have body: "loader_hello ?h l m = Some (Inr (response_new ?h Ok (ld_state l) hello, NoAction), l, m)"
    for l :: loader and m :: memory
    by (simp add: loader_hello_def hello_def splice_fill splice_fill_start del: append_assoc) simp
  have "length hello = 32" by (simp add: hello_def)
  then have "client_request device_transport Hello 0 [] (i, dev)
      = (Inr (rs_header (response_new ?h Ok (ld_state (dv_loader dev)) hello), hello), (max (i + 1) 1, dev))"
    using body [of "dv_loader dev" "dv_memory dev"]
    by (subst device_request [where act = NoAction and reply = hello
          and l = "dv_loader dev" and m = "dv_memory dev"])
       (auto simp: handle_client_message plain_response_new)
  moreover have "read_capabilities hello
      = Inr \<lparr>cp_guest_ram_base = GUEST_RAM_BASE, cp_guest_ram_end = GUEST_RAM_END,
          cp_max_chunk_size = 4064, cp_bundle_descriptor_size = 80, cp_image_descriptor_size = 32,
          cp_max_images = 16\<rparr>"
    by (simp add: read_capabilities_def hello_def body_u64_def body_u32_def slice_get_def)
  ultimately show ?thesis by (auto simp: validate_capabilities_def)
qed

lemma begin_bundle_step:
  assumes "bundle_validate b" "length (bd_registers b) = 8"
    and "ld_state (dv_loader dev) = LIdle" "loader_inv mem (dv_loader dev)"
  shows "\<exists>h l'. client_request device_transport BeginBundle 0
      (bundle_encode b (replicate BUNDLE_DESCRIPTOR_SIZE 0)) (i, dev)
    = (Inr (h, []), (max (i + 1) 1, dev\<lparr>dv_loader := l'\<rparr>)) \<and> between_images l' b []"
proof -
  let ?body = "bundle_encode b (replicate BUNDLE_DESCRIPTOR_SIZE 0)"
  let ?h = "(header_request BeginBundle i (word_of_nat (length ?body)))\<lparr>h_arg0 := 0\<rparr>"
  let ?l = "(dv_loader dev)\<lparr>ld_bundle := Some b, ld_state := LBundle, ld_claimed := True\<rparr>"
  have len: "length ?body = 80" using assms(2) by (simp add: bundle_encode_layout length_concat_le64)
  have dec: "bundle_decode ?body = Some b" by (rule bundle_decode_encode) (simp_all add: assms)
  have "loader_begin_bundle ?h ?body (dv_loader dev) (dv_memory dev) = replied ?h Ok ?l (dv_memory dev)"
    using assms(3) dec by (simp add: loader_begin_bundle_def)
  then have "client_request device_transport BeginBundle 0 ?body (i, dev)
      = (Inr (rs_header (response_new ?h Ok LBundle []), []), (max (i + 1) 1, dev\<lparr>dv_loader := ?l\<rparr>))"
    using len
    by (subst device_request [where act = NoAction and reply = "[]"])
       (auto simp: handle_client_message replied_def loader_reply_def plain_response_new)
  moreover have "between_images ?l b []"
    using assms(3,4)
    by (auto simp: between_images_def loader_inv_def finished_images_def stage_ok_def)
  ultimately show ?thesis by blast
qed

lemma commit_step:
  assumes "between_images (dv_loader dev) b ds" "length ds = unat (bd_image_count b)"
    and "list_ex (\<lambda>d. contains_entry d (bd_entry b)) ds"
  shows "\<exists>h. client_request device_transport CommitBundle 0 [] (i, dev)
    = (Inr (h, []), (max (i + 1) 1, dev\<lparr>dv_loader := (dv_loader dev)\<lparr>ld_state := LReady\<rparr>\<rparr>))"
proof -
  let ?h = "(header_request CommitBundle i (word_of_nat (length ([] :: bytes))))\<lparr>h_arg0 := 0\<rparr>"
  let ?l = "dv_loader dev"
  have "list_ex (\<lambda>d. case d of None \<Rightarrow> False | Some d \<Rightarrow> contains_entry d (bd_entry b)) (map Some ds)"
    using assms(3) by (simp add: list_ex_iff)
  moreover have "slice_get 0 (unat (bd_image_count b)) (ld_images ?l) = Some (map Some ds)"
    using assms(1,2) by (simp add: between_images_def slice_get_def)
  ultimately have "loader_commit ?h ?l (dv_memory dev)
      = replied ?h Ok (?l\<lparr>ld_state := LReady\<rparr>) (dv_memory dev)"
    using assms(1,2) by (simp add: loader_commit_def between_images_def)
  then show ?thesis
    by (subst device_request [where act = NoAction and reply = "[]"])
       (auto simp: handle_client_message replied_def loader_reply_def plain_response_new)
qed

lemma boot_step:
  assumes "ld_state (dv_loader dev) = LReady" "ld_bundle (dv_loader dev) = Some b"
  shows "\<exists>h. client_request device_transport Boot 0 [] (i, dev)
    = (Inr (h, []), (max (i + 1) 1,
        dev\<lparr>dv_loader := loader_clear LDisabled (dv_loader dev), dv_boot := Some b\<rparr>))"
proof -
  let ?h = "(header_request Boot i (word_of_nat (length ([] :: bytes))))\<lparr>h_arg0 := 0\<rparr>"
  have "loader_boot ?h (dv_loader dev) (dv_memory dev)
      = Some (Inr (response_new ?h Ok LDisabled [], BootBundle b),
          loader_clear LDisabled (dv_loader dev), dv_memory dev)"
    using assms by (simp add: loader_boot_def loader_clear_def)
  then show ?thesis
    by (subst device_request [where act = "BootBundle b" and reply = "[]"])
       (auto simp: handle_client_message plain_response_new)
qed

section \<open>A whole transfer\<close>

lemma transfer_ok:
  assumes reads: "valid_reads reads" and pb: "prepared_ok files pb"
    and idle: "ld_state (dv_loader dev) = LIdle" "loader_inv (dv_memory dev) (dv_loader dev)"
  shows "\<exists>j l'. transfer_bundle device_transport files reads pb True (i, dev)
      = (Inr (), (j, dev\<lparr>dv_loader := l', dv_memory := deployed files (pb_images pb) (dv_memory dev),
           dv_boot := Some (pb_descriptor pb)\<rparr>))
    \<and> ld_state l' = LDisabled"
proof -
  let ?b = "pb_descriptor pb" and ?ps = "pb_images pb"
  have b: "bundle_validate ?b" "length (bd_registers ?b) = 8" "length ?ps = unat (bd_image_count ?b)"
    "list_all (describes files) ?ps" "sorted_wrt separate (map pi_descriptor ?ps)"
    "list_ex (\<lambda>d. contains_entry d (bd_entry ?b)) (map pi_descriptor ?ps)"
    using pb by (auto simp: prepared_ok_def list_ex_iff)
  then have few: "length ?ps \<le> MAX_IMAGES" by (simp add: bundle_validate_def)
  obtain h0 hello c where hello: "client_request device_transport Hello 0 [] (i, dev)
      = (Inr (h0, hello), (max (i + 1) 1, dev))" "read_capabilities hello = Inr c"
    "cp_max_chunk_size c = MAX_BODY_SIZE" "validate_capabilities c pb = Inr ()"
    using hello_step [of i dev pb] few by auto
  obtain h1 l1 where begin_bundle: "client_request device_transport BeginBundle 0
      (bundle_encode ?b (replicate BUNDLE_DESCRIPTOR_SIZE 0)) (max (i + 1) 1, dev)
      = (Inr (h1, []), (max (max (i + 1) 1 + 1) 1, dev\<lparr>dv_loader := l1\<rparr>))"
    and l1: "between_images l1 ?b []"
    using begin_bundle_step [OF b(1,2) idle, of "max (i + 1) 1"] by auto
  let ?dev1 = "dev\<lparr>dv_loader := l1\<rparr>"
  obtain j2 l2 where images: "send_images device_transport files reads MAX_BODY_SIZE ?ps
        (max (max (i + 1) 1 + 1) 1, ?dev1)
      = (Inr (), (j2, ?dev1\<lparr>dv_loader := l2, dv_memory := deployed files ?ps (dv_memory ?dev1)\<rparr>))"
    and l2: "between_images l2 ?b (map pi_descriptor ?ps)"
    using send_images_ok [OF reads _ _ _ b(1), of MAX_BODY_SIZE ?dev1 "[]" ?ps files
        "max (max (i + 1) 1 + 1) 1"] l1 b by auto
  let ?dev2 = "dev\<lparr>dv_loader := l2, dv_memory := deployed files ?ps (dv_memory dev)\<rparr>"
  obtain h3 where commit: "client_request device_transport CommitBundle 0 [] (j2, ?dev2)
      = (Inr (h3, []), (max (j2 + 1) 1, ?dev2\<lparr>dv_loader := l2\<lparr>ld_state := LReady\<rparr>\<rparr>))"
    using commit_step [of ?dev2 ?b "map pi_descriptor ?ps" j2] l2 b(3,6) by auto
  let ?dev3 = "?dev2\<lparr>dv_loader := l2\<lparr>ld_state := LReady\<rparr>\<rparr>"
  obtain h4 where boot: "client_request device_transport Boot 0 [] (max (j2 + 1) 1, ?dev3)
      = (Inr (h4, []), (max (max (j2 + 1) 1 + 1) 1,
          ?dev3\<lparr>dv_loader := loader_clear LDisabled (l2\<lparr>ld_state := LReady\<rparr>), dv_boot := Some ?b\<rparr>))"
    using boot_step [of ?dev3 ?b "max (j2 + 1) 1"] l2 by (auto simp: between_images_def)
  have run: "transfer_bundle device_transport files reads pb True (i, dev)
      = (Inr (), (max (max (j2 + 1) 1 + 1) 1,
          ?dev3\<lparr>dv_loader := loader_clear LDisabled (l2\<lparr>ld_state := LReady\<rparr>), dv_boot := Some ?b\<rparr>))"
    unfolding transfer_bundle_def after_def
    using hello begin_bundle images commit boot by simp
  have swap: "?dev3\<lparr>dv_loader := l, dv_boot := Some ?b\<rparr>
      = dev\<lparr>dv_loader := l, dv_memory := deployed files ?ps (dv_memory dev), dv_boot := Some ?b\<rparr>" for l
    by (cases dev) simp
  show ?thesis
    unfolding run swap by (intro exI conjI, rule refl) (simp add: loader_clear_def)
qed

text \<open>Disjoint images do not disturb each other.\<close>

lemma placed_other:
  assumes "describes files p" and "x \<notin> image_set (pi_descriptor p)"
  shows "placed files mem p x = mem x"
  using assms image_validateD(2) [of "pi_descriptor p"]
  by (auto simp: describes_def placed_def Let_def image_set_def overwrite_def)

lemma deployed_other:
  "list_all (describes files) ps \<Longrightarrow> \<forall>p \<in> set ps. x \<notin> image_set (pi_descriptor p) \<Longrightarrow>
     deployed files ps mem x = mem x"
  by (induction ps arbitrary: mem) (auto simp: deployed_def placed_other)

lemma deployed_image:
  assumes "list_all (describes files) ps" and "sorted_wrt separate (map pi_descriptor ps)"
    and "p \<in> set ps" and "x \<in> image_set (pi_descriptor p)"
  shows "deployed files ps mem x = placed files (\<lambda>_. 0) p x"
  using assms
proof (induction ps arbitrary: mem)
  case (Cons q ps)
  show ?case
  proof (cases "p \<in> set ps")
    case True
    then show ?thesis using Cons by (simp add: deployed_def)
  next
    case False
    then have "p = q" using Cons.prems(3) by simp
    have "deployed files ps (placed files mem q) x = placed files mem q x"
      using Cons.prems \<open>p = q\<close> by (intro deployed_other) (auto simp: separate_def)
    moreover have "placed files mem q x = placed files (\<lambda>_. 0) q x"
      using Cons.prems(1,4) \<open>p = q\<close> image_validateD(2) [of "pi_descriptor q"]
      by (auto simp: describes_def placed_def Let_def image_set_def overwrite_def)
    ultimately show ?thesis by (simp add: deployed_def \<open>p = q\<close>)
  qed
qed simp


section \<open>Properties\<close>

text \<open>
  C18: From a manifest to a running bundle.  Whenever \<open>switchvisorctl\<close> accepts a manifest, however its
  file reads are cut into chunks, transferring the prepared bundle to an idle device succeeds: the
  device is left with the bundle's boot descriptor, every image's memory holds its file followed by
  zeros up to its runtime size, and all other memory is unchanged.
\<close>

theorem deploy_succeeds:
  assumes "valid_reads reads" and "from_manifest files reads f = Inr pb"
    and "ld_state (dv_loader dev) = LIdle" and "loader_inv (dv_memory dev) (dv_loader dev)"
  shows "\<exists>link dev'. transfer_bundle device_transport files reads pb True (i, dev) = (Inr (), (link, dev'))
    \<and> dv_boot dev' = Some (pb_descriptor pb)
    \<and> (\<forall>p \<in> set (pb_images pb). \<forall>x \<in> image_set (pi_descriptor p).
         dv_memory dev' x = placed files (\<lambda>_. 0) p x)
    \<and> (\<forall>x. (\<forall>p \<in> set (pb_images pb). x \<notin> image_set (pi_descriptor p)) \<longrightarrow>
         dv_memory dev' x = dv_memory dev x)"
proof -
  have ok: "prepared_ok files pb" by (rule from_manifest_ok [OF assms(1,2)])
  then have ps: "list_all (describes files) (pb_images pb)"
    "sorted_wrt separate (map pi_descriptor (pb_images pb))"
    by (simp_all add: prepared_ok_def)
  obtain j l' where "transfer_bundle device_transport files reads pb True (i, dev)
      = (Inr (), (j, dev\<lparr>dv_loader := l', dv_memory := deployed files (pb_images pb) (dv_memory dev),
           dv_boot := Some (pb_descriptor pb)\<rparr>))"
    using transfer_ok [OF assms(1) ok assms(3,4)] by blast
  then show ?thesis using deployed_image [OF ps] deployed_other [OF ps(1)] by auto
qed

text \<open>Reads that fill the buffer, and a manifest with one 8-byte image.\<close>

function full_reads :: reads where
  "full_reads n content =
     (if content = [] \<or> n = 0 then [] else take n content # full_reads n (drop n content))"
  by auto
termination by (relation "measure (\<lambda>(n, content). length content)") auto

declare full_reads.simps [simp del]

lemma valid_full_reads: "valid_reads full_reads"
proof -
  have "0 < n \<Longrightarrow> concat (full_reads n content) = content
      \<and> (\<forall>chunk \<in> set (full_reads n content). chunk \<noteq> [] \<and> length chunk \<le> n)" for n content
  proof (induction n content rule: full_reads.induct)
    case (1 n content)
    then show ?case by (subst (1 2) full_reads.simps) auto
  qed
  then show ?thesis by (simp add: valid_reads_def)
qed

definition sample_manifest :: manifest where
  "sample_manifest =
     \<lparr>mf_version = 1, mf_entry = Text ''0x80280004'', mf_preserve_boot_args = None,
      mf_registers = None,
      mf_images = [\<lparr>mi_path = ''u-boot.bin'', mi_address = Text ''0x80280000'',
                    mi_runtime_size = Some (Integer 16)\<rparr>]\<rparr>"

definition sample_files :: files where
  "sample_files = [''u-boot.bin'' \<mapsto> [1, 2, 3, 4, 5, 6, 7, 8]]"

lemma sample_manifest_prepared:
  "\<exists>pb. from_manifest sample_files full_reads sample_manifest = Inr pb"
proof -
  have numbers: "number ''0x80280000'' = Inr 0x80280000" "number ''0x80280004'' = Inr 0x80280004"
    by (simp_all add: number_def from_str_radix_def digit_value_def)
  have crc: "file_crc sample_files full_reads ''u-boot.bin''
      = Inr (8, crc_finish (crc_update crc_new [1, 2, 3, 4, 5, 6, 7, 8]))"
    by (simp add: file_crc_def sample_files_def full_reads.simps checked_add_def)
  show ?thesis
    by (simp add: from_manifest_def sample_manifest_def crc numbers Let_def image_validate_def
        bundle_validate_def guest_range_def range_new_def checked_add_def protected_ranges_eq
        range_overlaps_def manifest_registers_def preserve_boot_args_def contains_entry_def list_all_iff)
qed

theorem deploy_succeeds_witness:
  "\<exists>pb link dev'. transfer_bundle device_transport sample_files full_reads pb True
       (1, \<lparr>dv_loader = loader_new, dv_memory = (\<lambda>_. 0), dv_boot = None\<rparr>) = (Inr (), (link, dev'))
     \<and> dv_boot dev' = Some (pb_descriptor pb)"
proof -
  obtain pb where pb: "from_manifest sample_files full_reads sample_manifest = Inr pb"
    using sample_manifest_prepared by blast
  from deploy_succeeds [OF valid_full_reads pb,
      of "\<lparr>dv_loader = loader_new, dv_memory = (\<lambda>_. 0), dv_boot = None\<rparr>" 1]
  show ?thesis by (auto simp: loader_new_inv) (auto simp: loader_new_def)
qed

end
