(* ===== verification/Control.thy ===== *)
theory Control
  imports Prelude
begin

text \<open>
  \<open>control.rs\<close>: the line parser of the control port.  It consumes one byte at a time into a 64-byte
  buffer; the last section shows that, over any input, it produces exactly the results of the complete
  lines taken one by one.
\<close>

definition MAX_LINE_SIZE :: nat where [simp]: "MAX_LINE_SIZE = 64"

datatype command = Ping | StatusReport | Reboot | RebootRcm

datatype parse_error = InvalidEncoding | LineTooLong | UnknownCommand

record parser =
  ps_bytes :: bytes
  ps_length :: nat
  ps_error :: "parse_error option"

definition parser_new :: parser where
  "parser_new = \<lparr>ps_bytes = replicate MAX_LINE_SIZE 0, ps_length = 0, ps_error = None\<rparr>"

text \<open>\<open>u8::is_ascii\<close> and \<open>u8::is_ascii_control\<close>.\<close>

definition is_ascii :: "u8 \<Rightarrow> bool" where
  "is_ascii b \<longleftrightarrow> b < 128"

definition is_ascii_control :: "u8 \<Rightarrow> bool" where
  "is_ascii_control b \<longleftrightarrow> b < 32 \<or> b = 127"

definition ascii :: "string \<Rightarrow> bytes" where
  "ascii s = map (\<lambda>c. word_of_nat (of_char c)) s"

definition parse_command :: "bytes \<Rightarrow> parse_error + command" where
  "parse_command line =
     (if line = ascii ''ping'' then Inr Ping
      else if line = ascii ''status'' then Inr StatusReport
      else if line = ascii ''reboot'' then Inr Reboot
      else if line = ascii ''reboot-rcm'' then Inr RebootRcm
      else Inl UnknownCommand)"

definition parser_push :: "u8 \<Rightarrow> parser \<Rightarrow> (parse_error + command) option \<times> parser" where
  "parser_push byte p =
     (if byte = 10 then
        let error = ps_error p;
            len = ps_length p;
            p = p\<lparr>ps_error := None, ps_length := 0\<rparr>;
            len = (if len \<noteq> 0 \<and> ps_bytes p ! (len - 1) = 13 then len - 1 else len)
        in case error of
             Some e \<Rightarrow> (Some (Inl e), p)
           | None \<Rightarrow>
               if len = 0 then (None, p)
               else (Some (parse_command (take len (ps_bytes p))), p)
      else if ps_error p \<noteq> None then (None, p)
      else if \<not> is_ascii byte \<or> is_ascii_control byte \<and> byte \<noteq> 13
      then (None, p\<lparr>ps_error := Some InvalidEncoding\<rparr>)
      else if ps_length p = length (ps_bytes p)
      then (None, p\<lparr>ps_error := Some LineTooLong\<rparr>)
      else (None, p\<lparr>ps_bytes := (ps_bytes p)[ps_length p := byte], ps_length := ps_length p + 1\<rparr>))"

text \<open>All the results of an input, in order.\<close>

fun parser_run :: "bytes \<Rightarrow> parser \<Rightarrow> (parse_error + command) list" where
  "parser_run [] p = []"
| "parser_run (b # bs) p =
     (case parser_push b p of
        (None, p) \<Rightarrow> parser_run bs p
      | (Some r, p) \<Rightarrow> r # parser_run bs p)"


section \<open>Line by line\<close>

text \<open>The specification: the result of one line, without its newline.\<close>

definition invalid_byte :: "u8 \<Rightarrow> bool" where
  "invalid_byte b \<longleftrightarrow> \<not> is_ascii b \<or> is_ascii_control b \<and> b \<noteq> 13"

definition strip_cr :: "bytes \<Rightarrow> bytes" where
  "strip_cr line = (if line \<noteq> [] \<and> last line = 13 then butlast line else line)"

definition line_result :: "bytes \<Rightarrow> (parse_error + command) option" where
  "line_result line =
     (if list_ex invalid_byte (take (MAX_LINE_SIZE + 1) line) then Some (Inl InvalidEncoding)
      else if length line > MAX_LINE_SIZE then Some (Inl LineTooLong)
      else if strip_cr line = [] then None
      else Some (parse_command (strip_cr line)))"

text \<open>The complete lines of an input.\<close>

fun complete_lines :: "bytes \<Rightarrow> bytes \<Rightarrow> bytes list" where
  "complete_lines line [] = []"
| "complete_lines line (b # bs) =
     (if b = 10 then line # complete_lines [] bs else complete_lines (line @ [b]) bs)"

text \<open>What the parser remembers of the current line.\<close>

definition remembers :: "parser \<Rightarrow> bytes \<Rightarrow> bool" where
  "remembers p line \<longleftrightarrow>
     length (ps_bytes p) = MAX_LINE_SIZE \<and> ps_length p \<le> MAX_LINE_SIZE
     \<and> (if list_ex invalid_byte (take (MAX_LINE_SIZE + 1) line)
        then ps_error p = Some InvalidEncoding
        else if length line > MAX_LINE_SIZE then ps_error p = Some LineTooLong
        else ps_error p = None \<and> ps_length p = length line \<and> take (ps_length p) (ps_bytes p) = line)"

lemma remembers_new: "remembers parser_new []"
  by (simp add: remembers_def parser_new_def)

lemma push_byte:
  assumes "remembers p line" and "b \<noteq> 10"
  shows "\<exists>p'. parser_push b p = (None, p') \<and> remembers p' (line @ [b])"
proof (cases "ps_error p")
  case (Some e)
  then have "remembers p (line @ [b])"
    using assms(1) by (auto simp: remembers_def list_ex_iff split: if_splits)
  then show ?thesis using Some assms(2) by (simp add: parser_push_def)
next
  case None
  then have p: "ps_length p = length line" "take (ps_length p) (ps_bytes p) = line"
    "length (ps_bytes p) = 64" "length line \<le> 64" "\<not> list_ex invalid_byte line"
    using assms(1) by (auto simp: remembers_def split: if_splits)
  show ?thesis
  proof (cases "invalid_byte b")
    case True
    then show ?thesis
      using None p assms(2) by (simp add: parser_push_def invalid_byte_def remembers_def)
  next
    case False
    then have "take (Suc (length line)) ((ps_bytes p)[length line := b]) = line @ [b]"
      if "length line < 64"
      using p that by (simp add: take_Suc_conv_app_nth)
    then show ?thesis
      using None False p assms(2)
      by (auto simp: parser_push_def invalid_byte_def remembers_def Let_def)
  qed
qed

lemma push_newline:
  assumes "remembers p line"
  shows "\<exists>p'. parser_push 10 p = (line_result line, p') \<and> remembers p' []"
proof (cases "ps_error p")
  case (Some e)
  then show ?thesis
    using assms by (auto simp: remembers_def parser_push_def line_result_def Let_def split: if_splits)
next
  case None
  then have p: "ps_length p = length line" "take (length line) (ps_bytes p) = line"
    "length (ps_bytes p) = 64" "length line \<le> 64" "\<not> list_ex invalid_byte line"
    using assms by (auto simp: remembers_def split: if_splits)
  let ?len = "if length line \<noteq> 0 \<and> ps_bytes p ! (length line - 1) = 13
      then length line - 1 else length line"
  have last: "line \<noteq> [] \<Longrightarrow> ps_bytes p ! (length line - 1) = last line"
    using p(2) by (metis diff_less last_conv_nth length_greater_0_conv nth_take zero_less_one)
  have "take ?len (ps_bytes p) = strip_cr line"
    using p(2,3,4) last by (auto simp: strip_cr_def butlast_conv_take min_def
        dest: arg_cong [where f = "take (length line - 1)"])
  moreover have "?len = length (strip_cr line)"
    using last by (auto simp: strip_cr_def)
  ultimately have "parser_push 10 p = (line_result line, p\<lparr>ps_error := None, ps_length := 0\<rparr>)"
    using None p by (simp add: parser_push_def line_result_def Let_def split: if_splits)
  then show ?thesis using p by (simp add: remembers_def)
qed

text \<open>
  C19: Over any input, however long its lines, the parser reports exactly the result of each complete
  line, in order: an error for a line with a byte that is not text or with more than 64 bytes, nothing
  for an empty line, and otherwise the command the line names.
\<close>

theorem parser_run_lines:
  "parser_run bs parser_new = List.map_filter line_result (complete_lines [] bs)"
proof -
  have "remembers p line \<Longrightarrow> parser_run bs p = List.map_filter line_result (complete_lines line bs)"
    for p line
  proof (induction bs arbitrary: p line)
    case (Cons b bs)
    show ?case
    proof (cases "b = 10")
      case True
      obtain p' where "parser_push 10 p = (line_result line, p')" "remembers p' []"
        using push_newline [OF Cons.prems] by blast
      with True Cons.IH [of p' "[]"] show ?thesis
        by (cases "line_result line") (simp_all add: List.map_filter_simps)
    next
      case False
      obtain p' where "parser_push b p = (None, p')" "remembers p' (line @ [b])"
        using push_byte [OF Cons.prems False] by blast
      with False Cons.IH show ?thesis by simp
    qed
  qed (simp add: List.map_filter_simps)
  then show ?thesis using remembers_new by blast
qed

end
