(* ===== verification/Vdev.thy ===== *)
theory Vdev
  imports Mmio_Access
begin

text \<open>
  \<open>vdev/mod.rs\<close> and the \<open>Mmio\<close> trait of \<open>drivers/mod.rs\<close>.  A trait is a record of its operations over
  the state of an implementation: \<open>mmio_ops\<close> over the physical hardware, \<open>virtual_device\<close> over the
  state of a guest-visible device.  The locale \<open>virtual_device\<close> states the contract of the trait
  ("rejected operations must not change device state"), and what the dispatcher then guarantees.
\<close>

record 'm mmio_ops =
  mmio_read32 :: "u64 \<Rightarrow> 'm \<Rightarrow> u32 \<times> 'm"
  mmio_write32 :: "u64 \<Rightarrow> u32 \<Rightarrow> 'm \<Rightarrow> 'm"
  mmio_barrier :: "'m \<Rightarrow> 'm"

record mmio_region =
  rg_base :: u64
  rg_size :: u64

datatype device_error = AccessSize | Register

record 'd virtual_device =
  vd_region :: "'d \<Rightarrow> mmio_region"
  vd_read :: "u64 \<Rightarrow> u8 \<Rightarrow> 'd \<Rightarrow> (device_error + u64) \<times> 'd"
  vd_write :: "u64 \<Rightarrow> u8 \<Rightarrow> u64 \<Rightarrow> 'd \<Rightarrow> (device_error + unit) \<times> 'd"

text \<open>
  \<open>emulate_access\<close> returns whether the access was handled, the guest's registers and the device.  The
  caller advances the guest's program counter only when it was.
\<close>

definition emulate_access ::
  "'d virtual_device \<Rightarrow> access \<Rightarrow> u64 list \<Rightarrow> 'd \<Rightarrow> bool \<times> u64 list \<times> 'd" where
  "emulate_access dev a registers d =
     (if acc_write a
      then case vd_write dev (acc_offset a) (acc_size a) (store_data a registers) d of
             (result, d) \<Rightarrow> (is_ok result, registers, d)
      else case vd_read dev (acc_offset a) (acc_size a) d of
             (Inr v, d) \<Rightarrow> (True, load_data a v registers, d)
           | (Inl e, d) \<Rightarrow> (False, registers, d))"

definition emulate ::
  "'d virtual_device \<Rightarrow> u64 \<Rightarrow> u64 \<Rightarrow> u64 \<Rightarrow> u64 list \<Rightarrow> 'd \<Rightarrow> bool \<times> u64 list \<times> 'd" where
  "emulate dev esr far hpfar registers d =
     (case decode_region esr far hpfar (rg_base (vd_region dev d)) (rg_size (vd_region dev d)) of
        None \<Rightarrow> (False, registers, d)
      | Some a \<Rightarrow> emulate_access dev a registers d)"


section \<open>The contract of a virtual device\<close>

locale virtual_device =
  fixes dev :: "'d virtual_device" and ok :: "'d \<Rightarrow> bool"
  assumes read_rejected: "vd_read dev offset sz d = (Inl e, d') \<Longrightarrow> d' = d"
    and write_rejected: "vd_write dev offset sz v d = (Inl e, d') \<Longrightarrow> d' = d"
    and read_keeps: "ok d \<Longrightarrow> ok (snd (vd_read dev offset sz d))"
    and write_keeps: "ok d \<Longrightarrow> ok (snd (vd_write dev offset sz v d))"
begin

lemma emulate_access_rejected:
  "emulate_access dev a registers d = (False, registers', d') \<Longrightarrow> registers' = registers \<and> d' = d"
  by (auto simp: emulate_access_def is_ok_def dest: read_rejected write_rejected
      split: if_splits prod.splits sum.splits)

lemma emulate_access_keeps:
  "ok d \<Longrightarrow> emulate_access dev a registers d = (h, registers', d') \<Longrightarrow> ok d'"
  using read_keeps [of d "acc_offset a" "acc_size a"]
    write_keeps [of d "acc_offset a" "acc_size a" "store_data a registers"]
  by (auto simp: emulate_access_def split: if_splits prod.splits sum.splits)

lemma emulate_rejected:
  "emulate dev esr far hpfar registers d = (False, registers', d')
     \<Longrightarrow> registers' = registers \<and> d' = d"
  by (auto simp: emulate_def dest: emulate_access_rejected split: option.splits)

lemma emulate_keeps:
  "ok d \<Longrightarrow> emulate dev esr far hpfar registers d = (h, registers', d') \<Longrightarrow> ok d'"
  by (auto simp: emulate_def dest: emulate_access_keeps split: option.splits)

lemma emulate_handled:
  assumes "emulate dev esr far hpfar registers d = (True, registers', d')"
  obtains a where
    "decode_region esr far hpfar (rg_base (vd_region dev d)) (rg_size (vd_region dev d)) = Some a"
    and "access_ok (rg_size (vd_region dev d)) a"
    and "emulate_access dev a registers d = (True, registers', d')"
  using assms by (auto simp: emulate_def split: option.splits elim: decode_region_Some)

lemma emulate_access_registers:
  assumes "emulate_access dev a registers d = (h, registers', d')"
  shows "length registers' = length registers
    \<and> (i \<noteq> acc_register a \<or> acc_write a \<longrightarrow> registers' ! i = registers ! i)"
  using assms
  by (auto simp: emulate_access_def load_data_other split: if_splits prod.splits sum.splits)

text \<open>
  A run of aborts: the registers and the device after each, in order.  The device stays well formed,
  whatever the guest does.
\<close>

lemma emulate_run_keeps:
  "ok d \<Longrightarrow> ok (snd (foldl (\<lambda>(registers, d) (esr, far, hpfar).
      snd (emulate dev esr far hpfar registers d)) (registers, d) aborts))"
proof (induction aborts arbitrary: registers d)
  case (Cons x aborts)
  obtain esr far hpfar where x: "x = (esr, far, hpfar)" by (cases x)
  obtain h registers' d' where e: "emulate dev esr far hpfar registers d = (h, registers', d')"
    by (metis surj_pair)
  from Cons.prems e have "ok d'" by (rule emulate_keeps)
  then show ?case by (simp add: x e Cons.IH)
qed simp

end

end
