(* ===== verification/Usb_Ownership.thy ===== *)
theory Usb_Ownership
  imports Vdev Memory_Controller
begin

text \<open>
  \<open>vdev/usb_ownership.rs\<close> and the guest MMIO policy of \<open>vm/mmio.rs\<close>: which physical registers the
  monitor owns while it drives the USB device controller, and what a guest access to them does.  The
  physical registers are a parameter, the operations of the \<open>Mmio\<close> trait.
\<close>

definition CAR :: u64 where [simp]: "CAR = 0x60006000"
definition PMC :: u64 where [simp]: "PMC = 0x7000e400"
definition DEV_ASID :: u64 where [simp]: "DEV_ASID = MC_BASE + 0x28c"
definition LIC_BASE :: u64 where [simp]: "LIC_BASE = 0x60004000"
definition PMC_PAGE :: u64 where [simp]: "PMC_PAGE = PMC AND NOT 4095"

definition CONTROLLERS :: "(u64 \<times> u64) list" where
  "CONTROLLERS = [(0x70090000, 0x10000), (0x700d0000, 0x10000), (0x7d000000, 0x200000)]"

definition controller :: "u64 \<Rightarrow> bool" where
  "controller address \<longleftrightarrow>
     list_ex (\<lambda>(base, sz). base \<le> address \<and> address < base + sz) CONTROLLERS"

definition reads_current :: "u64 \<Rightarrow> bool" where
  "reads_current address \<longleftrightarrow>
     address = PMC + 0xf0
     \<or> (case checked_sub address CAR of None \<Rightarrow> False
        | Some offset \<Rightarrow>
            offset \<in> {0x04, 0x08, 0x0c, 0x10, 0x14, 0x18, 0x35c, 0x364, 0x298, 0x2a4})"

text \<open>The bits of a clock and reset register the monitor owns, and whether writes are write-one.\<close>

definition owned_bits :: "u64 \<Rightarrow> (u32 \<times> bool) option" where
  "owned_bits offset =
     (if offset \<in> {0x04, 0x10} then Some (push_bit 22 1, False)
      else if offset \<in> {0x08, 0x14} then Some (push_bit 26 1 OR push_bit 27 1, False)
      else if offset \<in> {0x0c, 0x18} then Some (push_bit 25 1 OR push_bit 31 1, False)
      else if offset \<in> {0x35c, 0x364}
      then Some (push_bit 14 1 OR push_bit 15 1 OR push_bit 28 1, False)
      else if offset \<in> {0x298, 0x2a4} then Some (push_bit 18 1 OR push_bit 19 1, False)
      else if offset \<in> {0x300, 0x304, 0x320, 0x324} then Some (push_bit 22 1, True)
      else if offset \<in> {0x308, 0x30c, 0x328, 0x32c}
      then Some (push_bit 26 1 OR push_bit 27 1, True)
      else if offset \<in> {0x310, 0x314, 0x330, 0x334}
      then Some (push_bit 25 1 OR push_bit 31 1, True)
      else if offset \<in> {0x438, 0x43c, 0x448, 0x44c}
      then Some (push_bit 14 1 OR push_bit 15 1 OR push_bit 28 1, True)
      else if offset \<in> {0x29c, 0x2a0, 0x2a8, 0x2ac}
      then Some (push_bit 18 1 OR push_bit 19 1, True)
      else None)"

definition ownership_write :: "u64 \<Rightarrow> u32 \<Rightarrow> u32 \<Rightarrow> u32 option" where
  "ownership_write address v current =
     (if address = DEV_ASID then None
      else if address = PMC + 0x30 \<and> v AND 0x100 \<noteq> 0 \<and> v AND 31 \<in> {20, 21, 22} then None
      else if address = PMC + 0xf0 then Some ((v AND NOT 12) OR (current AND 12))
      else case checked_sub address CAR of
        None \<Rightarrow> Some v
      | Some offset \<Rightarrow>
          if offset \<ge> 4096 then Some v
          else if offset \<in> {0xc0, 0xc4, 0xcc, 0x480, 0x484, 0x488, 0x4c0, 0x52c, 0x608, 0x60c,
                             0x610, 0x6cc}
          then None
          else case owned_bits offset of
            None \<Rightarrow> Some v
          | Some (bits, write_one) \<Rightarrow>
              Some (if write_one then v AND NOT bits
                    else (v AND NOT bits) OR (current AND bits)))"


section \<open>Guest accesses (vm/mmio.rs)\<close>

text \<open>The access the syndrome describes in the first of the regions that holds it.\<close>

fun first_access ::
  "u64 \<Rightarrow> u64 \<Rightarrow> u64 \<Rightarrow> (u64 \<times> u64) list \<Rightarrow> (u64 \<times> access) option" where
  "first_access esr far hpfar [] = None"
| "first_access esr far hpfar ((base, sz) # regions) =
     (case decode_region esr far hpfar base sz of
        Some a \<Rightarrow> Some (base, a)
      | None \<Rightarrow> first_access esr far hpfar regions)"

definition guest_shared_access ::
  "'m mmio_ops \<Rightarrow> u64 \<Rightarrow> access \<Rightarrow> u64 list \<Rightarrow> 'm \<Rightarrow> u64 list \<times> 'm" where
  "guest_shared_access ops address a registers m =
     (if acc_write a
      then case (if reads_current address then mmio_read32 ops address m else (0, m)) of
             (current, m) \<Rightarrow>
               (case ownership_write address (store_value a registers) current of
                  Some v \<Rightarrow> (registers, mmio_barrier ops (mmio_write32 ops address v m))
                | None \<Rightarrow> (registers, m))
      else case (if address = DEV_ASID then (0, m) else mmio_read32 ops address m) of
             (v, m) \<Rightarrow> (load_value a v registers, m))"

definition guest_usb ::
  "'m mmio_ops \<Rightarrow> bool \<Rightarrow> u64 \<Rightarrow> u64 \<Rightarrow> u64 \<Rightarrow> u64 list \<Rightarrow> 'm \<Rightarrow> bool \<times> u64 list \<times> 'm" where
  "guest_usb ops enabled esr far hpfar registers m =
     (if \<not> enabled then (False, registers, m)
      else case first_access esr far hpfar CONTROLLERS of
        Some (_, a) \<Rightarrow> (True, if acc_write a then registers else load_data a 0 registers, m)
      | None \<Rightarrow>
          (case first_access esr far hpfar [(CAR, 4096), (PMC_PAGE, 4096), (MC_BASE, 4096)] of
             None \<Rightarrow> (False, registers, m)
           | Some (base, a) \<Rightarrow>
               if acc_size a \<noteq> 4 then (False, registers, m)
               else let address = base + acc_offset a
                 in if base = MC_BASE \<and> address \<noteq> DEV_ASID then (False, registers, m)
                    else (True, guest_shared_access ops address a registers m)))"

text \<open>The memory controller's page: the advertised reservation is read-only.\<close>

definition guest_mc ::
  "'m mmio_ops \<Rightarrow> u64 \<Rightarrow> u64 \<Rightarrow> u64 \<Rightarrow> u64 list \<Rightarrow> 'm \<Rightarrow> bool \<times> u64 list \<times> 'm" where
  "guest_mc ops esr far hpfar registers m =
     (case mc_decode esr far hpfar of
        None \<Rightarrow> (False, registers, m)
      | Some a \<Rightarrow>
          let address = MC_BASE + acc_offset a
          in if acc_write a
             then (True, registers,
                   if read_override (acc_offset a) = None
                   then mmio_write32 ops address (store_value a registers) m else m)
             else case (case read_override (acc_offset a) of
                          Some v \<Rightarrow> (v, m) | None \<Rightarrow> mmio_read32 ops address m) of
                    (v, m) \<Rightarrow> (True, load_value a v registers, m))"

section \<open>What the guest cannot change\<close>

text \<open>
  The physical registers behind the policy, as the clock controller documents them: writing a set or a
  clear register changes bits of another register, every other register holds what was written.
\<close>

datatype write_kind = SetBits | ClearBits

definition write_one_registers :: "(u64 \<times> u64 \<times> write_kind) list" where
  "write_one_registers =
     [(CAR + 0x300, CAR + 0x04, SetBits), (CAR + 0x304, CAR + 0x04, ClearBits),
      (CAR + 0x308, CAR + 0x08, SetBits), (CAR + 0x30c, CAR + 0x08, ClearBits),
      (CAR + 0x310, CAR + 0x0c, SetBits), (CAR + 0x314, CAR + 0x0c, ClearBits),
      (CAR + 0x320, CAR + 0x10, SetBits), (CAR + 0x324, CAR + 0x10, ClearBits),
      (CAR + 0x328, CAR + 0x14, SetBits), (CAR + 0x32c, CAR + 0x14, ClearBits),
      (CAR + 0x330, CAR + 0x18, SetBits), (CAR + 0x334, CAR + 0x18, ClearBits),
      (CAR + 0x438, CAR + 0x35c, SetBits), (CAR + 0x43c, CAR + 0x35c, ClearBits),
      (CAR + 0x448, CAR + 0x364, SetBits), (CAR + 0x44c, CAR + 0x364, ClearBits),
      (CAR + 0x29c, CAR + 0x298, SetBits), (CAR + 0x2a0, CAR + 0x298, ClearBits),
      (CAR + 0x2a8, CAR + 0x2a4, SetBits), (CAR + 0x2ac, CAR + 0x2a4, ClearBits)]"

type_synonym registers = "u64 \<Rightarrow> u32"

definition register_write :: "u64 \<Rightarrow> u32 \<Rightarrow> registers \<Rightarrow> registers" where
  "register_write a v m =
     (case map_of write_one_registers a of
        None \<Rightarrow> m(a := v)
      | Some (r, SetBits) \<Rightarrow> m(r := m r OR v)
      | Some (r, ClearBits) \<Rightarrow> m(r := m r AND NOT v))"

definition register_hardware :: "registers mmio_ops" where
  "register_hardware =
     \<lparr>mmio_read32 = \<lambda>a m. (m a, m), mmio_write32 = register_write, mmio_barrier = \<lambda>m. m\<rparr>"

text \<open>The bits of each register that keep the USB device controller clocked, out of reset and powered.\<close>

definition usb_bits :: "u64 \<Rightarrow> u32" where
  "usb_bits r =
     (if r = CAR + 0x04 \<or> r = CAR + 0x10 then push_bit 22 1
      else if r = CAR + 0x08 \<or> r = CAR + 0x14 then push_bit 26 1 OR push_bit 27 1
      else if r = CAR + 0x0c \<or> r = CAR + 0x18 then push_bit 25 1 OR push_bit 31 1
      else if r = CAR + 0x35c \<or> r = CAR + 0x364
      then push_bit 14 1 OR push_bit 15 1 OR push_bit 28 1
      else if r = CAR + 0x298 \<or> r = CAR + 0x2a4 then push_bit 18 1 OR push_bit 19 1
      else if r = PMC + 0xf0 then 12 else 0)"

definition usb_clock_sources :: "u64 list" where
  "usb_clock_sources = map ((+) CAR)
     [0xc0, 0xc4, 0xcc, 0x480, 0x484, 0x488, 0x4c0, 0x52c, 0x608, 0x60c, 0x610, 0x6cc]"

text \<open>A command to the power gate that toggles one of the three XUSB partitions.\<close>

definition xusb_toggle :: "u32 \<Rightarrow> bool" where
  "xusb_toggle v \<longleftrightarrow> v AND 0x100 \<noteq> 0 \<and> v AND 31 \<in> {20, 21, 22}"

definition usb_kept :: "registers \<Rightarrow> registers \<Rightarrow> bool" where
  "usb_kept m m' \<longleftrightarrow>
     (\<forall>r. m' r AND usb_bits r = m r AND usb_bits r)
     \<and> (\<forall>r. controller r \<longrightarrow> m' r = m r)
     \<and> (\<forall>r \<in> set usb_clock_sources. m' r = m r)
     \<and> m' DEV_ASID = m DEV_ASID
     \<and> (m' (PMC + 0x30) = m (PMC + 0x30) \<or> \<not> xusb_toggle (m' (PMC + 0x30)))"

lemma usb_kept_refl: "usb_kept m m"
  by (simp add: usb_kept_def)

lemma usb_kept_trans: "usb_kept m m' \<Longrightarrow> usb_kept m' m'' \<Longrightarrow> usb_kept m m''"
  by (auto simp: usb_kept_def)

lemma keep_bits:
  fixes x v b :: "'a::len word"
  shows "(x OR (v AND NOT b)) AND b = x AND b"
    and "(x AND NOT (v AND NOT b)) AND b = x AND b"
    and "((v AND NOT b) OR (x AND b)) AND b = x AND b"
  by (rule bit_word_eqI, auto simp: bit_simps)+

text \<open>The policy's table of write-one registers is the hardware's.\<close>

definition suppressed_offsets :: "u64 list" where
  "suppressed_offsets =
     [0xc0, 0xc4, 0xcc, 0x480, 0x484, 0x488, 0x4c0, 0x52c, 0x608, 0x60c, 0x610, 0x6cc]"

lemma write_one_checked:
  "list_all (\<lambda>(a, r, k).
     a \<noteq> DEV_ASID \<and> a \<noteq> PMC + 0x30 \<and> a \<noteq> PMC + 0xf0 \<and> CAR \<le> a \<and> a - CAR < 4096
     \<and> a - CAR \<notin> set suppressed_offsets \<and> owned_bits (a - CAR) = Some (usb_bits r, True)
     \<and> \<not> controller r \<and> r \<notin> set usb_clock_sources \<and> r \<noteq> DEV_ASID \<and> r \<noteq> PMC + 0x30)
   write_one_registers"
  by code_simp

lemma write_one_table:
  assumes "(a, r, k) \<in> set write_one_registers"
  shows "ownership_write a v c = Some (v AND NOT (usb_bits r))"
    and "\<not> controller r" and "r \<notin> set usb_clock_sources"
    and "r \<noteq> DEV_ASID" and "r \<noteq> PMC + 0x30"
proof -
  have t: "a \<noteq> DEV_ASID" "a \<noteq> PMC + 0x30" "a \<noteq> PMC + 0xf0" "CAR \<le> a" "a - CAR < 4096"
    "a - CAR \<notin> set suppressed_offsets" "owned_bits (a - CAR) = Some (usb_bits r, True)"
    "\<not> controller r" "r \<notin> set usb_clock_sources" "r \<noteq> DEV_ASID" "r \<noteq> PMC + 0x30"
    using write_one_checked assms by (auto simp: list_all_iff simp del: CAR_def PMC_def DEV_ASID_def)
  moreover have "\<not> 4096 \<le> a - CAR" using t(5) by (simp only: not_le)
  ultimately show "ownership_write a v c = Some (v AND NOT (usb_bits r))"
    by (simp add: ownership_write_def checked_sub_def suppressed_offsets_def
        del: CAR_def PMC_def DEV_ASID_def)
  from t show "\<not> controller r" "r \<notin> set usb_clock_sources" "r \<noteq> DEV_ASID" "r \<noteq> PMC + 0x30"
    by blast+
qed

lemma plain_table:
  assumes "usb_bits r \<noteq> 0" and "map_of write_one_registers r = None"
  shows "reads_current r \<and> ownership_write r v c = Some ((v AND NOT (usb_bits r)) OR (c AND usb_bits r))"
proof -
  have "r \<in> {CAR + 0x04, CAR + 0x10, CAR + 0x08, CAR + 0x14, CAR + 0x0c, CAR + 0x18, CAR + 0x35c,
      CAR + 0x364, CAR + 0x298, CAR + 0x2a4, PMC + 0xf0}"
    using assms(1) by (auto simp: usb_bits_def split: if_splits)
  then show ?thesis
    by (auto simp: ownership_write_def owned_bits_def checked_sub_def usb_bits_def reads_current_def)
qed

lemma suppressed:
  assumes "r \<in> set usb_clock_sources \<or> r = DEV_ASID"
  shows "ownership_write r v c = None"
  using assms
  by (auto simp: ownership_write_def checked_sub_def usb_clock_sources_def)

lemma toggle_suppressed: "ownership_write (PMC + 0x30) v c = Some w \<Longrightarrow> \<not> xusb_toggle w"
  by (auto simp: ownership_write_def checked_sub_def xusb_toggle_def split: if_splits)

text \<open>What the policy lets through leaves everything the monitor owns as it was.\<close>

lemma owned_write_keeps:
  fixes m :: registers
  assumes w: "ownership_write a v (if reads_current a then m a else 0) = Some w"
    and a: "\<not> controller a"
  shows "usb_kept m (register_write a w m)"
proof (cases "map_of write_one_registers a")
  case None
  have "a \<noteq> r" if "r \<in> set usb_clock_sources \<or> r = DEV_ASID" for r
    using suppressed [OF that] w by auto
  moreover have "w AND usb_bits a = m a AND usb_bits a"
  proof (cases "usb_bits a = 0")
    case False
    with plain_table [OF this None, of v "m a"] w
    have "w = (v AND NOT (usb_bits a)) OR (m a AND usb_bits a)" by simp
    then show ?thesis using keep_bits(3) by metis
  qed simp
  moreover have "a = PMC + 0x30 \<Longrightarrow> \<not> xusb_toggle w"
    using w toggle_suppressed by blast
  ultimately show ?thesis
    using a by (auto simp: usb_kept_def register_write_def None simp del: PMC_def DEV_ASID_def)
next
  case (Some rk)
  obtain r k where rk: "rk = (r, k)" by (cases rk)
  from Some have t: "(a, r, k) \<in> set write_one_registers" by (simp add: rk map_of_SomeD)
  from w write_one_table(1) [OF t] have "w = v AND NOT (usb_bits r)" by simp
  then have "register_write a w m r AND usb_bits r = m r AND usb_bits r"
    using keep_bits(1,2) [of "m r" v "usb_bits r"]
    by (cases k) (simp_all add: register_write_def Some rk)
  moreover have "register_write a w m r' = m r'" if "r' \<noteq> r" for r'
    using that by (cases k) (simp_all add: register_write_def Some rk)
  ultimately show ?thesis
    using write_one_table(2-5) [OF t] unfolding usb_kept_def by metis
qed

text \<open>One guest access, and a run of them.\<close>

lemma first_access_Some:
  "first_access esr far hpfar regions = Some (base, a)
     \<Longrightarrow> \<exists>sz. (base, sz) \<in> set regions \<and> access_ok sz a
           \<and> decode_region esr far hpfar base sz = Some a"
  by (induction regions)
     (force split: if_splits option.splits elim: decode_region_Some)+

lemma page_not_controller:
  assumes "base \<in> {CAR, PMC_PAGE, MC_BASE}" and "unat offset < 4096"
  shows "\<not> controller (base + offset)"
proof -
  have "unat (base + offset) = unat base + unat offset"
    using assms by (intro unat_add_no_overflow) (auto simp: unat_word_ariths)
  with assms show ?thesis
    by (auto simp: controller_def CONTROLLERS_def word_le_nat_alt word_less_nat_alt)
qed

lemma shared_access_keeps:
  assumes "\<not> controller address"
    and "guest_shared_access register_hardware address a registers m = (registers', m')"
  shows "usb_kept m m'"
  using assms owned_write_keeps [of address "store_value a registers" m]
  by (auto simp: guest_shared_access_def register_hardware_def usb_kept_refl
      split: if_splits option.splits)

lemma guest_usb_keeps:
  assumes "guest_usb register_hardware enabled esr far hpfar registers m = (h, registers', m')"
  shows "usb_kept m m'"
proof (cases "m' = m")
  case False
  with assms obtain base a where
    f: "first_access esr far hpfar [(CAR, 4096), (PMC_PAGE, 4096), (MC_BASE, 4096)] = Some (base, a)"
    and sz: "acc_size a = 4"
    and g: "guest_shared_access register_hardware (base + acc_offset a) a registers m
              = (registers', m')"
    by (auto simp: guest_usb_def Let_def split: if_splits option.splits)
  from first_access_Some [OF f] have "base \<in> {CAR, PMC_PAGE, MC_BASE}" and "access_ok 4096 a"
    by auto
  moreover from this sz have "unat (acc_offset a) < 4096" by (auto simp: access_ok_def)
  ultimately show ?thesis using g
    by (intro shared_access_keeps [OF page_not_controller, of base "acc_offset a"]) simp_all
qed (simp add: usb_kept_refl)

definition guest_usb_run ::
  "(u64 \<times> u64 \<times> u64) list \<Rightarrow> u64 list \<times> registers \<Rightarrow> u64 list \<times> registers" where
  "guest_usb_run = fold (\<lambda>(esr, far, hpfar) (registers, m).
     snd (guest_usb register_hardware True esr far hpfar registers m))"

text \<open>
  C20: However the guest accesses the registers the monitor mediates while it drives USB, and whatever
  it stores, the clock enables, resets, clock sources and power gates of the USB device controller, the
  controllers themselves and the controller's stream id stay as the monitor left them.
\<close>

theorem usb_registers_protected:
  "usb_kept m (snd (guest_usb_run aborts (registers, m)))"
proof (induction aborts arbitrary: registers m)
  case (Cons x aborts)
  obtain esr far hpfar where x: "x = (esr, far, hpfar)" by (cases x)
  obtain h registers' m' where
    g: "guest_usb register_hardware True esr far hpfar registers m = (h, registers', m')"
    by (metis surj_pair)
  then have "usb_kept m m'" by (rule guest_usb_keeps)
  with Cons [of m' registers'] show ?case
    by (auto simp: guest_usb_run_def x g intro: usb_kept_trans)
qed (simp add: guest_usb_run_def usb_kept_refl)

end
