(* ===== verification/Stage2.thy ===== *)
theory Stage2
  imports Usb_Ownership
begin

text \<open>
  The address maps: \<open>stage2.rs\<close> (the guest's stage-2 map, with the trapped pages, the GIC window and
  the USB exclusions), \<open>el2_mmu.rs\<close> (the monitor's own map), \<open>prepare\<close> of \<open>arch/aarch64/stage2.rs\<close>, and
  the layout record of \<open>drivers/interrupt/gicv2.rs\<close>.  A translation table is a list of 512 descriptors.
  \<open>walk\<close> is the architecture's table walk for the 36-bit space both maps are used with.
\<close>


section \<open>Tables\<close>

type_synonym page_table = "u64 list"

definition ENTRIES :: nat where [simp]: "ENTRIES = 512"
definition VMID :: u64 where [simp]: "VMID = 1"
definition SPLIT_INDEX :: nat where [simp]: "SPLIT_INDEX = unat (RESIDENT_BASE div GIB)"
definition MC_INDEX :: nat where [simp]: "MC_INDEX = unat (MC_BASE div GIB)"
definition ADDRESS_MASK :: u64 where "ADDRESS_MASK = 0x0000000ffffff000"
definition ACCESS :: u64 where "ACCESS = push_bit 6 3 OR push_bit 8 3 OR push_bit 10 1"
definition NORMAL :: u64 where "NORMAL = push_bit 2 0xf OR ACCESS OR 1"
definition DEVICE :: u64 where "DEVICE = ACCESS OR 1 OR push_bit 54 1"

datatype map_error = TablePlacement | GicLayout

definition resident_table :: "u64 \<Rightarrow> bool" where
  "resident_table address \<longleftrightarrow>
     address mod PAGE_SIZE = 0
     \<and> address \<ge> RESIDENT_BASE
     \<and> (case checked_add address PAGE_SIZE of None \<Rightarrow> False
        | Some e \<Rightarrow> e \<le> RESIDENT_BASE + RESIDENT_SIZE)"

text \<open>\<open>index as u64 * size\<close>, and a table written entry by entry.\<close>

definition entry_base :: "u64 \<Rightarrow> u64 \<Rightarrow> nat \<Rightarrow> u64" where
  "entry_base base sz index = base + word_of_nat index * sz"

definition each_entry :: "(nat \<Rightarrow> u64 \<Rightarrow> u64) \<Rightarrow> page_table \<Rightarrow> page_table" where
  "each_entry f table = map (\<lambda>(index, entry). f index entry) (enumerate 0 table)"

definition zeroed :: "page_table \<Rightarrow> page_table" where
  "zeroed table = replicate (length table) 0"

text \<open>The address checks: each table resident and different from those before it.\<close>

fun placed_tables :: "u64 list \<Rightarrow> u64 list \<Rightarrow> bool" where
  "placed_tables existing [] \<longleftrightarrow> True"
| "placed_tables existing (address # addresses) \<longleftrightarrow>
     resident_table address \<and> address \<notin> set existing
     \<and> placed_tables (address # existing) addresses"


section \<open>The stage-2 map\<close>

record stage2_tables =
  t_root :: page_table
  t_split :: page_table
  t_mmio :: page_table
  t_pages :: page_table

definition root_entry :: "nat \<Rightarrow> u64" where
  "root_entry index =
     (let address = entry_base 0 GIB index
      in address OR (if address < RAM_BASE then DEVICE else NORMAL))"

definition split_entry :: "nat \<Rightarrow> u64 \<Rightarrow> u64" where
  "split_entry index entry =
     (let address = entry_base (word_of_nat SPLIT_INDEX * GIB) BLOCK_SIZE index
      in if \<not> (RESIDENT_BASE \<le> address \<and> address < RESIDENT_BASE + RESIDENT_SIZE)
         then address OR NORMAL else entry)"

definition mmio_entry :: "nat \<Rightarrow> u64 \<Rightarrow> u64" where
  "mmio_entry index entry = entry_base (word_of_nat MC_INDEX * GIB) BLOCK_SIZE index OR DEVICE"

definition page_base :: u64 where
  "page_base = MC_BASE AND NOT (BLOCK_SIZE - 1)"

definition pages_entry :: "nat \<Rightarrow> u64 \<Rightarrow> u64" where
  "pages_entry index entry =
     (let address = entry_base page_base PAGE_SIZE index
      in if address \<noteq> MC_BASE \<and> address \<noteq> UART_BASE \<and> address \<noteq> VIRTIO_BASE
         then address OR DEVICE OR 2 else entry)"

definition block_index :: "u64 \<Rightarrow> nat" where
  "block_index address = unat ((address mod GIB) div BLOCK_SIZE)"

definition stage2_build ::
  "u64 list \<Rightarrow> stage2_tables \<Rightarrow> (map_error + u64) \<times> stage2_tables" where
  "stage2_build addresses t =
     (if \<not> placed_tables [] addresses then (Inl TablePlacement, t)
      else
        let root = fold (\<lambda>index root. root[index := root_entry index])
                     [0..<unat (IPA_LIMIT div GIB)] (zeroed (t_root t));
            split = each_entry split_entry (zeroed (t_split t));
            mmio = each_entry mmio_entry (zeroed (t_mmio t));
            pages = each_entry pages_entry (zeroed (t_pages t));
            mmio = mmio[block_index MC_BASE := addresses ! 3 OR 3];
            root = root[MC_INDEX := addresses ! 2 OR 3];
            root = root[SPLIT_INDEX := (addresses ! 1 AND ADDRESS_MASK) OR 3]
        in (Inr (push_bit 48 VMID OR addresses ! 0),
            \<lparr>t_root = root, t_split = split, t_mmio = mmio, t_pages = pages\<rparr>))"

text \<open>The USB exclusions.\<close>

definition usb_pages_entry :: "nat \<Rightarrow> u64 \<Rightarrow> u64" where
  "usb_pages_entry index entry =
     (let ipa = entry_base (MC_BASE AND NOT (BLOCK_SIZE - 1)) PAGE_SIZE index
      in if controller ipa \<or> ipa = PMC_PAGE then 0 else entry)"

definition car_entry :: "nat \<Rightarrow> u64 \<Rightarrow> u64" where
  "car_entry index entry =
     (let ipa = entry_base (CAR AND NOT (BLOCK_SIZE - 1)) PAGE_SIZE index
      in if ipa = CAR \<or> ipa = LIC_BASE then 0 else ipa OR DEVICE OR 2)"

definition protect_usb ::
  "u64 \<Rightarrow> u64 list \<Rightarrow> page_table \<times> page_table \<times> page_table
     \<Rightarrow> (map_error + unit) \<times> page_table \<times> page_table \<times> page_table" where
  "protect_usb address existing = (\<lambda>(mmio, pages, car).
     if \<not> resident_table address \<or> address \<in> set existing
     then (Inl TablePlacement, mmio, pages, car)
     else
       let pages = each_entry usb_pages_entry pages;
           mmio = mmio[block_index 0x7d000000 := 0];
           car = each_entry car_entry car;
           mmio = mmio[block_index CAR := address OR 3]
       in (Inr (), mmio, pages, car))"


section \<open>The interrupt controller's window\<close>

record gic_layout =
  gl_distributor :: u64
  gl_distributor_size :: u64
  gl_cpu :: u64
  gl_cpu_size :: u64
  gl_hypervisor :: u64
  gl_hypervisor_size :: u64
  gl_virtual_cpu :: u64
  gl_virtual_cpu_size :: u64

definition TEGRA210 :: gic_layout where
  "TEGRA210 = \<lparr>gl_distributor = 0x50041000, gl_distributor_size = 0x1000,
     gl_cpu = 0x50042000, gl_cpu_size = 0x2000,
     gl_hypervisor = 0x50044000, gl_hypervisor_size = 0x2000,
     gl_virtual_cpu = 0x50046000, gl_virtual_cpu_size = 0x2000\<rparr>"

definition QEMU_VIRT :: gic_layout where
  "QEMU_VIRT = \<lparr>gl_distributor = 0x8000000, gl_distributor_size = 0x10000,
     gl_cpu = 0x8010000, gl_cpu_size = 0x10000,
     gl_hypervisor = 0x8030000, gl_hypervisor_size = 0x10000,
     gl_virtual_cpu = 0x8040000, gl_virtual_cpu_size = 0x10000\<rparr>"

text \<open>A range of whole pages inside one 2 MiB block, as its bounds.\<close>

definition page_range :: "u64 \<Rightarrow> u64 \<Rightarrow> (u64 \<times> u64) option" where
  "page_range base sz = do {
     last \<leftarrow> checked_add base sz;
     if base mod PAGE_SIZE = 0 \<and> sz \<noteq> 0 \<and> sz mod PAGE_SIZE = 0 \<and> last \<le> IPA_LIMIT
        \<and> base div BLOCK_SIZE = (last - 1) div BLOCK_SIZE
     then Some (base, last) else None
   }"

fun pairwise_apart :: "(u64 \<times> u64) list \<Rightarrow> bool" where
  "pairwise_apart [] \<longleftrightarrow> True"
| "pairwise_apart ((s, e) # ranges) \<longleftrightarrow>
     list_all (\<lambda>(s', e'). \<not> (s < e' \<and> s' < e)) ranges \<and> pairwise_apart ranges"

text \<open>\<open>(start..end).step_by(PAGE_SIZE)\<close>.\<close>

definition page_steps :: "u64 \<Rightarrow> u64 \<Rightarrow> u64 list" where
  "page_steps start limit =
     map (\<lambda>k. start + word_of_nat k * PAGE_SIZE) [0..<(unat limit - unat start + 4095) div 4096]"

definition hide_pages :: "u64 \<Rightarrow> u64 \<times> u64 \<Rightarrow> page_table \<Rightarrow> page_table" where
  "hide_pages block_base r pages =
     fold (\<lambda>address pages. pages[unat ((address - block_base) div PAGE_SIZE) := 0])
       (page_steps (fst r) (snd r)) pages"

text \<open>
  The page table of the controller's block.  It is built after the checks of \<open>protect_gic\<close>: the windows lie in
  one block below \<open>2 ^ 36\<close>, so the additions do not overflow and the indexes are within the table.
\<close>

definition gic_pages_table :: "gic_layout \<Rightarrow> u64 \<Rightarrow> page_table \<Rightarrow> page_table" where
  "gic_pages_table l block_base gic_pages =
     (let pages = each_entry (\<lambda>index entry. entry_base block_base PAGE_SIZE index OR DEVICE OR 2)
                    (zeroed gic_pages);
          pages = hide_pages block_base
                    (gl_distributor l, gl_distributor l + gl_distributor_size l) pages;
          pages = fold (\<lambda>offset pages.
                     pages[unat ((gl_cpu l + offset - block_base) div PAGE_SIZE) :=
                             (gl_virtual_cpu l + offset) OR DEVICE OR 2])
                    (page_steps 0 (gl_cpu_size l)) pages;
          pages = hide_pages block_base
                    (gl_hypervisor l, gl_hypervisor l + gl_hypervisor_size l) pages
      in hide_pages block_base
           (gl_virtual_cpu l, gl_virtual_cpu l + gl_virtual_cpu_size l) pages)"

definition gic_ranges :: "gic_layout \<Rightarrow> (u64 \<times> u64) option list" where
  "gic_ranges l =
     [page_range (gl_distributor l) (gl_distributor_size l),
      page_range (gl_cpu l) (gl_cpu_size l),
      page_range (gl_hypervisor l) (gl_hypervisor_size l),
      page_range (gl_virtual_cpu l) (gl_virtual_cpu_size l)]"

definition protect_gic ::
  "u64 list \<Rightarrow> u64 list \<Rightarrow> gic_layout \<Rightarrow> page_table \<times> page_table \<times> page_table \<times> page_table
     \<Rightarrow> (map_error + unit) \<times> page_table \<times> page_table \<times> page_table \<times> page_table" where
  "protect_gic addresses existing l = (\<lambda>(root, mmio, gic_l2, gic_pages).
     if \<not> placed_tables existing addresses
     then (Inl TablePlacement, root, mmio, gic_l2, gic_pages)
     else if None \<in> set (gic_ranges l)
     then (Inl GicLayout, root, mmio, gic_l2, gic_pages)
     else if gl_cpu_size l > gl_virtual_cpu_size l
     then (Inl GicLayout, root, mmio, gic_l2, gic_pages)
     else
       let block_base = gl_distributor l AND NOT (BLOCK_SIZE - 1)
       in if list_ex (\<lambda>base. base AND NOT (BLOCK_SIZE - 1) \<noteq> block_base)
               [gl_cpu l, gl_hypervisor l, gl_virtual_cpu l]
          then (Inl GicLayout, root, mmio, gic_l2, gic_pages)
          else if \<not> pairwise_apart (map the (gic_ranges l))
          then (Inl GicLayout, root, mmio, gic_l2, gic_pages)
          else
            let gib_index = unat (block_base div GIB);
                index = block_index block_base
            in if gib_index \<noteq> MC_INDEX
                  \<and> (gib_index = SPLIT_INDEX \<or> root ! gib_index AND 3 \<noteq> 1)
               then (Inl GicLayout, root, mmio, gic_l2, gic_pages)
               else
                 let gic_l2 = zeroed gic_l2;
                     gic_pages = gic_pages_table l block_base gic_pages
                 in if gib_index = MC_INDEX
                    then (Inr (), root, mmio[index := addresses ! 1 OR 3], gic_l2, gic_pages)
                    else
                      let gib_base = word_of_nat gib_index * GIB;
                          gic_l2 = each_entry
                            (\<lambda>k entry. entry_base gib_base BLOCK_SIZE k OR DEVICE) gic_l2;
                          gic_l2 = gic_l2[index := addresses ! 1 OR 3];
                          root = root[gib_index := addresses ! 0 OR 3]
                      in (Inr (), root, mmio, gic_l2, gic_pages))"


section \<open>Preparing the guest's map (arch/aarch64/stage2.rs)\<close>

text \<open>The seven static tables, in the order of their addresses.\<close>

record guest_tables = stage2_tables +
  t_gic_l2 :: page_table
  t_gic_pages :: page_table
  t_car :: page_table

definition prepare ::
  "u64 list \<Rightarrow> bool \<Rightarrow> gic_layout \<Rightarrow> guest_tables \<Rightarrow> (map_error + unit) \<times> guest_tables" where
  "prepare addresses physical_usb gic t =
     (case stage2_build (take 4 addresses) (stage2_tables.truncate t) of
        (Inl e, _) \<Rightarrow> (Inl e, t)
      | (Inr _, b) \<Rightarrow>
          let t = t\<lparr>t_root := t_root b, t_split := t_split b, t_mmio := t_mmio b,
                    t_pages := t_pages b\<rparr>
          in case protect_gic (take 2 (drop 4 addresses)) (take 4 addresses) gic
                    (t_root t, t_mmio t, t_gic_l2 t, t_gic_pages t) of
            (Inl e, _) \<Rightarrow> (Inl e, t)
          | (Inr _, root, mmio, gic_l2, gic_pages) \<Rightarrow>
              let t = t\<lparr>t_root := root, t_mmio := mmio, t_gic_l2 := gic_l2,
                        t_gic_pages := gic_pages\<rparr>
              in if \<not> physical_usb then (Inr (), t)
                 else case protect_usb (addresses ! 6) (take 6 addresses)
                             (t_mmio t, t_pages t, t_car t) of
                   (Inl e, _) \<Rightarrow> (Inl e, t)
                 | (Inr _, mmio, pages, car) \<Rightarrow>
                     (Inr (), t\<lparr>t_mmio := mmio, t_pages := pages, t_car := car\<rparr>))"


section \<open>The table walk\<close>

text \<open>
  A walk starts with 1 GiB entries and goes on with 2 MiB and 4 KiB entries of the tables found at the
  addresses the descriptors name.  It returns the output address and the last descriptor.
\<close>

fun walk :: "(u64 \<Rightarrow> page_table option) \<Rightarrow> nat list \<Rightarrow> page_table \<Rightarrow> u64 \<Rightarrow> (u64 \<times> u64) option" where
  "walk memory [] table a = None"
| "walk memory (n # ns) table a =
     (let d = table ! (unat (drop_bit n a) mod 512)
      in if d AND 3 = (if n = 12 then 3 else 1)
         then Some ((d AND ADDRESS_MASK AND NOT (mask n)) OR (a AND mask n), d)
         else if d AND 3 = 3
         then case memory (d AND ADDRESS_MASK) of
                None \<Rightarrow> None | Some t \<Rightarrow> walk memory ns t a
         else None)"

definition translate :: "(u64 \<Rightarrow> page_table option) \<Rightarrow> page_table \<Rightarrow> u64 \<Rightarrow> (u64 \<times> u64) option" where
  "translate memory root a =
     (if IPA_LIMIT \<le> a then None else walk memory [30, 21, 12] root a)"


section \<open>Frames\<close>

definition frame :: "nat \<Rightarrow> u64 \<Rightarrow> u64" where
  "frame n a = a AND NOT (mask n)"

lemma ADDRESS_MASK_eq: "ADDRESS_MASK = push_bit 12 (mask 24)"
  by (simp add: ADDRESS_MASK_def mask_eq_exp_minus_1)

lemma unat_frame: "unat (frame n a) = unat a div 2 ^ n * 2 ^ n"
proof -
  have u: "take_bit 64 (unat a) = unat a"
    using unat_bounds(4) [of a] by (simp add: take_bit_nat_eq_self)
  have "frame n a = push_bit n (drop_bit n a)"
    unfolding frame_def by (rule bit_word_eqI) (auto simp: bit_simps)
  moreover have "take_bit 64 (unat a div 2 ^ n * 2 ^ n) = unat a div 2 ^ n * 2 ^ n"
  proof (rule take_bit_nat_eq_self)
    have "unat a div 2 ^ n * 2 ^ n \<le> unat a" by simp
    also have "unat a < 2 ^ 64" using unsigned_less [of a] by simp
    finally show "unat a div 2 ^ n * 2 ^ n < 2 ^ 64" .
  qed
  moreover have "unat (push_bit n (drop_bit n a)) = take_bit 64 (unat a div 2 ^ n * 2 ^ n)"
    by (simp only: unsigned_push_bit_eq unsigned_drop_bit_eq)
       (simp add: push_bit_eq_mult drop_bit_eq_div u)
  ultimately show ?thesis by simp
qed

lemma frame_frame: "n \<le> m \<Longrightarrow> frame m (frame n a) = frame m a"
  unfolding frame_def by (rule bit_word_eqI) (auto simp: bit_simps)

lemma frame_eq_iff: "frame n a = frame n b \<longleftrightarrow> drop_bit n a = drop_bit n b"
proof
  assume "frame n a = frame n b"
  then have "drop_bit n (frame n a) = drop_bit n (frame n b)" by simp
  moreover have "drop_bit n (frame n c) = drop_bit n c" for c
    unfolding frame_def by (rule bit_word_eqI) (auto simp: bit_simps dest: bit_imp_le_length)
  ultimately show "drop_bit n a = drop_bit n b" by simp
next
  assume "drop_bit n a = drop_bit n b"
  moreover have "frame n c = push_bit n (drop_bit n c)" for c
    unfolding frame_def by (rule bit_word_eqI) (auto simp: bit_simps)
  ultimately show "frame n a = frame n b" by simp
qed

text \<open>The entry of a table that an address selects starts at the address's frame.\<close>

lemma entry_base_frame:
  assumes "n + 9 \<le> 63" and "sz = 2 ^ n"
  shows "entry_base (frame (n + 9) a) sz (unat (drop_bit n a) mod 512) = frame n a"
proof -
  have "unat (drop_bit n a) mod 512 = unat (take_bit 9 (drop_bit n a))"
    by (simp only: unsigned_take_bit_eq) (simp add: take_bit_eq_mod)
  then have "entry_base (frame (n + 9) a) sz (unat (drop_bit n a) mod 512)
      = frame (n + 9) a + push_bit n (take_bit 9 (drop_bit n a))"
    by (simp add: entry_base_def assms(2) push_bit_eq_mult)
  also have "\<dots> = frame (n + 9) a OR push_bit n (take_bit 9 (drop_bit n a))"
    by (rule disjunctive_add_eq_or, rule bit_word_eqI) (auto simp: frame_def bit_simps)
  also have "\<dots> = frame n a"
    unfolding frame_def by (rule bit_word_eqI) (auto simp: bit_simps)
  finally show ?thesis .
qed


section \<open>Descriptors\<close>

lemma descriptor_fields:
  fixes a c M :: "'a::len word"
  assumes "a AND M = a" and "c AND M = 0" and "M AND 3 = 0"
  shows "(a OR c) AND M = a" and "(a OR c) AND 3 = c AND 3"
proof -
  show "(a OR c) AND M = a" by (simp add: bit.conj_disj_distrib2 assms)
  have "a AND 3 = a AND (M AND 3)" using assms(1) by (metis and.assoc)
  then show "(a OR c) AND 3 = c AND 3" by (simp add: bit.conj_disj_distrib2 assms(3))
qed

lemma ADDRESS_MASK_3: "ADDRESS_MASK AND 3 = 0"
  by (simp add: ADDRESS_MASK_def)

text \<open>The addresses a descriptor can hold: whole pages of the 36-bit space.\<close>

definition page_address :: "u64 \<Rightarrow> bool" where
  "page_address a \<longleftrightarrow> a AND ADDRESS_MASK = a"

lemma page_address_iff: "page_address a \<longleftrightarrow> frame 12 a = a \<and> unat a < 2 ^ 36"
proof -
  have "unat a < 2 ^ 36 \<longleftrightarrow> take_bit 36 a = a"
    by (metis take_bit_nat_eq_self_iff unsigned_take_bit_eq word_unat_eq_iff)
  moreover have "a AND ADDRESS_MASK = take_bit 36 (frame 12 a)"
    unfolding ADDRESS_MASK_eq frame_def by (rule bit_word_eqI) (auto simp: bit_simps)
  moreover have "take_bit 36 (frame 12 a) = a \<longleftrightarrow> frame 12 a = a \<and> take_bit 36 a = a"
  proof
    assume e: "take_bit 36 (frame 12 a) = a"
    have "take_bit 36 (frame 12 b) = frame 12 (take_bit 36 b)" for b :: u64
      unfolding frame_def by (rule bit_word_eqI) (auto simp: bit_simps)
    moreover have "take_bit 36 a = a"
      using e by (metis take_bit_take_bit min.idem)
    ultimately show "frame 12 a = a \<and> take_bit 36 a = a"
      using e by simp
  qed simp
  ultimately show ?thesis by (simp add: page_address_def)
qed

lemma frame_page_address:
  assumes "12 \<le> n" and "unat a < 2 ^ 36"
  shows "page_address (frame n a)"
proof -
  have "unat (frame n a) \<le> unat a" by (simp add: unat_frame)
  moreover have "frame 12 (frame n a) = frame n a"
    unfolding frame_def using assms(1) by (intro bit_word_eqI) (auto simp: bit_simps)
  ultimately show ?thesis using assms(2) by (simp add: page_address_iff)
qed

text \<open>The attribute words: none has an address bit, and the low two bits give the kind.\<close>

lemma attributes:
  "DEVICE AND ADDRESS_MASK = 0" "NORMAL AND ADDRESS_MASK = 0" "(3 :: u64) AND ADDRESS_MASK = 0"
  "(DEVICE OR 2) AND ADDRESS_MASK = 0"
  "DEVICE AND 3 = 1" "NORMAL AND 3 = 1" "(DEVICE OR 2) AND 3 = 3"
  by (simp_all add: DEVICE_def NORMAL_def ACCESS_def ADDRESS_MASK_def)

lemmas descriptor_address = descriptor_fields(1) [OF _ _ ADDRESS_MASK_3, folded page_address_def]
lemmas descriptor_kind = descriptor_fields(2) [OF _ _ ADDRESS_MASK_3, folded page_address_def]

lemma leaf_output:
  assumes "12 \<le> n" and "unat a < 2 ^ 36" and "c AND ADDRESS_MASK = 0"
  shows "((frame n a OR c) AND ADDRESS_MASK AND NOT (mask n)) OR (a AND mask n) = a"
proof -
  have "(frame n a OR c) AND ADDRESS_MASK = frame n a"
    using assms by (intro descriptor_address frame_page_address)
  then have "((frame n a OR c) AND ADDRESS_MASK AND NOT (mask n)) OR (a AND mask n)
      = (frame n a AND NOT (mask n)) OR (a AND mask n)" by (metis and.assoc)
  also have "\<dots> = a"
    unfolding frame_def by (intro bit_word_eqI) (auto simp: bit_simps)
  finally show ?thesis .
qed


section \<open>Writing tables\<close>

lemma length_each_entry [simp]: "length (each_entry f t) = length t"
  by (simp add: each_entry_def)

lemma nth_each_entry [simp]: "i < length t \<Longrightarrow> each_entry f t ! i = f i (t ! i)"
  by (simp add: each_entry_def nth_enumerate_eq)

lemma length_zeroed [simp]: "length (zeroed t) = length t"
  by (simp add: zeroed_def)

lemma nth_zeroed [simp]: "i < length t \<Longrightarrow> zeroed t ! i = 0"
  by (simp add: zeroed_def)

lemma length_fold_update [simp]: "length (fold (\<lambda>x t. t[f x := v x]) xs t) = length t"
  by (induction xs arbitrary: t) auto

lemma nth_fold_update:
  assumes "\<And>x. x \<in> set xs \<Longrightarrow> v x = g (f x)" and "i < length t"
  shows "fold (\<lambda>x t. t[f x := v x]) xs t ! i = (if i \<in> f ` set xs then g i else t ! i)"
  using assms
proof (induction xs arbitrary: t)
  case (Cons x xs)
  then have "fold (\<lambda>x t. t[f x := v x]) xs (t[f x := v x]) ! i
      = (if i \<in> f ` set xs then g i else t[f x := v x] ! i)" by simp
  with Cons.prems show ?case by (auto simp: nth_list_update)
qed simp


section \<open>Steps of a walk\<close>

abbreviation slot :: "nat \<Rightarrow> u64 \<Rightarrow> nat" where
  "slot n a \<equiv> unat (drop_bit n a) mod 512"

lemma walk_block:
  assumes "n \<noteq> 12" and "12 \<le> n" and "unat a < 2 ^ 36"
    and "table ! slot n a = frame n a OR c" and "c = DEVICE \<or> c = NORMAL"
  shows "map_option fst (walk memory (n # ns) table a) = Some a"
proof -
  have p: "page_address (frame n a)" by (rule frame_page_address) (use assms in auto)
  have c: "c AND ADDRESS_MASK = 0" "c AND 3 = 1" using assms(5) by (auto simp: attributes)
  have "(frame n a OR c) AND 3 = 1" using descriptor_kind [OF p c(1)] c(2) by simp
  moreover have "((frame n a OR c) AND ADDRESS_MASK AND NOT (mask n)) OR (a AND mask n) = a"
    by (rule leaf_output) (use assms c in auto)
  ultimately show ?thesis using assms(1) by (simp add: assms(4))
qed

lemma walk_page:
  assumes "page_address b" and "table ! slot 12 a = b OR (DEVICE OR 2)"
  shows "map_option fst (walk memory (12 # ns) table a) = Some (b OR (a AND mask 12))"
proof -
  have "(b OR (DEVICE OR 2)) AND 3 = 3" and "(b OR (DEVICE OR 2)) AND ADDRESS_MASK = b"
    using descriptor_kind [OF assms(1)] descriptor_address [OF assms(1)] by (simp_all add: attributes)
  moreover have "b AND NOT (mask 12) = b"
    using assms(1) by (simp add: page_address_iff frame_def)
  ultimately have "(b OR (DEVICE OR 2)) AND 3 = 3"
    and "(b OR (DEVICE OR 2)) AND ADDRESS_MASK AND NOT (mask 12) = b" by (metis and.assoc)+
  then show ?thesis by (simp only: walk.simps Let_def assms(2) if_True simp_thms) simp
qed

lemma walk_table:
  assumes "n \<noteq> 12" and "page_address b" and "table ! slot n a = b OR 3" and "memory b = Some t"
  shows "walk memory (n # ns) table a = walk memory ns t a"
proof -
  have "(b OR 3) AND 3 = 3" and "(b OR 3) AND ADDRESS_MASK = b"
    using descriptor_kind [OF assms(2)] descriptor_address [OF assms(2)] by (simp_all add: attributes)
  then show ?thesis using assms(1,4) by (simp add: assms(3))
qed

lemma walk_fault:
  assumes "table ! slot n a = 0"
  shows "walk memory (n # ns) table a = None"
  using assms by simp

lemma slot_less [simp]: "slot n a < 512"
  by simp

lemma slot_eq_iff:
  assumes "n + 9 \<le> 63" and "frame (n + 9) a = frame (n + 9) b"
  shows "slot n a = slot n b \<longleftrightarrow> frame n a = frame n b"
proof
  assume "slot n a = slot n b"
  with assms(2) have "entry_base (frame (n + 9) a) (2 ^ n) (slot n a)
      = entry_base (frame (n + 9) b) (2 ^ n) (slot n b)" by simp
  then show "frame n a = frame n b" by (simp only: entry_base_frame [OF assms(1) refl])
next
  assume "frame n a = frame n b"
  then show "slot n a = slot n b" by (simp add: frame_eq_iff)
qed

lemma block_index_slot: "block_index a = slot 21 a"
proof -
  have "a mod GIB = take_bit 30 a" "a div BLOCK_SIZE = drop_bit 21 a" for a :: u64
    by (simp_all add: take_bit_eq_mod drop_bit_eq_div)
  then have "(a mod GIB) div BLOCK_SIZE = drop_bit 21 (take_bit 30 a)" by metis
  also have "\<dots> = take_bit 9 (drop_bit 21 a)"
    by (rule bit_word_eqI) (auto simp: bit_simps)
  finally show ?thesis
    by (simp only: block_index_def unsigned_take_bit_eq) (simp add: take_bit_eq_mod)
qed

lemma le_frame_iff:
  assumes "frame n s = s"
  shows "s \<le> frame n a \<longleftrightarrow> s \<le> a"
proof -
  from assms obtain k where "unat s = k * 2 ^ n" by (metis unat_frame)
  then show ?thesis
    by (simp add: word_le_nat_alt unat_frame less_eq_div_iff_mult_less_eq)
qed

lemma frame_less_iff:
  assumes "frame n e = e"
  shows "frame n a < e \<longleftrightarrow> a < e"
proof -
  from assms obtain k where "unat e = k * 2 ^ n" by (metis unat_frame)
  then show ?thesis
    by (simp add: word_less_nat_alt unat_frame div_less_iff_less_mult)
qed

lemma resident_frame: "resident (frame 21 a) \<longleftrightarrow> resident a"
proof -
  have "frame 21 RESIDENT_BASE = RESIDENT_BASE"
    and "frame 21 (RESIDENT_BASE + RESIDENT_SIZE) = RESIDENT_BASE + RESIDENT_SIZE"
    by (simp_all add: frame_def mask_eq_exp_minus_1)
  then show ?thesis unfolding resident_def by (simp only: le_frame_iff frame_less_iff)
qed

lemma resident_table_address:
  assumes "resident_table a"
  shows "page_address a" and "resident a" and "frame 12 a = a"
proof -
  from assms have "take_bit 12 a = 0" and ge: "RESIDENT_BASE \<le> a"
    and "\<exists>e. checked_add a PAGE_SIZE = Some e \<and> e \<le> RESIDENT_BASE + RESIDENT_SIZE"
    by (auto simp: resident_table_def take_bit_eq_mod split: option.splits)
  then obtain e where t: "take_bit 12 a = 0" and e: "checked_add a PAGE_SIZE = Some e"
    "e \<le> RESIDENT_BASE + RESIDENT_SIZE" by blast
  show f: "frame 12 a = a"
    unfolding frame_def
  proof (rule bit_word_eqI)
    fix i
    show "bit (a AND NOT (mask 12)) i = bit a i"
      using arg_cong [OF t, of "\<lambda>w. bit w i"] by (auto simp: bit_simps dest: bit_imp_le_length)
  qed
  show "resident a"
    using ge e by (auto simp: resident_iff checked_add_Some_iff word_le_nat_alt)
  then have "unat a < 2 ^ 36" by (simp add: resident_iff)
  with \<open>frame 12 a = a\<close> show "page_address a" by (simp add: page_address_iff)
qed

section \<open>The interrupt controller's pages\<close>

definition within :: "u64 \<times> u64 \<Rightarrow> u64 \<Rightarrow> bool" where
  "within r a \<longleftrightarrow> fst r \<le> a \<and> a < snd r"

lemma page_range_Some:
  assumes "page_range base sz = Some r"
  shows "r = (base, base + sz)" and "frame 12 base = base" and "frame 12 (base + sz) = base + sz"
    and "unat (base + sz) = unat base + unat sz" and "base + sz \<le> IPA_LIMIT"
    and "within r a \<Longrightarrow> frame 21 a = frame 21 base" and "sz \<noteq> 0"
proof -
  from assms obtain e where e: "checked_add base sz = Some e" and r: "r = (base, e)"
    and b: "base mod PAGE_SIZE = 0" and sz: "sz \<noteq> 0" "sz mod PAGE_SIZE = 0" and l: "e \<le> IPA_LIMIT"
    and blk: "base div BLOCK_SIZE = (e - 1) div BLOCK_SIZE"
    by (auto simp: page_range_def bind_eq_Some_conv split: if_splits)
  have aligned: "frame 12 x = x \<longleftrightarrow> unat x mod 4096 = 0" for x
  proof -
    have "frame 12 x = x \<longleftrightarrow> unat x div 4096 * 4096 = unat x"
      by (simp add: word_unat_eq_iff unat_frame)
    then show ?thesis using div_mult_mod_eq [of "unat x" 4096] by linarith
  qed
  have modn: "unat x mod 4096 = 0" if "x mod PAGE_SIZE = 0" for x
    using arg_cong [OF that, of unat] by (simp add: unat_mod_distrib)
  have eu: "unat e = unat base + unat sz" using e by (simp add: checked_add_Some_iff)
  then have es: "e = base + sz" using e by (auto simp: checked_add_def split: if_splits)
  show "r = (base, base + sz)" "sz \<noteq> 0" by (simp_all add: r es sz)
  show "frame 12 base = base" using modn [OF b] by (simp add: aligned)
  show "frame 12 (base + sz) = base + sz"
    using modn [OF b] modn [OF sz(2)] eu by (simp add: aligned mod_eq_0_iff_dvd flip: es)
  show "unat (base + sz) = unat base + unat sz" and "base + sz \<le> IPA_LIMIT"
    using eu l by (simp_all add: es)
  assume a: "within r a"
  have pos: "0 < unat sz" using sz(1) by (simp add: unat_gt_0)
  have "unat (e - 1) = unat e - 1"
    using pos eu by (subst unat_sub) (auto simp: word_le_nat_alt)
  with a have "unat base \<le> unat a" "unat a \<le> unat (e - 1)"
    by (auto simp: within_def r word_le_nat_alt word_less_nat_alt)
  moreover have "unat base div 2097152 = unat (e - 1) div 2097152"
    using arg_cong [OF blk, of unat] by (simp add: unat_div)
  ultimately have "unat a div 2097152 = unat base div 2097152"
    using div_le_mono [of "unat base" "unat a" 2097152]
      div_le_mono [of "unat a" "unat (e - 1)" 2097152] by linarith
  then show "frame 21 a = frame 21 base"
    by (simp add: word_unat_eq_iff unat_frame)
qed

lemma page_steps_set:
  assumes "frame 12 s = s" and "frame 12 e = e" and "s \<le> e"
  shows "set (page_steps s e) = {x. frame 12 x = x \<and> s \<le> x \<and> x < e}"
proof -
  obtain i where i: "unat s = i * 4096" using unat_frame [of 12 s] assms(1) by simp
  obtain j where j: "unat e = j * 4096" using unat_frame [of 12 e] assms(2) by simp
  have "i \<le> j" using assms(3) i j by (simp add: word_le_nat_alt)
  then have n: "(unat e - unat s + 4095) div 4096 = j - i"
    by (simp add: i j flip: diff_mult_distrib)
  have small: "j * 4096 < 2 ^ 64" using unat_bounds(4) [of e] j by simp
  have at: "unat (s + word_of_nat k * PAGE_SIZE) = (i + k) * 4096" if "k < j - i" for k
  proof -
    have "(i + k) * 4096 < 2 ^ 64" using that small by simp
    then have "unat (word_of_nat ((i + k) * 4096) :: u64) = (i + k) * 4096"
      by (simp only: unat_of_nat) simp
    moreover have "s = word_of_nat (i * 4096)" by (simp flip: i)
    ultimately show ?thesis by (simp add: algebra_simps)
  qed
  show ?thesis
  proof (intro set_eqI iffI)
    fix x assume "x \<in> set (page_steps s e)"
    then obtain k where k: "k < j - i" "x = s + word_of_nat k * PAGE_SIZE"
      by (auto simp: page_steps_def n)
    from at [OF k(1)] k have u: "unat x = (i + k) * 4096" by simp
    then have "frame 12 x = x" by (simp add: word_unat_eq_iff unat_frame)
    with u k(1) i j show "x \<in> {x. frame 12 x = x \<and> s \<le> x \<and> x < e}"
      by (simp add: word_le_nat_alt word_less_nat_alt)
  next
    fix x assume "x \<in> {x. frame 12 x = x \<and> s \<le> x \<and> x < e}"
    then obtain m where m: "unat x = m * 4096" "i \<le> m" "m < j"
      using unat_frame [of 12 x] i j by (auto simp: word_le_nat_alt word_less_nat_alt)
    then have "unat (s + word_of_nat (m - i) * PAGE_SIZE) = unat x" using at [of "m - i"] by simp
    then have "x = s + word_of_nat (m - i) * PAGE_SIZE" by (simp add: word_unat_eq_iff)
    moreover have "m - i \<in> set [0..<j - i]" using m by simp
    ultimately show "x \<in> set (page_steps s e)"
      unfolding page_steps_def n set_map by (rule image_eqI)
  qed
qed

end
