(* ===== verification/Stage2_Map.thy ===== *)
theory Stage2_Map
  imports Stage2
begin

text \<open>
  What the prepared tables translate to: the walk of the tables \<open>prepare\<close> leaves, for every address of
  the guest's 36-bit space, and of the monitor's own map.
\<close>


section \<open>Pages of the interrupt controller's block\<close>

lemma frame_plus: "frame n a + take_bit n a = a"
proof -
  have "frame n a + take_bit n a = frame n a OR take_bit n a"
    by (rule disjunctive_add_eq_or, rule bit_word_eqI) (auto simp: frame_def bit_simps)
  also have "\<dots> = a"
    unfolding frame_def by (rule bit_word_eqI) (auto simp: bit_simps)
  finally show ?thesis .
qed

lemma frame_or_low: "frame 12 b = b \<Longrightarrow> b OR (a AND mask 12) = b + take_bit 12 a"
proof -
  assume b: "frame 12 b = b"
  have "frame 12 b + take_bit 12 a = frame 12 b OR take_bit 12 a"
    by (rule disjunctive_add_eq_or, rule bit_word_eqI) (auto simp: frame_def bit_simps)
  with b show ?thesis by (simp add: take_bit_eq_mask)
qed

lemma page_index:
  assumes "frame 21 x = block"
  shows "unat ((x - block) div PAGE_SIZE) = slot 12 x"
proof -
  have "x - block = take_bit 21 x" using frame_plus [of 21 x] assms by (simp add: diff_eq_eq add.commute)
  moreover have "a div PAGE_SIZE = drop_bit 12 a" for a :: u64 by (simp add: drop_bit_eq_div)
  moreover have "drop_bit 12 (take_bit 21 x) = take_bit 9 (drop_bit 12 x)"
    by (rule bit_word_eqI) (auto simp: bit_simps)
  ultimately have "unat ((x - block) div PAGE_SIZE) = unat (take_bit 9 (drop_bit 12 x))" by metis
  then show ?thesis by (simp only: unsigned_take_bit_eq) (simp add: take_bit_eq_mod)
qed

lemma slot_in_pages:
  assumes steps: "set xs = {x. frame 12 x = x \<and> within r x}"
    and block: "\<And>x. within r x \<Longrightarrow> frame 21 x = block"
    and r: "frame 12 (fst r) = fst r" "frame 12 (snd r) = snd r" and a: "frame 21 a = block"
  shows "slot 12 a \<in> (\<lambda>x. unat ((x - block) div PAGE_SIZE)) ` set xs \<longleftrightarrow> within r a"
proof -
  have w: "within r (frame 12 a) \<longleftrightarrow> within r a"
    using r by (simp add: within_def le_frame_iff frame_less_iff)
  have "slot 12 a = slot 12 x \<longleftrightarrow> frame 12 a = x" if "frame 12 x = x" "within r x" for x
    using slot_eq_iff [of 12 a x] a block [OF that(2)] that(1) by simp
  then have "slot 12 a \<in> (\<lambda>x. unat ((x - block) div PAGE_SIZE)) ` set xs
      \<longleftrightarrow> (\<exists>x. frame 12 x = x \<and> within r x \<and> frame 12 a = x)"
    using page_index [OF block] by (auto simp: steps image_iff)
  also have "\<dots> \<longleftrightarrow> within r a" using w frame_frame [of 12 12 a] by auto
  finally show ?thesis .
qed

lemma page_steps_within:
  assumes "page_range base sz = Some r"
  shows "set (page_steps (fst r) (snd r)) = {x. frame 12 x = x \<and> within r x}"
    and "frame 12 (fst r) = fst r" and "frame 12 (snd r) = snd r"
proof -
  note p = page_range_Some [OF assms]
  show f: "frame 12 (fst r) = fst r" "frame 12 (snd r) = snd r" using p(1-3) by simp_all
  have "fst r \<le> snd r" using p(1,4) by (simp add: word_le_nat_alt)
  from page_steps_set [OF f this] show "set (page_steps (fst r) (snd r))
      = {x. frame 12 x = x \<and> within r x}"
    by (simp add: within_def)
qed

lemma nth_hide_pages:
  assumes r: "page_range base sz = Some r" and b: "frame 21 base = block"
    and a: "frame 21 a = block" and n: "length pages = 512"
  shows "hide_pages block r pages ! slot 12 a = (if within r a then 0 else pages ! slot 12 a)"
proof -
  have "frame 21 x = block" if "within r x" for x
    using page_range_Some(6) [OF r that] b by simp
  note i = slot_in_pages [OF page_steps_within(1) [OF r] this page_steps_within(2,3) [OF r] a]
  have "hide_pages block r pages ! slot 12 a
      = (if slot 12 a \<in> (\<lambda>x. unat ((x - block) div PAGE_SIZE)) ` set (page_steps (fst r) (snd r))
         then 0 else pages ! slot 12 a)"
    unfolding hide_pages_def by (rule nth_fold_update) (simp_all add: n)
  then show ?thesis by (simp only: i)
qed

lemma length_hide_pages [simp]: "length (hide_pages block r pages) = length pages"
  by (simp add: hide_pages_def)

text \<open>The window a guest may see: its CPU interface, backed by the virtual one.\<close>

definition window :: "u64 \<Rightarrow> u64 \<Rightarrow> u64 \<Rightarrow> bool" where
  "window base sz a \<longleftrightarrow> base \<le> a \<and> a < base + sz"

definition gic_hidden :: "gic_layout \<Rightarrow> u64 \<Rightarrow> bool" where
  "gic_hidden l a \<longleftrightarrow>
     window (gl_distributor l) (gl_distributor_size l) a
     \<or> window (gl_hypervisor l) (gl_hypervisor_size l) a
     \<or> window (gl_virtual_cpu l) (gl_virtual_cpu_size l) a"

definition gic_cpu_window :: "gic_layout \<Rightarrow> u64 \<Rightarrow> bool" where
  "gic_cpu_window l a \<longleftrightarrow> window (gl_cpu l) (gl_cpu_size l) a"

text \<open>The checks \<open>protect_gic\<close> makes of a layout.\<close>

definition gic_layout_ok :: "gic_layout \<Rightarrow> u64 \<Rightarrow> bool" where
  "gic_layout_ok l block \<longleftrightarrow>
     None \<notin> set (gic_ranges l) \<and> gl_cpu_size l \<le> gl_virtual_cpu_size l
     \<and> frame 21 (gl_distributor l) = block \<and> frame 21 (gl_cpu l) = block
     \<and> frame 21 (gl_hypervisor l) = block \<and> frame 21 (gl_virtual_cpu l) = block
     \<and> pairwise_apart (map the (gic_ranges l))"

lemma gic_ranges_Some:
  assumes "gic_layout_ok l block"
  shows "page_range (gl_distributor l) (gl_distributor_size l)
      = Some (gl_distributor l, gl_distributor l + gl_distributor_size l)"
    and "page_range (gl_cpu l) (gl_cpu_size l) = Some (gl_cpu l, gl_cpu l + gl_cpu_size l)"
    and "page_range (gl_hypervisor l) (gl_hypervisor_size l)
      = Some (gl_hypervisor l, gl_hypervisor l + gl_hypervisor_size l)"
    and "page_range (gl_virtual_cpu l) (gl_virtual_cpu_size l)
      = Some (gl_virtual_cpu l, gl_virtual_cpu l + gl_virtual_cpu_size l)"
proof -
  have some: "page_range b s = Some (b, b + s)" if "None \<noteq> page_range b s" for b s
    using that page_range_Some(1) [of b s] by (cases "page_range b s") simp_all
  from assms show "page_range (gl_distributor l) (gl_distributor_size l)
      = Some (gl_distributor l, gl_distributor l + gl_distributor_size l)"
    "page_range (gl_cpu l) (gl_cpu_size l) = Some (gl_cpu l, gl_cpu l + gl_cpu_size l)"
    "page_range (gl_hypervisor l) (gl_hypervisor_size l)
      = Some (gl_hypervisor l, gl_hypervisor l + gl_hypervisor_size l)"
    "page_range (gl_virtual_cpu l) (gl_virtual_cpu_size l)
      = Some (gl_virtual_cpu l, gl_virtual_cpu l + gl_virtual_cpu_size l)"
    by (simp_all add: gic_layout_ok_def gic_ranges_def some)
qed

lemma gic_windows_apart:
  assumes "gic_layout_ok l block" and "gic_cpu_window l a"
  shows "\<not> gic_hidden l a"
  using assms gic_ranges_Some [OF assms(1)]
  by (auto simp: gic_layout_ok_def gic_ranges_def gic_cpu_window_def gic_hidden_def window_def)

text \<open>An offset into the guest's CPU interface, and the page of the virtual one that backs it.\<close>

lemma aligned_iff: "frame 12 z = z \<longleftrightarrow> 2 ^ 12 dvd z"
proof -
  have "frame 12 z = z \<longleftrightarrow> take_bit 12 z = 0"
    using frame_plus [of 12 z] by (metis add.right_neutral add_left_cancel)
  then show ?thesis by (simp only: take_bit_eq_0_iff)
qed

lemma frame_add: "frame 12 x = x \<Longrightarrow> frame 12 y = y \<Longrightarrow> frame 12 (x + y) = x + y"
  unfolding aligned_iff by (rule dvd_add)

lemma frame_diff: "frame 12 x = x \<Longrightarrow> frame 12 y = y \<Longrightarrow> frame 12 (x - y) = x - y"
  unfolding aligned_iff by (rule dvd_diff)

lemma cpu_offset:
  assumes l: "gic_layout_ok l block" and a: "gic_cpu_window l a"
  defines "b \<equiv> gl_virtual_cpu l + (frame 12 a - gl_cpu l)"
  shows "page_address b" and "b OR (a AND mask 12) = gl_virtual_cpu l + (a - gl_cpu l)"
    and "within (gl_virtual_cpu l, gl_virtual_cpu l + gl_virtual_cpu_size l)
           (gl_virtual_cpu l + (a - gl_cpu l))"
proof -
  note c = page_range_Some [OF gic_ranges_Some(2) [OF l]]
  note v = page_range_Some [OF gic_ranges_Some(4) [OF l]]
  have le: "gl_cpu_size l \<le> gl_virtual_cpu_size l" using l by (simp add: gic_layout_ok_def)
  have f: "frame 12 (frame 12 a) = frame 12 a" by (simp add: frame_frame)
  have b12: "frame 12 b = b"
    unfolding b_def by (intro frame_add frame_diff v(2) c(2) f)
  have in_a: "gl_cpu l \<le> a" "a < gl_cpu l + gl_cpu_size l"
    using a by (simp_all add: gic_cpu_window_def window_def)
  then have in_f: "gl_cpu l \<le> frame 12 a" "frame 12 a < gl_cpu l + gl_cpu_size l"
    using c(2,3) by (simp_all add: le_frame_iff frame_less_iff)
  have lim: "unat (gl_virtual_cpu l) + unat (gl_virtual_cpu_size l) \<le> 2 ^ 36"
    using v(4,5) by (simp add: word_le_nat_alt)
  have off: "unat (gl_virtual_cpu l + (x - gl_cpu l)) = unat (gl_virtual_cpu l) + (unat x - unat (gl_cpu l))
      \<and> unat x - unat (gl_cpu l) < unat (gl_virtual_cpu_size l)"
    if "gl_cpu l \<le> x" "x < gl_cpu l + gl_cpu_size l" for x
  proof -
    have d: "unat (x - gl_cpu l) = unat x - unat (gl_cpu l)"
      using that(1) by (simp add: unat_sub)
    have s: "unat x - unat (gl_cpu l) < unat (gl_virtual_cpu_size l)"
      using that c(4) le by (simp add: word_le_nat_alt word_less_nat_alt)
    with lim have "unat (gl_virtual_cpu l) + unat (x - gl_cpu l) < 2 ^ 64" by (simp add: d)
    with s show ?thesis by (simp add: unat_add_no_overflow d)
  qed
  from off [OF in_f] lim have "unat b < 2 ^ 36" by (simp add: b_def)
  with b12 show "page_address b" by (simp add: page_address_iff)
  have "b + take_bit 12 a = gl_virtual_cpu l + (a - gl_cpu l)"
    unfolding b_def using frame_plus [of 12 a] by (simp add: algebra_simps)
  with b12 show "b OR (a AND mask 12) = gl_virtual_cpu l + (a - gl_cpu l)"
    by (simp add: frame_or_low)
  from off [OF in_a] v(4) show "within (gl_virtual_cpu l, gl_virtual_cpu l + gl_virtual_cpu_size l)
      (gl_virtual_cpu l + (a - gl_cpu l))"
    by (simp add: within_def word_le_nat_alt word_less_nat_alt)
qed

lemma page_steps_offset:
  assumes "frame 12 sz = sz"
  shows "set (page_steps 0 sz) = {x. frame 12 x = x \<and> x < sz}"
  using page_steps_set [of 0 sz] assms by (simp add: frame_def)

lemma length_gic_pages_table [simp]: "length (gic_pages_table l block t) = length t"
  by (simp add: gic_pages_table_def Let_def)

lemma nth_gic_cpu:
  assumes l: "gic_layout_ok l block" and a: "frame 21 a = block" and n: "length pages = 512"
  shows "fold (\<lambda>offset pages. pages[unat ((gl_cpu l + offset - block) div PAGE_SIZE) :=
              (gl_virtual_cpu l + offset) OR DEVICE OR 2]) (page_steps 0 (gl_cpu_size l)) pages
           ! slot 12 a
    = (if gic_cpu_window l a then (gl_virtual_cpu l + (frame 12 a - gl_cpu l)) OR DEVICE OR 2
       else pages ! slot 12 a)"
proof -
  let ?f = "\<lambda>offset. unat ((gl_cpu l + offset - block) div PAGE_SIZE)"
  let ?r = "(gl_cpu l, gl_cpu l + gl_cpu_size l)"
  let ?g = "\<lambda>j. (gl_virtual_cpu l + (entry_base block PAGE_SIZE j - gl_cpu l)) OR DEVICE OR 2"
  note c = page_range_Some [OF gic_ranges_Some(2) [OF l]]
  have cb: "frame 21 (gl_cpu l) = block" using l by (simp add: gic_layout_ok_def)
  have block: "frame 21 x = block" if "within ?r x" for x
    using c(6) [OF that] cb by simp
  have sz: "frame 12 (gl_cpu_size l) = gl_cpu_size l"
    using frame_diff [OF c(3) c(2)] by simp
  have img: "((+) (gl_cpu l)) ` set (page_steps 0 (gl_cpu_size l)) = {x. frame 12 x = x \<and> within ?r x}"
  proof (intro set_eqI iffI)
    fix x assume "x \<in> ((+) (gl_cpu l)) ` set (page_steps 0 (gl_cpu_size l))"
    then obtain k where k: "x = gl_cpu l + k" "frame 12 k = k" "k < gl_cpu_size l"
      unfolding page_steps_offset [OF sz] by blast
    have "unat (gl_cpu l + k) = unat (gl_cpu l) + unat k"
      using k(3) c(4) unat_bounds(4) [of "gl_cpu l + gl_cpu_size l"]
      by (intro unat_add_no_overflow) (simp add: word_less_nat_alt)
    with k c(2,4) show "x \<in> {x. frame 12 x = x \<and> within ?r x}"
      by (simp add: within_def word_le_nat_alt word_less_nat_alt frame_add)
  next
    fix x assume "x \<in> {x. frame 12 x = x \<and> within ?r x}"
    then have x: "frame 12 x = x" "gl_cpu l \<le> x" "x < gl_cpu l + gl_cpu_size l"
      by (simp_all add: within_def)
    have "frame 12 (x - gl_cpu l) = x - gl_cpu l" by (rule frame_diff [OF x(1) c(2)])
    moreover have "x - gl_cpu l < gl_cpu_size l"
      using x(2,3) c(4) by (simp add: word_less_nat_alt word_le_nat_alt unat_sub)
    ultimately have "x - gl_cpu l \<in> set (page_steps 0 (gl_cpu_size l))"
      unfolding page_steps_offset [OF sz] by simp
    then show "x \<in> ((+) (gl_cpu l)) ` set (page_steps 0 (gl_cpu_size l))"
      by (rule image_eqI [rotated]) simp
  qed
  have at: "entry_base block PAGE_SIZE (?f k) = gl_cpu l + k"
    if "k \<in> set (page_steps 0 (gl_cpu_size l))" for k
  proof -
    have "gl_cpu l + k \<in> {x. frame 12 x = x \<and> within ?r x}" using img that by blast
    then have k: "frame 12 (gl_cpu l + k) = gl_cpu l + k" "frame 21 (gl_cpu l + k) = block"
      using block by blast+
    show ?thesis
      using entry_base_frame [of 12 PAGE_SIZE "gl_cpu l + k"] k page_index [OF k(2)] by simp
  qed
  have "slot 12 a \<in> ?f ` set (page_steps 0 (gl_cpu_size l)) \<longleftrightarrow> within ?r a"
  proof -
    obtain xs where xs: "set xs = {x. frame 12 x = x \<and> within ?r x}"
      using img by (metis list.set_map)
    have "slot 12 a \<in> (\<lambda>x. unat ((x - block) div PAGE_SIZE)) ` set xs \<longleftrightarrow> within ?r a"
      by (rule slot_in_pages [OF xs block]) (use c(2,3) a in simp_all)
    moreover have "(\<lambda>x. unat ((x - block) div PAGE_SIZE)) ` set xs
        = ?f ` set (page_steps 0 (gl_cpu_size l))"
      unfolding xs img [symmetric] image_image ..
    ultimately show ?thesis by simp
  qed
  moreover have "entry_base block PAGE_SIZE (slot 12 a) = frame 12 a"
    using entry_base_frame [of 12 PAGE_SIZE a] a by simp
  moreover have "fold (\<lambda>offset pages. pages[?f offset := (gl_virtual_cpu l + offset) OR DEVICE OR 2])
      (page_steps 0 (gl_cpu_size l)) pages ! slot 12 a
    = (if slot 12 a \<in> ?f ` set (page_steps 0 (gl_cpu_size l)) then ?g (slot 12 a)
       else pages ! slot 12 a)"
    by (rule nth_fold_update) (simp_all only: at add_diff_cancel_left' n slot_less)
  ultimately show ?thesis
    by (simp only: gic_cpu_window_def window_def within_def fst_conv snd_conv)
qed

lemma nth_gic_pages:
  assumes l: "gic_layout_ok l block" and a: "frame 21 a = block" and n: "length t = 512"
  shows "gic_pages_table l block t ! slot 12 a
    = (if gic_hidden l a then 0
       else if gic_cpu_window l a
       then (gl_virtual_cpu l + (frame 12 a - gl_cpu l)) OR DEVICE OR 2
       else frame 12 a OR DEVICE OR 2)"
proof -
  have e: "entry_base block PAGE_SIZE (slot 12 a) = frame 12 a"
    using entry_base_frame [of 12 PAGE_SIZE a] a by simp
  have b: "frame 21 (gl_distributor l) = block" "frame 21 (gl_hypervisor l) = block"
    "frame 21 (gl_virtual_cpu l) = block"
    using l by (simp_all add: gic_layout_ok_def)
  note h = nth_hide_pages [OF gic_ranges_Some(1) [OF l] b(1) a]
    nth_hide_pages [OF gic_ranges_Some(3) [OF l] b(2) a]
    nth_hide_pages [OF gic_ranges_Some(4) [OF l] b(3) a]
  show ?thesis
    using gic_windows_apart [OF l, of a]
    by (simp add: gic_pages_table_def Let_def h nth_gic_cpu [OF l a] n e del: PAGE_SIZE_def)
       (auto simp: gic_hidden_def gic_cpu_window_def window_def within_def)
qed

section \<open>The prepared tables\<close>

definition tables_sized :: "guest_tables \<Rightarrow> bool" where
  "tables_sized t \<longleftrightarrow>
     length (t_root t) = ENTRIES \<and> length (t_split t) = ENTRIES \<and> length (t_mmio t) = ENTRIES
     \<and> length (t_pages t) = ENTRIES \<and> length (t_gic_l2 t) = ENTRIES
     \<and> length (t_gic_pages t) = ENTRIES \<and> length (t_car t) = ENTRIES"

definition tables_at :: "u64 list \<Rightarrow> guest_tables \<Rightarrow> u64 \<Rightarrow> page_table option" where
  "tables_at addresses t =
     map_of (zip addresses
       [t_root t, t_split t, t_mmio t, t_pages t, t_gic_l2 t, t_gic_pages t, t_car t])"

definition gic_block :: "gic_layout \<Rightarrow> u64" where
  "gic_block l = frame 21 (gl_distributor l)"

definition gic_gib :: "gic_layout \<Rightarrow> nat" where
  "gic_gib l = unat (gic_block l div GIB)"

lemma block_mask: "a AND NOT (BLOCK_SIZE - 1) = frame 21 a"
  by (simp add: frame_def mask_eq_exp_minus_1)

definition base_root :: "u64 list \<Rightarrow> guest_tables \<Rightarrow> page_table" where
  "base_root addresses t =
     (fold (\<lambda>index root. root[index := root_entry index]) [0..<64] (zeroed (t_root t)))
       [1 := addresses ! 2 OR 3, 3 := (addresses ! 1 AND ADDRESS_MASK) OR 3]"

definition base_mmio :: "u64 list \<Rightarrow> guest_tables \<Rightarrow> page_table" where
  "base_mmio addresses t =
     (each_entry mmio_entry (zeroed (t_mmio t)))[block_index MC_BASE := addresses ! 3 OR 3]"

definition gic_mmio :: "u64 list \<Rightarrow> gic_layout \<Rightarrow> guest_tables \<Rightarrow> page_table" where
  "gic_mmio addresses l t =
     (if gic_gib l = 1 then (base_mmio addresses t)[block_index (gic_block l) := addresses ! 5 OR 3]
      else base_mmio addresses t)"

lemma protect_gic_Inr:
  assumes "protect_gic addresses existing l (root, mmio, l2, gp) = (Inr (), root', mmio', l2', gp')"
  shows "placed_tables existing addresses" and "gic_layout_ok l (gic_block l)"
    and "gic_gib l \<noteq> 3"
    and "root' = (if gic_gib l = 1 then root else root[gic_gib l := addresses ! 0 OR 3])"
    and "mmio' = (if gic_gib l = 1 then mmio[block_index (gic_block l) := addresses ! 1 OR 3]
                  else mmio)"
    and "gic_gib l \<noteq> 1 \<Longrightarrow> l2'
           = (each_entry (\<lambda>k entry. entry_base (word_of_nat (gic_gib l) * GIB) BLOCK_SIZE k OR DEVICE)
                (zeroed l2))[block_index (gic_block l) := addresses ! 1 OR 3]"
    and "gp' = gic_pages_table l (gic_block l) gp"
proof -
  have [simp]: "MC_INDEX = 1" "SPLIT_INDEX = 3" by simp_all
  from assms have "placed_tables existing addresses \<and> gic_layout_ok l (gic_block l)
    \<and> gic_gib l \<noteq> 3
    \<and> root' = (if gic_gib l = 1 then root else root[gic_gib l := addresses ! 0 OR 3])
    \<and> mmio' = (if gic_gib l = 1 then mmio[block_index (gic_block l) := addresses ! 1 OR 3]
               else mmio)
    \<and> (gic_gib l \<noteq> 1 \<longrightarrow> l2'
         = (each_entry (\<lambda>k entry. entry_base (word_of_nat (gic_gib l) * GIB) BLOCK_SIZE k OR DEVICE)
              (zeroed l2))[block_index (gic_block l) := addresses ! 1 OR 3])
    \<and> gp' = gic_pages_table l (gic_block l) gp"
    unfolding protect_gic_def case_prod_conv block_mask gic_block_def [symmetric] Let_def
      gic_gib_def [symmetric]
    by (auto simp: gic_layout_ok_def gic_block_def
        simp del: MC_INDEX_def SPLIT_INDEX_def GIB_def BLOCK_SIZE_def split: if_splits)
  then show "placed_tables existing addresses" and "gic_layout_ok l (gic_block l)"
    and "gic_gib l \<noteq> 3"
    and "root' = (if gic_gib l = 1 then root else root[gic_gib l := addresses ! 0 OR 3])"
    and "mmio' = (if gic_gib l = 1 then mmio[block_index (gic_block l) := addresses ! 1 OR 3]
                  else mmio)"
    and "gic_gib l \<noteq> 1 \<Longrightarrow> l2'
           = (each_entry (\<lambda>k entry. entry_base (word_of_nat (gic_gib l) * GIB) BLOCK_SIZE k OR DEVICE)
                (zeroed l2))[block_index (gic_block l) := addresses ! 1 OR 3]"
    and "gp' = gic_pages_table l (gic_block l) gp" by blast+
qed

lemma placed_tables_append:
  "placed_tables existing (xs @ ys) \<longleftrightarrow>
     placed_tables existing xs \<and> placed_tables (rev xs @ existing) ys"
  by (induction xs arbitrary: existing) auto

lemma placed_tables_set: "set e = set e' \<Longrightarrow> placed_tables e xs = placed_tables e' xs"
  by (induction xs arbitrary: e e') (simp, metis list.set(2) placed_tables.simps(2))

lemma prepare_Inr:
  assumes ok: "prepare addresses usb l t = (Inr (), t')" and n: "length addresses = 7"
  shows "placed_tables [] (take 6 addresses)"
    and "usb \<Longrightarrow> resident_table (addresses ! 6) \<and> addresses ! 6 \<notin> set (take 6 addresses)"
    and "gic_layout_ok l (gic_block l)" and "gic_gib l \<noteq> 3"
    and "t_root t' = (if gic_gib l = 1 then base_root addresses t
                      else (base_root addresses t)[gic_gib l := addresses ! 4 OR 3])"
    and "t_split t' = each_entry split_entry (zeroed (t_split t))"
    and "t_mmio t' = (if usb then (gic_mmio addresses l t)
                          [block_index 0x7d000000 := 0, block_index CAR := addresses ! 6 OR 3]
                      else gic_mmio addresses l t)"
    and "t_pages t' = (if usb then each_entry usb_pages_entry
                                    (each_entry pages_entry (zeroed (t_pages t)))
                       else each_entry pages_entry (zeroed (t_pages t)))"
    and "gic_gib l \<noteq> 1 \<Longrightarrow> t_gic_l2 t'
           = (each_entry (\<lambda>k entry. entry_base (word_of_nat (gic_gib l) * GIB) BLOCK_SIZE k OR DEVICE)
                (zeroed (t_gic_l2 t)))[block_index (gic_block l) := addresses ! 5 OR 3]"
    and "t_gic_pages t' = gic_pages_table l (gic_block l) (t_gic_pages t)"
    and "usb \<Longrightarrow> t_car t' = each_entry car_entry (t_car t)"
proof -
  from n obtain a0 a1 a2 a3 a4 a5 a6 where a: "addresses = [a0, a1, a2, a3, a4, a5, a6]"
    by (auto simp: numeral_eq_Suc length_Suc_conv)
  have at: "take 4 addresses = [a0, a1, a2, a3]" "take 2 (drop 4 addresses) = [a4, a5]"
    "take 6 addresses = [a0, a1, a2, a3, a4, a5]" "addresses ! 6 = a6" "addresses ! 5 = a5"
    "addresses ! 4 = a4" "addresses ! 3 = a3" "addresses ! 2 = a2" "addresses ! Suc 0 = a1"
    by (simp_all add: a)
  let ?b = "\<lparr>t_root = base_root addresses t, t_split = each_entry split_entry (zeroed (t_split t)),
    t_mmio = base_mmio addresses t, t_pages = each_entry pages_entry (zeroed (t_pages t))\<rparr>"
  have p4: "placed_tables [] [a0, a1, a2, a3]"
    using ok by (auto simp: prepare_def stage2_build_def at split: if_splits)
  then have b: "stage2_build [a0, a1, a2, a3] (stage2_tables.truncate t)
      = (Inr (push_bit 48 VMID OR a0), ?b)"
    by (simp add: stage2_build_def Let_def base_root_def base_mmio_def stage2_tables.truncate_def at
        del: placed_tables.simps)
  define gic where "gic = protect_gic [a4, a5] [a0, a1, a2, a3] l
    (base_root addresses t, base_mmio addresses t, t_gic_l2 t, t_gic_pages t)"
  obtain res root mmio l2 gp where g: "gic = (res, root, mmio, l2, gp)" by (metis surj_pair)
  have res: "res = Inr ()"
    using ok by (cases res) (simp_all add: prepare_def b gic_def [symmetric] g at Let_def)
  note gf = protect_gic_Inr [OF g [unfolded gic_def res]]
  show "placed_tables [] (take 6 addresses)"
  proof -
    have "placed_tables [a3, a2, a1, a0] [a4, a5]"
      using gf(1) placed_tables_set [of "[a3, a2, a1, a0]" "[a0, a1, a2, a3]"] by auto
    with p4 show ?thesis
      using placed_tables_append [of "[]" "[a0, a1, a2, a3]" "[a4, a5]"] by (simp add: at)
  qed
  show "gic_layout_ok l (gic_block l)" "gic_gib l \<noteq> 3" by fact+
  define usb_result where "usb_result = protect_usb a6 [a0, a1, a2, a3, a4, a5]
    (mmio, each_entry pages_entry (zeroed (t_pages t)), t_car t)"
  have t': "t_root t' = root \<and> t_split t' = each_entry split_entry (zeroed (t_split t))
      \<and> t_mmio t' = mmio \<and> t_pages t' = each_entry pages_entry (zeroed (t_pages t))
      \<and> t_gic_l2 t' = l2 \<and> t_gic_pages t' = gp" if "\<not> usb"
    using ok that by (auto simp: prepare_def b gic_def [symmetric] g at Let_def res)
  have u: "resident_table a6 \<and> a6 \<notin> {a0, a1, a2, a3, a4, a5}
      \<and> t_root t' = root \<and> t_split t' = each_entry split_entry (zeroed (t_split t))
      \<and> t_mmio t' = mmio[block_index 0x7d000000 := 0, block_index CAR := a6 OR 3]
      \<and> t_pages t' = each_entry usb_pages_entry (each_entry pages_entry (zeroed (t_pages t)))
      \<and> t_gic_l2 t' = l2 \<and> t_gic_pages t' = gp \<and> t_car t' = each_entry car_entry (t_car t)" if "usb"
    using ok that by (auto simp: prepare_def b gic_def [symmetric] g at Let_def res protect_usb_def
        simp del: CAR_def split: if_splits)
  show "usb \<Longrightarrow> resident_table (addresses ! 6) \<and> addresses ! 6 \<notin> set (take 6 addresses)"
    using u by (simp add: at)
  show "t_root t' = (if gic_gib l = 1 then base_root addresses t
                      else (base_root addresses t)[gic_gib l := addresses ! 4 OR 3])"
    using gf(4) u t' by (cases usb) (simp_all add: at)
  show "t_split t' = each_entry split_entry (zeroed (t_split t))"
    using u t' by (cases usb) simp_all
  show "t_mmio t' = (if usb then (gic_mmio addresses l t)
                          [block_index 0x7d000000 := 0, block_index CAR := addresses ! 6 OR 3]
                      else gic_mmio addresses l t)"
    using gf(5) u t' by (cases usb) (simp_all add: at gic_mmio_def del: CAR_def)
  show "t_pages t' = (if usb then each_entry usb_pages_entry
                                    (each_entry pages_entry (zeroed (t_pages t)))
                       else each_entry pages_entry (zeroed (t_pages t)))"
    using u t' by (cases usb) simp_all
  show "t_gic_l2 t'
           = (each_entry (\<lambda>k entry. entry_base (word_of_nat (gic_gib l) * GIB) BLOCK_SIZE k OR DEVICE)
                (zeroed (t_gic_l2 t)))[block_index (gic_block l) := addresses ! 5 OR 3]"
    if "gic_gib l \<noteq> 1"
    using gf(6) [OF that] u t' by (cases usb) (simp_all add: at del: GIB_def BLOCK_SIZE_def)
  show "t_gic_pages t' = gic_pages_table l (gic_block l) (t_gic_pages t)"
    using gf(7) u t' by (cases usb) simp_all
  show "usb \<Longrightarrow> t_car t' = each_entry car_entry (t_car t)"
    using u by simp
qed

section \<open>The guest's view of memory\<close>

text \<open>
  The pages the monitor emulates, and what an address translates to: nothing outside the 36-bit space,
  in the monitor's memory, on an emulated page and on the interrupt controller's hidden interfaces; the
  virtual CPU interface where the guest expects the physical one; itself everywhere else.
\<close>

definition trapped :: "bool \<Rightarrow> u64 \<Rightarrow> bool" where
  "trapped usb a \<longleftrightarrow>
     frame 12 a \<in> {MC_BASE, UART_BASE, VIRTIO_BASE}
     \<or> usb \<and> (controller a \<or> frame 12 a \<in> {PMC_PAGE, CAR, LIC_BASE})"

definition guest_view :: "bool \<Rightarrow> gic_layout \<Rightarrow> u64 \<Rightarrow> u64 option" where
  "guest_view usb l a =
     (if IPA_LIMIT \<le> a \<or> resident a \<or> trapped usb a \<or> gic_hidden l a then None
      else if gic_cpu_window l a then Some (gl_virtual_cpu l + (a - gl_cpu l))
      else Some a)"

text \<open>The interrupt controller is not in a block that is already split or hidden.\<close>

definition gic_apart :: "bool \<Rightarrow> gic_layout \<Rightarrow> bool" where
  "gic_apart usb l \<longleftrightarrow>
     gic_block l \<noteq> frame 21 MC_BASE
     \<and> (usb \<longrightarrow> gic_block l \<noteq> frame 21 CAR \<and> gic_block l \<noteq> 0x7d000000)"

definition gib :: "u64 \<Rightarrow> nat" where
  "gib a = unat a div 2 ^ 30"

lemma gib_drop: "gib a = unat (drop_bit 30 a)"
  by (simp only: gib_def unat_drop_bit_eq) (simp only: drop_bit_eq_div)

lemma gib_frame: "n \<le> 30 \<Longrightarrow> gib (frame n a) = gib a"
  unfolding gib_drop by (metis frame_eq_iff frame_frame)

lemma gib_of_frame: "frame n a = frame n b \<Longrightarrow> n \<le> 30 \<Longrightarrow> gib a = gib b"
  by (metis gib_frame)

lemma frame_30: "frame 30 a = word_of_nat (gib a) * GIB"
proof -
  have "frame 30 a = push_bit 30 (drop_bit 30 a)"
    unfolding frame_def by (rule bit_word_eqI) (auto simp: bit_simps)
  then show ?thesis by (simp add: gib_drop push_bit_eq_mult)
qed

lemma gib_less: "unat a < 2 ^ 36 \<Longrightarrow> gib a < 64"
  by (simp add: gib_def)

lemma slot_30: "unat a < 2 ^ 36 \<Longrightarrow> slot 30 a = gib a"
  using gib_less [of a] by (simp add: gib_drop)

lemma gic_gib_eq: "gic_gib l = gib (gic_block l)"
proof -
  have "x div GIB = drop_bit 30 x" for x :: u64 by (simp add: drop_bit_eq_div)
  then show ?thesis by (simp only: gic_gib_def gib_drop)
qed

lemma slot_21_iff:
  assumes "gib a = gib b"
  shows "block_index b = slot 21 a \<longleftrightarrow> frame 21 a = frame 21 b"
proof -
  have "frame (21 + 9) a = frame (21 + 9) b" using assms by (simp add: frame_30)
  then have "slot 21 a = slot 21 b \<longleftrightarrow> frame 21 a = frame 21 b" by (intro slot_eq_iff) simp_all
  then show ?thesis unfolding block_index_slot by metis
qed

lemma block_index_less [simp]: "block_index b < 512"
  by (simp add: block_index_slot)

text \<open>Where the special addresses are.\<close>

lemma gic_window_block:
  assumes "gic_layout_ok l (gic_block l)" and "gic_hidden l a \<or> gic_cpu_window l a"
  shows "frame 21 a = gic_block l"
proof -
  note s = gic_ranges_Some [OF assms(1)]
  note r = page_range_Some(6) [OF s(1)] page_range_Some(6) [OF s(2)]
    page_range_Some(6) [OF s(3)] page_range_Some(6) [OF s(4)]
  from assms(1) have "frame 21 (gl_cpu l) = gic_block l" "frame 21 (gl_hypervisor l) = gic_block l"
    "frame 21 (gl_virtual_cpu l) = gic_block l" "frame 21 (gl_distributor l) = gic_block l"
    by (simp_all add: gic_layout_ok_def)
  with assms(2) r show ?thesis
    by (auto simp: gic_hidden_def gic_cpu_window_def window_def within_def)
qed

lemma controller_blocks:
  assumes "controller a"
  shows "frame 21 a = page_base \<or> frame 21 a = 0x7d000000"
proof -
  have "unat a div 2 ^ 21 = 0x70000000 div 2 ^ 21 \<or> unat a div 2 ^ 21 = 0x7d000000 div 2 ^ 21"
    using assms by (auto simp: controller_def CONTROLLERS_def word_le_nat_alt word_less_nat_alt)
  then have "unat (frame 21 a) = 0x70000000 \<or> unat (frame 21 a) = 0x7d000000"
    by (auto simp: unat_frame)
  moreover have "page_base = 0x70000000" by (simp add: page_base_def)
  ultimately show ?thesis by (simp add: word_unat_eq_iff)
qed

lemma controller_frame: "controller (frame 12 a) \<longleftrightarrow> controller a"
proof -
  have al: "frame 12 0x70090000 = (0x70090000 :: u64)" "frame 12 0x700a0000 = (0x700a0000 :: u64)"
    "frame 12 0x700d0000 = (0x700d0000 :: u64)" "frame 12 0x700e0000 = (0x700e0000 :: u64)"
    "frame 12 0x7d000000 = (0x7d000000 :: u64)" "frame 12 0x7d200000 = (0x7d200000 :: u64)"
    by (simp_all add: frame_def mask_eq_exp_minus_1)
  show ?thesis
    by (simp add: controller_def CONTROLLERS_def le_frame_iff frame_less_iff al)
qed

lemma controller_block: "frame 21 a = 0x7d000000 \<Longrightarrow> controller a"
proof -
  have al: "frame 21 0x7d000000 = (0x7d000000 :: u64)" "frame 21 0x7d200000 = (0x7d200000 :: u64)"
    by (simp_all add: frame_def mask_eq_exp_minus_1)
  assume "frame 21 a = 0x7d000000"
  then have "0x7d000000 \<le> a \<and> a < 0x7d200000"
    using le_frame_iff [OF al(1), of a] frame_less_iff [OF al(2), of a] by simp
  then show ?thesis by (simp add: controller_def CONTROLLERS_def)
qed

lemma special_blocks:
  "frame 21 MC_BASE = page_base" "frame 21 UART_BASE = page_base" "frame 21 VIRTIO_BASE = page_base"
  "frame 21 PMC_PAGE = page_base" "frame 21 CAR = 0x60000000" "frame 21 LIC_BASE = 0x60000000"
  "gib page_base = 1" "gib 0x60000000 = 1" "gib 0x7d000000 = 1" "page_base = 0x70000000"
  by (simp_all add: frame_def mask_eq_exp_minus_1 page_base_def gib_def)

lemma trapped_blocks:
  assumes "trapped usb a"
  shows "frame 21 a = page_base \<or> usb \<and> (frame 21 a = 0x7d000000 \<or> frame 21 a = 0x60000000)"
proof -
  have f: "frame 21 a = frame 21 (frame 12 a)" by (simp add: frame_frame)
  from assms consider "frame 12 a \<in> {MC_BASE, UART_BASE, VIRTIO_BASE}" | "usb" "controller a"
    | "usb" "frame 12 a \<in> {PMC_PAGE, CAR, LIC_BASE}"
    by (auto simp: trapped_def simp del: MC_BASE_def UART_BASE_def VIRTIO_BASE_def PMC_PAGE_def
        CAR_def LIC_BASE_def)
  then show ?thesis
  proof cases
    case 1
    then show ?thesis by (metis f special_blocks(1-3) insertE emptyE)
  next
    case 2
    then show ?thesis using controller_blocks by blast
  next
    case 3
    then show ?thesis by (metis f special_blocks(4-6) insertE emptyE)
  qed
qed

lemma resident_gib: "resident a \<Longrightarrow> gib a = 3"
  unfolding gib_def by (rule div_nat_eqI) (simp_all add: resident_iff)

section \<open>Walking the prepared tables\<close>

lemma identity_page: "frame 12 a OR (a AND mask 12) = a"
  unfolding frame_def by (rule bit_word_eqI) (auto simp: bit_simps)

lemma walk_identity_page:
  assumes "unat a < 2 ^ 36" and "table ! slot 12 a = frame 12 a OR DEVICE OR 2"
  shows "map_option fst (walk memory (12 # ns) table a) = Some a"
  using walk_page [OF frame_page_address assms(2)] assms(1) by (simp add: identity_page)

lemma walk_gic_pages:
  assumes l: "gic_layout_ok l (gic_block l)" and a: "frame 21 a = gic_block l"
    and n: "length t = 512" and lim: "unat a < 2 ^ 36"
  shows "map_option fst (walk memory [12] (gic_pages_table l (gic_block l) t) a)
    = (if gic_hidden l a then None
       else if gic_cpu_window l a then Some (gl_virtual_cpu l + (a - gl_cpu l)) else Some a)"
proof -
  note e = nth_gic_pages [OF l a n]
  consider "gic_hidden l a" | "\<not> gic_hidden l a" "gic_cpu_window l a"
    | "\<not> gic_hidden l a" "\<not> gic_cpu_window l a" by blast
  then show ?thesis
  proof cases
    case 1
    with e show ?thesis by (simp add: walk_fault)
  next
    case 2
    note c = cpu_offset [OF l 2(2)]
    from 2 e have "gic_pages_table l (gic_block l) t ! slot 12 a
        = (gl_virtual_cpu l + (frame 12 a - gl_cpu l)) OR DEVICE OR 2" by simp
    from walk_page [OF c(1) this] 2 show ?thesis by (simp only: c(2) if_True if_False)
  next
    case 3
    with e show ?thesis using walk_identity_page [OF lim] by simp
  qed
qed

lemma other_block: "frame 21 a \<noteq> frame 21 b \<Longrightarrow> frame 12 a \<noteq> b"
  using frame_frame [of 12 21 a] by auto

lemma pages_slot:
  assumes "frame 21 a = block"
  shows "entry_base block PAGE_SIZE (slot 12 a) = frame 12 a"
  using entry_base_frame [of 12 PAGE_SIZE a] assms by simp

lemma walk_pages:
  assumes a: "frame 21 a = page_base" and n: "length t = 512" and lim: "unat a < 2 ^ 36"
  shows "map_option fst (walk memory [12]
      (if usb then each_entry usb_pages_entry (each_entry pages_entry (zeroed t))
       else each_entry pages_entry (zeroed t)) a)
    = (if trapped usb a then None else Some a)"
proof -
  let ?t = "if usb then each_entry usb_pages_entry (each_entry pages_entry (zeroed t))
       else each_entry pages_entry (zeroed t)"
  have "frame 12 a \<noteq> CAR" "frame 12 a \<noteq> LIC_BASE"
    by (rule other_block, unfold a special_blocks, simp)+
  then have e: "?t ! slot 12 a = (if trapped usb a then 0 else frame 12 a OR DEVICE OR 2)"
    using n pages_slot [OF a]
    by (simp add: usb_pages_entry_def pages_entry_def Let_def trapped_def controller_frame
        page_base_def [symmetric] del: MC_BASE_def UART_BASE_def VIRTIO_BASE_def PMC_PAGE_def
        CAR_def LIC_BASE_def PAGE_SIZE_def BLOCK_SIZE_def)
  show ?thesis
  proof (cases "trapped usb a")
    case True
    with e show ?thesis by (simp only: walk_fault if_True option.map)
  next
    case False
    with e have "?t ! slot 12 a = frame 12 a OR DEVICE OR 2" by simp
    from walk_identity_page [OF lim this] False show ?thesis by simp
  qed
qed

lemma walk_car:
  assumes a: "frame 21 a = 0x60000000" and n: "length t = 512" and lim: "unat a < 2 ^ 36"
  shows "map_option fst (walk memory [12] (each_entry car_entry t) a)
    = (if trapped True a then None else Some a)"
proof -
  have "\<not> controller a"
    by (rule notI, drule controller_blocks, unfold a special_blocks(10), simp)
  moreover have "frame 12 a \<noteq> MC_BASE" "frame 12 a \<noteq> UART_BASE" "frame 12 a \<noteq> VIRTIO_BASE"
    "frame 12 a \<noteq> PMC_PAGE"
    by (rule other_block, unfold a special_blocks, simp)+
  ultimately have "trapped True a \<longleftrightarrow> frame 12 a = CAR \<or> frame 12 a = LIC_BASE"
    by (auto simp: trapped_def simp del: MC_BASE_def UART_BASE_def VIRTIO_BASE_def PMC_PAGE_def
        CAR_def LIC_BASE_def)
  moreover have "CAR AND NOT (BLOCK_SIZE - 1) = 0x60000000" by simp
  ultimately have e: "each_entry car_entry t ! slot 12 a
      = (if trapped True a then 0 else frame 12 a OR DEVICE OR 2)"
    using n pages_slot [OF a]
    by (simp add: car_entry_def Let_def del: CAR_def LIC_BASE_def PAGE_SIZE_def BLOCK_SIZE_def)
  show ?thesis
  proof (cases "trapped True a")
    case True
    with e show ?thesis by (simp only: walk_fault if_True option.map)
  next
    case False
    with e have "each_entry car_entry t ! slot 12 a = frame 12 a OR DEVICE OR 2" by simp
    from walk_identity_page [OF lim this] False show ?thesis by simp
  qed
qed

lemma entry_of_root:
  assumes "unat a < 2 ^ 36"
  shows "entry_base 0 GIB (gib a) = frame 30 a"
proof -
  have "frame 39 a = 0" using assms by (simp add: word_unat_eq_iff unat_frame)
  then show ?thesis using entry_base_frame [of 30 GIB a] assms by (simp add: slot_30)
qed

lemma nth_base_root:
  assumes n: "length (t_root t) = 512" and lim: "unat a < 2 ^ 36"
  shows "base_root addresses t ! gib a
    = (if gib a = 1 then addresses ! 2 OR 3
       else if gib a = 3 then (addresses ! 1 AND ADDRESS_MASK) OR 3
       else frame 30 a OR (if frame 30 a < RAM_BASE then DEVICE else NORMAL))"
proof -
  have g: "gib a < 64" by (rule gib_less [OF lim])
  have "fold (\<lambda>index root. root[index := root_entry index]) [0..<64] (zeroed (t_root t)) ! gib a
      = root_entry (gib a)"
    using nth_fold_update [of "[0..<64]" root_entry root_entry "\<lambda>i. i" "gib a" "zeroed (t_root t)"]
      g n by (simp add: image_iff)
  then show ?thesis
    using g n by (simp add: base_root_def nth_list_update root_entry_def Let_def entry_of_root [OF lim]
        del: GIB_def RAM_BASE_def)
qed

lemma length_base [simp]:
  "length (base_root addresses t) = length (t_root t)"
  "length (gic_mmio addresses l t) = length (t_mmio t)"
  by (simp_all add: base_root_def gic_mmio_def base_mmio_def)

lemma block_slot:
  assumes "gib a = k"
  shows "entry_base (word_of_nat k * GIB) BLOCK_SIZE (slot 21 a) = frame 21 a"
  using entry_base_frame [of 21 BLOCK_SIZE a] assms by (simp add: frame_30 del: GIB_def)

lemma nth_gic_mmio:
  assumes a: "gib a = 1" and n: "length (t_mmio t) = 512"
  shows "gic_mmio addresses l t ! slot 21 a
    = (if gic_gib l = 1 \<and> frame 21 a = gic_block l then addresses ! 5 OR 3
       else if frame 21 a = page_base then addresses ! 3 OR 3 else frame 21 a OR DEVICE)"
proof -
  have gb: "frame 21 (gic_block l) = gic_block l" by (simp add: gic_block_def frame_frame)
  have mc: "gib MC_BASE = 1" using special_blocks(1,7) gib_frame [of 21 MC_BASE] by simp
  have "block_index MC_BASE = slot 21 a \<longleftrightarrow> frame 21 a = page_base"
    using slot_21_iff [of a MC_BASE] a mc special_blocks(1) by simp
  moreover have "block_index (gic_block l) = slot 21 a \<longleftrightarrow> frame 21 a = gic_block l" if "gic_gib l = 1"
    using slot_21_iff [of a "gic_block l"] a that gb by (simp add: gic_gib_eq)
  moreover have "mmio_entry (slot 21 a) e = frame 21 a OR DEVICE" for e
    using block_slot [OF a] by (simp add: mmio_entry_def)
  ultimately show ?thesis
    using n by (simp add: gic_mmio_def base_mmio_def nth_list_update
        del: MC_BASE_def)
qed

lemma placed_tables_iff:
  "placed_tables existing xs \<longleftrightarrow>
     distinct xs \<and> (\<forall>x \<in> set xs. resident_table x \<and> x \<notin> set existing)"
  by (induction xs arbitrary: existing) auto

lemma walk_split:
  assumes g: "gib a = 3" and n: "length t = 512" and lim: "unat a < 2 ^ 36"
  shows "map_option fst (walk memory [21, 12] (each_entry split_entry (zeroed t)) a)
    = (if resident a then None else Some a)"
proof -
  have "SPLIT_INDEX = 3" by simp
  then have "each_entry split_entry (zeroed t) ! slot 21 a
      = (if resident (frame 21 a) then 0 else frame 21 a OR NORMAL)"
    using n block_slot [OF g]
    by (simp add: split_entry_def Let_def resident_def del: SPLIT_INDEX_def GIB_def BLOCK_SIZE_def
        RESIDENT_BASE_def RESIDENT_SIZE_def)
  then have e: "each_entry split_entry (zeroed t) ! slot 21 a
      = (if resident a then 0 else frame 21 a OR NORMAL)" by (simp add: resident_frame)
  show ?thesis
  proof (cases "resident a")
    case True
    with e show ?thesis by (simp only: walk_fault if_True option.map)
  next
    case False
    with e have "each_entry split_entry (zeroed t) ! slot 21 a = frame 21 a OR NORMAL" by simp
    from walk_block [OF _ _ lim this] False show ?thesis by simp
  qed
qed

lemma walk_gic_l2:
  assumes l: "gic_layout_ok l (gic_block l)" and g: "gib a = gic_gib l" and n: "length l2 = 512"
    and n': "length gp = 512" and lim: "unat a < 2 ^ 36"
    and p: "page_address p" and m: "memory p = Some (gic_pages_table l (gic_block l) gp)"
  shows "map_option fst (walk memory [21, 12]
      ((each_entry (\<lambda>k entry. entry_base (word_of_nat (gic_gib l) * GIB) BLOCK_SIZE k OR DEVICE)
         (zeroed l2))[block_index (gic_block l) := p OR 3]) a)
    = (if gic_hidden l a then None
       else if gic_cpu_window l a then Some (gl_virtual_cpu l + (a - gl_cpu l)) else Some a)"
    (is "map_option fst (walk memory [21, 12] ?t a) = _")
proof -
  have gb: "frame 21 (gic_block l) = gic_block l" by (simp add: gic_block_def frame_frame)
  have "block_index (gic_block l) = slot 21 a \<longleftrightarrow> frame 21 a = gic_block l"
    using slot_21_iff [of a "gic_block l"] g gb by (simp add: gic_gib_eq)
  then have e: "?t ! slot 21 a = (if frame 21 a = gic_block l then p OR 3 else frame 21 a OR DEVICE)"
    using n block_slot [OF g] by (simp add: nth_list_update del: GIB_def BLOCK_SIZE_def)
  show ?thesis
  proof (cases "frame 21 a = gic_block l")
    case True
    with e have "?t ! slot 21 a = p OR 3" by simp
    from walk_table [where memory = memory, OF _ p this m] walk_gic_pages [OF l True n' lim] show ?thesis by simp
  next
    case False
    then have "\<not> gic_hidden l a" "\<not> gic_cpu_window l a" using gic_window_block [OF l] by blast+
    moreover from False e have "?t ! slot 21 a = frame 21 a OR DEVICE" by simp
    ultimately show ?thesis using walk_block [OF _ _ lim] by simp
  qed
qed

text \<open>The first-level device gigabyte, as \<open>prepare\<close> leaves it.\<close>

lemma walk_mmio:
  fixes m :: page_table
  assumes l: "gic_layout_ok l (gic_block l)" and apart: "gic_apart usb l"
    and g: "gib a = 1" and lim: "unat a < 2 ^ 36" and sized: "tables_sized t"
    and p: "page_address (addresses ! 3)" "page_address (addresses ! 5)"
      "usb \<Longrightarrow> page_address (addresses ! 6)"
    and mem: "memory (addresses ! 3) = Some (if usb then each_entry usb_pages_entry
                (each_entry pages_entry (zeroed (t_pages t)))
              else each_entry pages_entry (zeroed (t_pages t)))"
      "memory (addresses ! 5) = Some (gic_pages_table l (gic_block l) (t_gic_pages t))"
      "usb \<Longrightarrow> memory (addresses ! 6) = Some (each_entry car_entry (t_car t))"
    and m: "m = (if usb then (gic_mmio addresses l t)
                   [block_index 0x7d000000 := 0, block_index CAR := addresses ! 6 OR 3]
                 else gic_mmio addresses l t)"
  shows "map_option fst (walk memory [21, 12] m a)
    = (if trapped usb a \<or> gic_hidden l a then None
       else if gic_cpu_window l a then Some (gl_virtual_cpu l + (a - gl_cpu l)) else Some a)"
proof -
  have n: "length (t_mmio t) = 512" "length (t_pages t) = 512" "length (t_gic_pages t) = 512"
    "length (t_car t) = 512" using sized by (simp_all add: tables_sized_def)
  have gc: "gib CAR = 1" and gu: "frame 21 0x7d000000 = (0x7d000000 :: u64)"
    by (simp_all add: gib_def frame_def mask_eq_exp_minus_1)
  have i: "block_index 0x7d000000 = slot 21 a \<longleftrightarrow> frame 21 a = 0x7d000000"
    "block_index CAR = slot 21 a \<longleftrightarrow> frame 21 a = 0x60000000"
    using slot_21_iff [of a "0x7d000000"] slot_21_iff [of a CAR] g gc gu special_blocks(5,9)
    by (simp_all del: CAR_def)
  have e: "m ! slot 21 a
    = (if usb \<and> frame 21 a = 0x60000000 then addresses ! 6 OR 3
       else if usb \<and> frame 21 a = 0x7d000000 then 0
       else if gic_gib l = 1 \<and> frame 21 a = gic_block l then addresses ! 5 OR 3
       else if frame 21 a = page_base then addresses ! 3 OR 3 else frame 21 a OR DEVICE)"
    using n i nth_gic_mmio [OF g n(1)] by (simp add: m nth_list_update del: CAR_def)
  have gic: "frame 21 a \<noteq> gic_block l \<Longrightarrow> \<not> gic_hidden l a \<and> \<not> gic_cpu_window l a"
    using gic_window_block [OF l] by blast
  have blocks: "frame 21 a = gic_block l \<Longrightarrow>
      frame 21 a \<noteq> page_base \<and> (usb \<longrightarrow> frame 21 a \<noteq> 0x60000000 \<and> frame 21 a \<noteq> 0x7d000000)"
    using apart special_blocks(1,5) by (simp add: gic_apart_def del: CAR_def MC_BASE_def)
  have gic1: "frame 21 a = gic_block l \<Longrightarrow> gic_gib l = 1"
    using gib_frame [of 21 a] g by (simp add: gic_gib_eq)
  consider (car) "usb" "frame 21 a = 0x60000000" | (legacy) "usb" "frame 21 a = 0x7d000000"
    | (gic) "frame 21 a = gic_block l" | (pages) "frame 21 a = page_base"
    | (plain) "\<not> (usb \<and> (frame 21 a = 0x60000000 \<or> frame 21 a = 0x7d000000))"
        "frame 21 a \<noteq> gic_block l" "frame 21 a \<noteq> page_base" by blast
  then show ?thesis
  proof cases
    case car
    with e have "m ! slot 21 a = addresses ! 6 OR 3" by simp
    from walk_table [where memory = memory, OF _ p(3) [OF car(1)] this mem(3) [OF car(1)]] walk_car [OF car(2) n(4) lim]
      car gic blocks show ?thesis by auto
  next
    case legacy
    then have "m ! slot 21 a = 0" using e by simp
    moreover have "trapped usb a" using legacy controller_block by (simp add: trapped_def)
    ultimately show ?thesis by (simp only: walk_fault if_True option.map simp_thms)
  next
    case gic
    with e blocks gic1 have "m ! slot 21 a = addresses ! 5 OR 3" by auto
    moreover have "\<not> trapped usb a" using trapped_blocks [of usb a] blocks [OF gic] by blast
    ultimately show ?thesis
      using walk_table [where memory = memory and n = 21 and table = m and a = a, OF _ p(2) _ mem(2)] walk_gic_pages [OF l gic n(3) lim]
      by simp
  next
    case pages
    then have "frame 21 a \<noteq> 0x60000000 \<and> frame 21 a \<noteq> 0x7d000000" by (simp add: special_blocks(10))
    moreover have "frame 21 a \<noteq> gic_block l" using pages blocks by blast
    ultimately have "m ! slot 21 a = addresses ! 3 OR 3" using e pages by simp
    then show ?thesis
      using walk_table [where memory = memory and n = 21 and table = m and a = a, OF _ p(1) _ mem(1)] walk_pages [OF pages n(2) lim]
        gic [OF \<open>frame 21 a \<noteq> gic_block l\<close>] by simp
  next
    case plain
    then have "m ! slot 21 a = frame 21 a OR DEVICE" using e by auto
    moreover have "\<not> trapped usb a" using trapped_blocks [of usb a] plain by blast
    ultimately show ?thesis using walk_block [OF _ _ lim] gic [OF plain(2)] by simp
  qed
qed

lemma addresses_7:
  assumes "length xs = 7"
  shows "xs = [xs ! 0, xs ! 1, xs ! 2, xs ! 3, xs ! 4, xs ! 5, xs ! 6]"
    and "take 6 xs = [xs ! 0, xs ! 1, xs ! 2, xs ! 3, xs ! 4, xs ! 5]"
  using assms by (auto simp: numeral_eq_Suc length_Suc_conv)

lemma map_of_zip_7:
  assumes "length xs = 7" and "distinct (take 6 xs)"
  shows "map_of (zip xs [t0, t1, t2, t3, t4, t5, t6]) (xs ! 1) = Some t1"
    and "map_of (zip xs [t0, t1, t2, t3, t4, t5, t6]) (xs ! 2) = Some t2"
    and "map_of (zip xs [t0, t1, t2, t3, t4, t5, t6]) (xs ! 3) = Some t3"
    and "map_of (zip xs [t0, t1, t2, t3, t4, t5, t6]) (xs ! 4) = Some t4"
    and "map_of (zip xs [t0, t1, t2, t3, t4, t5, t6]) (xs ! 5) = Some t5"
    and "xs ! 6 \<notin> set (take 6 xs) \<Longrightarrow>
      map_of (zip xs [t0, t1, t2, t3, t4, t5, t6]) (xs ! 6) = Some t6"
  using assms by (auto simp: numeral_eq_Suc length_Suc_conv)

lemma prepared_translation:
  assumes ok: "prepare addresses usb l t = (Inr (), t')"
    and n: "length addresses = 7" and sized: "tables_sized t" and apart: "gic_apart usb l"
  shows "map_option fst (translate (tables_at addresses t') (t_root t') a) = guest_view usb l a"
proof (cases "IPA_LIMIT \<le> a")
  case True
  then show ?thesis by (simp add: translate_def guest_view_def)
next
  case False
  then have lim: "unat a < 2 ^ 36" by (simp add: word_le_nat_alt)
  note P = prepare_Inr [OF ok n]
  have N: "length (t_root t) = 512" "length (t_split t) = 512" "length (t_mmio t) = 512"
    "length (t_pages t) = 512" "length (t_gic_l2 t) = 512" "length (t_gic_pages t) = 512"
    "length (t_car t) = 512"
    using sized by (simp_all add: tables_sized_def)
  define memory where "memory = tables_at addresses t'"
  from P(1) have dist: "distinct (take 6 addresses)"
    and res: "\<And>x. x \<in> set (take 6 addresses) \<Longrightarrow> page_address x"
    by (auto simp: placed_tables_iff intro: resident_table_address)
  have p: "page_address (addresses ! 1)" "page_address (addresses ! 2)" "page_address (addresses ! 3)"
    "page_address (addresses ! 4)" "page_address (addresses ! 5)"
    using res by (auto simp: addresses_7(2) [OF n])
  have p6: "usb \<Longrightarrow> page_address (addresses ! 6)"
    and u6: "usb \<Longrightarrow> addresses ! 6 \<notin> set (take 6 addresses)"
    using P(2) resident_table_address(1) by auto
  note mem = map_of_zip_7 [OF n dist, of "t_root t'" "t_split t'" "t_mmio t'" "t_pages t'"
      "t_gic_l2 t'" "t_gic_pages t'" "t_car t'", folded tables_at_def memory_def]
  have gone: "gib a \<noteq> gic_gib l \<Longrightarrow> \<not> gic_hidden l a \<and> \<not> gic_cpu_window l a"
    using gic_window_block [OF P(3)] gib_frame [of 21 a] by (auto simp: gic_gib_eq)
  have trap: "gib a \<noteq> 1 \<Longrightarrow> \<not> trapped usb a"
    using trapped_blocks [of usb a] gib_frame [of 21 a] special_blocks(7-9) by auto
  have walk: "map_option fst (translate memory (t_root t') a)
      = map_option fst (walk memory [30, 21, 12] (t_root t') a)"
    using False by (simp only: translate_def if_False)
  have root: "t_root t' ! slot 30 a
    = (if gic_gib l \<noteq> 1 \<and> gib a = gic_gib l then addresses ! 4 OR 3 else base_root addresses t ! gib a)"
    using gib_less [OF lim] P(5) N by (simp add: slot_30 [OF lim] nth_list_update)
  note root' = root [unfolded nth_base_root [OF N(1) lim]]
  consider (gic) "gic_gib l \<noteq> 1" "gib a = gic_gib l" | (mmio) "gib a = 1" | (split) "gib a = 3"
    | (plain) "gib a \<noteq> 1" "gib a \<noteq> 3" "gib a \<noteq> gic_gib l"
    by (cases "gib a = 1"; cases "gib a = gic_gib l") auto
  then show ?thesis
  proof cases
    case gic
    then have "t_root t' ! slot 30 a = addresses ! 4 OR 3" by (simp add: root)
    from walk_table [where memory = memory, OF _ p(4) this mem(4)]
    have "map_option fst (translate memory (t_root t') a)
        = map_option fst (walk memory [21, 12] (t_gic_l2 t') a)" by (simp add: walk)
    also have "\<dots> = (if gic_hidden l a then None
       else if gic_cpu_window l a then Some (gl_virtual_cpu l + (a - gl_cpu l)) else Some a)"
      unfolding P(9) [OF gic(1)]
      by (rule walk_gic_l2 [OF P(3) gic(2) N(5) N(6) lim p(5)]) (simp add: mem(5) P(10))
    also have "\<dots> = guest_view usb l a"
      using False trap gic P(4) resident_gib [of a] by (auto simp: guest_view_def)
    finally show ?thesis by (simp add: memory_def)
  next
    case mmio
    then have "t_root t' ! slot 30 a = addresses ! 2 OR 3" by (simp add: root' del: One_nat_def)
    from walk_table [where memory = memory, OF _ p(2) this mem(2)]
    have "map_option fst (translate memory (t_root t') a)
        = map_option fst (walk memory [21, 12] (t_mmio t') a)" by (simp add: walk)
    also have "\<dots> = (if trapped usb a \<or> gic_hidden l a then None
       else if gic_cpu_window l a then Some (gl_virtual_cpu l + (a - gl_cpu l)) else Some a)"
      by (rule walk_mmio [OF P(3) apart mmio lim sized p(3,5) p6 _ _ _ P(7)])
         (simp_all add: mem P(8,10,11) u6)
    also have "\<dots> = guest_view usb l a"
      using False mmio resident_gib [of a] by (auto simp: guest_view_def)
    finally show ?thesis by (simp add: memory_def)
  next
    case split
    then have "t_root t' ! slot 30 a = addresses ! 1 OR 3"
      using p(1) P(4) by (simp add: root' page_address_def)
    from walk_table [where memory = memory, OF _ p(1) this mem(1)]
    have "map_option fst (translate memory (t_root t') a)
        = map_option fst (walk memory [21, 12] (t_split t') a)" by (simp add: walk)
    also have "\<dots> = (if resident a then None else Some a)"
      unfolding P(6) by (rule walk_split [OF split N(2) lim])
    also have "\<dots> = guest_view usb l a"
      using False trap gone split P(4) by (auto simp: guest_view_def)
    finally show ?thesis by (simp add: memory_def)
  next
    case plain
    then have "t_root t' ! slot 30 a = frame 30 a OR (if frame 30 a < RAM_BASE then DEVICE else NORMAL)"
      by (simp add: root' del: One_nat_def RAM_BASE_def)
    from walk_block [OF _ _ lim this] have "map_option fst (translate memory (t_root t') a) = Some a"
      by (simp add: walk)
    also have "\<dots> = guest_view usb l a"
      using False trap gone plain resident_gib [of a] by (auto simp: guest_view_def)
    finally show ?thesis by (simp add: memory_def)
  qed
qed

lemma protect_gic_succeeds:
  assumes "placed_tables existing addresses" and l: "gic_layout_ok l (gic_block l)"
    and g: "gic_gib l \<noteq> 3" and root: "gic_gib l \<noteq> 1 \<Longrightarrow> root ! gic_gib l AND 3 = 1"
  shows "\<exists>root' mmio' l2' gp'.
    protect_gic addresses existing l (root, mmio, l2, gp) = (Inr (), root', mmio', l2', gp')"
proof -
  have i: "MC_INDEX = 1" "SPLIT_INDEX = 3" by simp_all
  have "None \<notin> set (gic_ranges l)" and "\<not> gl_cpu_size l > gl_virtual_cpu_size l"
    and "\<not> list_ex (\<lambda>base. frame 21 base \<noteq> gic_block l)
           [gl_cpu l, gl_hypervisor l, gl_virtual_cpu l]"
    and "pairwise_apart (map the (gic_ranges l))"
    and "\<not> (gic_gib l \<noteq> 1 \<and> (gic_gib l = 3 \<or> root ! gic_gib l AND 3 \<noteq> 1))"
    using l g root by (auto simp: gic_layout_ok_def not_less)
  with assms(1) show ?thesis
    unfolding protect_gic_def case_prod_conv block_mask gic_block_def [symmetric] Let_def
      gic_gib_def [symmetric] i
    by (cases "gic_gib l = 1") simp_all
qed

lemma prepare_succeeds:
  assumes n: "length addresses = 7" and sized: "tables_sized t"
    and placed: "placed_tables [] (take 6 addresses)"
    and usb: "usb \<Longrightarrow> resident_table (addresses ! 6) \<and> addresses ! 6 \<notin> set (take 6 addresses)"
    and l: "gic_layout_ok l (gic_block l)" and g: "gic_gib l \<noteq> 3"
  shows "\<exists>t'. prepare addresses usb l t = (Inr (), t')"
proof -
  have at: "take 4 addresses = [addresses ! 0, addresses ! 1, addresses ! 2, addresses ! 3]"
    "take 2 (drop 4 addresses) = [addresses ! 4, addresses ! 5]"
    using n by (auto simp: numeral_eq_Suc length_Suc_conv)
  have p4: "placed_tables [] (take 4 addresses)"
    and p2: "placed_tables (take 4 addresses) (take 2 (drop 4 addresses))"
    using placed unfolding at addresses_7(2) [OF n] placed_tables_iff by auto
  have b: "stage2_build (take 4 addresses) (stage2_tables.truncate t)
      = (Inr (push_bit 48 VMID OR addresses ! 0),
         \<lparr>t_root = base_root addresses t, t_split = each_entry split_entry (zeroed (t_split t)),
          t_mmio = base_mmio addresses t, t_pages = each_entry pages_entry (zeroed (t_pages t))\<rparr>)"
    using p4 n by (simp add: stage2_build_def Let_def base_root_def base_mmio_def
        stage2_tables.truncate_def del: placed_tables.simps)
  have lim: "unat (gic_block l) < 2 ^ 36"
  proof -
    note d = page_range_Some [OF gic_ranges_Some(1) [OF l]]
    have "unat (gic_block l) \<le> unat (gl_distributor l)" by (simp add: gic_block_def unat_frame)
    moreover have "unat (gl_distributor l) < unat (gl_distributor l + gl_distributor_size l)"
      using d(4,7) by (simp add: unat_gt_0)
    ultimately show ?thesis using d(5) by (simp add: word_le_nat_alt)
  qed
  have root: "base_root addresses t ! gic_gib l AND 3 = 1" if "gic_gib l \<noteq> 1"
  proof -
    have "length (t_root t) = 512" using sized by (simp add: tables_sized_def)
    from nth_base_root [OF this lim] have "base_root addresses t ! gic_gib l
        = frame 30 (gic_block l) OR (if frame 30 (gic_block l) < RAM_BASE then DEVICE else NORMAL)"
      using that g by (simp add: gic_gib_eq del: One_nat_def RAM_BASE_def)
    moreover have "page_address (frame 30 (gic_block l))" by (rule frame_page_address [OF _ lim]) simp
    ultimately show ?thesis
      by (simp add: descriptor_kind attributes del: RAM_BASE_def)
  qed
  have "\<exists>root' mmio l2 gp. protect_gic (take 2 (drop 4 addresses)) (take 4 addresses) l
      (base_root addresses t, base_mmio addresses t, t_gic_l2 t, t_gic_pages t)
      = (Inr (), root', mmio, l2, gp)"
    by (rule protect_gic_succeeds [OF p2 l g root])
  then obtain root' mmio l2 gp where gic: "protect_gic (take 2 (drop 4 addresses))
      (take 4 addresses) l (base_root addresses t, base_mmio addresses t, t_gic_l2 t, t_gic_pages t)
      = (Inr (), root', mmio, l2, gp)" by blast
  show ?thesis
    using usb by (simp add: prepare_def b gic Let_def protect_usb_def del: CAR_def)
qed


section \<open>The monitor's own map (el2_mmu.rs)\<close>

definition DMA_BASE :: u64 where [simp]: "DMA_BASE = RESIDENT_BASE + BLOCK_SIZE"
definition DMA_END :: u64 where [simp]: "DMA_END = DMA_BASE + BLOCK_SIZE"
definition EL2_NORMAL :: u64 where
  "EL2_NORMAL = push_bit 2 1 OR push_bit 8 3 OR push_bit 10 1 OR 1"
definition EL2_CACHED :: u64 where
  "EL2_CACHED = push_bit 2 2 OR push_bit 8 3 OR push_bit 10 1 OR 1"
definition EL2_DEVICE :: u64 where
  "EL2_DEVICE = push_bit 54 1 OR push_bit 10 1 OR 1"

definition el2_table :: "u64 \<Rightarrow> bool" where
  "el2_table address \<longleftrightarrow>
     \<not> (address < RESIDENT_BASE
        \<or> address mod PAGE_SIZE \<noteq> 0
        \<or> (case checked_add address PAGE_SIZE of None \<Rightarrow> True
           | Some e \<Rightarrow> e > RESIDENT_BASE + RESIDENT_SIZE \<or> (address < DMA_END \<and> e > DMA_BASE)))"

definition el2_split_entry :: "nat \<Rightarrow> u64 \<Rightarrow> u64" where
  "el2_split_entry index entry =
     (let address = entry_base (RESIDENT_BASE AND NOT (GIB - 1)) BLOCK_SIZE index;
          attributes = (if address = DMA_BASE then EL2_NORMAL OR push_bit 54 1
                        else if RESIDENT_BASE \<le> address \<and> address < RESIDENT_BASE + RESIDENT_SIZE
                        then EL2_CACHED else EL2_NORMAL)
      in address OR attributes)"

definition el2_root_entry :: "nat \<Rightarrow> u64" where
  "el2_root_entry index =
     (let base = entry_base 0 GIB index
      in base OR (if base < RAM_BASE then EL2_DEVICE else EL2_NORMAL))"

definition el2_build ::
  "u64 \<times> u64 \<Rightarrow> page_table \<times> page_table \<Rightarrow> (map_error + unit) \<times> page_table \<times> page_table" where
  "el2_build addresses = (\<lambda>(root, split).
     if \<not> el2_table (fst addresses) \<or> \<not> el2_table (snd addresses) \<or> snd addresses = fst addresses
     then (Inl TablePlacement, root, split)
     else
       let root = fold (\<lambda>index root. root[index := el2_root_entry index])
                    [0..<unat (IPA_LIMIT div GIB)] (zeroed root);
           split = each_entry el2_split_entry split;
           root = root[unat (RESIDENT_BASE div GIB) := snd addresses OR 3]
       in (Inr (), root, split))"

text \<open>
  What the last descriptor of a walk says of the memory: the attribute index of \<open>MAIR\<close> (0 device, 1
  non-cacheable, 2 write-back), and whether it is execute-never.
\<close>

definition memory_index :: "u64 \<Rightarrow> u64" where
  "memory_index d = drop_bit 2 d AND 7"

definition execute_never :: "u64 \<Rightarrow> bool" where
  "execute_never d \<longleftrightarrow> bit d 54"

lemma el2_attributes:
  "EL2_NORMAL AND ADDRESS_MASK = 0" "EL2_CACHED AND ADDRESS_MASK = 0" "EL2_DEVICE AND ADDRESS_MASK = 0"
  "(EL2_NORMAL OR push_bit 54 1) AND ADDRESS_MASK = 0"
  "EL2_NORMAL AND 3 = 1" "EL2_CACHED AND 3 = 1" "EL2_DEVICE AND 3 = 1"
  "(EL2_NORMAL OR push_bit 54 1) AND 3 = 1"
  "memory_index EL2_NORMAL = 1" "memory_index EL2_CACHED = 2" "memory_index EL2_DEVICE = 0"
  "memory_index (EL2_NORMAL OR push_bit 54 1) = 1"
  "\<not> execute_never EL2_NORMAL" "\<not> execute_never EL2_CACHED" "execute_never EL2_DEVICE"
  "execute_never (EL2_NORMAL OR push_bit 54 1)"
  by (simp_all add: EL2_NORMAL_def EL2_CACHED_def EL2_DEVICE_def ADDRESS_MASK_def memory_index_def
      execute_never_def)

lemma page_attributes:
  assumes "page_address b"
  shows "memory_index (b OR c) = memory_index c" and "execute_never (b OR c) = execute_never c"
proof -
  have b: "\<not> bit b i" if "i < 12 \<or> 36 \<le> i" for i
  proof
    assume "bit b i"
    then have "bit (b AND ADDRESS_MASK) i" using assms by (simp add: page_address_def)
    with that show False by (auto simp: ADDRESS_MASK_eq bit_simps)
  qed
  have "memory_index d = drop_bit 2 d AND mask 3" for d
    by (simp add: memory_index_def mask_eq_exp_minus_1)
  then show "memory_index (b OR c) = memory_index c"
    by (auto intro!: bit_word_eqI simp: bit_simps b)
  show "execute_never (b OR c) = execute_never c"
    by (simp add: execute_never_def bit_simps b)
qed


lemma el2_table_resident:
  assumes "el2_table a"
  shows "resident_table a" and "page_address a"
proof -
  from assms show "resident_table a"
    by (auto simp: el2_table_def resident_table_def split: option.splits)
  then show "page_address a" by (rule resident_table_address)
qed

lemma leaf_walk:
  assumes "n = 30 \<or> n = 21" and lim: "unat a < 2 ^ 36"
    and "table ! slot n a = frame n a OR c" and "c AND ADDRESS_MASK = 0" and "c AND 3 = 1"
  shows "walk memory (n # ns) table a = Some (a, frame n a OR c)"
    and "memory_index (frame n a OR c) = memory_index c"
    and "execute_never (frame n a OR c) = execute_never c"
proof -
  have n: "12 \<le> n" "n \<noteq> 12" using assms(1) by auto
  have p: "page_address (frame n a)" by (rule frame_page_address [OF n(1) lim])
  have "(frame n a OR c) AND 3 = 1" using descriptor_kind [OF p assms(4)] assms(5) by simp
  with leaf_output [OF n(1) lim assms(4)] n(2)
  show "walk memory (n # ns) table a = Some (a, frame n a OR c)" by (simp add: assms(3))
  show "memory_index (frame n a OR c) = memory_index c"
    "execute_never (frame n a OR c) = execute_never c" using page_attributes [OF p] by simp_all
qed

text \<open>How the monitor maps an address: its private memory write-back, its DMA block never executable.\<close>

definition monitor_index :: "u64 \<Rightarrow> u64" where
  "monitor_index a =
     (if a < RAM_BASE then 0
      else if resident a \<and> \<not> (DMA_BASE \<le> a \<and> a < DMA_END) then 2 else 1)"

definition monitor_never_executes :: "u64 \<Rightarrow> bool" where
  "monitor_never_executes a \<longleftrightarrow> a < RAM_BASE \<or> (DMA_BASE \<le> a \<and> a < DMA_END)"

lemma frame_is_block:
  assumes "frame 21 b = b" and "frame 21 (b + BLOCK_SIZE) = b + BLOCK_SIZE" and "b < b + BLOCK_SIZE"
  shows "frame 21 a = b \<longleftrightarrow> b \<le> a \<and> a < b + BLOCK_SIZE"
proof
  assume e: "frame 21 a = b"
  show "b \<le> a \<and> a < b + BLOCK_SIZE"
    using le_frame_iff [OF assms(1), of a] frame_less_iff [OF assms(2), of a] e assms(3) by auto
next
  assume a: "b \<le> a \<and> a < b + BLOCK_SIZE"
  obtain k where k: "unat b = k * 2 ^ 21" by (metis assms(1) unat_frame)
  have "unat (b + BLOCK_SIZE) \<le> unat b + 2 ^ 21" by (simp add: unat_word_ariths)
  with a have "k * 2 ^ 21 \<le> unat a" "unat a < 2 ^ 21 * Suc k"
    using k by (auto simp: word_le_nat_alt word_less_nat_alt)
  then have "unat a div 2 ^ 21 = k" by (intro div_nat_eqI) (simp_all add: mult.commute)
  then show "frame 21 a = b" by (simp add: word_unat_eq_iff unat_frame k)
qed

lemma el2_split_walk:
  assumes g: "gib a = 3" and n: "length t = 512" and lim: "unat a < 2 ^ 36"
  shows "\<exists>d. walk memory [21, 12] (each_entry el2_split_entry t) a = Some (a, d)
    \<and> memory_index d = monitor_index a \<and> execute_never d = monitor_never_executes a"
proof -
  have hi: "RAM_BASE \<le> a"
  proof -
    have "3 * 2 ^ 30 \<le> unat a" using g by (simp add: gib_def div_eq_dividend_iff le_div_geq
          less_eq_div_iff_mult_less_eq [symmetric])
    then show ?thesis by (simp add: word_le_nat_alt)
  qed
  have dma: "frame 21 a = DMA_BASE \<longleftrightarrow> DMA_BASE \<le> a \<and> a < DMA_END"
    unfolding DMA_END_def by (rule frame_is_block) (simp_all add: frame_def mask_eq_exp_minus_1)
  define c where "c = (if frame 21 a = DMA_BASE then EL2_NORMAL OR push_bit 54 1
    else if resident a then EL2_CACHED else EL2_NORMAL)"
  have "RESIDENT_BASE AND NOT (GIB - 1) = word_of_nat 3 * GIB" by simp
  then have "el2_split_entry (slot 21 a) e = frame 21 a OR c" for e
    unfolding el2_split_entry_def c_def
    using block_slot [OF g] resident_frame [of a, unfolded resident_def]
    by (simp only: Let_def resident_def)
  then have e: "each_entry el2_split_entry t ! slot 21 a = frame 21 a OR c" using n by simp
  have c: "c AND ADDRESS_MASK = 0" "c AND 3 = 1"
    unfolding c_def by (simp_all only: el2_attributes split: if_split) simp_all
  have "memory_index c = monitor_index a" "execute_never c = monitor_never_executes a"
    using hi unfolding c_def monitor_index_def monitor_never_executes_def dma
    by (simp_all only: el2_attributes split: if_splits) auto
  with leaf_walk [OF _ lim e c] show ?thesis by auto
qed


lemma el2_walk:
  assumes ok: "el2_build (r, s) (root, split) = (Inr (), root', split')"
    and n: "length root = 512" "length split = 512" and lim: "unat a < 2 ^ 36"
  shows "\<exists>d. translate (map_of [(r, root'), (s, split')]) root' a = Some (a, d)
    \<and> memory_index d = monitor_index a \<and> execute_never d = monitor_never_executes a"
proof -
  have i: "unat (IPA_LIMIT div GIB) = 64" "unat (RESIDENT_BASE div GIB) = 3" by simp_all
  let ?r = "fold (\<lambda>index root. root[index := el2_root_entry index]) [0..<64] (zeroed root)"
  from ok have t: "el2_table s" "s \<noteq> r" and root': "root' = ?r[3 := s OR 3]"
    and split': "split' = each_entry el2_split_entry split"
    unfolding el2_build_def Let_def i by (auto split: if_splits)
  have "\<not> IPA_LIMIT \<le> a" using lim by (simp add: word_le_nat_alt)
  then have walk: "translate m root' a = walk m [30, 21, 12] root' a" for m
    by (simp only: translate_def if_False)
  have "?r ! gib a = el2_root_entry (gib a)"
    using nth_fold_update [of "[0..<64]" el2_root_entry el2_root_entry "\<lambda>i. i" "gib a" "zeroed root"]
      gib_less [OF lim] n by (simp add: image_iff)
  then have e: "root' ! slot 30 a = (if gib a = 3 then s OR 3 else el2_root_entry (gib a))"
    using n gib_less [OF lim] by (simp add: root' slot_30 [OF lim] nth_list_update)
  show ?thesis
  proof (cases "gib a = 3")
    case True
    with e have "root' ! slot 30 a = s OR 3" by simp
    from walk_table [where memory = "map_of [(r, root'), (s, split')]",
        OF _ el2_table_resident(2) [OF t(1)] this, of split'] t(2)
    have "walk (map_of [(r, root'), (s, split')]) [30, 21, 12] root' a
        = walk (map_of [(r, root'), (s, split')]) [21, 12] split' a" by simp
    with el2_split_walk [OF True n(2) lim] show ?thesis by (simp only: walk split')
  next
    case False
    define c where "c = (if frame 30 a < RAM_BASE then EL2_DEVICE else EL2_NORMAL)"
    have "frame 30 RAM_BASE = RAM_BASE" by (simp add: frame_def mask_eq_exp_minus_1)
    from frame_less_iff [OF this] have ram: "frame 30 a < RAM_BASE \<longleftrightarrow> a < RAM_BASE" .
    from False e have e': "root' ! slot 30 a = frame 30 a OR c"
      by (simp add: el2_root_entry_def Let_def entry_of_root [OF lim] c_def del: GIB_def RAM_BASE_def)
    have c: "c AND ADDRESS_MASK = 0" "c AND 3 = 1" by (simp_all add: c_def el2_attributes)
    have "\<not> resident a" using False resident_gib by blast
    moreover have "\<not> (DMA_BASE \<le> a \<and> a < DMA_END)"
      using calculation by (auto simp: resident_iff word_le_nat_alt word_less_nat_alt)
    ultimately have "memory_index c = monitor_index a" "execute_never c = monitor_never_executes a"
      unfolding c_def ram monitor_index_def monitor_never_executes_def
      by (simp_all add: el2_attributes del: RAM_BASE_def DMA_BASE_def DMA_END_def)
    with leaf_walk [OF _ lim e' c] show ?thesis by (simp add: walk)
  qed
qed


section \<open>Properties\<close>

text \<open>
  What preparing needs, over numbers: each table a page of its own in the monitor's memory, from
  \<open>0xfec00000\<close> to \<open>0xffc00000\<close>; and four windows of the interrupt controller, each as its base and size, of
  whole pages within one block of 2 MiB, below \<open>2 ^ 36\<close> and outside the fourth gigabyte.
\<close>

definition own_page :: "u64 \<Rightarrow> bool" where
  "own_page a \<longleftrightarrow> 4096 dvd unat a \<and> 0xfec00000 \<le> unat a \<and> unat a + 4096 \<le> 0xffc00000"

definition tables_apart :: "bool \<Rightarrow> u64 list \<Rightarrow> bool" where
  "tables_apart usb addresses \<longleftrightarrow>
     (let used = take (if usb then 7 else 6) addresses in distinct used \<and> list_all own_page used)"

definition gic_windows :: "gic_layout \<Rightarrow> (nat \<times> nat) list" where
  "gic_windows l =
     [(unat (gl_distributor l), unat (gl_distributor_size l)), (unat (gl_cpu l), unat (gl_cpu_size l)),
      (unat (gl_hypervisor l), unat (gl_hypervisor_size l)),
      (unat (gl_virtual_cpu l), unat (gl_virtual_cpu_size l))]"

definition pages_of_block :: "nat \<Rightarrow> nat \<times> nat \<Rightarrow> bool" where
  "pages_of_block k = (\<lambda>(b, n). 0 < n \<and> 4096 dvd b \<and> 4096 dvd n \<and> k * 2 ^ 21 \<le> b \<and> b + n \<le> (k + 1) * 2 ^ 21)"

definition controller_placed :: "gic_layout \<Rightarrow> bool" where
  "controller_placed l \<longleftrightarrow>
     (let k = unat (gl_distributor l) div 2 ^ 21
      in k < 2 ^ 15 \<and> k div 512 \<noteq> 3 \<and> list_all (pages_of_block k) (gic_windows l)
         \<and> sorted_wrt (\<lambda>(b, n) (b', n'). b + n \<le> b' \<or> b' + n' \<le> b) (gic_windows l)
         \<and> unat (gl_cpu_size l) \<le> unat (gl_virtual_cpu_size l))"

lemma mod_page: "x mod PAGE_SIZE = 0 \<longleftrightarrow> 4096 dvd unat x"
proof -
  have "x mod PAGE_SIZE = 0 \<longleftrightarrow> unat (x mod PAGE_SIZE) = 0" by (simp only: unat_eq_zero)
  then show ?thesis by (simp add: unat_mod dvd_eq_mod_eq_0)
qed

lemma resident_table_page: "resident_table a \<longleftrightarrow> own_page a"
proof -
  have "(case checked_add a PAGE_SIZE of None \<Rightarrow> False | Some e \<Rightarrow> e \<le> RESIDENT_BASE + RESIDENT_SIZE)
      \<longleftrightarrow> unat a + 4096 \<le> 0xffc00000"
    by (auto simp: checked_add_def word_le_nat_alt unat_add_no_overflow)
  then show ?thesis unfolding resident_table_def mod_page own_page_def by (simp add: word_le_nat_alt)
qed

lemma placed_tables_apart:
  assumes "length addresses = 7"
  shows "tables_apart usb addresses \<longleftrightarrow>
    placed_tables [] (take 6 addresses)
    \<and> (usb \<longrightarrow> resident_table (addresses ! 6) \<and> addresses ! 6 \<notin> set (take 6 addresses))"
proof -
  have "take 7 addresses = take 6 addresses @ [addresses ! 6]"
    using assms take_Suc_conv_app_nth [of 6 addresses] by simp
  then show ?thesis
    by (auto simp: tables_apart_def placed_tables_iff resident_table_page list_all_iff Let_def)
qed

lemma div_block: "x div 2 ^ 21 = k \<longleftrightarrow> k * 2 ^ 21 \<le> x \<and> x < (k + 1) * 2 ^ 21" for x k :: nat
  by (auto simp: div_nat_eqI algebra_simps div_times_less_eq_dividend dividend_less_div_times)

lemma block_div: "x div BLOCK_SIZE = y div BLOCK_SIZE \<longleftrightarrow> unat x div 2 ^ 21 = unat y div 2 ^ 21" for x y :: u64
  by (simp add: word_unat_eq_iff unat_div)

lemma page_range_iff:
  "page_range base sz \<noteq> None \<longleftrightarrow>
     4096 dvd unat base \<and> 4096 dvd unat sz \<and> 0 < unat sz \<and> unat base + unat sz \<le> 2 ^ 36
     \<and> unat base div 2 ^ 21 = (unat base + unat sz - 1) div 2 ^ 21"
proof (cases "unat base + unat sz < 2 ^ 64 \<and> sz \<noteq> 0")
  case True
  then have u: "unat (base + sz) = unat base + unat sz" by (simp add: unat_add_no_overflow)
  have nz: "0 < unat sz" using True by (simp add: unat_gt_0)
  have "(1 :: u64) \<le> base + sz" using u nz by (simp add: word_le_nat_alt)
  then have v: "unat (base + sz - 1) = unat base + unat sz - 1" using u by (simp add: unat_sub)
  have c: "checked_add base sz = Some (base + sz)" using True by (simp add: checked_add_def)
  have "base + sz \<le> IPA_LIMIT \<longleftrightarrow> unat base + unat sz \<le> 2 ^ 36" by (simp add: word_le_nat_alt u)
  then show ?thesis
    unfolding page_range_def c bind.simps block_div v mod_page using True nz by auto
next
  case False
  then have "checked_add base sz = None \<or> sz = 0" by (auto simp: checked_add_def)
  then have "page_range base sz = None" by (cases "checked_add base sz") (auto simp: page_range_def)
  moreover have "\<not> (0 < unat sz \<and> unat base + unat sz \<le> 2 ^ 36)" using False by (auto simp: unat_eq_zero)
  ultimately show ?thesis by blast
qed

lemma page_range_window:
  "page_range base sz \<noteq> None \<and> unat base div 2 ^ 21 = k \<longleftrightarrow> k < 2 ^ 15 \<and> pages_of_block k (unat base, unat sz)"
  unfolding page_range_iff pages_of_block_def case_prod_conv
proof (intro iffI conjI; (elim conjE)?)
  let ?b = "unat base" and ?n = "unat sz"
  {
    assume n: "0 < ?n" and lim: "?b + ?n \<le> 2 ^ 36" and e: "?b div 2 ^ 21 = (?b + ?n - 1) div 2 ^ 21"
      and k: "?b div 2 ^ 21 = k"
    have kb: "k * 2 ^ 21 \<le> ?b" "?b + ?n - 1 < (k + 1) * 2 ^ 21" using div_block k e by metis+
    then show "k < 2 ^ 15" "k * 2 ^ 21 \<le> ?b" "?b + ?n \<le> (k + 1) * 2 ^ 21" using n lim by simp_all
  }
  assume k: "k < 2 ^ 15" and n: "0 < ?n" and in_block: "k * 2 ^ 21 \<le> ?b" "?b + ?n \<le> (k + 1) * 2 ^ 21"
  then show "?b + ?n \<le> 2 ^ 36" by simp
  have "?b div 2 ^ 21 = k" using n in_block unfolding div_block by linarith
  moreover have "(?b + ?n - 1) div 2 ^ 21 = k" using n in_block unfolding div_block by linarith
  ultimately show "?b div 2 ^ 21 = k" "?b div 2 ^ 21 = (?b + ?n - 1) div 2 ^ 21" by simp_all
qed

lemma frame_block: "frame 21 a = frame 21 b \<longleftrightarrow> unat a div 2 ^ 21 = unat b div 2 ^ 21"
  by (simp add: word_unat_eq_iff unat_frame)

lemma range_ends: "page_range base sz \<noteq> None \<Longrightarrow> the (page_range base sz) = (base, base + sz)
    \<and> unat (base + sz) = unat base + unat sz"
  using page_range_Some(1,4) [of base sz] by (cases "page_range base sz") auto

lemma gic_gib_block: "gic_gib l = unat (gl_distributor l) div 2 ^ 21 div 512"
proof -
  have "gic_gib l = gib (gl_distributor l)" unfolding gic_gib_eq gic_block_def by (rule gib_frame) simp
  then show ?thesis by (simp add: gib_def div_mult2_eq [symmetric])
qed

lemma layout_placed: "controller_placed l \<longleftrightarrow> gic_layout_ok l (gic_block l) \<and> gic_gib l \<noteq> 3"
proof -
  define k where "k = unat (gl_distributor l) div 2 ^ 21"
  note w = page_range_window [of _ _ k]
  have some: "None \<notin> set (gic_ranges l) \<and> frame 21 (gl_distributor l) = gic_block l
      \<and> frame 21 (gl_cpu l) = gic_block l \<and> frame 21 (gl_hypervisor l) = gic_block l
      \<and> frame 21 (gl_virtual_cpu l) = gic_block l
    \<longleftrightarrow> k < 2 ^ 15 \<and> list_all (pages_of_block k) (gic_windows l)"
    using w [of "gl_distributor l" "gl_distributor_size l"] w [of "gl_cpu l" "gl_cpu_size l"]
      w [of "gl_hypervisor l" "gl_hypervisor_size l"] w [of "gl_virtual_cpu l" "gl_virtual_cpu_size l"]
    unfolding gic_ranges_def gic_block_def frame_block k_def [symmetric] gic_windows_def
    by (simp add: eq_commute [of None]) blast
  have apart: "pairwise_apart (map the (gic_ranges l))
      \<longleftrightarrow> sorted_wrt (\<lambda>(b, n) (b', n'). b + n \<le> b' \<or> b' + n' \<le> b) (gic_windows l)"
    if "None \<notin> set (gic_ranges l)"
  proof -
    note e = range_ends [of "gl_distributor l" "gl_distributor_size l"] range_ends [of "gl_cpu l" "gl_cpu_size l"]
      range_ends [of "gl_hypervisor l" "gl_hypervisor_size l"] range_ends [of "gl_virtual_cpu l" "gl_virtual_cpu_size l"]
    show ?thesis
      using that e by (auto simp: gic_ranges_def gic_windows_def word_less_nat_alt not_less eq_commute [of None])
  qed
  show ?thesis
    unfolding controller_placed_def gic_layout_ok_def Let_def k_def [symmetric] gic_gib_block word_le_nat_alt
    using some apart by blast
qed

text \<open>
  C21: Preparing the guest's map succeeds exactly when the tables it uses are pages of their own in the
  monitor's memory, and the interrupt controller's four windows are whole pages of one 2 MiB block, apart
  from each other, outside the monitor's gigabyte and below the limit of guest addresses, with a virtual
  interface no smaller than the one it stands for.
\<close>

theorem prepare_succeeds_iff:
  assumes "length addresses = 7" and "tables_sized t"
  shows "(\<exists>t'. prepare addresses usb l t = (Inr (), t')) \<longleftrightarrow> tables_apart usb addresses \<and> controller_placed l"
proof -
  have "prepare addresses usb l t = (Inr (), t') \<Longrightarrow> tables_apart usb addresses \<and> controller_placed l" for t'
    using prepare_Inr(1-4) [OF _ assms(1)] unfolding placed_tables_apart [OF assms(1)] layout_placed by blast
  moreover have "tables_apart usb addresses \<Longrightarrow> controller_placed l \<Longrightarrow> \<exists>t'. prepare addresses usb l t = (Inr (), t')"
    using prepare_succeeds [OF assms] unfolding placed_tables_apart [OF assms(1)] layout_placed by blast
  ultimately show ?thesis by blast
qed

definition sample_addresses :: "u64 list" where
  "sample_addresses = [0xfec01000, 0xfec02000, 0xfec03000, 0xfec04000, 0xfec05000, 0xfec06000, 0xfec07000]"

definition sample_tables :: guest_tables where
  "sample_tables = (let z = replicate 512 0 in
     \<lparr>t_root = z, t_split = z, t_mmio = z, t_pages = z, t_gic_l2 = z, t_gic_pages = z, t_car = z\<rparr>)"

lemma sample_placed:
  "length sample_addresses = 7" "tables_sized sample_tables"
  "placed_tables [] (take 6 sample_addresses)"
  "resident_table (sample_addresses ! 6) \<and> sample_addresses ! 6 \<notin> set (take 6 sample_addresses)"
  by (simp_all add: sample_addresses_def sample_tables_def tables_sized_def resident_table_def
      checked_add_def Let_def)

lemma platforms_ok:
  "gic_layout_ok TEGRA210 (gic_block TEGRA210) \<and> gic_gib TEGRA210 = 1 \<and> gic_apart True TEGRA210"
  "gic_layout_ok QEMU_VIRT (gic_block QEMU_VIRT) \<and> gic_gib QEMU_VIRT = 0 \<and> gic_apart True QEMU_VIRT"
  by (simp_all add: gic_layout_ok_def gic_block_def TEGRA210_def QEMU_VIRT_def gic_ranges_def
      page_range_def checked_add_def frame_def mask_eq_exp_minus_1 gic_gib_def gic_apart_def)

lemma sample_apart: "tables_apart True sample_addresses" "controller_placed TEGRA210" "controller_placed QEMU_VIRT"
  by (simp_all add: tables_apart_def sample_addresses_def own_page_def controller_placed_def gic_windows_def
      pages_of_block_def TEGRA210_def QEMU_VIRT_def)

theorem prepare_succeeds_iff_witness:
  "(\<exists>t'. prepare sample_addresses True TEGRA210 sample_tables = (Inr (), t'))
   \<and> (\<exists>t'. prepare sample_addresses True QEMU_VIRT sample_tables = (Inr (), t'))"
  using prepare_succeeds_iff [OF sample_placed(1,2), of True TEGRA210]
    prepare_succeeds_iff [OF sample_placed(1,2), of True QEMU_VIRT] sample_apart
  by simp

text \<open>
  C22: The prepared map translates every address the way the guest is meant to see it, and no address to
  the monitor's own memory.
\<close>

theorem prepared_map:
  assumes "prepare addresses usb l t = (Inr (), t')" and "length addresses = 7"
    and "tables_sized t" and "gic_apart usb l"
  shows "map_option fst (translate (tables_at addresses t') (t_root t') a) = guest_view usb l a
    \<and> (\<forall>p. guest_view usb l a = Some p \<longrightarrow> \<not> resident p)"
proof -
  have "\<not> resident p" if "guest_view usb l a = Some p" for p
  proof (cases "gic_cpu_window l a \<and> p \<noteq> a")
    case True
    note l = prepare_Inr(3,4) [OF assms(1,2)]
    note s = gic_ranges_Some(4) [OF l(1)]
    from True that have "p = gl_virtual_cpu l + (a - gl_cpu l)"
      by (auto simp: guest_view_def split: if_splits)
    with cpu_offset(3) [OF l(1)] page_range_Some(6) [OF s] True
    have "frame 21 p = frame 21 (gl_virtual_cpu l)" by blast
    also have "\<dots> = gic_block l" using l(1) by (simp add: gic_layout_ok_def)
    finally have "gib p = gic_gib l" using gib_frame [of 21 p] by (simp add: gic_gib_eq)
    with l(2) show ?thesis using resident_gib by auto
  qed (use that in \<open>auto simp: guest_view_def split: if_splits\<close>)
  with prepared_translation [OF assms] show ?thesis by blast
qed

text \<open>The guest's CPU interface on the Tegra, and the monitor's first page.\<close>

theorem prepared_map_witness:
  "\<exists>t'. map_option fst (translate (tables_at sample_addresses t') (t_root t') 0x50042010) = Some 0x50046010
    \<and> translate (tables_at sample_addresses t') (t_root t') 0xfec00000 = None"
proof -
  obtain t' where t': "prepare sample_addresses True TEGRA210 sample_tables = (Inr (), t')"
    using prepare_succeeds [OF sample_placed(1,2), of True TEGRA210] sample_placed(3,4) platforms_ok
    by auto
  have p: "map_option fst (translate (tables_at sample_addresses t') (t_root t') a)
      = guest_view True TEGRA210 a" for a
    using prepared_map [OF t' sample_placed(1,2), of a] platforms_ok by simp
  have "guest_view True TEGRA210 0x50042010 = Some 0x50046010"
    by (simp add: guest_view_def resident_def trapped_def controller_def CONTROLLERS_def gic_hidden_def
        gic_cpu_window_def window_def TEGRA210_def frame_def mask_eq_exp_minus_1)
  moreover have "guest_view True TEGRA210 0xfec00000 = None"
    by (simp add: guest_view_def resident_def)
  ultimately show ?thesis using p [of "0x50042010"] p [of "0xfec00000"] by auto
qed

text \<open>
  C23: The monitor's own map translates every address to itself.  It maps its private memory write-back,
  the block its USB device reads and writes non-cacheable and never executable, the memory below RAM as
  device memory, and every other page non-cacheable.
\<close>

theorem el2_map:
  assumes "el2_build (r, s) (root, split) = (Inr (), root', split')"
    and "length root = 512" and "length split = 512" and "a < IPA_LIMIT"
  shows "\<exists>d. translate (map_of [(r, root'), (s, split')]) root' a = Some (a, d)
    \<and> memory_index d = monitor_index a \<and> execute_never d = monitor_never_executes a"
  using assms by (intro el2_walk [OF assms(1-3)]) (simp add: word_less_nat_alt)

theorem el2_map_witness:
  "\<exists>r s. (\<exists>d. translate (map_of [(0xfec01000, r), (0xfec02000, s)]) r 0xfee00000 = Some (0xfee00000, d)
      \<and> memory_index d = 1 \<and> execute_never d)
    \<and> (\<exists>d. translate (map_of [(0xfec01000, r), (0xfec02000, s)]) r 0xfec80000 = Some (0xfec80000, d)
      \<and> memory_index d = 2 \<and> \<not> execute_never d)"
proof -
  let ?z = "replicate 512 0 :: page_table"
  obtain r s where b: "el2_build (0xfec01000, 0xfec02000) (?z, ?z) = (Inr (), r, s)"
    by (simp add: el2_build_def el2_table_def checked_add_def Let_def)
  note m = el2_map [OF b length_replicate length_replicate]
  have "monitor_index 0xfee00000 = 1" "monitor_never_executes 0xfee00000"
    "monitor_index 0xfec80000 = 2" "\<not> monitor_never_executes 0xfec80000"
    by (simp_all add: monitor_index_def monitor_never_executes_def resident_def)
  with m [of "0xfee00000"] m [of "0xfec80000"] show ?thesis by (intro exI [of _ r] exI [of _ s]) simp
qed

end
