(* ===== verification/Ring.thy ===== *)
theory Ring
  imports Prelude
begin

text \<open>
  Ring buffers.  The UART's queues and the network's frame rings keep their items in a fixed array, from
  a head index on, modulo the capacity.  \<open>ring_items\<close> reads such an array as a list; the locale
  \<open>bounded_queue\<close> is the contract the users of the rings rely on, with what a user derives from it.
\<close>

definition ring_items :: "nat \<Rightarrow> (nat \<Rightarrow> 'a) \<Rightarrow> nat \<Rightarrow> nat \<Rightarrow> 'a list" where
  "ring_items n slot head count = map (\<lambda>i. slot ((head + i) mod n)) [0..<count]"

lemma length_ring_items [simp]: "length (ring_items n slot head count) = count"
  by (simp add: ring_items_def)

lemma nth_ring_items: "i < count \<Longrightarrow> ring_items n slot head count ! i = slot ((head + i) mod n)"
  by (simp add: ring_items_def)

lemma ring_items_0 [simp]: "ring_items n slot head 0 = []"
  by (simp add: ring_items_def)

lemma ring_slot_distinct:
  assumes "i < count" and "count < n"
  shows "(head + i) mod n \<noteq> (head + count) mod (n :: nat)"
proof
  assume e: "(head + i) mod n = (head + count) mod n"
  have "(count - i) mod n = 0"
    using mod_eq_dvd_iff_nat [of "head + i" "head + count" n] e assms by (simp add: mod_eq_0_iff_dvd)
  with assms show False by simp
qed

text \<open>Writing the slot after the last item appends; moving the head drops from the front.\<close>

lemma ring_items_append:
  assumes "count < n" and "slot' ((head + count) mod n) = x"
    and "\<And>j. j \<noteq> (head + count) mod n \<Longrightarrow> slot' j = slot j"
  shows "ring_items n slot' head (Suc count) = ring_items n slot head count @ [x]"
  using assms ring_slot_distinct [OF _ assms(1)] by (simp add: ring_items_def)

lemma ring_items_drop:
  assumes "k \<le> count"
  shows "ring_items n slot ((head + k) mod n) (count - k) = drop k (ring_items n slot head count)"
  using assms
  by (intro nth_equalityI) (auto simp: nth_ring_items mod_add_left_eq add.assoc)

lemma ring_items_same:
  assumes "\<And>i. i < count \<Longrightarrow> slot' ((head + i) mod n) = slot ((head + i) mod n)"
  shows "ring_items n slot' head count = ring_items n slot head count"
  using assms by (simp add: ring_items_def)


section \<open>The contract of a bounded queue\<close>

text \<open>
  \<open>enq\<close> takes an item at the back if the queue accepts it and has room, and leaves the queue's items
  otherwise; \<open>deq n\<close> drops up to \<open>n\<close> items from the front.
\<close>

locale bounded_queue =
  fixes items :: "'q \<Rightarrow> 'a list" and ok :: "'q \<Rightarrow> bool" and cap :: nat and accepts :: "'a \<Rightarrow> bool"
    and enq :: "'a \<Rightarrow> 'q \<Rightarrow> 'q" and deq :: "nat \<Rightarrow> 'q \<Rightarrow> 'q" and reset :: "'q \<Rightarrow> 'q"
  assumes bounded: "ok q \<Longrightarrow> length (items q) \<le> cap"
    and items_enq: "ok q \<Longrightarrow> items (enq x q)
      = (if accepts x \<and> length (items q) < cap then items q @ [x] else items q)"
    and items_deq: "ok q \<Longrightarrow> items (deq n q) = drop n (items q)"
    and items_reset: "ok q \<Longrightarrow> items (reset q) = []"
    and ok_enq: "ok q \<Longrightarrow> ok (enq x q)"
    and ok_deq: "ok q \<Longrightarrow> ok (deq n q)"
    and ok_reset: "ok q \<Longrightarrow> ok (reset q)"
begin

lemma ok_enq_all: "ok q \<Longrightarrow> ok (fold enq xs q)"
  by (induction xs arbitrary: q) (simp_all add: ok_enq)

lemma enq_all:
  "ok q \<Longrightarrow> items (fold enq xs q) = items q @ take (cap - length (items q)) (filter accepts xs)"
proof (induction xs arbitrary: q)
  case (Cons x xs)
  then have "items (fold enq (x # xs) q)
      = items (enq x q) @ take (cap - length (items (enq x q))) (filter accepts xs)"
    by (simp add: ok_enq)
  also have "\<dots> = items q @ take (cap - length (items q)) (filter accepts (x # xs))"
    using Cons.prems bounded [OF Cons.prems]
    by (auto simp: items_enq take_Cons' Suc_diff_Suc)
  finally show ?case .
qed simp

text \<open>Items leave in the order they were accepted, none is lost once it is, and none is made up.\<close>

lemma enq_all_room:
  assumes "ok q" and "\<forall>x \<in> set xs. accepts x" and "length (items q) + length xs \<le> cap"
  shows "items (fold enq xs q) = items q @ xs"
  using assms by (simp add: enq_all filter_True)

lemma deq_enq_all:
  assumes "ok q" and "n \<le> length (items q)"
  shows "items (deq n (fold enq xs q))
    = drop n (items q) @ take (cap - length (items q)) (filter accepts xs)"
  using assms by (simp add: items_deq ok_enq_all enq_all)

end

end
