(* ===== verification/Uart.thy ===== *)
theory Uart
  imports Ring Stage2
begin

text \<open>
  \<open>vdev/uart.rs\<close>: the guest's NS16550A with its bounded receive and transmit queues, and the console
  plumbing of \<open>vm/console.rs\<close> around it.  The registers are a record over the two queues: \<open>uart\<close> has
  the ring buffers of the source, and its specification the same registers over plain lists.
\<close>

definition TX_CAPACITY :: nat where [simp]: "TX_CAPACITY = 65536"
definition RX_CAPACITY :: nat where [simp]: "RX_CAPACITY = 4096"


section \<open>The queues\<close>

record rx_queue =
  rx_bytes :: bytes
  rx_head :: nat
  rx_len :: nat

definition rx_new :: "nat \<Rightarrow> rx_queue" where
  "rx_new n = \<lparr>rx_bytes = replicate n 0, rx_head = 0, rx_len = 0\<rparr>"

definition rx_push :: "u8 \<Rightarrow> rx_queue \<Rightarrow> bool \<times> rx_queue" where
  "rx_push b q =
     (if rx_len q = length (rx_bytes q) then (False, q)
      else (True, q\<lparr>rx_bytes := (rx_bytes q)[(rx_head q + rx_len q) mod length (rx_bytes q) := b],
                    rx_len := rx_len q + 1\<rparr>))"

definition rx_pop :: "rx_queue \<Rightarrow> u8 option \<times> rx_queue" where
  "rx_pop q =
     (if rx_len q = 0 then (None, q)
      else
        let byte = rx_bytes q ! rx_head q;
            q = (if length (rx_bytes q) \<noteq> 0
                 then q\<lparr>rx_head := (rx_head q + 1) mod length (rx_bytes q)\<rparr> else q)
        in (Some byte, q\<lparr>rx_len := rx_len q - 1\<rparr>))"

definition rx_clear :: "rx_queue \<Rightarrow> rx_queue" where
  "rx_clear q = q\<lparr>rx_head := 0, rx_len := 0\<rparr>"

definition rx_capacity :: "rx_queue \<Rightarrow> nat" where
  "rx_capacity q = length (rx_bytes q) - rx_len q"

definition rx_is_empty :: "rx_queue \<Rightarrow> bool" where
  "rx_is_empty q \<longleftrightarrow> rx_len q = 0"

record tx_queue =
  tx_bytes :: bytes
  tx_head :: nat
  tx_len :: nat
  tx_dropped :: u64

definition tx_new :: "nat \<Rightarrow> tx_queue" where
  "tx_new n = \<lparr>tx_bytes = replicate n 0, tx_head = 0, tx_len = 0, tx_dropped = 0\<rparr>"

definition tx_push :: "u8 \<Rightarrow> tx_queue \<Rightarrow> tx_queue" where
  "tx_push b q =
     (if tx_len q = length (tx_bytes q) then q\<lparr>tx_dropped := saturating_add (tx_dropped q) 1\<rparr>
      else q\<lparr>tx_bytes := (tx_bytes q)[(tx_head q + tx_len q) mod length (tx_bytes q) := b],
             tx_len := tx_len q + 1\<rparr>)"

text \<open>\<open>peek\<close> fills the front of the caller's buffer and returns how much of it.\<close>

definition tx_peek :: "tx_queue \<Rightarrow> bytes \<Rightarrow> nat \<times> bytes" where
  "tx_peek q out =
     (let count = min (tx_len q) (length out)
      in (count, fold (\<lambda>index out. out[index :=
                   tx_bytes q ! ((tx_head q + index) mod length (tx_bytes q))]) [0..<count] out))"

definition tx_consume :: "nat \<Rightarrow> tx_queue \<Rightarrow> tx_queue" where
  "tx_consume count q =
     (let count = min count (tx_len q);
          q = (if length (tx_bytes q) \<noteq> 0
               then q\<lparr>tx_head := (tx_head q + count) mod length (tx_bytes q)\<rparr> else q)
      in q\<lparr>tx_len := tx_len q - count\<rparr>)"


section \<open>The registers\<close>

record ('r, 't) uart =
  ua_divisor :: bytes
  ua_ier :: u8
  ua_lcr :: u8
  ua_mcr :: u8
  ua_fifo :: bool
  ua_scratch :: u8
  ua_overrun :: bool
  ua_rx :: 'r
  ua_tx :: 't

type_synonym uart_state = "(rx_queue, tx_queue) uart"

definition uart_new :: uart_state where
  "uart_new = \<lparr>ua_divisor = [0, 0], ua_ier = 0, ua_lcr = 0, ua_mcr = 0, ua_fifo = False,
     ua_scratch = 0, ua_overrun = False, ua_rx = rx_new RX_CAPACITY, ua_tx = tx_new TX_CAPACITY\<rparr>"

text \<open>Receiving from the host.  The assertion on each push is a panic, \<open>None\<close>.\<close>

fun rx_push_all :: "bytes \<Rightarrow> rx_queue \<Rightarrow> rx_queue option" where
  "rx_push_all [] q = Some q"
| "rx_push_all (b # bs) q = (case rx_push b q of (ok, q) \<Rightarrow> if ok then rx_push_all bs q else None)"

definition uart_receive :: "bytes \<Rightarrow> uart_state \<Rightarrow> (nat \<times> uart_state) option" where
  "uart_receive bytes u =
     (let count = min (length bytes) (rx_capacity (ua_rx u))
      in case rx_push_all (take count bytes) (ua_rx u) of
           None \<Rightarrow> None
         | Some rx \<Rightarrow>
             let u = u\<lparr>ua_rx := rx\<rparr>
             in Some (count, if count \<noteq> length bytes then u\<lparr>ua_overrun := True\<rparr> else u))"

definition uart_interrupt_pending :: "uart_state \<Rightarrow> bool" where
  "uart_interrupt_pending u \<longleftrightarrow>
     (ua_ier u AND 1 \<noteq> 0 \<and> \<not> rx_is_empty (ua_rx u)) \<or> (ua_ier u AND 4 \<noteq> 0 \<and> ua_overrun u)"

definition uart_read_register :: "u64 \<Rightarrow> uart_state \<Rightarrow> u8 option \<times> uart_state" where
  "uart_read_register offset u =
     (if offset = 0 \<and> ua_lcr u AND 0x80 \<noteq> 0 then (Some (ua_divisor u ! 0), u)
      else if offset = 1 \<and> ua_lcr u AND 0x80 \<noteq> 0 then (Some (ua_divisor u ! 1), u)
      else if offset = 0
      then case rx_pop (ua_rx u) of
             (byte, rx) \<Rightarrow> (Some (case byte of None \<Rightarrow> 0 | Some b \<Rightarrow> b), u\<lparr>ua_rx := rx\<rparr>)
      else if offset = 1 then (Some (ua_ier u), u)
      else if offset = 2
      then let fifo = (if ua_fifo u then 0xc0 else 0)
           in (Some (if ua_ier u AND 4 \<noteq> 0 \<and> ua_overrun u then fifo OR 0x06
                     else if ua_ier u AND 1 \<noteq> 0 \<and> \<not> rx_is_empty (ua_rx u) then fifo OR 0x04
                     else fifo OR 1), u)
      else if offset = 3 then (Some (ua_lcr u), u)
      else if offset = 4 then (Some (ua_mcr u), u)
      else if offset = 5
      then (Some (0x60 OR of_bool (\<not> rx_is_empty (ua_rx u)) OR push_bit 1 (of_bool (ua_overrun u))),
            u\<lparr>ua_overrun := False\<rparr>)
      else if offset = 6 \<and> ua_mcr u AND 0x10 \<noteq> 0
      then (Some (push_bit 3 (ua_mcr u AND 2) OR push_bit 5 (ua_mcr u AND 1)
                  OR push_bit 4 (ua_mcr u AND 4) OR push_bit 4 (ua_mcr u AND 8)), u)
      else if offset = 6 then (Some 0xb0, u)
      else if offset = 7 then (Some (ua_scratch u), u)
      else (None, u))"

definition uart_write_register :: "u64 \<Rightarrow> u8 \<Rightarrow> uart_state \<Rightarrow> (device_error + unit) \<times> uart_state" where
  "uart_write_register offset v u =
     (if offset \<in> {0, 1} \<and> ua_lcr u AND 0x80 \<noteq> 0
      then (Inr (), u\<lparr>ua_divisor := (ua_divisor u)[unat offset := v]\<rparr>)
      else if offset = 0 then (Inr (), u\<lparr>ua_tx := tx_push v (ua_tx u)\<rparr>)
      else if offset = 1 then (Inr (), u\<lparr>ua_ier := v AND 0x05\<rparr>)
      else if offset = 2
      then let u = u\<lparr>ua_fifo := (v AND 1 \<noteq> 0)\<rparr>
           in (Inr (), if v AND 2 \<noteq> 0 then u\<lparr>ua_rx := rx_clear (ua_rx u), ua_overrun := False\<rparr> else u)
      else if offset = 3 then (Inr (), u\<lparr>ua_lcr := v\<rparr>)
      else if offset = 4 then (Inr (), u\<lparr>ua_mcr := v AND 0x1f\<rparr>)
      else if offset \<in> {5, 6} then (Inr (), u)
      else if offset = 7 then (Inr (), u\<lparr>ua_scratch := v\<rparr>)
      else (Inl Register, u))"

definition uart_read :: "u64 \<Rightarrow> u8 \<Rightarrow> uart_state \<Rightarrow> (device_error + u64) \<times> uart_state" where
  "uart_read offset sz u =
     (if sz \<noteq> 1 then (Inl AccessSize, u)
      else case uart_read_register offset u of
             (v, u) \<Rightarrow> (ok_or (map_option ucast v) Register, u))"

definition uart_write :: "u64 \<Rightarrow> u8 \<Rightarrow> u64 \<Rightarrow> uart_state \<Rightarrow> (device_error + unit) \<times> uart_state" where
  "uart_write offset sz v u =
     (if sz \<noteq> 1 then (Inl AccessSize, u) else uart_write_register offset (ucast v) u)"

definition uart_device :: "uart_state virtual_device" where
  "uart_device = \<lparr>vd_region = \<lambda>_. \<lparr>rg_base = UART_BASE, rg_size = UART_SIZE\<rparr>,
     vd_read = uart_read, vd_write = uart_write\<rparr>"


section \<open>The queues hold lists\<close>

definition rx_items :: "rx_queue \<Rightarrow> bytes" where
  "rx_items q = ring_items (length (rx_bytes q)) ((!) (rx_bytes q)) (rx_head q) (rx_len q)"

definition rx_ok :: "nat \<Rightarrow> rx_queue \<Rightarrow> bool" where
  "rx_ok n q \<longleftrightarrow> length (rx_bytes q) = n \<and> rx_head q < n \<and> rx_len q \<le> n"

definition tx_items :: "tx_queue \<Rightarrow> bytes" where
  "tx_items q = ring_items (length (tx_bytes q)) ((!) (tx_bytes q)) (tx_head q) (tx_len q)"

definition tx_ok :: "nat \<Rightarrow> tx_queue \<Rightarrow> bool" where
  "tx_ok n q \<longleftrightarrow> length (tx_bytes q) = n \<and> tx_head q < n \<and> tx_len q \<le> n"

lemma rx_items_push:
  assumes "rx_ok n q"
  shows "fst (rx_push b q) \<longleftrightarrow> length (rx_items q) < n"
    and "rx_items (snd (rx_push b q)) = (if length (rx_items q) < n then rx_items q @ [b] else rx_items q)"
    and "rx_ok n (snd (rx_push b q))"
proof -
  have l: "length (rx_items q) = rx_len q" by (simp add: rx_items_def)
  show "fst (rx_push b q) \<longleftrightarrow> length (rx_items q) < n" "rx_ok n (snd (rx_push b q))"
    using assms by (auto simp: rx_push_def l rx_ok_def)
  show "rx_items (snd (rx_push b q)) = (if length (rx_items q) < n then rx_items q @ [b] else rx_items q)"
  proof (cases "rx_len q < n")
    case True
    with assms have "rx_items (snd (rx_push b q))
        = ring_items n ((!) ((rx_bytes q)[(rx_head q + rx_len q) mod n := b])) (rx_head q) (Suc (rx_len q))"
      by (simp add: rx_push_def rx_ok_def rx_items_def)
    also have "\<dots> = rx_items q @ [b]"
      using assms True by (subst ring_items_append [where slot = "(!) (rx_bytes q)"])
        (auto simp: rx_items_def rx_ok_def)
    finally show ?thesis using True by (simp add: l)
  qed (use assms in \<open>auto simp: rx_push_def rx_ok_def l\<close>)
qed

lemma rx_items_pop:
  assumes "rx_ok n q"
  shows "fst (rx_pop q) = (case rx_items q of [] \<Rightarrow> None | b # _ \<Rightarrow> Some b)"
    and "rx_items (snd (rx_pop q)) = drop 1 (rx_items q)" and "rx_ok n (snd (rx_pop q))"
proof -
  show "fst (rx_pop q) = (case rx_items q of [] \<Rightarrow> None | b # _ \<Rightarrow> Some b)"
  proof (cases "rx_len q")
    case (Suc k)
    then have "rx_items q ! 0 = rx_bytes q ! rx_head q" and "rx_items q \<noteq> []"
      using assms by (auto simp: rx_items_def nth_ring_items rx_ok_def simp flip: length_greater_0_conv)
    then show ?thesis using Suc by (cases "rx_items q") (auto simp: rx_pop_def Let_def)
  qed (simp add: rx_pop_def rx_items_def)
  show "rx_items (snd (rx_pop q)) = drop 1 (rx_items q)"
    using assms ring_items_drop [of 1 "rx_len q" n "(!) (rx_bytes q)" "rx_head q"]
    by (auto simp: rx_pop_def Let_def rx_items_def rx_ok_def Suc_le_eq)
  show "rx_ok n (snd (rx_pop q))"
    using assms by (auto simp: rx_pop_def Let_def rx_ok_def)
qed

lemma tx_items_push:
  assumes "tx_ok n q"
  shows "tx_items (tx_push b q) = (if length (tx_items q) < n then tx_items q @ [b] else tx_items q)"
    and "tx_dropped (tx_push b q) = (if length (tx_items q) < n then tx_dropped q
           else saturating_add (tx_dropped q) 1)"
    and "tx_ok n (tx_push b q)"
proof -
  have l: "length (tx_items q) = tx_len q" by (simp add: tx_items_def)
  show "tx_dropped (tx_push b q) = (if length (tx_items q) < n then tx_dropped q
           else saturating_add (tx_dropped q) 1)" "tx_ok n (tx_push b q)"
    using assms by (auto simp: tx_push_def l tx_ok_def)
  show "tx_items (tx_push b q) = (if length (tx_items q) < n then tx_items q @ [b] else tx_items q)"
  proof (cases "tx_len q < n")
    case True
    with assms have "tx_items (tx_push b q)
        = ring_items n ((!) ((tx_bytes q)[(tx_head q + tx_len q) mod n := b])) (tx_head q) (Suc (tx_len q))"
      by (simp add: tx_push_def tx_ok_def tx_items_def)
    also have "\<dots> = tx_items q @ [b]"
      using assms True by (subst ring_items_append [where slot = "(!) (tx_bytes q)"])
        (auto simp: tx_items_def tx_ok_def)
    finally show ?thesis using True by (simp add: l)
  qed (use assms in \<open>auto simp: tx_push_def tx_ok_def l tx_items_def\<close>)
qed

lemma tx_items_consume:
  assumes "tx_ok n q"
  shows "tx_items (tx_consume k q) = drop k (tx_items q)"
    and "tx_dropped (tx_consume k q) = tx_dropped q" and "tx_ok n (tx_consume k q)"
proof -
  have d: "tx_items (tx_consume k q) = drop (min k (tx_len q)) (tx_items q)"
    using assms ring_items_drop [of "min k (tx_len q)" "tx_len q" n "(!) (tx_bytes q)" "tx_head q"]
    by (auto simp: tx_consume_def Let_def tx_items_def tx_ok_def)
  then show "tx_items (tx_consume k q) = drop k (tx_items q)"
    by (cases "k \<le> tx_len q") (auto simp: tx_items_def min_def)
  show "tx_dropped (tx_consume k q) = tx_dropped q" "tx_ok n (tx_consume k q)"
    using assms by (auto simp: tx_consume_def Let_def tx_ok_def)
qed

lemma tx_peek_items:
  assumes "tx_ok n q"
  shows "fst (tx_peek q out) = min (length (tx_items q)) (length out)"
    and "take (fst (tx_peek q out)) (snd (tx_peek q out)) = take (length out) (tx_items q)"
proof -
  let ?c = "min (tx_len q) (length out)"
  let ?f = "\<lambda>i. tx_bytes q ! ((tx_head q + i) mod length (tx_bytes q))"
  have c: "fst (tx_peek q out) = ?c" by (simp add: tx_peek_def Let_def)
  then show "fst (tx_peek q out) = min (length (tx_items q)) (length out)" by (simp add: tx_items_def)
  have "fold (\<lambda>i out. out[i := ?f i]) [0..<?c] out ! i = ?f i" if "i < ?c" for i
    using that nth_fold_update [of "[0..<?c]" ?f ?f "\<lambda>i. i" i out] by (simp add: image_iff)
  then show "take (fst (tx_peek q out)) (snd (tx_peek q out)) = take (length out) (tx_items q)"
    unfolding c by (intro nth_equalityI) (auto simp: tx_peek_def Let_def tx_items_def nth_ring_items)
qed

text \<open>\<open>n\<close> guest reads of the receive register.\<close>

fun rx_drop :: "nat \<Rightarrow> rx_queue \<Rightarrow> rx_queue" where
  "rx_drop 0 q = q"
| "rx_drop (Suc n) q = rx_drop n (snd (rx_pop q))"

lemma rx_drop: "rx_ok c q \<Longrightarrow> rx_items (rx_drop n q) = drop n (rx_items q) \<and> rx_ok c (rx_drop n q)"
  by (induction n q rule: rx_drop.induct) (simp_all add: rx_items_pop drop_Suc drop_tl)

interpretation rx: bounded_queue rx_items "rx_ok RX_CAPACITY" RX_CAPACITY "\<lambda>_. True"
  "\<lambda>b q. snd (rx_push b q)" rx_drop rx_clear
proof
  fix q assume ok: "rx_ok RX_CAPACITY q"
  then show "length (rx_items q) \<le> RX_CAPACITY" by (simp add: rx_items_def rx_ok_def)
  fix b show "rx_items (snd (rx_push b q))
      = (if True \<and> length (rx_items q) < RX_CAPACITY then rx_items q @ [b] else rx_items q)"
    using rx_items_push [OF ok] by simp
  show "rx_ok RX_CAPACITY (snd (rx_push b q))" by (rule rx_items_push [OF ok])
  show "rx_items (rx_clear q) = []" by (simp add: rx_items_def rx_clear_def)
  show "rx_ok RX_CAPACITY (rx_clear q)" using ok by (simp add: rx_ok_def rx_clear_def)
  fix n
  show "rx_items (rx_drop n q) = drop n (rx_items q)" and "rx_ok RX_CAPACITY (rx_drop n q)"
    using ok rx_drop by blast+
qed

interpretation tx: bounded_queue tx_items "tx_ok TX_CAPACITY" TX_CAPACITY "\<lambda>_. True"
  tx_push tx_consume "\<lambda>q. tx_consume (tx_len q) q"
proof
  fix q assume ok: "tx_ok TX_CAPACITY q"
  then show "length (tx_items q) \<le> TX_CAPACITY" by (simp add: tx_items_def tx_ok_def)
  show "tx_items (tx_consume (tx_len q) q) = []"
    using tx_items_consume(1) [OF ok] by (simp add: tx_items_def)
qed (auto dest: tx_items_push tx_items_consume)


section \<open>The specification: the registers over lists\<close>

type_synonym uart_spec = "(bytes, bytes \<times> u64) uart"

definition uart_view :: "uart_state \<Rightarrow> uart_spec" where
  "uart_view u = \<lparr>ua_divisor = ua_divisor u, ua_ier = ua_ier u, ua_lcr = ua_lcr u, ua_mcr = ua_mcr u,
     ua_fifo = ua_fifo u, ua_scratch = ua_scratch u, ua_overrun = ua_overrun u,
     ua_rx = rx_items (ua_rx u), ua_tx = (tx_items (ua_tx u), tx_dropped (ua_tx u))\<rparr>"

definition uart_ok :: "uart_state \<Rightarrow> bool" where
  "uart_ok u \<longleftrightarrow> rx_ok RX_CAPACITY (ua_rx u) \<and> tx_ok TX_CAPACITY (ua_tx u)"

text \<open>What can happen to the UART: guest reads and writes, and the host side of both queues.\<close>

datatype uart_event =
    GuestRead u64 u8
  | GuestWrite u64 u8 u64
  | HostReceive bytes
  | HostTake nat

datatype uart_answer =
    ReadAnswer "device_error + u64"
  | WriteAnswer "device_error + unit"
  | Accepted nat
  | Taken bytes

text \<open>
  \<open>vm/console.rs\<close> passes the host's bytes to \<open>receive\<close> and takes transmitted bytes by \<open>peek\<close> and then
  \<open>consume\<close> of what the transport took.
\<close>

fun uart_step :: "uart_event \<Rightarrow> uart_state \<Rightarrow> (uart_answer \<times> uart_state) option" where
  "uart_step (GuestRead offset sz) u =
     (case uart_read offset sz u of (a, u) \<Rightarrow> Some (ReadAnswer a, u))"
| "uart_step (GuestWrite offset sz v) u =
     (case uart_write offset sz v u of (a, u) \<Rightarrow> Some (WriteAnswer a, u))"
| "uart_step (HostReceive bytes) u =
     (case uart_receive bytes u of None \<Rightarrow> None | Some (n, u) \<Rightarrow> Some (Accepted n, u))"
| "uart_step (HostTake n) u =
     (case tx_peek (ua_tx u) (replicate n 0) of
        (count, out) \<Rightarrow> Some (Taken (take count out), u\<lparr>ua_tx := tx_consume count (ua_tx u)\<rparr>))"

text \<open>
  The specification.  Reading an empty receiver gives zero; a full receiver takes what fits and notes
  the overrun; a full transmitter counts what it drops; the divisor latch hides both.
\<close>

definition spec_status :: "uart_spec \<Rightarrow> u64 \<Rightarrow> u8" where
  "spec_status u offset =
     (if offset = 1 then ua_ier u
      else if offset = 2
      then (if ua_fifo u then 0xc0 else 0)
           OR (if bit (ua_ier u) 2 \<and> ua_overrun u then 6
               else if bit (ua_ier u) 0 \<and> ua_rx u \<noteq> [] then 4 else 1)
      else if offset = 3 then ua_lcr u
      else if offset = 4 then ua_mcr u
      else if offset = 5
      then 0x60 OR (if ua_rx u = [] then 0 else 1) OR (if ua_overrun u then 2 else 0)
      else if offset = 6
      then (if bit (ua_mcr u) 4
            then (if bit (ua_mcr u) 1 then 0x10 else 0) OR (if bit (ua_mcr u) 0 then 0x20 else 0)
                 OR (if bit (ua_mcr u) 2 then 0x40 else 0) OR (if bit (ua_mcr u) 3 then 0x80 else 0)
            else 0xb0)
      else ua_scratch u)"

definition spec_read :: "u64 \<Rightarrow> uart_spec \<Rightarrow> (device_error + u64) \<times> uart_spec" where
  "spec_read offset u =
     (if offset > 7 then (Inl Register, u)
      else if offset \<in> {0, 1} \<and> bit (ua_lcr u) 7 then (Inr (ucast (ua_divisor u ! unat offset)), u)
      else if offset = 0
      then (Inr (case ua_rx u of [] \<Rightarrow> 0 | b # _ \<Rightarrow> ucast b), u\<lparr>ua_rx := tl (ua_rx u)\<rparr>)
      else (Inr (ucast (spec_status u offset)), if offset = 5 then u\<lparr>ua_overrun := False\<rparr> else u))"

definition spec_write :: "u64 \<Rightarrow> u8 \<Rightarrow> uart_spec \<Rightarrow> (device_error + unit) \<times> uart_spec" where
  "spec_write offset v u =
     (if offset > 7 then (Inl Register, u)
      else if offset \<in> {0, 1} \<and> bit (ua_lcr u) 7
      then (Inr (), u\<lparr>ua_divisor := (ua_divisor u)[unat offset := v]\<rparr>)
      else (Inr (),
        if offset = 0
        then (case ua_tx u of (sent, dropped) \<Rightarrow>
                u\<lparr>ua_tx := (if length sent < TX_CAPACITY then (sent @ [v], dropped)
                            else (sent, saturating_add dropped 1))\<rparr>)
        else if offset = 1 then u\<lparr>ua_ier := v AND 5\<rparr>
        else if offset = 2
        then u\<lparr>ua_fifo := bit v 0, ua_rx := (if bit v 1 then [] else ua_rx u),
               ua_overrun := (\<not> bit v 1 \<and> ua_overrun u)\<rparr>
        else if offset = 3 then u\<lparr>ua_lcr := v\<rparr>
        else if offset = 4 then u\<lparr>ua_mcr := take_bit 5 v\<rparr>
        else if offset = 7 then u\<lparr>ua_scratch := v\<rparr> else u))"

fun spec_step :: "uart_event \<Rightarrow> uart_spec \<Rightarrow> uart_answer \<times> uart_spec" where
  "spec_step (GuestRead offset sz) u =
     (if sz \<noteq> 1 then (ReadAnswer (Inl AccessSize), u)
      else case spec_read offset u of (a, u) \<Rightarrow> (ReadAnswer a, u))"
| "spec_step (GuestWrite offset sz v) u =
     (if sz \<noteq> 1 then (WriteAnswer (Inl AccessSize), u)
      else case spec_write offset (ucast v) u of (a, u) \<Rightarrow> (WriteAnswer a, u))"
| "spec_step (HostReceive bytes) u =
     (let room = RX_CAPACITY - length (ua_rx u)
      in (Accepted (min (length bytes) room),
          u\<lparr>ua_rx := ua_rx u @ take room bytes,
            ua_overrun := (ua_overrun u \<or> room < length bytes)\<rparr>))"
| "spec_step (HostTake n) u =
     (case ua_tx u of (sent, dropped) \<Rightarrow> (Taken (take n sent), u\<lparr>ua_tx := (drop n sent, dropped)\<rparr>))"

section \<open>The refinement\<close>

lemma and_bit:
  fixes w :: u8
  shows "w AND 1 = (if bit w 0 then 1 else 0)" "w AND 2 = (if bit w 1 then 2 else 0)"
    "w AND 4 = (if bit w 2 then 4 else 0)" "w AND 8 = (if bit w 3 then 8 else 0)"
    "w AND 0x10 = (if bit w 4 then 0x10 else 0)" "w AND 0x80 = (if bit w 7 then 0x80 else 0)"
proof -
  have "w AND push_bit n 1 = (if bit w n then push_bit n 1 else 0)" for n
    by (rule bit_word_eqI) (auto simp: bit_simps)
  from this [of 0] this [of 1] this [of 2] this [of 3] this [of 4] this [of 7]
  show "w AND 1 = (if bit w 0 then 1 else 0)" "w AND 2 = (if bit w 1 then 2 else 0)"
    "w AND 4 = (if bit w 2 then 4 else 0)" "w AND 8 = (if bit w 3 then 8 else 0)"
    "w AND 0x10 = (if bit w 4 then 0x10 else 0)" "w AND 0x80 = (if bit w 7 then 0x80 else 0)"
    by simp_all
qed

lemma small_offset:
  fixes x :: u64
  assumes "\<not> x > 7"
  shows "x \<in> {0, 1, 2, 3, 4, 5, 6, 7}"
proof -
  from assms have "unat x < 8" by (simp add: word_less_nat_alt not_less)
  then have "unat x \<in> {0, 1, 2, 3, 4, 5, 6, 7}" by auto
  then show ?thesis by (auto simp: word_unat_eq_iff)
qed

lemma rx_items_Nil: "rx_items q = [] \<longleftrightarrow> rx_is_empty q"
  by (simp add: rx_is_empty_def rx_items_def ring_items_def)

lemma uart_read_refines:
  assumes "uart_ok u"
  shows "spec_read offset (uart_view u)
      = (ok_or (map_option ucast (fst (uart_read_register offset u))) Register,
         uart_view (snd (uart_read_register offset u)))"
    and "uart_ok (snd (uart_read_register offset u))"
proof -
  have rx: "rx_ok RX_CAPACITY (ua_rx u)" and tx: "tx_ok TX_CAPACITY (ua_tx u)"
    using assms by (simp_all add: uart_ok_def)
  obtain b q where q: "rx_pop (ua_rx u) = (b, q)" by fastforce
  then have pop: "b = (case rx_items (ua_rx u) of [] \<Rightarrow> None | b # _ \<Rightarrow> Some b)"
    "rx_items q = tl (rx_items (ua_rx u))" "rx_ok RX_CAPACITY q"
    using rx_items_pop [OF rx] by (simp_all add: drop_Suc)
  show "spec_read offset (uart_view u)
      = (ok_or (map_option ucast (fst (uart_read_register offset u))) Register,
         uart_view (snd (uart_read_register offset u)))"
  proof (cases "offset > 7")
    case True
    then have "offset \<noteq> 0" "offset \<noteq> 1" "offset \<noteq> 2" "offset \<noteq> 3" "offset \<noteq> 4" "offset \<noteq> 5"
      "offset \<noteq> 6" "offset \<noteq> 7" by auto
    then show ?thesis using True by (simp add: uart_read_register_def spec_read_def)
  next
    case False
    from small_offset [OF this] show ?thesis
      unfolding insert_iff empty_iff
      by (elim disjE FalseE)
         (simp_all add: uart_read_register_def spec_read_def spec_status_def uart_view_def and_bit
          rx_items_Nil [symmetric] Let_def q pop split: list.splits)
  qed
  show "uart_ok (snd (uart_read_register offset u))"
    using rx tx pop(3) by (simp add: uart_read_register_def uart_ok_def Let_def q)
qed

lemma uart_write_refines:
  assumes "uart_ok u"
  shows "spec_write offset v (uart_view u)
      = (fst (uart_write_register offset v u), uart_view (snd (uart_write_register offset v u)))"
    and "uart_ok (snd (uart_write_register offset v u))"
proof -
  have rx: "rx_ok RX_CAPACITY (ua_rx u)" and tx: "tx_ok TX_CAPACITY (ua_tx u)"
    using assms by (simp_all add: uart_ok_def)
  have mask: "v AND 0x1f = take_bit 5 v" by (simp add: take_bit_eq_mask mask_eq_exp_minus_1)
  note push = tx_items_push [OF tx, of v]
  show "spec_write offset v (uart_view u)
      = (fst (uart_write_register offset v u), uart_view (snd (uart_write_register offset v u)))"
  proof (cases "offset > 7")
    case True
    then have "offset \<noteq> 0" "offset \<noteq> 1" "offset \<noteq> 2" "offset \<noteq> 3" "offset \<noteq> 4" "offset \<noteq> 5"
      "offset \<noteq> 6" "offset \<noteq> 7" by auto
    then show ?thesis using True by (simp add: uart_write_register_def spec_write_def)
  next
    case False
    from small_offset [OF this] show ?thesis
      unfolding insert_iff empty_iff
      by (elim disjE FalseE)
         (simp_all add: uart_write_register_def spec_write_def uart_view_def and_bit mask Let_def
          push rx.items_reset [OF rx])
  qed
  show "uart_ok (snd (uart_write_register offset v u))"
    using rx tx push(3) rx.ok_reset [OF rx]
    by (simp add: uart_write_register_def uart_ok_def Let_def)
qed

lemma rx_push_all:
  "rx_ok n q \<Longrightarrow> length (rx_items q) + length bs \<le> n
     \<Longrightarrow> \<exists>q'. rx_push_all bs q = Some q' \<and> rx_items q' = rx_items q @ bs \<and> rx_ok n q'"
proof (induction bs arbitrary: q)
  case (Cons b bs)
  from Cons.prems(2) have "length (rx_items q) < n" by simp
  with rx_items_push [OF Cons.prems(1), of b] Cons.prems Cons.IH [of "snd (rx_push b q)"]
  show ?case by (auto split: prod.splits)
qed simp

lemma uart_receive_refines:
  assumes "uart_ok u"
  shows "\<exists>u'. uart_receive bs u = Some (min (length bs) (RX_CAPACITY - length (rx_items (ua_rx u))), u')
    \<and> spec_step (HostReceive bs) (uart_view u)
        = (Accepted (min (length bs) (RX_CAPACITY - length (rx_items (ua_rx u)))), uart_view u')
    \<and> uart_ok u'"
proof -
  have rx: "rx_ok RX_CAPACITY (ua_rx u)" and tx: "tx_ok TX_CAPACITY (ua_tx u)"
    using assms by (simp_all add: uart_ok_def)
  have room: "rx_capacity (ua_rx u) = RX_CAPACITY - length (rx_items (ua_rx u))"
    using rx by (simp add: rx_capacity_def rx_items_def rx_ok_def)
  let ?n = "min (length bs) (RX_CAPACITY - length (rx_items (ua_rx u)))"
  have "length (rx_items (ua_rx u)) + length (take ?n bs) \<le> RX_CAPACITY"
    using rx.bounded [OF rx] by (simp del: RX_CAPACITY_def)
  from rx_push_all [OF rx this] obtain q where q: "rx_push_all (take ?n bs) (ua_rx u) = Some q"
    "rx_items q = rx_items (ua_rx u) @ take ?n bs" "rx_ok RX_CAPACITY q" by blast
  have "take ?n bs = take (RX_CAPACITY - length (rx_items (ua_rx u))) bs"
    by (simp add: min_def)
  with q tx show ?thesis
    by (auto simp: uart_receive_def room Let_def uart_view_def uart_ok_def simp del: RX_CAPACITY_def)
qed


lemma uart_step_refines:
  assumes "uart_ok u"
  shows "\<exists>a u'. uart_step e u = Some (a, u') \<and> spec_step e (uart_view u) = (a, uart_view u')
    \<and> uart_ok u'"
proof (cases e)
  case (GuestRead offset sz)
  then show ?thesis using assms uart_read_refines [OF assms, of offset]
    by (cases "sz = 1") (auto simp: uart_read_def split: prod.splits)
next
  case (GuestWrite offset sz v)
  then show ?thesis using assms uart_write_refines [OF assms, of offset "ucast v"]
    by (cases "sz = 1") (auto simp: uart_write_def split: prod.splits)
next
  case (HostReceive bs)
  then show ?thesis using uart_receive_refines [OF assms, of bs] by auto
next
  case (HostTake n)
  have tx: "tx_ok TX_CAPACITY (ua_tx u)" using assms by (simp add: uart_ok_def)
  obtain c out where p: "tx_peek (ua_tx u) (replicate n 0) = (c, out)" by fastforce
  then have c: "c = min (length (tx_items (ua_tx u))) n" "take c out = take n (tx_items (ua_tx u))"
    using tx_peek_items [OF tx, of "replicate n 0"] by simp_all
  have "drop c (tx_items (ua_tx u)) = drop n (tx_items (ua_tx u))"
    unfolding c(1) by (simp add: min_def)
  with HostTake p c(2) assms tx_items_consume [OF tx, of c] show ?thesis
    by (simp add: uart_view_def uart_ok_def)
qed

text \<open>A run of events, and its answers.\<close>

fun uart_run :: "uart_event list \<Rightarrow> uart_state \<Rightarrow> (uart_answer list \<times> uart_state) option" where
  "uart_run [] u = Some ([], u)"
| "uart_run (e # es) u =
     (case uart_step e u of
        None \<Rightarrow> None
      | Some (a, u) \<Rightarrow> map_option (\<lambda>(as, u). (a # as, u)) (uart_run es u))"

fun spec_run :: "uart_event list \<Rightarrow> uart_spec \<Rightarrow> uart_answer list \<times> uart_spec" where
  "spec_run [] u = ([], u)"
| "spec_run (e # es) u =
     (case spec_step e u of (a, u) \<Rightarrow> (case spec_run es u of (as, u) \<Rightarrow> (a # as, u)))"

lemma uart_run_from:
  "uart_ok u \<Longrightarrow> \<exists>as u'. uart_run es u = Some (as, u')
     \<and> spec_run es (uart_view u) = (as, uart_view u') \<and> uart_ok u'"
proof (induction es arbitrary: u)
  case (Cons e es)
  obtain a u1 where s: "uart_step e u = Some (a, u1)" "spec_step e (uart_view u) = (a, uart_view u1)"
    "uart_ok u1" using uart_step_refines [OF Cons.prems, of e] by blast
  from Cons.IH [OF s(3)] s(1,2) show ?case by auto
qed simp

lemma uart_ok_new: "uart_ok uart_new"
  by (simp add: uart_ok_def uart_new_def rx_ok_def tx_ok_def rx_new_def tx_new_def)

interpretation uart: virtual_device uart_device uart_ok
proof
  fix u :: uart_state and offset sz e v u'
  show "vd_read uart_device offset sz u = (Inl e, u') \<Longrightarrow> u' = u"
    by (auto simp: uart_device_def uart_read_def uart_read_register_def Let_def
        split: if_splits prod.splits)
  show "vd_write uart_device offset sz v u = (Inl e, u') \<Longrightarrow> u' = u"
    by (auto simp: uart_device_def uart_write_def uart_write_register_def Let_def split: if_splits)
  show "uart_ok u \<Longrightarrow> uart_ok (snd (vd_read uart_device offset sz u))"
    using uart_read_refines(2) [of u offset]
    by (auto simp: uart_device_def uart_read_def split: prod.splits)
  show "uart_ok u \<Longrightarrow> uart_ok (snd (vd_write uart_device offset sz v u))"
    using uart_write_refines(2) [of u offset "ucast v"]
    by (auto simp: uart_device_def uart_write_def split: prod.splits)
qed


section \<open>Properties\<close>

text \<open>
  C24: Started new, the UART answers every run of guest accesses and host transfers as its specification
  over plain lists does, without a panic: received bytes reach the guest in order and what does not fit
  is reported as an overrun, and transmitted bytes reach the host in order, the lost ones counted.
\<close>

theorem uart_refines_spec:
  "\<exists>as u. uart_run es uart_new = Some (as, u)
     \<and> spec_run es (uart_view uart_new) = (as, uart_view u)"
  using uart_run_from [OF uart_ok_new, of es] by blast

text \<open>
  C25: A trapped access that the UART rejects leaves it and the guest's registers alone, and no run of
  aborts leaves it with a malformed queue.
\<close>

theorem uart_rejects_cleanly:
  assumes "emulate uart_device esr far hpfar registers u = (False, registers', u')"
  shows "registers' = registers \<and> u' = u
    \<and> uart_ok (snd (foldl (\<lambda>(registers, d) (esr, far, hpfar).
        snd (emulate uart_device esr far hpfar registers d)) (registers, uart_new) aborts))"
  using uart.emulate_rejected [OF assms] uart.emulate_run_keeps [OF uart_ok_new] by blast

text \<open>A word load from the byte-wide status register.\<close>

theorem uart_rejects_cleanly_witness:
  "emulate uart_device 0x93820007 0x14 0x700ff0 [7, 8, 9] uart_new = (False, [7, 8, 9], uart_new)
   \<and> [7, 8, 9 :: u64] = [7, 8, 9] \<and> uart_new = uart_new"
proof -
  have e: "emulate uart_device 0x93820007 0x14 0x700ff0 [7, 8, 9] uart_new
      = (False, [7, 8, 9], uart_new)"
    by (simp add: emulate_def uart_device_def decode_region_def ipa_def Let_def checked_sub_def
        checked_add_def emulate_access_def uart_read_def)
  show ?thesis using e uart_rejects_cleanly [OF e, of "[]"] by blast
qed

end
