(* ===== verification/Lic.thy ===== *)
theory Lic
  imports Vdev Usb_Ownership
begin

text \<open>
  \<open>vdev/lic.rs\<close>: the legacy interrupt controller, passed through to the guest except for the two
  interrupt sources the monitor owns.  The physical registers are the operations of the \<open>Mmio\<close> trait.
  The lemmas give the word that reaches the hardware in closed form, and from it what stays of the
  owned sources and what the guest sees of them.
\<close>

definition LIC_SIZE :: u64 where [simp]: "LIC_SIZE = 0x1000"
definition BANK_STRIDE :: u64 where [simp]: "BANK_STRIDE = 0x100"
definition SOURCE_COUNT :: u32 where [simp]: "SOURCE_COUNT = 6 * 32"
definition CPU_IEP_VFIQ :: u64 where [simp]: "CPU_IEP_VFIQ = 0x08"
definition CPU_ISR :: u64 where [simp]: "CPU_ISR = 0x10"
definition CPU_IEP_FIR :: u64 where [simp]: "CPU_IEP_FIR = 0x14"
definition CPU_IEP_FIR_SET :: u64 where [simp]: "CPU_IEP_FIR_SET = 0x18"
definition CPU_IEP_FIR_CLR :: u64 where [simp]: "CPU_IEP_FIR_CLR = 0x1c"
definition CPU_IER :: u64 where [simp]: "CPU_IER = 0x20"
definition CPU_IER_SET :: u64 where [simp]: "CPU_IER_SET = 0x24"
definition CPU_IER_CLR :: u64 where [simp]: "CPU_IER_CLR = 0x28"
definition CPU_IEP_CLASS :: u64 where [simp]: "CPU_IEP_CLASS = 0x2c"

record 'm lic =
  lic_mmio :: 'm
  lic_sources :: "u32 option list"
  lic_enabled :: "bool list"

definition lic_new :: "'m \<Rightarrow> 'm lic" where
  "lic_new m = \<lparr>lic_mmio = m, lic_sources = [None, None], lic_enabled = [False, False]\<rparr>"

definition filter_source :: "u32 option \<Rightarrow> u32 option" where
  "filter_source s = (case s of None \<Rightarrow> None | Some n \<Rightarrow> if n < SOURCE_COUNT then Some n else None)"

definition set_owned_source :: "u32 option \<Rightarrow> 'm lic \<Rightarrow> 'm lic" where
  "set_owned_source s l = l\<lparr>lic_sources := (lic_sources l)[0 := filter_source s],
                             lic_enabled := (lic_enabled l)[0 := False]\<rparr>"

definition set_network_source :: "u32 option \<Rightarrow> 'm lic \<Rightarrow> 'm lic" where
  "set_network_source s l = l\<lparr>lic_sources := (lic_sources l)[1 := filter_source s],
                               lic_enabled := (lic_enabled l)[1 := False]\<rparr>"

definition network_source_enabled :: "'m lic \<Rightarrow> bool" where
  "network_source_enabled l = lic_enabled l ! 1"

definition owned_source_enabled :: "'m lic \<Rightarrow> bool" where
  "owned_source_enabled l = lic_enabled l ! 0"

text \<open>The bank of an owned source and its bit there.\<close>

definition lic_owned :: "'m lic \<Rightarrow> nat \<Rightarrow> (u64 \<times> u32) option" where
  "lic_owned l index =
     map_option (\<lambda>source. (ucast (source div 32) * BANK_STRIDE, push_bit (unat (source mod 32)) 1))
       (lic_sources l ! index)"

definition lic_initialize_source :: "'m mmio_ops \<Rightarrow> nat \<Rightarrow> 'm lic \<Rightarrow> 'm lic" where
  "lic_initialize_source ops index l =
     (case lic_owned l index of
        None \<Rightarrow> l
      | Some (bank, b) \<Rightarrow>
          (case mmio_read32 ops (LIC_BASE + bank + CPU_IEP_CLASS) (lic_mmio l) of
             (cls, m) \<Rightarrow>
               let m = mmio_write32 ops (LIC_BASE + bank + CPU_IEP_CLASS) (cls AND NOT b) m
               in l\<lparr>lic_mmio := mmio_write32 ops (LIC_BASE + bank + CPU_IER_SET) b m\<rparr>))"

definition lic_initialize :: "'m mmio_ops \<Rightarrow> 'm lic \<Rightarrow> 'm lic" where
  "lic_initialize ops l =
     (let l = fold (lic_initialize_source ops) [0, 1] l
      in l\<lparr>lic_mmio := mmio_barrier ops (lic_mmio l)\<rparr>)"

definition lic_read_step :: "'m lic \<Rightarrow> u64 \<Rightarrow> nat \<Rightarrow> u32 \<Rightarrow> u32" where
  "lic_read_step l offset index v =
     (case lic_owned l index of
        None \<Rightarrow> v
      | Some (bank, b) \<Rightarrow>
          let register = checked_sub offset bank;
              v = (if register \<in> Some ` {CPU_IEP_VFIQ, CPU_ISR, CPU_IEP_FIR, CPU_IEP_FIR_SET,
                                          CPU_IEP_FIR_CLR, CPU_IER, CPU_IER_SET, CPU_IER_CLR,
                                          CPU_IEP_CLASS}
                   then v AND NOT b else v)
          in if register = Some CPU_IER \<and> lic_enabled l ! index then v OR b else v)"

definition lic_read_word :: "'m mmio_ops \<Rightarrow> u64 \<Rightarrow> 'm lic \<Rightarrow> u32 \<times> 'm lic" where
  "lic_read_word ops offset l =
     (case mmio_read32 ops (LIC_BASE + offset) (lic_mmio l) of
        (v, m) \<Rightarrow> (fold (lic_read_step l offset) [0, 1] v, l\<lparr>lic_mmio := m\<rparr>))"

definition lic_write_step :: "'m mmio_ops \<Rightarrow> u64 \<Rightarrow> nat \<Rightarrow> u32 \<times> 'm lic \<Rightarrow> u32 \<times> 'm lic" where
  "lic_write_step ops offset index = (\<lambda>(v, l).
     (case lic_owned l index of
        None \<Rightarrow> (v, l)
      | Some (bank, b) \<Rightarrow>
          let register = checked_sub offset bank
          in if register = Some CPU_IER_SET
             then (v AND NOT b, l\<lparr>lic_enabled :=
                     (lic_enabled l)[index := lic_enabled l ! index \<or> v AND b \<noteq> 0]\<rparr>)
             else if register = Some CPU_IER_CLR
             then (v AND NOT b, l\<lparr>lic_enabled :=
                     (lic_enabled l)[index := lic_enabled l ! index \<and> v AND b = 0]\<rparr>)
             else if register = Some CPU_IEP_CLASS
             then (case mmio_read32 ops (LIC_BASE + offset) (lic_mmio l) of
                     (current, m) \<Rightarrow> ((v AND NOT b) OR (current AND b), l\<lparr>lic_mmio := m\<rparr>))
             else if register \<in> Some ` {CPU_IEP_VFIQ, CPU_ISR, CPU_IEP_FIR, CPU_IEP_FIR_SET,
                                         CPU_IEP_FIR_CLR, CPU_IER}
             then (v AND NOT b, l)
             else (v, l)))"

definition lic_write_word :: "'m mmio_ops \<Rightarrow> u64 \<Rightarrow> u32 \<Rightarrow> 'm lic \<Rightarrow> 'm lic" where
  "lic_write_word ops offset v l =
     (case fold (lic_write_step ops offset) [0, 1] (v, l) of
        (v, l) \<Rightarrow> l\<lparr>lic_mmio := mmio_barrier ops (mmio_write32 ops (LIC_BASE + offset) v (lic_mmio l))\<rparr>)"

definition lic_read :: "'m mmio_ops \<Rightarrow> u64 \<Rightarrow> u8 \<Rightarrow> 'm lic \<Rightarrow> (device_error + u64) \<times> 'm lic" where
  "lic_read ops offset sz l =
     (if sz \<noteq> 4 \<or> offset AND 3 \<noteq> 0 \<or> offset \<ge> LIC_SIZE then (Inl AccessSize, l)
      else case lic_read_word ops offset l of (v, l) \<Rightarrow> (Inr (ucast v), l))"

definition lic_write ::
  "'m mmio_ops \<Rightarrow> u64 \<Rightarrow> u8 \<Rightarrow> u64 \<Rightarrow> 'm lic \<Rightarrow> (device_error + unit) \<times> 'm lic" where
  "lic_write ops offset sz v l =
     (if sz \<noteq> 4 \<or> offset AND 3 \<noteq> 0 \<or> offset \<ge> LIC_SIZE then (Inl AccessSize, l)
      else (Inr (), lic_write_word ops offset (ucast v) l))"

definition lic_device :: "'m mmio_ops \<Rightarrow> 'm lic virtual_device" where
  "lic_device ops = \<lparr>vd_region = \<lambda>_. \<lparr>rg_base = LIC_BASE, rg_size = LIC_SIZE\<rparr>,
     vd_read = lic_read ops, vd_write = lic_write ops\<rparr>"



declare LIC_BASE_def [simp del]


section \<open>Owned sources and the registers behind them\<close>

definition lic_ok :: "'m lic \<Rightarrow> bool" where
  "lic_ok l \<longleftrightarrow> length (lic_sources l) = 2 \<and> length (lic_enabled l) = 2
     \<and> (\<forall>n \<in> set (lic_sources l). case n of None \<Rightarrow> True | Some n \<Rightarrow> n < SOURCE_COUNT)"

text \<open>
  The registers as the interrupt controller documents them: a set or clear register changes its status
  register, which is itself read-only, and the class register holds what was written.
\<close>

definition lic_register_write :: "u64 \<Rightarrow> u32 \<Rightarrow> registers \<Rightarrow> registers" where
  "lic_register_write a v m =
     (let r = (a - LIC_BASE) AND 0xff
      in if r = CPU_IEP_FIR_SET \<or> r = CPU_IER_SET then m(a - 4 := m (a - 4) OR v)
         else if r = CPU_IEP_FIR_CLR \<or> r = CPU_IER_CLR then m(a - 8 := m (a - 8) AND NOT v)
         else if r = CPU_IEP_VFIQ \<or> r = CPU_ISR \<or> r = CPU_IEP_FIR \<or> r = CPU_IER then m
         else m(a := v))"

definition lic_hardware :: "registers mmio_ops" where
  "lic_hardware = \<lparr>mmio_read32 = \<lambda>a m. (m a, m), mmio_write32 = lic_register_write,
     mmio_barrier = \<lambda>m. m\<rparr>"

lemma lic_hardware_simps [simp]:
  "mmio_read32 lic_hardware a m = (m a, m)" "mmio_write32 lic_hardware = lic_register_write"
  "mmio_barrier lic_hardware m = m"
  by (simp_all add: lic_hardware_def)

definition banks :: "u64 set" where
  "banks = {0, 0x100, 0x200, 0x300, 0x400, 0x500}"

lemma lic_owned_Some:
  assumes "lic_ok l" and "i < 2" and "lic_owned l i = Some (bank, b)"
  obtains s where "lic_sources l ! i = Some s" and "s < SOURCE_COUNT" and "bank = 0x100 * ucast (s div 32)"
    and "b = push_bit (unat (s mod 32)) 1" and "bank \<in> banks" and "unat bank = 256 * (unat s div 32)"
proof -
  from assms(3) obtain s where s: "lic_sources l ! i = Some s" "bank = 0x100 * ucast (s div 32)"
      "b = push_bit (unat (s mod 32)) 1"
    by (auto simp: lic_owned_def)
  have "Some s \<in> set (lic_sources l)" using assms(1,2) s(1) by (metis lic_ok_def nth_mem)
  with assms(1) have lt: "s < SOURCE_COUNT" by (fastforce simp: lic_ok_def)
  then have "unat (s div 32) < 6" by (simp add: unat_div word_less_nat_alt)
  then have "unat (s div 32) \<in> {0, 1, 2, 3, 4, 5}" by auto
  then have "s div 32 \<in> {0, 1, 2, 3, 4, 5}" by (simp add: word_unat_eq_iff)
  then have "s div 32 \<in> {0, 1, 2, 3, 4, 5}" .
  then have "bank \<in> banks" unfolding s(2) by (auto simp: banks_def)
  have "unat bank = 256 * unat (s div 32)"
    using \<open>s div 32 \<in> {0, 1, 2, 3, 4, 5}\<close> unfolding s(2) by auto
  then show thesis using s lt \<open>bank \<in> banks\<close> that by (simp add: unat_div)
qed

lemma bank_register:
  assumes "bank \<in> banks" and "r < 0x100"
  shows "checked_sub offset bank = Some r \<longleftrightarrow> offset = bank + r"
proof -
  have "unat bank + unat r < 2 ^ 64"
    using assms by (auto simp: banks_def word_less_nat_alt)
  then have "unat (bank + r) = unat bank + unat r" by (simp add: unat_add_no_overflow)
  then show ?thesis by (auto simp: checked_sub_Some_iff word_unat_eq_iff add.commute)
qed

definition registers_hidden :: "u64 set" where
  "registers_hidden = {CPU_IEP_VFIQ, CPU_ISR, CPU_IEP_FIR, CPU_IEP_FIR_SET, CPU_IEP_FIR_CLR, CPU_IER,
     CPU_IER_SET, CPU_IER_CLR, CPU_IEP_CLASS}"

lemma bank_register_low:
  assumes "bank \<in> banks" and "r \<in> registers_hidden"
  shows "(bank + r) AND 0xff = r"
  using assms unfolding banks_def registers_hidden_def by auto

text \<open>The owned bits of the register at \<open>offset\<close>, if it is one of \<open>regs\<close> of the source's bank.\<close>

definition owned_bit :: "'m lic \<Rightarrow> u64 set \<Rightarrow> u64 \<Rightarrow> nat \<Rightarrow> u32" where
  "owned_bit l regs offset i =
     (case lic_owned l i of
        None \<Rightarrow> 0
      | Some (bank, b) \<Rightarrow> if \<exists>r \<in> regs. offset = bank + r then b else 0)"

definition owned_mask :: "'m lic \<Rightarrow> u64 \<Rightarrow> u32" where
  "owned_mask l offset = owned_bit l registers_hidden offset 0 OR owned_bit l registers_hidden offset 1"

definition enabled_mask :: "'m lic \<Rightarrow> u64 \<Rightarrow> u32" where
  "enabled_mask l offset =
     (if lic_enabled l ! 0 then owned_bit l {CPU_IER} offset 0 else 0)
     OR (if lic_enabled l ! 1 then owned_bit l {CPU_IER} offset 1 else 0)"

lemma owned_registers:
  assumes "bank \<in> banks"
  shows "checked_sub offset bank \<in> Some ` registers_hidden \<longleftrightarrow> (\<exists>r \<in> registers_hidden. offset = bank + r)"
    and "r \<in> registers_hidden \<Longrightarrow> checked_sub offset bank = Some r \<longleftrightarrow> offset = bank + r"
proof -
  have low: "r < 0x100" if "r \<in> registers_hidden" for r
    using that by (auto simp: registers_hidden_def)
  show reg: "checked_sub offset bank = Some r \<longleftrightarrow> offset = bank + r" if "r \<in> registers_hidden" for r
    using bank_register [OF assms low [OF that]] .
  show "checked_sub offset bank \<in> Some ` registers_hidden \<longleftrightarrow> (\<exists>r \<in> registers_hidden. offset = bank + r)"
    using reg by (force simp: image_iff)
qed

text \<open>What the guest reads.\<close>

lemma lic_read_step:
  assumes "lic_ok l" and "i < 2"
  shows "lic_read_step l offset i v
    = (v AND NOT (owned_bit l registers_hidden offset i))
      OR (if lic_enabled l ! i then owned_bit l {CPU_IER} offset i else 0)"
proof (cases "lic_owned l i")
  case (Some bb)
  obtain bank b where bb: "bb = (bank, b)" by (cases bb)
  have bank: "bank \<in> banks" using lic_owned_Some [OF assms Some [unfolded bb]] by blast
  have "CPU_IER \<in> registers_hidden" by (simp add: registers_hidden_def)
  then show ?thesis
    unfolding lic_read_step_def Some bb option.case prod.case Let_def registers_hidden_def [symmetric]
      owned_registers [OF bank]
    by (simp add: owned_bit_def Some bb owned_registers [OF bank] del: CPU_IER_def)
qed (simp add: lic_read_step_def owned_bit_def)


text \<open>What reaches the hardware.\<close>

definition class_register :: "u64 \<Rightarrow> bool" where
  "class_register offset \<longleftrightarrow> offset AND 0xff = CPU_IEP_CLASS"

lemma owned_bit_class:
  assumes "lic_ok l" and "i < 2"
  shows "owned_bit l {CPU_IEP_CLASS} offset i
    = (if class_register offset then owned_bit l registers_hidden offset i else 0)"
proof (cases "lic_owned l i")
  case (Some bb)
  obtain bank b where bb: "bb = (bank, b)" by (cases bb)
  have bank: "bank \<in> banks" using lic_owned_Some [OF assms Some [unfolded bb]] by blast
  have c: "CPU_IEP_CLASS \<in> registers_hidden" by (simp add: registers_hidden_def)
  have "(\<exists>r \<in> registers_hidden. offset = bank + r) \<and> class_register offset \<longleftrightarrow> offset = bank + CPU_IEP_CLASS"
    using bank_register_low [OF bank] c by (auto simp: class_register_def simp del: CPU_IEP_CLASS_def)
  then show ?thesis by (auto simp: owned_bit_def Some bb simp del: CPU_IEP_CLASS_def)
qed (simp add: owned_bit_def)

lemma lic_write_step:
  fixes offset :: u64
  assumes ok: "lic_ok l" and i: "i < 2"
  defines "b \<equiv> owned_bit l registers_hidden offset i"
  shows "lic_write_step lic_hardware offset i (v, l)
    = ((v AND NOT b) OR (if class_register offset then lic_mmio l (LIC_BASE + offset) AND b else 0),
       l\<lparr>lic_enabled := (lic_enabled l)[i :=
          if offset AND 0xff = CPU_IER_SET then lic_enabled l ! i \<or> v AND b \<noteq> 0
          else if offset AND 0xff = CPU_IER_CLR then lic_enabled l ! i \<and> v AND b = 0
          else lic_enabled l ! i]\<rparr>)"
proof (cases "lic_owned l i")
  case (Some bb)
  obtain bank bit where bb: "bb = (bank, bit)" by (cases bb)
  have bank: "bank \<in> banks" using lic_owned_Some [OF ok i Some [unfolded bb]] by blast
  show ?thesis
  proof (cases "\<exists>r \<in> registers_hidden. offset = bank + r")
    case True
    then obtain r where r: "r \<in> registers_hidden" "offset = bank + r" by blast
    have o: "checked_sub offset bank = Some r" "offset AND 0xff = r"
      using owned_registers(2) [OF bank r(1), of offset] bank_register_low [OF bank r(1)] r(2)
      by simp_all
    have b: "b = bit" using True by (simp add: b_def owned_bit_def Some bb)
    from r(1) show ?thesis
      unfolding registers_hidden_def insert_iff empty_iff
      by (elim disjE FalseE; simp add: lic_write_step_def Some bb o b class_register_def)
  next
    case False
    then have o: "checked_sub offset bank \<notin> Some ` registers_hidden" and b: "b = 0"
      using owned_registers(1) [OF bank] by (auto simp: b_def owned_bit_def Some bb)
    from o show ?thesis
      by (auto simp: lic_write_step_def Some bb b registers_hidden_def Let_def)
  qed
qed (simp add: lic_write_step_def b_def owned_bit_def)


definition lic_apart :: "'m lic \<Rightarrow> bool" where
  "lic_apart l \<longleftrightarrow> lic_sources l ! 0 = None \<or> lic_sources l ! 0 \<noteq> lic_sources l ! 1"

lemma push_bits_apart: "n \<noteq> m \<Longrightarrow> push_bit n (1 :: 'a::len word) AND push_bit m 1 = 0"
  by (rule bit_word_eqI) (auto simp: bit_simps)

lemma owned_bits_apart:
  assumes ok: "lic_ok l" and apart: "lic_apart l"
  shows "owned_bit l registers_hidden o' 0 AND owned_bit l registers_hidden o' 1 = 0"
proof (rule ccontr)
  assume "\<not> ?thesis"
  then obtain bank0 b0 bank1 b1 r0 r1 where o0: "lic_owned l 0 = Some (bank0, b0)"
    and o1: "lic_owned l 1 = Some (bank1, b1)" and ne: "b0 AND b1 \<noteq> 0"
    and r: "r0 \<in> registers_hidden" "r1 \<in> registers_hidden" "o' = bank0 + r0" "o' = bank1 + r1"
    by (auto simp: owned_bit_def split: option.splits if_splits)
  obtain s0 where s0: "lic_sources l ! 0 = Some s0" "s0 < SOURCE_COUNT" "bank0 = 0x100 * ucast (s0 div 32)"
    "b0 = push_bit (unat (s0 mod 32)) 1" "bank0 \<in> banks"
    "unat bank0 = 256 * (unat s0 div 32)" by (rule lic_owned_Some [OF ok _ o0]) simp_all
  obtain s1 where s1: "lic_sources l ! 1 = Some s1" "s1 < SOURCE_COUNT" "bank1 = 0x100 * ucast (s1 div 32)"
    "b1 = push_bit (unat (s1 mod 32)) 1" "bank1 \<in> banks"
    "unat bank1 = 256 * (unat s1 div 32)" by (rule lic_owned_Some [OF ok _ o1]) simp_all
  have "r0 = r1" using bank_register_low [OF s0(5) r(1)] bank_register_low [OF s1(5) r(2)] r(3,4) by simp
  with r(3,4) have "bank0 = bank1" by simp
  with s0(6) s1(6) have "unat s0 div 32 = unat s1 div 32" by simp
  moreover have "unat (s0 mod 32) = unat (s1 mod 32)" using ne push_bits_apart s0(4) s1(4) by metis
  then have "unat s0 mod 32 = unat s1 mod 32" by (simp add: unat_mod)
  ultimately have "unat s0 = unat s1" by (metis div_mult_mod_eq)
  with apart s0(1) s1(1) show False by (simp add: lic_apart_def word_unat_eq_iff)
qed

lemma lic_ok_enabled: "lic_ok l \<Longrightarrow> [lic_enabled l ! 0, lic_enabled l ! 1] = lic_enabled l"
  by (auto simp: lic_ok_def numeral_2_eq_2 length_Suc_conv)

lemma owned_bit_update [simp]:
  "owned_bit (l\<lparr>lic_enabled := e\<rparr>) regs = owned_bit l regs"
  "owned_bit (l\<lparr>lic_mmio := m\<rparr>) regs = owned_bit l regs"
  by (simp_all add: owned_bit_def lic_owned_def fun_eq_iff)

definition enabled_after :: "u64 \<Rightarrow> bool \<Rightarrow> u32 \<Rightarrow> u32 \<Rightarrow> bool" where
  "enabled_after offset e v b =
     (if offset AND 0xff = CPU_IER_SET then e \<or> v AND b \<noteq> 0
      else if offset AND 0xff = CPU_IER_CLR then e \<and> v AND b = 0 else e)"

lemma lic_write_word:
  fixes offset :: u64
  assumes ok: "lic_ok l" and apart: "lic_apart l"
  defines "b \<equiv> owned_bit l registers_hidden offset" and "m \<equiv> lic_mmio l"
  shows "lic_write_word lic_hardware offset v l
    = l\<lparr>lic_mmio := lic_register_write (LIC_BASE + offset)
          ((v AND NOT (owned_mask l offset))
            OR (if class_register offset then m (LIC_BASE + offset) AND owned_mask l offset else 0)) m,
        lic_enabled := [enabled_after offset (lic_enabled l ! 0) v (b 0),
                        enabled_after offset (lic_enabled l ! 1) v (b 1)]\<rparr>"
proof -
  define c where "c = (if class_register offset then m (LIC_BASE + offset) else 0)"
  define e where "e i = enabled_after offset (lic_enabled l ! i) v (b i)" for i
  have len: "length (lic_enabled l) = 2" using ok by (simp add: lic_ok_def)
  have s0: "lic_write_step lic_hardware offset 0 (v, l)
      = ((v AND NOT (b 0)) OR (c AND b 0), l\<lparr>lic_enabled := (lic_enabled l)[0 := e 0]\<rparr>)"
    using lic_write_step [OF ok, of 0 offset v] by (simp add: b_def c_def m_def e_def enabled_after_def)
  define l1 where "l1 = l\<lparr>lic_enabled := (lic_enabled l)[0 := e 0]\<rparr>"
  have ok1: "lic_ok l1" using ok by (simp add: l1_def lic_ok_def)
  have v1: "((v AND NOT (b 0)) OR (c AND b 0)) AND b 1 = v AND b 1"
    using owned_bits_apart [OF ok apart, of offset, folded b_def]
    by (intro bit_word_eqI) (auto simp: bit_simps bit_eq_iff)
  have s1: "lic_write_step lic_hardware offset 1 ((v AND NOT (b 0)) OR (c AND b 0), l1)
      = ((((v AND NOT (b 0)) OR (c AND b 0)) AND NOT (b 1)) OR (c AND b 1),
         l1\<lparr>lic_enabled := (lic_enabled l1)[1 := e 1]\<rparr>)"
    using lic_write_step [OF ok1, of 1 offset "(v AND NOT (b 0)) OR (c AND b 0)"] v1
    by (simp add: l1_def b_def c_def m_def e_def enabled_after_def)
  have val: "(((v AND NOT (b 0)) OR (c AND b 0)) AND NOT (b 1)) OR (c AND b 1)
      = (v AND NOT (owned_mask l offset)) OR (c AND owned_mask l offset)"
    unfolding owned_mask_def b_def [symmetric] by (rule bit_word_eqI) (auto simp: bit_simps)
  have en: "(lic_enabled l)[0 := e 0, 1 := e 1] = [e 0, e 1]"
    using len by (auto simp: numeral_2_eq_2 length_Suc_conv)
  have "fold (lic_write_step lic_hardware offset) [0, 1] (v, l)
      = ((v AND NOT (owned_mask l offset)) OR (c AND owned_mask l offset),
         l\<lparr>lic_enabled := [e 0, e 1]\<rparr>)"
    using s0 s1 [unfolded l1_def] en
    by (simp add: l1_def val [unfolded One_nat_def])
  then show ?thesis
    by (simp add: lic_write_word_def c_def m_def e_def)
qed



section \<open>The guest's own interrupt controller\<close>

text \<open>
  The registers the guest sees: the physical ones without the owned sources, and its own enable bits for
  those.  The guest's stores act on them as they would on hardware on which the owned sources cannot be
  forced or reclassified.
\<close>

definition lic_view :: "registers lic \<Rightarrow> registers" where
  "lic_view l a = (lic_mmio l a AND NOT (owned_mask l (a - LIC_BASE))) OR enabled_mask l (a - LIC_BASE)"

definition visible_write :: "registers lic \<Rightarrow> u64 \<Rightarrow> u32 \<Rightarrow> u32" where
  "visible_write l offset v =
     (if offset AND 0xff = CPU_IER_SET \<or> offset AND 0xff = CPU_IER_CLR then v
      else v AND NOT (owned_mask l offset))"

lemma ier_bit:
  assumes "lic_ok l" and "i < 2"
  shows "owned_bit l {CPU_IER} offset i
    = (if offset AND 0xff = CPU_IER then owned_bit l registers_hidden offset i else 0)"
proof (cases "lic_owned l i")
  case (Some bb)
  obtain bank b where bb: "bb = (bank, b)" by (cases bb)
  have bank: "bank \<in> banks" using lic_owned_Some [OF assms Some [unfolded bb]] by blast
  have c: "CPU_IER \<in> registers_hidden" by (simp add: registers_hidden_def)
  have "(\<exists>r \<in> registers_hidden. offset = bank + r) \<and> offset AND 0xff = CPU_IER \<longleftrightarrow> offset = bank + CPU_IER"
    using bank_register_low [OF bank] c by (auto simp del: CPU_IER_def)
  then show ?thesis by (auto simp: owned_bit_def Some bb simp del: CPU_IER_def)
qed (simp add: owned_bit_def)

lemma owned_bit_same_bank:
  assumes "lic_ok l" and "i < 2" and "o1 AND 0xff \<in> registers_hidden" and "o2 AND 0xff \<in> registers_hidden"
    and "o1 - (o1 AND 0xff) = o2 - (o2 AND 0xff)"
  shows "owned_bit l registers_hidden o1 i = owned_bit l registers_hidden o2 i"
proof (cases "lic_owned l i")
  case (Some bb)
  obtain bank b where bb: "bb = (bank, b)" by (cases bb)
  have bank: "bank \<in> banks" using lic_owned_Some [OF assms(1,2) Some [unfolded bb]] by blast
  have "(\<exists>r \<in> registers_hidden. o' = bank + r) \<longleftrightarrow> o' - (o' AND 0xff) = bank"
    if "o' AND 0xff \<in> registers_hidden" for o'
  proof
    assume "\<exists>r \<in> registers_hidden. o' = bank + r"
    with bank_register_low [OF bank] show "o' - (o' AND 0xff) = bank" by auto
  next
    assume "o' - (o' AND 0xff) = bank"
    then have "o' = bank + (o' AND 0xff)" by (simp add: algebra_simps)
    with that show "\<exists>r \<in> registers_hidden. o' = bank + r" by blast
  qed
  from this [OF assms(3)] this [OF assms(4)] assms(5) show ?thesis by (simp add: owned_bit_def Some bb)
qed (simp add: owned_bit_def)

lemma low_bits_diff:
  fixes o' d :: u64
  shows "(o' - d) AND 0xff = ((o' AND 0xff) - d) AND 0xff"
proof -
  have m: "(0xff :: u64) = mask 8" by (simp add: mask_eq_exp_minus_1)
  have "take_bit 8 (take_bit 8 o' - d) = take_bit 8 (o' - d)"
    by transfer (simp add: take_bit_eq_mod mod_mod_cancel mod_simps)
  then show ?thesis by (simp add: m flip: take_bit_eq_mask)
qed

text \<open>The status register a set or clear register acts on is in the same bank.\<close>

lemma status_register:
  fixes o' :: u64
  shows "o' AND 0xff = CPU_IER_SET \<Longrightarrow> (o' - 4) AND 0xff = CPU_IER \<and> o' - (o' AND 0xff) = (o' - 4) - CPU_IER"
    and "o' AND 0xff = CPU_IER_CLR \<Longrightarrow> (o' - 8) AND 0xff = CPU_IER \<and> o' - (o' AND 0xff) = (o' - 8) - CPU_IER"
    and "o' AND 0xff = CPU_IEP_FIR_SET
      \<Longrightarrow> (o' - 4) AND 0xff = CPU_IEP_FIR \<and> o' - (o' AND 0xff) = (o' - 4) - CPU_IEP_FIR"
    and "o' AND 0xff = CPU_IEP_FIR_CLR
      \<Longrightarrow> (o' - 8) AND 0xff = CPU_IEP_FIR \<and> o' - (o' AND 0xff) = (o' - 8) - CPU_IEP_FIR"
  by (simp_all add: low_bits_diff [of o'])

lemma status_bits:
  assumes "lic_ok l" and "i < 2"
  shows "o' AND 0xff = CPU_IER_SET \<Longrightarrow> owned_bit l registers_hidden (o' - 4) i = owned_bit l registers_hidden o' i"
    and "o' AND 0xff = CPU_IER_CLR \<Longrightarrow> owned_bit l registers_hidden (o' - 8) i = owned_bit l registers_hidden o' i"
    and "o' AND 0xff = CPU_IEP_FIR_SET \<Longrightarrow> owned_bit l registers_hidden (o' - 4) i = owned_bit l registers_hidden o' i"
    and "o' AND 0xff = CPU_IEP_FIR_CLR \<Longrightarrow> owned_bit l registers_hidden (o' - 8) i = owned_bit l registers_hidden o' i"
  using status_register [of o']
  by (intro owned_bit_same_bank [OF assms]; simp add: registers_hidden_def)+

lemma lic_read_word:
  assumes "lic_ok l" and "lic_apart l"
  shows "lic_read_word lic_hardware offset l = (lic_view l (LIC_BASE + offset), l)"
proof -
  let ?b = "owned_bit l registers_hidden offset" and ?e = "owned_bit l {CPU_IER} offset"
  have e: "?e i AND ?b i = ?e i" if "i < 2" for i
    using ier_bit [OF assms(1) that, of offset] by simp
  have apart: "?b 0 AND ?b 1 = 0" by (rule owned_bits_apart [OF assms])
  have "fold (lic_read_step l offset) [0, 1] (lic_mmio l (LIC_BASE + offset))
      = (((lic_mmio l (LIC_BASE + offset) AND NOT (?b 0)) OR (if lic_enabled l ! 0 then ?e 0 else 0))
          AND NOT (?b 1)) OR (if lic_enabled l ! 1 then ?e 1 else 0)"
    using lic_read_step [OF assms(1), of 0] lic_read_step [OF assms(1), of 1] by simp
  also have "\<dots> = lic_view l (LIC_BASE + offset)"
    unfolding lic_view_def owned_mask_def enabled_mask_def using apart e [of 0] e [of 1]
    by (intro bit_word_eqI) (auto simp: bit_simps bit_eq_iff)
  finally show ?thesis by (simp add: lic_read_word_def)
qed


lemma owned_bit_cases:
  "owned_bit l regs offset i = 0 \<or> (\<exists>n. owned_bit l regs offset i = push_bit n 1)"
  by (auto simp: owned_bit_def lic_owned_def split: option.splits)

lemma owned_bit_single:
  "(if v AND owned_bit l regs offset i \<noteq> 0 then owned_bit l regs offset i else 0)
     = v AND owned_bit l regs offset i"
proof -
  have "v AND push_bit n 1 = (if bit v n then push_bit n 1 else 0)" for n
    by (rule bit_word_eqI) (auto simp: bit_simps)
  then show ?thesis using owned_bit_cases [of l regs offset i] by auto
qed

text \<open>One owned source: its bit in another register, after the guest's enable state followed a store.\<close>

lemma enabled_after:
  fixes o' offset :: u64
  assumes ok: "lic_ok l" and i: "i < 2"
  defines "x \<equiv> owned_bit l {CPU_IER} o' i" and "b \<equiv> owned_bit l registers_hidden offset i"
  shows "(if enabled_after offset e v b then x else 0)
    = (if offset AND 0xff = CPU_IER_SET \<and> o' = offset - 4 then (if e then x else 0) OR (v AND b)
       else if offset AND 0xff = CPU_IER_CLR \<and> o' = offset - 8 then (if e then x else 0) AND NOT (v AND b)
       else if e then x else 0)"
proof -
  have single: "(if v AND b \<noteq> 0 then b else 0) = v AND b" unfolding b_def by (rule owned_bit_single)
  have x: "x = (if o' AND 0xff = CPU_IER then owned_bit l registers_hidden o' i else 0)"
    unfolding x_def by (rule ier_bit [OF ok i])
  have other: "x = 0 \<or> b = 0" if k: "offset AND 0xff = k" "k \<in> registers_hidden"
    and ne: "o' \<noteq> offset - (k - CPU_IER)" for k
  proof (rule ccontr)
    assume "\<not> ?thesis"
    then obtain bank c r where o: "lic_owned l i = Some (bank, c)" and r: "r \<in> registers_hidden"
      "offset = bank + r" "o' = bank + CPU_IER"
      by (auto simp: x_def b_def owned_bit_def split: option.splits if_splits)
    have "bank \<in> banks" using lic_owned_Some [OF ok i o] by blast
    from bank_register_low [OF this r(1)] k r have "r = k" by simp
    with r ne show False by simp
  qed
  show ?thesis
  proof (cases "offset AND 0xff = CPU_IER_SET")
    case True
    have "x = b" if "o' = offset - 4"
      using x that status_register(1) [OF True] status_bits(1) [OF ok i True] by (simp add: b_def)
    with True single other [OF True] show ?thesis
      by (auto simp: enabled_after_def registers_hidden_def split: if_splits)
  next
    case False
    show ?thesis
    proof (cases "offset AND 0xff = CPU_IER_CLR")
      case True
      have "x = b" if "o' = offset - 8"
        using x that status_register(2) [OF True] status_bits(2) [OF ok i True] by (simp add: b_def)
      moreover have "b AND NOT (v AND b) = (if v AND b = 0 then b else 0)"
      proof (cases "v AND b = 0")
        case False
        with single have "v AND b = b" by metis
        then show ?thesis using False by simp
      qed simp
      ultimately show ?thesis using True other [OF True]
        by (auto simp: enabled_after_def registers_hidden_def split: if_splits)
    qed (use False in \<open>simp add: enabled_after_def\<close>)
  qed
qed


lemma lic_enabled_mask_write:
  assumes ok: "lic_ok l" and apart: "lic_apart l"
  shows "enabled_mask (lic_write_word lic_hardware offset v l) o'
    = (if offset AND 0xff = CPU_IER_SET \<and> o' = offset - 4
       then enabled_mask l o' OR (v AND owned_mask l offset)
       else if offset AND 0xff = CPU_IER_CLR \<and> o' = offset - 8
       then enabled_mask l o' AND NOT (v AND owned_mask l offset) else enabled_mask l o')"
proof -
  let ?b = "owned_bit l registers_hidden offset" and ?x = "owned_bit l {CPU_IER} o'"
  have eq: "enabled_mask (lic_write_word lic_hardware offset v l) o'
    = (if enabled_after offset (lic_enabled l ! 0) v (?b 0) then ?x 0 else 0)
      OR (if enabled_after offset (lic_enabled l ! 1) v (?b 1) then ?x 1 else 0)"
    by (simp only: lic_write_word [OF ok apart])
       (simp add: enabled_mask_def owned_bit_def lic_owned_def)
  have own: "?x i = (if o' AND 0xff = CPU_IER then owned_bit l registers_hidden o' i else 0)" if "i < 2" for i
    by (rule ier_bit [OF ok that])
  have clear: "((if lic_enabled l ! 0 then ?x 0 else 0) AND NOT (v AND ?b 0))
      OR ((if lic_enabled l ! 1 then ?x 1 else 0) AND NOT (v AND ?b 1))
    = enabled_mask l o' AND NOT (v AND owned_mask l offset)"
    if k: "offset AND 0xff = CPU_IER_CLR" and o': "o' = offset - 8"
  proof -
    have "?x i = ?b i" if "i < 2" for i
      using own [OF that] status_register(2) [OF k] status_bits(2) [OF ok that k] o' by simp
    moreover have "?b 0 AND ?b 1 = 0" by (rule owned_bits_apart [OF ok apart])
    ultimately show ?thesis
      by (intro bit_word_eqI) (auto simp: enabled_mask_def owned_mask_def bit_simps bit_eq_iff)
  qed
  define e where "e i = (if lic_enabled l ! i then ?x i else 0)" for i
  define f where "f i = (if enabled_after offset (lic_enabled l ! i) v (?b i) then ?x i else 0)" for i
  have step: "f i = (if offset AND 0xff = CPU_IER_SET \<and> o' = offset - 4 then e i OR (v AND ?b i)
       else if offset AND 0xff = CPU_IER_CLR \<and> o' = offset - 8 then e i AND NOT (v AND ?b i)
       else e i)" if "i < 2" for i
    unfolding e_def f_def by (rule enabled_after [OF ok that])
  have f: "enabled_mask (lic_write_word lic_hardware offset v l) o' = f 0 OR f 1"
    and keep: "enabled_mask l o' = e 0 OR e 1"
    unfolding eq f_def by (simp_all only: enabled_mask_def e_def)
  have set: "(e 0 OR (v AND ?b 0)) OR (e 1 OR (v AND ?b 1)) = enabled_mask l o' OR (v AND owned_mask l offset)"
    unfolding keep owned_mask_def by (simp only: bit.conj_disj_distrib or.assoc or.left_commute)
  have "(0 :: nat) < 2" and "(1 :: nat) < 2" by simp_all
  note e01 = step [OF this(1)] step [OF this(2)]
  from clear [folded e_def] have clear: "(e 0 AND NOT (v AND ?b 0)) OR (e 1 AND NOT (v AND ?b 1))
      = enabled_mask l o' AND NOT (v AND owned_mask l offset)"
    if "offset AND 0xff = CPU_IER_CLR" and "o' = offset - 8"
    using that by blast
  show ?thesis
  proof (cases "offset AND 0xff = CPU_IER_SET \<and> o' = offset - 4")
    case True
    show ?thesis unfolding f e01 if_P [OF True] by (rule set)
  next
    case False
    show ?thesis
    proof (cases "offset AND 0xff = CPU_IER_CLR \<and> o' = offset - 8")
      case True
      then show ?thesis unfolding f e01 if_not_P [OF False] if_P [OF True] by (intro clear) blast+
    next
      case clr: False
      show ?thesis unfolding f e01 if_not_P [OF False] if_not_P [OF clr] by (rule keep [symmetric])
    qed
  qed
qed


lemma owned_mask_status:
  assumes "lic_ok l"
  shows "o' AND 0xff = CPU_IER_SET \<Longrightarrow> owned_mask l (o' - 4) = owned_mask l o'"
    and "o' AND 0xff = CPU_IER_CLR \<Longrightarrow> owned_mask l (o' - 8) = owned_mask l o'"
    and "o' AND 0xff = CPU_IEP_FIR_SET \<Longrightarrow> owned_mask l (o' - 4) = owned_mask l o'"
    and "o' AND 0xff = CPU_IEP_FIR_CLR \<Longrightarrow> owned_mask l (o' - 8) = owned_mask l o'"
  using status_bits [OF assms, of 0 o'] status_bits [OF assms, of 1 o'] by (simp_all add: owned_mask_def)

lemma owned_mask_update [simp]: "owned_mask (l\<lparr>lic_mmio := m, lic_enabled := e\<rparr>) = owned_mask l"
  by (simp add: owned_mask_def fun_eq_iff owned_bit_def lic_owned_def)

lemma enabled_mask_ier:
  assumes "lic_ok l" and "offset AND 0xff \<noteq> CPU_IER"
  shows "enabled_mask l offset = 0"
  using ier_bit [OF assms(1), of 0 offset] ier_bit [OF assms(1), of 1 offset] assms(2)
  by (simp add: enabled_mask_def)

lemma enabled_mask_owned:
  assumes "lic_ok l"
  shows "enabled_mask l offset AND owned_mask l offset = enabled_mask l offset"
  using ier_bit [OF assms, of 0 offset] ier_bit [OF assms, of 1 offset]
  by (intro bit_word_eqI) (auto simp: enabled_mask_def owned_mask_def bit_simps)

lemma view_write_bits:
  fixes m v mask en :: "'a::len word"
  assumes "en AND mask = en"
  shows "((m OR (v AND NOT mask)) AND NOT mask) OR en = ((m AND NOT mask) OR en) OR (v AND NOT mask)"
    and "((m OR (v AND NOT mask)) AND NOT mask) OR (en OR (v AND mask)) = ((m AND NOT mask) OR en) OR v"
    and "((m AND NOT (v AND NOT mask)) AND NOT mask) OR (en AND NOT (v AND mask))
      = ((m AND NOT mask) OR en) AND NOT v"
    and "((m AND NOT (v AND NOT mask)) AND NOT mask) = (m AND NOT mask) AND NOT (v AND NOT mask)"
    and "((v AND NOT mask) OR (m AND mask)) AND NOT mask = v AND NOT mask"
    and "(v AND NOT mask) AND NOT mask = v AND NOT mask"
proof -
  have en: "bit mask i" if "bit en i" for i
  proof -
    have "bit (en AND mask) i" unfolding assms by (rule that)
    then show ?thesis by (simp add: bit_simps)
  qed
  show "((m OR (v AND NOT mask)) AND NOT mask) OR en = ((m AND NOT mask) OR en) OR (v AND NOT mask)"
    "((m OR (v AND NOT mask)) AND NOT mask) OR (en OR (v AND mask)) = ((m AND NOT mask) OR en) OR v"
    "((m AND NOT (v AND NOT mask)) AND NOT mask) OR (en AND NOT (v AND mask))
      = ((m AND NOT mask) OR en) AND NOT v"
    "((m AND NOT (v AND NOT mask)) AND NOT mask) = (m AND NOT mask) AND NOT (v AND NOT mask)"
    "((v AND NOT mask) OR (m AND mask)) AND NOT mask = v AND NOT mask"
    "(v AND NOT mask) AND NOT mask = v AND NOT mask"
    by (rule bit_word_eqI; use en in \<open>auto simp: bit_simps\<close>)+
qed

lemma lic_view_write:
  assumes ok: "lic_ok l" and apart: "lic_apart l"
  shows "lic_view (lic_write_word lic_hardware offset v l)
    = lic_register_write (LIC_BASE + offset) (visible_write l offset v) (lic_view l)"
proof
  fix a
  define x where "x = a - LIC_BASE"
  define w where "w = (v AND NOT (owned_mask l offset))
    OR (if class_register offset then lic_mmio l (LIC_BASE + offset) AND owned_mask l offset else 0)"
  let ?l = "lic_write_word lic_hardware offset v l"
  have m: "lic_mmio ?l = lic_register_write (LIC_BASE + offset) w (lic_mmio l)"
    and o: "owned_mask ?l = owned_mask l"
    using lic_write_word [OF ok apart, of offset v] by (simp_all add: w_def del: LIC_BASE_def)
  have a: "a = LIC_BASE + x" by (simp add: x_def)
  have v: "lic_view ?l a = (lic_mmio ?l a AND NOT (owned_mask l x)) OR enabled_mask ?l x"
    "lic_view l a = (lic_mmio l a AND NOT (owned_mask l x)) OR enabled_mask l x"
    by (simp_all add: lic_view_def o x_def)
  have addr: "LIC_BASE + x = LIC_BASE + offset - 4 \<longleftrightarrow> x = offset - 4"
    "LIC_BASE + x = LIC_BASE + offset - 8 \<longleftrightarrow> x = offset - 8"
    "LIC_BASE + offset - 4 = LIC_BASE + (offset - 4)" "LIC_BASE + offset - 8 = LIC_BASE + (offset - 8)"
    by (auto simp: algebra_simps)
  note en = lic_enabled_mask_write [OF ok apart, of offset v x]
  note bits = view_write_bits [OF enabled_mask_owned [OF ok, of x]]
  have status: "owned_mask l offset = owned_mask l x"
    if "offset AND 0xff \<in> {CPU_IEP_FIR_SET, CPU_IER_SET} \<and> x = offset - 4
      \<or> offset AND 0xff \<in> {CPU_IEP_FIR_CLR, CPU_IER_CLR} \<and> x = offset - 8 \<or> x = offset"
    using that owned_mask_status [OF ok, of offset] by auto
  have w: "w = v AND NOT (owned_mask l offset)" if "offset AND 0xff \<noteq> CPU_IEP_CLASS"
    using that by (simp add: w_def class_register_def)
  have reg: "lic_register_write (LIC_BASE + offset) u f a
      = (let r = offset AND 0xff
         in if r = CPU_IEP_FIR_SET \<or> r = CPU_IER_SET then if x = offset - 4 then f a OR u else f a
            else if r = CPU_IEP_FIR_CLR \<or> r = CPU_IER_CLR then if x = offset - 8 then f a AND NOT u else f a
            else if r = CPU_IEP_VFIQ \<or> r = CPU_ISR \<or> r = CPU_IEP_FIR \<or> r = CPU_IER then f a
            else if x = offset then u else f a)" for u f
    unfolding a lic_register_write_def Let_def by (auto simp: addr simp del: LIC_BASE_def)
  consider "offset AND 0xff = CPU_IEP_FIR_SET" | "offset AND 0xff = CPU_IER_SET"
    | "offset AND 0xff = CPU_IEP_FIR_CLR" | "offset AND 0xff = CPU_IER_CLR"
    | "offset AND 0xff \<in> {CPU_IEP_VFIQ, CPU_ISR, CPU_IEP_FIR, CPU_IER}"
    | "offset AND 0xff = CPU_IEP_CLASS" | "offset AND 0xff \<notin> registers_hidden"
    by (auto simp: registers_hidden_def)
  then show "lic_view ?l a = lic_register_write (LIC_BASE + offset) (visible_write l offset v) (lic_view l) a"
  proof cases
    case 1
    then show ?thesis using en w bits(1) status
      by (cases "x = offset - 4") (simp_all add: v m reg visible_write_def)
  next
    case 2
    then show ?thesis using en w bits(2) status
      by (cases "x = offset - 4") (simp_all add: v m reg visible_write_def)
  next
    case 3
    then have "enabled_mask l x = 0" if "x = offset - 8"
      using that enabled_mask_ier [OF ok, of x] status_register(4) [of offset] by simp
    with 3 show ?thesis using en w bits(4) status
      by (cases "x = offset - 8") (simp_all add: v m reg visible_write_def)
  next
    case 4
    then show ?thesis using en w bits(3) status
      by (cases "x = offset - 8") (simp_all add: v m reg visible_write_def)
  next
    case 5
    then show ?thesis using en by (auto simp: v m reg visible_write_def)
  next
    case 6
    then show ?thesis using en bits(5) enabled_mask_ier [OF ok, of offset]
      by (cases "x = offset") (simp_all add: v m reg visible_write_def w_def class_register_def)
  next
    case 7
    then show ?thesis using en w bits(6) enabled_mask_ier [OF ok, of offset]
      by (cases "x = offset") (simp_all add: v m reg visible_write_def registers_hidden_def)
  qed
qed



section \<open>Guest accesses\<close>

lemma lic_write_word_keeps:
  assumes ok: "lic_ok l" and apart: "lic_apart l"
  shows "lic_sources (lic_write_word lic_hardware offset v l) = lic_sources l"
    and "lic_ok (lic_write_word lic_hardware offset v l)" and "lic_apart (lic_write_word lic_hardware offset v l)"
    and "x AND 0xff \<in> {CPU_IER, CPU_IEP_FIR, CPU_IEP_CLASS}
      \<Longrightarrow> lic_mmio (lic_write_word lic_hardware offset v l) (LIC_BASE + x) AND owned_mask l x
            = lic_mmio l (LIC_BASE + x) AND owned_mask l x"
proof -
  note w = lic_write_word [OF ok apart, of offset v]
  show "lic_sources (lic_write_word lic_hardware offset v l) = lic_sources l"
    "lic_ok (lic_write_word lic_hardware offset v l)" "lic_apart (lic_write_word lic_hardware offset v l)"
    using ok apart unfolding w by (simp_all add: lic_ok_def lic_apart_def)
  have addr: "LIC_BASE + x = LIC_BASE + offset - 4 \<longleftrightarrow> x = offset - 4"
    "LIC_BASE + x = LIC_BASE + offset - 8 \<longleftrightarrow> x = offset - 8"
    "offset - 4 = x \<Longrightarrow> LIC_BASE + offset - 4 = LIC_BASE + x"
    "offset - 8 = x \<Longrightarrow> LIC_BASE + offset - 8 = LIC_BASE + x"
    by (auto simp: algebra_simps)
  show "lic_mmio (lic_write_word lic_hardware offset v l) (LIC_BASE + x) AND owned_mask l x
      = lic_mmio l (LIC_BASE + x) AND owned_mask l x"
    if "x AND 0xff \<in> {CPU_IER, CPU_IEP_FIR, CPU_IEP_CLASS}"
    using that owned_mask_status [OF ok, of offset] keep_bits(1,2) [of _ v "owned_mask l x"]
      keep_bits(3) [of v "owned_mask l x"]
    unfolding w
    by (auto simp: lic_register_write_def class_register_def Let_def addr)
qed

definition lic_kept :: "registers lic \<Rightarrow> registers lic \<Rightarrow> bool" where
  "lic_kept l0 l \<longleftrightarrow> lic_ok l \<and> lic_apart l \<and> lic_sources l = lic_sources l0
     \<and> (\<forall>x. x AND 0xff \<in> {CPU_IER, CPU_IEP_FIR, CPU_IEP_CLASS}
          \<longrightarrow> lic_mmio l (LIC_BASE + x) AND owned_mask l0 x = lic_mmio l0 (LIC_BASE + x) AND owned_mask l0 x)"

lemma owned_mask_sources: "lic_sources l = lic_sources l0 \<Longrightarrow> owned_mask l = owned_mask l0"
  by (simp add: owned_mask_def owned_bit_def lic_owned_def fun_eq_iff)

lemma lic_kept_write:
  assumes "lic_kept l0 l"
  shows "lic_kept l0 (lic_write_word lic_hardware offset v l)"
  using assms lic_write_word_keeps [where l = l and offset = offset and v = v] owned_mask_sources [of l l0]
  by (simp add: lic_kept_def)

interpretation lic: virtual_device "lic_device lic_hardware" "lic_kept l0" for l0
proof
  fix l l' :: "registers lic" and offset sz e v
  show "vd_read (lic_device lic_hardware) offset sz l = (Inl e, l') \<Longrightarrow> l' = l"
    by (auto simp: lic_device_def lic_read_def split: if_splits prod.splits)
  show "vd_write (lic_device lic_hardware) offset sz v l = (Inl e, l') \<Longrightarrow> l' = l"
    by (auto simp: lic_device_def lic_write_def split: if_splits)
  show "lic_kept l0 l \<Longrightarrow> lic_kept l0 (snd (vd_read (lic_device lic_hardware) offset sz l))"
    using lic_read_word [of l offset] by (auto simp: lic_device_def lic_read_def lic_kept_def)
  show "lic_kept l0 l \<Longrightarrow> lic_kept l0 (snd (vd_write (lic_device lic_hardware) offset sz v l))"
    by (simp add: lic_device_def lic_write_def lic_kept_write)
qed

text \<open>The monitor's start: both sources set, then routed to the processor as interrupts.\<close>

definition lic_boot :: "u32 option \<Rightarrow> u32 option \<Rightarrow> registers \<Rightarrow> registers lic" where
  "lic_boot usb network m =
     lic_initialize lic_hardware (set_network_source network (set_owned_source usb (lic_new m)))"

definition lic_runs :: "(u64 \<times> u64 \<times> u64) list \<Rightarrow> u64 list \<times> registers lic \<Rightarrow> u64 list \<times> registers lic" where
  "lic_runs aborts = (\<lambda>s. foldl (\<lambda>(registers, d) (esr, far, hpfar).
     snd (emulate (lic_device lic_hardware) esr far hpfar registers d)) s aborts)"

definition source_routed :: "u32 \<Rightarrow> registers \<Rightarrow> bool" where
  "source_routed n m \<longleftrightarrow>
     (let bank = LIC_BASE + 0x100 * ucast (n div 32); i = unat (n mod 32)
      in bit (m (bank + CPU_IER)) i \<and> \<not> bit (m (bank + CPU_IEP_CLASS)) i)"

lemma lic_boot_ok:
  assumes "usb \<noteq> network \<or> usb = None"
  shows "lic_ok (lic_boot usb network m)" and "lic_apart (lic_boot usb network m)"
    and "lic_sources (lic_boot usb network m) = [filter_source usb, filter_source network]"
proof -
  have s: "lic_sources (lic_initialize_source lic_hardware i l) = lic_sources l"
    "lic_enabled (lic_initialize_source lic_hardware i l) = lic_enabled l" for i and l :: "registers lic"
    by (simp_all add: lic_initialize_source_def split: option.splits)
  show "lic_sources (lic_boot usb network m) = [filter_source usb, filter_source network]"
    by (simp add: lic_boot_def lic_initialize_def s set_network_source_def set_owned_source_def lic_new_def)
  then show "lic_ok (lic_boot usb network m)" "lic_apart (lic_boot usb network m)"
    using assms
    by (auto simp: lic_ok_def lic_apart_def filter_source_def lic_boot_def lic_initialize_def s
        set_network_source_def set_owned_source_def lic_new_def split: option.splits)
qed


definition source_forced :: "u32 \<Rightarrow> registers \<Rightarrow> bool" where
  "source_forced n m = bit (m (LIC_BASE + 0x100 * ucast (n div 32) + CPU_IEP_FIR)) (unat (n mod 32))"

definition lic_route :: "u64 \<Rightarrow> u32 \<Rightarrow> registers \<Rightarrow> registers" where
  "lic_route bank b m = m(LIC_BASE + bank + CPU_IEP_CLASS := m (LIC_BASE + bank + CPU_IEP_CLASS) AND NOT b,
     LIC_BASE + bank + CPU_IER := m (LIC_BASE + bank + CPU_IER) OR b)"

lemma low_bits:
  assumes "bank \<in> banks"
  shows "(bank + CPU_IEP_CLASS) AND 0xff = CPU_IEP_CLASS" "(bank + CPU_IER) AND 0xff = CPU_IER"
    "(bank + CPU_IEP_FIR) AND 0xff = CPU_IEP_FIR" "(bank + CPU_IER_SET) AND 0xff = CPU_IER_SET"
  by (rule bank_register_low [OF assms], simp add: registers_hidden_def)+

lemma lic_initialize_source:
  assumes "lic_ok l" and "i < 2"
  shows "lic_mmio (lic_initialize_source lic_hardware i l)
    = (case lic_owned l i of None \<Rightarrow> lic_mmio l | Some (bank, b) \<Rightarrow> lic_route bank b (lic_mmio l))"
proof (cases "lic_owned l i")
  case (Some bb)
  obtain bank b where bb: "bb = (bank, b)" by (cases bb)
  have bank: "bank \<in> banks" using lic_owned_Some [OF assms Some [unfolded bb]] by blast
  show ?thesis
    using low_bits [OF bank]
    by (simp add: lic_initialize_source_def Some bb lic_register_write_def Let_def lic_route_def
        add.assoc) (simp add: ac_simps)
qed (simp add: lic_initialize_source_def)

lemma lic_route_bits:
  assumes "bank \<in> banks" and "bank' \<in> banks"
  shows "lic_route bank b m (LIC_BASE + bank' + CPU_IER)
      = m (LIC_BASE + bank' + CPU_IER) OR (if bank = bank' then b else 0)"
    and "lic_route bank b m (LIC_BASE + bank' + CPU_IEP_CLASS)
      = m (LIC_BASE + bank' + CPU_IEP_CLASS) AND NOT (if bank = bank' then b else 0)"
    and "lic_route bank b m (LIC_BASE + bank' + CPU_IEP_FIR) = m (LIC_BASE + bank' + CPU_IEP_FIR)"
proof -
  have distinct: "CPU_IER \<noteq> CPU_IEP_CLASS" "CPU_IEP_FIR \<noteq> CPU_IEP_CLASS" "CPU_IEP_FIR \<noteq> CPU_IER"
    by simp_all
  have "bank' + CPU_IER \<noteq> bank + CPU_IEP_CLASS" "bank' + CPU_IEP_CLASS \<noteq> bank + CPU_IER"
    "bank' + CPU_IEP_FIR \<noteq> bank + CPU_IEP_CLASS" "bank' + CPU_IEP_FIR \<noteq> bank + CPU_IER"
    using low_bits [OF assms(1)] low_bits [OF assms(2)] distinct by metis+
  then show "lic_route bank b m (LIC_BASE + bank' + CPU_IER)
      = m (LIC_BASE + bank' + CPU_IER) OR (if bank = bank' then b else 0)"
    "lic_route bank b m (LIC_BASE + bank' + CPU_IEP_CLASS)
      = m (LIC_BASE + bank' + CPU_IEP_CLASS) AND NOT (if bank = bank' then b else 0)"
    "lic_route bank b m (LIC_BASE + bank' + CPU_IEP_FIR) = m (LIC_BASE + bank' + CPU_IEP_FIR)"
    by (auto simp: lic_route_def add.assoc)
qed

lemma lic_boot_mmio:
  fixes usb network :: "u32 option"
  defines "route \<equiv> \<lambda>s m. case filter_source s of None \<Rightarrow> m
    | Some n \<Rightarrow> lic_route (0x100 * ucast (n div 32)) (push_bit (unat (n mod 32)) 1) m"
  shows "lic_mmio (lic_boot usb network m) = route network (route usb m)"
proof -
  define l where "l = set_network_source network (set_owned_source usb (lic_new m))"
  have l: "lic_ok l" "lic_sources l = [filter_source usb, filter_source network]" "lic_mmio l = m"
    by (auto simp: l_def lic_ok_def filter_source_def set_network_source_def set_owned_source_def
        lic_new_def split: option.splits)
  have keep: "lic_sources (lic_initialize_source lic_hardware i l) = lic_sources l"
    "lic_enabled (lic_initialize_source lic_hardware i l) = lic_enabled l" for i and l :: "registers lic"
    by (simp_all add: lic_initialize_source_def split: option.splits)
  then have l1: "lic_ok (lic_initialize_source lic_hardware 0 l)" using l(1) by (simp add: lic_ok_def)
  show ?thesis
    using lic_initialize_source [OF l(1), of 0] lic_initialize_source [OF l1, of 1]
    by (simp add: lic_boot_def lic_initialize_def flip: l_def)
       (simp add: route_def lic_owned_def keep l mult.commute split: option.splits)
qed

text \<open>The bank and bit of a source, as the guest's policy and as the routing compute them.\<close>

lemma lic_boot_routed:
  assumes "filter_source usb = Some n \<or> filter_source network = Some n"
  shows "source_routed n (lic_mmio (lic_boot usb network m))"
    and "source_forced n (lic_mmio (lic_boot usb network m)) = source_forced n m"
proof -
  have bank: "0x100 * ucast (k div 32) \<in> banks" if "filter_source s = Some k" for s and k :: u32
    using that lic_owned_Some [of "lic_new (\<lambda>_. 0)\<lparr>lic_sources := [Some k, None]\<rparr>" 0
        "0x100 * ucast (k div 32)" "push_bit (unat (k mod 32)) 1"]
    by (auto simp: filter_source_def lic_owned_def lic_ok_def lic_new_def split: option.splits if_splits)
  have n: "0x100 * ucast (n div 32) \<in> banks" using assms bank by blast
  have i: "unat (n mod 32) < 32" by (simp add: unat_mod)
  note bits = lic_route_bits [OF bank n] lic_route_bits(3) [OF bank n]
  show "source_routed n (lic_mmio (lic_boot usb network m))"
    using assms i
    by (auto simp: lic_boot_mmio source_routed_def Let_def bits bit_simps split: option.splits
        simp del: CPU_IER_def CPU_IEP_CLASS_def)
  show "source_forced n (lic_mmio (lic_boot usb network m)) = source_forced n m"
    by (auto simp: lic_boot_mmio source_forced_def bits split: option.splits simp del: CPU_IEP_FIR_def)
qed


lemma lic_kept_boot:
  assumes "usb \<noteq> network \<or> usb = None"
  shows "lic_kept (lic_boot usb network m) (lic_boot usb network m)"
  using lic_boot_ok [OF assms] by (simp add: lic_kept_def)

lemma kept_source:
  assumes kept: "lic_kept l0 l" and n: "Some n \<in> set (lic_sources l0)"
  shows "source_routed n (lic_mmio l0) \<Longrightarrow> source_routed n (lic_mmio l)"
    and "source_forced n (lic_mmio l) = source_forced n (lic_mmio l0)"
proof -
  have ok: "lic_ok l" and src: "lic_sources l = lic_sources l0" using kept by (auto simp: lic_kept_def)
  then have "lic_sources l0 = [lic_sources l0 ! 0, lic_sources l0 ! 1]"
    by (auto simp: lic_ok_def numeral_2_eq_2 length_Suc_conv)
  with n obtain i where i: "i < 2" "lic_sources l0 ! i = Some n"
    by (metis One_nat_def Suc_1 in_set_conv_nth length_Cons list.size(3))
  define bank where "bank = (0x100 :: u64) * ucast (n div 32)"
  define b where "b = (push_bit (unat (n mod 32)) 1 :: u32)"
  have o: "lic_owned l0 i = Some (bank, b)" by (simp add: lic_owned_def i bank_def b_def mult.commute)
  then have "lic_owned l i = Some (bank, b)" by (simp add: lic_owned_def src)
  then have bank: "bank \<in> banks" using lic_owned_Some [OF ok i(1)] by blast
  have bit: "bit (owned_mask l0 (bank + r)) (unat (n mod 32))" if "r \<in> registers_hidden" for r
  proof -
    have "owned_bit l0 registers_hidden (bank + r) i = b" using that by (auto simp: owned_bit_def o)
    moreover have "bit b (unat (n mod 32))" by (simp add: b_def bit_simps unat_mod)
    moreover have "i = 0 \<or> i = 1" using i(1) by auto
    ultimately show ?thesis by (auto simp: owned_mask_def bit_simps)
  qed
  have same: "bit (lic_mmio l (LIC_BASE + (bank + r))) (unat (n mod 32))
      \<longleftrightarrow> bit (lic_mmio l0 (LIC_BASE + (bank + r))) (unat (n mod 32))"
    if r: "r \<in> {CPU_IER, CPU_IEP_FIR, CPU_IEP_CLASS}" for r
  proof -
    have h: "r \<in> registers_hidden" using r by (auto simp: registers_hidden_def)
    then have "(bank + r) AND 0xff = r" by (rule bank_register_low [OF bank])
    with kept r have "lic_mmio l (LIC_BASE + (bank + r)) AND owned_mask l0 (bank + r)
        = lic_mmio l0 (LIC_BASE + (bank + r)) AND owned_mask l0 (bank + r)"
      by (simp only: lic_kept_def)
    then have "bit (lic_mmio l (LIC_BASE + (bank + r)) AND owned_mask l0 (bank + r)) (unat (n mod 32))
        = bit (lic_mmio l0 (LIC_BASE + (bank + r)) AND owned_mask l0 (bank + r)) (unat (n mod 32))"
      by simp
    with bit [OF h] show ?thesis by (simp add: bit_simps)
  qed
  show "source_routed n (lic_mmio l0) \<Longrightarrow> source_routed n (lic_mmio l)"
    "source_forced n (lic_mmio l) = source_forced n (lic_mmio l0)"
    unfolding source_routed_def source_forced_def Let_def bank_def [symmetric] add.assoc
    using same by blast+
qed

text \<open>A run of accesses as the device answers it, and as the guest's own controller does.\<close>

datatype lic_access = LicRead u64 u8 | LicWrite u64 u8 u64

fun lic_run :: "lic_access list \<Rightarrow> registers lic \<Rightarrow> (device_error + u64) list \<times> registers lic" where
  "lic_run [] l = ([], l)"
| "lic_run (LicRead offset sz # as) l =
     (case lic_read lic_hardware offset sz l of
        (r, l) \<Rightarrow> (case lic_run as l of (rs, l) \<Rightarrow> (r # rs, l)))"
| "lic_run (LicWrite offset sz v # as) l =
     (case lic_write lic_hardware offset sz v l of
        (r, l) \<Rightarrow> (case lic_run as l of (rs, l) \<Rightarrow> (map_sum id (\<lambda>_. 0) r # rs, l)))"

definition word_access :: "u64 \<Rightarrow> u8 \<Rightarrow> bool" where
  "word_access offset sz \<longleftrightarrow> sz = 4 \<and> offset AND 3 = 0 \<and> offset < LIC_SIZE"

fun guest_lic_run ::
  "registers lic \<Rightarrow> lic_access list \<Rightarrow> registers \<Rightarrow> (device_error + u64) list \<times> registers" where
  "guest_lic_run l0 [] g = ([], g)"
| "guest_lic_run l0 (LicRead offset sz # as) g =
     (case guest_lic_run l0 as g of
        (rs, g') \<Rightarrow> ((if word_access offset sz then Inr (ucast (g (LIC_BASE + offset))) else Inl AccessSize) # rs,
                     g'))"
| "guest_lic_run l0 (LicWrite offset sz v # as) g =
     (if word_access offset sz
      then case guest_lic_run l0 as
                  (lic_register_write (LIC_BASE + offset) (visible_write l0 offset (ucast v)) g) of
             (rs, g) \<Rightarrow> (Inr 0 # rs, g)
      else case guest_lic_run l0 as g of (rs, g) \<Rightarrow> (Inl AccessSize # rs, g))"

lemma lic_run_refines:
  "lic_kept l0 l \<Longrightarrow> guest_lic_run l0 as (lic_view l) = (fst (lic_run as l), lic_view (snd (lic_run as l)))"
proof (induction as arbitrary: l)
  case (Cons a as)
  have ok: "lic_ok l" "lic_apart l" and o: "owned_mask l = owned_mask l0"
    using Cons.prems owned_mask_sources [of l l0] by (auto simp: lic_kept_def)
  show ?case
  proof (cases a)
    case (LicRead offset sz)
    then show ?thesis using Cons.IH [OF Cons.prems] lic_read_word [OF ok, of offset]
      by (auto simp: lic_read_def word_access_def not_le split: prod.splits)
  next
    case (LicWrite offset sz v)
    have "visible_write l0 offset (ucast v) = visible_write l offset (ucast v)"
      by (simp add: visible_write_def o)
    then show ?thesis
      using Cons.IH [OF Cons.prems] Cons.IH [OF lic_kept_write [OF Cons.prems], of offset "ucast v"]
        lic_view_write [OF ok, of offset "ucast v"] LicWrite
      by (auto simp: lic_write_def word_access_def not_le split: prod.splits)
  qed
qed simp



section \<open>Properties\<close>

text \<open>
  C26: Whatever the guest does, the interrupt sources the monitor owns stay enabled and routed as
  interrupts, and none is forced: every run of aborts leaves their enable, class and force bits as the
  monitor's initialization left them.
\<close>

theorem lic_sources_protected:
  assumes "usb \<noteq> network \<or> usb = None"
    and "filter_source usb = Some n \<or> filter_source network = Some n"
  shows "let m' = lic_mmio (snd (lic_runs aborts (registers, lic_boot usb network m)))
    in source_routed n m' \<and> source_forced n m' = source_forced n m"
proof -
  let ?l0 = "lic_boot usb network m"
  have kept: "lic_kept ?l0 (snd (lic_runs aborts (registers, ?l0)))"
    unfolding lic_runs_def by (rule lic.emulate_run_keeps [OF lic_kept_boot [OF assms(1)]])
  have "Some n \<in> set (lic_sources ?l0)" using assms lic_boot_ok(3) [OF assms(1)] by auto
  from kept_source [OF kept this] lic_boot_routed [OF assms(2)] show ?thesis by (simp add: Let_def)
qed

text \<open>Sources 44 and 39, and a guest that clears every enable bit of their bank.\<close>

theorem lic_sources_protected_witness:
  "let m' = lic_mmio (snd (lic_runs [(0x93800047, 0x128, 0x600040)]
       ([0, 0xffffffff], lic_boot (Some 44) (Some 39) (\<lambda>_. 0))))
   in source_routed 44 m' \<and> source_forced 44 m' = source_forced 44 (\<lambda>_. 0)"
  by (rule lic_sources_protected) (simp_all add: filter_source_def)

text \<open>
  C27: The guest sees an interrupt controller of its own.  Its accesses answer, and change what it sees,
  as on hardware that has no owned sources but keeps the guest's own enable bits for them; in particular
  nothing it reads depends on the physical state of an owned source.
\<close>

theorem lic_refines_own_controller:
  assumes "usb \<noteq> network \<or> usb = None"
  shows "guest_lic_run (lic_boot usb network m) as (lic_view (lic_boot usb network m))
    = (fst (lic_run as (lic_boot usb network m)), lic_view (snd (lic_run as (lic_boot usb network m))))"
  by (rule lic_run_refines [OF lic_kept_boot [OF assms]])

theorem lic_refines_own_controller_witness:
  "guest_lic_run (lic_boot (Some 44) (Some 39) (\<lambda>_. 0)) [LicRead 0x120 4]
      (lic_view (lic_boot (Some 44) (Some 39) (\<lambda>_. 0)))
    = (fst (lic_run [LicRead 0x120 4] (lic_boot (Some 44) (Some 39) (\<lambda>_. 0))),
       lic_view (snd (lic_run [LicRead 0x120 4] (lic_boot (Some 44) (Some 39) (\<lambda>_. 0)))))"
  by (rule lic_refines_own_controller) simp

end
