(* ===== verification/Vgic.thy ===== *)
theory Vgic
  imports Usb_Ownership Stage2
begin

text \<open>
  \<open>vdev/gicv2.rs\<close>: the interrupt distributor, passed through to the guest except for the maintenance
  interrupt and the two interrupts the monitor owns, whose enable state and priority it keeps itself.
  The physical registers are the operations of the \<open>Mmio\<close> trait.
\<close>

definition MAINTENANCE_IRQ :: u32 where [simp]: "MAINTENANCE_IRQ = 25"
definition SPURIOUS_IRQ :: u32 where [simp]: "SPURIOUS_IRQ = 1023"

definition GICD_CTLR :: u64 where [simp]: "GICD_CTLR = 0x000"
definition GICD_IGROUPR0 :: u64 where [simp]: "GICD_IGROUPR0 = 0x080"
definition GICD_ISENABLER0 :: u64 where [simp]: "GICD_ISENABLER0 = 0x100"
definition GICD_ICENABLER0 :: u64 where [simp]: "GICD_ICENABLER0 = 0x180"
definition GICD_ISPENDR0 :: u64 where [simp]: "GICD_ISPENDR0 = 0x200"
definition GICD_ICPENDR0 :: u64 where [simp]: "GICD_ICPENDR0 = 0x280"
definition GICD_ISACTIVER0 :: u64 where [simp]: "GICD_ISACTIVER0 = 0x300"
definition GICD_ICACTIVER0 :: u64 where [simp]: "GICD_ICACTIVER0 = 0x380"
definition GICD_IPRIORITYR0 :: u64 where [simp]: "GICD_IPRIORITYR0 = 0x400"
definition GICD_IPRIORITYR6 :: u64 where [simp]: "GICD_IPRIORITYR6 = 0x418"
definition GICD_ITARGETSR0 :: u64 where [simp]: "GICD_ITARGETSR0 = 0x800"
definition GICD_ICFGR0 :: u64 where [simp]: "GICD_ICFGR0 = 0xc00"
definition GICD_ICFGR1 :: u64 where [simp]: "GICD_ICFGR1 = 0xc04"

definition MAINTENANCE_BIT :: u32 where "MAINTENANCE_BIT = push_bit (unat MAINTENANCE_IRQ) 1"
definition MAINTENANCE_PRIORITY :: u32 where "MAINTENANCE_PRIORITY = push_bit 8 0xff"
definition MAINTENANCE_CONFIG :: u32 where "MAINTENANCE_CONFIG = push_bit 18 3"
definition DEFAULT_OWNED_PRIORITY :: u8 where "DEFAULT_OWNED_PRIORITY = 0xa0"

record 'm distributor =
  di_mmio :: 'm
  di_layout :: gic_layout
  di_control :: u32
  di_owned :: "u32 list"
  di_enabled :: "bool list"
  di_priority :: "u8 list"

definition distributor_new :: "'m \<Rightarrow> gic_layout \<Rightarrow> 'm distributor" where
  "distributor_new m layout =
     \<lparr>di_mmio = m, di_layout = layout, di_control = 0, di_owned = [SPURIOUS_IRQ, SPURIOUS_IRQ],
      di_enabled = [False, False], di_priority = [DEFAULT_OWNED_PRIORITY, DEFAULT_OWNED_PRIORITY]\<rparr>"

definition spi_or_spurious :: "u32 option \<Rightarrow> u32" where
  "spi_or_spurious interrupt =
     (case interrupt of None \<Rightarrow> SPURIOUS_IRQ
      | Some irq \<Rightarrow> if 32 \<le> irq \<and> irq < 1020 then irq else SPURIOUS_IRQ)"

definition set_owned_interrupt :: "u32 option \<Rightarrow> 'm distributor \<Rightarrow> 'm distributor" where
  "set_owned_interrupt interrupt d =
     d\<lparr>di_owned := (di_owned d)[0 := spi_or_spurious interrupt],
       di_enabled := (di_enabled d)[0 := False],
       di_priority := (di_priority d)[0 := DEFAULT_OWNED_PRIORITY]\<rparr>"

definition set_network_interrupt :: "u32 option \<Rightarrow> 'm distributor \<Rightarrow> 'm distributor" where
  "set_network_interrupt interrupt d =
     d\<lparr>di_owned := (di_owned d)[1 := spi_or_spurious interrupt],
       di_enabled := (di_enabled d)[1 := False],
       di_priority := (di_priority d)[1 := DEFAULT_OWNED_PRIORITY]\<rparr>"

definition distributor_initialize :: "'m mmio_ops \<Rightarrow> 'm distributor \<Rightarrow> 'm distributor" where
  "distributor_initialize ops d =
     (let control = gl_distributor (di_layout d) + GICD_CTLR
      in case mmio_read32 ops control (di_mmio d) of
           (v, m) \<Rightarrow>
             let guest = v AND 1;
                 m = mmio_write32 ops control (guest OR 1) m
             in d\<lparr>di_mmio := mmio_barrier ops m, di_control := guest\<rparr>)"

definition distributor_enabled :: "'m distributor \<Rightarrow> bool" where
  "distributor_enabled d \<longleftrightarrow> di_control d AND 1 \<noteq> 0"

definition owned_interrupt_enabled :: "'m distributor \<Rightarrow> bool" where
  "owned_interrupt_enabled d = di_enabled d ! 0"

definition owned_interrupt_priority :: "'m distributor \<Rightarrow> u8" where
  "owned_interrupt_priority d = di_priority d ! 0"

definition network_interrupt_priority :: "'m distributor \<Rightarrow> u8" where
  "network_interrupt_priority d = di_priority d ! 1"

definition network_interrupt_enabled :: "'m distributor \<Rightarrow> bool" where
  "network_interrupt_enabled d = di_enabled d ! 1"


section \<open>Which bits are owned\<close>

definition word_mask :: "u32 \<Rightarrow> u64 \<Rightarrow> u64 \<Rightarrow> u32" where
  "word_mask irq offset base =
     (if irq < 1020 \<and> offset = base + ucast (irq div 32) * 4 then push_bit (unat (irq mod 32)) 1 else 0)"

definition owned_word_mask :: "'m distributor \<Rightarrow> u64 \<Rightarrow> u64 \<Rightarrow> u32" where
  "owned_word_mask d offset base =
     foldl (\<lambda>mask irq. mask OR word_mask irq offset base) 0 (di_owned d)"

definition owned_byte_mask :: "'m distributor \<Rightarrow> u64 \<Rightarrow> u64 \<Rightarrow> u32" where
  "owned_byte_mask d offset base =
     foldl (\<lambda>mask irq. mask OR (if irq < 1020 \<and> offset = base + ucast (irq div 4) * 4
                               then push_bit (unat ((irq mod 4) * 8)) 0xff else 0)) 0 (di_owned d)"

definition owned_config_mask :: "'m distributor \<Rightarrow> u64 \<Rightarrow> u32" where
  "owned_config_mask d offset =
     foldl (\<lambda>mask irq. mask OR (if irq < 1020 \<and> offset = GICD_ICFGR0 + ucast (irq div 16) * 4
                               then push_bit (unat ((irq mod 16) * 2)) 3 else 0)) 0 (di_owned d)"

definition action_bases :: "u64 list" where
  "action_bases = [GICD_IGROUPR0, GICD_ISENABLER0, GICD_ICENABLER0, GICD_ISPENDR0, GICD_ICPENDR0,
     GICD_ISACTIVER0, GICD_ICACTIVER0]"

definition owned_action_mask :: "'m distributor \<Rightarrow> u64 \<Rightarrow> u32" where
  "owned_action_mask d offset =
     (case filter (\<lambda>m. m \<noteq> 0) (map (owned_word_mask d offset) action_bases) of
        [] \<Rightarrow> 0 | m # _ \<Rightarrow> m)"

definition protected_mask :: "'m distributor \<Rightarrow> u64 \<Rightarrow> u32" where
  "protected_mask d offset =
     (let maintenance =
            (if offset \<in> {GICD_IGROUPR0, GICD_ISENABLER0, GICD_ICENABLER0, GICD_ISPENDR0, GICD_ICPENDR0,
                          GICD_ISACTIVER0, GICD_ICACTIVER0} then MAINTENANCE_BIT
             else if offset = GICD_IPRIORITYR6 then MAINTENANCE_PRIORITY
             else if offset = GICD_ICFGR1 then MAINTENANCE_CONFIG else 0)
      in maintenance OR owned_action_mask d offset OR owned_byte_mask d offset GICD_IPRIORITYR0
         OR owned_byte_mask d offset GICD_ITARGETSR0 OR owned_config_mask d offset)"

definition is_write_one :: "u64 \<Rightarrow> bool" where
  "is_write_one offset \<longleftrightarrow> 0x100 \<le> offset \<and> offset < 0x400 \<or> 0xf10 \<le> offset \<and> offset < 0xf30"

text \<open>The word, the shift and the lanes of an access; the offset is below the region's size.\<close>

definition decode_access :: "u64 \<Rightarrow> u8 \<Rightarrow> device_error + (u64 \<times> nat \<times> u32)" where
  "decode_access offset sz =
     (if sz \<notin> {1, 2, 4} then Inl AccessSize
      else let word = offset AND NOT 3
        in if offset + ucast sz > word + 4 then Inl AccessSize
           else let shift = unat ((offset AND 3) * 8);
                    lanes = push_bit shift (drop_bit (32 - unat sz * 8) (- 1))
             in Inr (word, shift, lanes))"

definition guest_word :: "'m mmio_ops \<Rightarrow> u64 \<Rightarrow> 'm distributor \<Rightarrow> u32 \<times> 'm distributor" where
  "guest_word ops offset d =
     (if offset = GICD_CTLR then (di_control d, d)
      else case mmio_read32 ops (gl_distributor (di_layout d) + offset) (di_mmio d) of
        (v, m) \<Rightarrow>
          let v = (if offset \<in> {GICD_ISENABLER0, GICD_ICENABLER0, GICD_ISPENDR0, GICD_ICPENDR0,
                                GICD_ISACTIVER0, GICD_ICACTIVER0}
                   then v AND NOT MAINTENANCE_BIT else v);
              owned = owned_action_mask d offset;
              v = (if owned \<noteq> 0
                   then fold (\<lambda>index v.
                          if di_enabled d ! index
                          then v OR word_mask (di_owned d ! index) offset GICD_ISENABLER0
                                 OR word_mask (di_owned d ! index) offset GICD_ICENABLER0
                          else v) [0..<length (di_owned d)] (v AND NOT owned)
                   else v);
              v = fold (\<lambda>index v.
                    let irq = di_owned d ! index
                    in if irq < 1020 \<and> offset = GICD_IPRIORITYR0 + ucast (irq div 4) * 4
                       then let shift = unat ((irq mod 4) * 8)
                         in (v AND NOT (push_bit shift 0xff)) OR push_bit shift (ucast (di_priority d ! index))
                       else v) [0..<length (di_owned d)] v
          in (v, d\<lparr>di_mmio := m\<rparr>))"


section \<open>The device\<close>

definition distributor_read ::
  "'m mmio_ops \<Rightarrow> u64 \<Rightarrow> u8 \<Rightarrow> 'm distributor \<Rightarrow> (device_error + u64) \<times> 'm distributor" where
  "distributor_read ops offset sz d =
     (case decode_access offset sz of
        Inl e \<Rightarrow> (Inl e, d)
      | Inr (word, shift, lanes) \<Rightarrow>
          (case guest_word ops word d of (v, d) \<Rightarrow> (Inr (ucast (drop_bit shift (v AND lanes))), d)))"

text \<open>What a store changes of the monitor's own state for the interrupt at \<open>index\<close>.\<close>

definition shadow_write :: "u64 \<Rightarrow> u32 \<Rightarrow> u32 \<Rightarrow> nat \<Rightarrow> 'm distributor \<Rightarrow> 'm distributor" where
  "shadow_write word lanes v index d =
     (let irq = di_owned d ! index;
          d = (if v AND word_mask irq word GICD_ISENABLER0 \<noteq> 0
               then d\<lparr>di_enabled := (di_enabled d)[index := True]\<rparr> else d);
          d = (if v AND word_mask irq word GICD_ICENABLER0 \<noteq> 0
               then d\<lparr>di_enabled := (di_enabled d)[index := False]\<rparr> else d)
      in if irq < 1020 \<and> word = GICD_IPRIORITYR0 + ucast (irq div 4) * 4
         then let shift = unat ((irq mod 4) * 8)
           in if lanes AND push_bit shift 0xff \<noteq> 0
              then d\<lparr>di_priority := (di_priority d)[index := ucast (drop_bit shift v) AND 0xf8]\<rparr>
              else d
         else d)"

definition distributor_write ::
  "'m mmio_ops \<Rightarrow> u64 \<Rightarrow> u8 \<Rightarrow> u64 \<Rightarrow> 'm distributor \<Rightarrow> (device_error + unit) \<times> 'm distributor" where
  "distributor_write ops offset sz v d =
     (case decode_access offset sz of
        Inl e \<Rightarrow> (Inl e, d)
      | Inr (word, shift, lanes) \<Rightarrow>
          let v = push_bit shift (ucast v) AND lanes;
              address = gl_distributor (di_layout d) + word;
              d = fold (shadow_write word lanes v) [0..<length (di_owned d)] d;
              d = (if word = GICD_CTLR
                   then let control = ((di_control d AND NOT lanes) OR v) AND 1
                     in d\<lparr>di_control := control, di_mmio := mmio_write32 ops address (control OR 1) (di_mmio d)\<rparr>
                   else if is_write_one word
                   then d\<lparr>di_mmio := mmio_write32 ops address (v AND NOT (protected_mask d word)) (di_mmio d)\<rparr>
                   else case mmio_read32 ops address (di_mmio d) of
                     (current, m) \<Rightarrow>
                       let merged = (current AND NOT lanes) OR v;
                           protected = protected_mask d word
                       in d\<lparr>di_mmio := mmio_write32 ops address
                              ((merged AND NOT protected) OR (current AND protected)) m\<rparr>)
          in (Inr (), d\<lparr>di_mmio := mmio_barrier ops (di_mmio d)\<rparr>))"

definition distributor_device :: "'m mmio_ops \<Rightarrow> 'm distributor virtual_device" where
  "distributor_device ops =
     \<lparr>vd_region = \<lambda>d. \<lparr>rg_base = gl_distributor (di_layout d), rg_size = gl_distributor_size (di_layout d)\<rparr>,
      vd_read = distributor_read ops, vd_write = distributor_write ops\<rparr>"



section \<open>The owned bits\<close>

lemma bit_fold_or:
  fixes f :: "'b \<Rightarrow> 'a::len word"
  shows "bit (foldl (\<lambda>m x. m OR f x) m0 xs) i \<longleftrightarrow> bit m0 i \<or> (\<exists>x \<in> set xs. bit (f x) i)"
  by (induction xs arbitrary: m0) (auto simp: bit_simps)

text \<open>The word of an interrupt, in a register array of \<open>k\<close> interrupts a word.\<close>

definition irq_word :: "u32 \<Rightarrow> u32 \<Rightarrow> u64" where
  "irq_word k irq = ucast (irq div k) * 4"

lemma irq_word:
  assumes "irq < 1020" and "k \<in> {4, 16, 32}"
  shows "unat (irq_word k irq) = 4 * (unat irq div unat k)" and "unat (irq_word k irq) < 0x400"
proof -
  have n: "unat irq < 1020" using assms(1) by (simp add: word_less_nat_alt)
  have u: "unat (irq_word k irq) = 4 * (unat irq div unat k)" if "k \<noteq> 0" "unat irq div unat k < 1020" for k
  proof -
    have "unat (ucast (irq div k) :: u64) = unat irq div unat k"
      using that by (simp add: unsigned_ucast_eq unat_div take_bit_nat_eq_self)
    with that show ?thesis by (simp add: irq_word_def unat_word_ariths)
  qed
  have "unat irq div unat k < 256" using assms(2) n by auto
  with u [of k] assms(2) show "unat (irq_word k irq) = 4 * (unat irq div unat k)" "unat (irq_word k irq) < 0x400"
    by auto
qed

lemma irq_word_less: "irq < 1020 \<Longrightarrow> irq_word 32 irq < 0x80"
  using irq_word(1) [of irq 32] by (simp add: word_less_nat_alt)

lemma word_mask_bit:
  "bit (word_mask irq offset base) i
     \<longleftrightarrow> irq < 1020 \<and> offset = base + irq_word 32 irq \<and> i = unat irq mod 32"
  by (auto simp: word_mask_def irq_word_def bit_simps unat_mod)

lemma word_mask_eq:
  "word_mask irq offset base
     = (if irq < 1020 \<and> offset = base + irq_word 32 irq then push_bit (unat irq mod 32) 1 else 0)"
  by (simp add: word_mask_def irq_word_def unat_mod)

lemma owned_word_mask_bit:
  "bit (owned_word_mask d offset base) i
     \<longleftrightarrow> (\<exists>irq \<in> set (di_owned d). irq < 1020 \<and> offset = base + irq_word 32 irq \<and> i = unat irq mod 32)"
  by (simp add: owned_word_mask_def bit_fold_or word_mask_bit)

lemma owned_word_mask_0:
  "owned_word_mask d offset base = 0
     \<longleftrightarrow> (\<forall>irq \<in> set (di_owned d). \<not> (irq < 1020 \<and> offset = base + irq_word 32 irq))"
proof -
  have "owned_word_mask d offset base = 0 \<longleftrightarrow> (\<forall>i. \<not> bit (owned_word_mask d offset base) i)"
    by (auto intro: bit_word_eqI)
  then show ?thesis by (auto simp: owned_word_mask_bit)
qed

lemma action_bases_apart:
  assumes "base \<in> set action_bases" and "base' \<in> set action_bases" and "base + x = base' + y"
    and "x < 0x80" and "y < 0x80"
  shows "base = base'"
proof -
  have "unat (b + z) = unat b + unat z" if "b \<in> set action_bases" "z < 0x80" for b z
    using that by (intro unat_add_no_overflow) (auto simp: action_bases_def word_less_nat_alt)
  with assms have "unat base + unat x = unat base' + unat y" by metis
  moreover have "unat x < 128" "unat y < 128" using assms by (simp_all add: word_less_nat_alt)
  ultimately show ?thesis using assms(1,2) unfolding action_bases_def by auto
qed

lemma owned_action_mask:
  assumes base: "base \<in> set action_bases" and x: "x < 0x80"
  shows "owned_action_mask d (base + x) = owned_word_mask d (base + x) base"
proof -
  have zero: "owned_word_mask d (base + x) b = 0" if "b \<in> set action_bases" "b \<noteq> base" for b
    using that action_bases_apart [OF base that(1) _ x] irq_word_less
    by (auto simp: owned_word_mask_0)
  have "filter (\<lambda>m. m \<noteq> 0) (map (owned_word_mask d (base + x)) bs)
      = (if base \<in> set bs \<and> owned_word_mask d (base + x) base \<noteq> 0
         then [owned_word_mask d (base + x) base] else [])"
    if "set bs \<subseteq> set action_bases" "distinct bs" for bs
    using that zero by (induction bs) auto
  from this [of action_bases] base show ?thesis
    by (simp add: owned_action_mask_def) (simp add: action_bases_def)
qed


text \<open>What is protected of an interrupt the monitor owns, and of the maintenance interrupt.\<close>

lemma lane_bits: "bit (0xff :: int) j \<longleftrightarrow> j < 8" "bit (3 :: int) j \<longleftrightarrow> j < 2"
proof -
  have m: "(0xff :: int) = mask 8" "(3 :: int) = mask 2" by (simp_all add: mask_eq_exp_minus_1)
  show "bit (0xff :: int) j \<longleftrightarrow> j < 8" "bit (3 :: int) j \<longleftrightarrow> j < 2"
    unfolding m bit_mask_iff by auto
qed

lemma lane_shift_bits:
  "k < 4 \<Longrightarrow> j < 8 \<Longrightarrow> bit (push_bit (8 * k) 0xff :: u32) (8 * k + j)"
  "k < 16 \<Longrightarrow> j < 2 \<Longrightarrow> bit (push_bit (2 * k) 3 :: u32) (2 * k + j)"
  by (auto simp: bit_push_bit_iff lane_bits simp del: push_bit_numeral)

lemma protected_action:
  assumes "irq < 1020" and "irq \<in> set (di_owned d) \<or> irq = MAINTENANCE_IRQ" and "base \<in> set action_bases"
  shows "bit (protected_mask d (base + irq_word 32 irq)) (unat irq mod 32)"
proof (cases "irq \<in> set (di_owned d)")
  case True
  with assms(1) have "bit (owned_action_mask d (base + irq_word 32 irq)) (unat irq mod 32)"
    unfolding owned_action_mask [OF assms(3) irq_word_less [OF assms(1)]]
    by (auto simp: owned_word_mask_bit)
  then show ?thesis by (simp add: protected_mask_def Let_def bit_simps)
next
  case False
  then have "irq = 25" using assms(2) by simp
  with assms(3) show ?thesis
    by (auto simp: protected_mask_def action_bases_def irq_word_def MAINTENANCE_BIT_def bit_simps)
qed

lemma owned_byte_bit:
  assumes "irq < 1020" and "irq \<in> set (di_owned d)" and "j < 8"
  shows "bit (owned_byte_mask d (base + irq_word 4 irq) base) (8 * (unat irq mod 4) + j)"
proof -
  have "unat (irq mod 4 * 8) = 8 * (unat irq mod 4)" by (simp add: unat_word_ariths unat_mod)
  then have "bit (push_bit (unat (irq mod 4 * 8)) 0xff :: u32) (8 * (unat irq mod 4) + j)"
    using assms(3) by (simp add: lane_shift_bits del: push_bit_numeral)
  with assms(1,2) show ?thesis
    unfolding owned_byte_mask_def bit_fold_or irq_word_def
    by (intro disjI2 bexI [of _ irq]) simp_all
qed

lemma owned_config_bit:
  assumes "irq < 1020" and "irq \<in> set (di_owned d)" and "j < 2"
  shows "bit (owned_config_mask d (GICD_ICFGR0 + irq_word 16 irq)) (2 * (unat irq mod 16) + j)"
proof -
  have "unat (irq mod 16 * 2) = 2 * (unat irq mod 16)" by (simp add: unat_word_ariths unat_mod)
  then have "bit (push_bit (unat (irq mod 16 * 2)) 3 :: u32) (2 * (unat irq mod 16) + j)"
    using assms(3) by (simp add: lane_shift_bits del: push_bit_numeral)
  with assms(1,2) show ?thesis
    unfolding owned_config_mask_def bit_fold_or irq_word_def
    by (intro disjI2 bexI [of _ irq]) simp_all
qed

lemma protected_fields:
  assumes "irq < 1020" and "irq \<in> set (di_owned d) \<or> irq = MAINTENANCE_IRQ"
  shows "j < 8 \<Longrightarrow> bit (protected_mask d (GICD_IPRIORITYR0 + irq_word 4 irq)) (8 * (unat irq mod 4) + j)"
    and "j < 2 \<Longrightarrow> bit (protected_mask d (GICD_ICFGR0 + irq_word 16 irq)) (2 * (unat irq mod 16) + j)"
    and "j < 8 \<Longrightarrow> irq \<in> set (di_owned d)
      \<Longrightarrow> bit (protected_mask d (GICD_ITARGETSR0 + irq_word 4 irq)) (8 * (unat irq mod 4) + j)"
proof -
  have m: "j < 8 \<Longrightarrow> bit MAINTENANCE_PRIORITY (8 + j)" "j < 2 \<Longrightarrow> bit MAINTENANCE_CONFIG (18 + j)" for j
    using lane_shift_bits(1) [of 1 j] lane_shift_bits(2) [of 9 j]
    by (simp_all add: MAINTENANCE_PRIORITY_def MAINTENANCE_CONFIG_def)
  show "j < 8 \<Longrightarrow> bit (protected_mask d (GICD_IPRIORITYR0 + irq_word 4 irq)) (8 * (unat irq mod 4) + j)"
    using assms owned_byte_bit [of irq d j GICD_IPRIORITYR0] m(1) [of j]
    by (cases "irq \<in> set (di_owned d)")
       (auto simp: protected_mask_def Let_def bit_or_iff irq_word_def)
  show "j < 2 \<Longrightarrow> bit (protected_mask d (GICD_ICFGR0 + irq_word 16 irq)) (2 * (unat irq mod 16) + j)"
    using assms owned_config_bit [of irq d j] m(2) [of j]
    by (cases "irq \<in> set (di_owned d)")
       (auto simp: protected_mask_def Let_def bit_or_iff irq_word_def)
  show "j < 8 \<Longrightarrow> irq \<in> set (di_owned d)
      \<Longrightarrow> bit (protected_mask d (GICD_ITARGETSR0 + irq_word 4 irq)) (8 * (unat irq mod 4) + j)"
    using assms owned_byte_bit [of irq d j GICD_ITARGETSR0]
    by (simp add: protected_mask_def Let_def bit_or_iff)
qed



section \<open>What the guest cannot change\<close>

text \<open>
  The registers as the distributor documents them: writing a set or a clear register changes bits of one
  state, which both read; every other register holds what was written.
\<close>

definition set_register :: "u64 \<Rightarrow> bool" where
  "set_register x \<longleftrightarrow> 0x100 \<le> x \<and> x < 0x180 \<or> 0x200 \<le> x \<and> x < 0x280 \<or> 0x300 \<le> x \<and> x < 0x380
     \<or> 0xf20 \<le> x \<and> x < 0xf30"

definition clear_register :: "u64 \<Rightarrow> bool" where
  "clear_register x \<longleftrightarrow> 0x180 \<le> x \<and> x < 0x200 \<or> 0x280 \<le> x \<and> x < 0x300 \<or> 0x380 \<le> x \<and> x < 0x400
     \<or> 0xf10 \<le> x \<and> x < 0xf20"

definition gic_slot :: "u64 \<Rightarrow> u64" where
  "gic_slot x = (if clear_register x then if x < 0x400 then x - 0x80 else x + 0x10 else x)"

definition gic_register_write :: "u64 \<Rightarrow> u64 \<Rightarrow> u32 \<Rightarrow> registers \<Rightarrow> registers" where
  "gic_register_write base a v m =
     (let r = base + gic_slot (a - base)
      in if set_register (a - base) then m(r := m r OR v)
         else if clear_register (a - base) then m(r := m r AND NOT v) else m(r := v))"

definition gic_hardware :: "u64 \<Rightarrow> registers mmio_ops" where
  "gic_hardware base = \<lparr>mmio_read32 = \<lambda>a m. (m (base + gic_slot (a - base)), m),
     mmio_write32 = gic_register_write base, mmio_barrier = \<lambda>m. m\<rparr>"

lemma write_one_registers: "is_write_one x \<longleftrightarrow> set_register x \<or> clear_register x"
  by (auto simp: is_write_one_def set_register_def clear_register_def word_le_nat_alt word_less_nat_alt)

lemma set_not_clear: "set_register x \<Longrightarrow> \<not> clear_register x"
  by (auto simp: set_register_def clear_register_def word_le_nat_alt word_less_nat_alt)

text \<open>A bit of a register the policy protects, there and where the register is cleared.\<close>

definition guarded :: "(u64 \<Rightarrow> u32) \<Rightarrow> u64 \<Rightarrow> nat \<Rightarrow> bool" where
  "guarded p x i \<longleftrightarrow> x \<noteq> 0 \<and> \<not> clear_register x \<and> bit (p x) i
     \<and> (\<forall>y. clear_register y \<and> gic_slot y = x \<longrightarrow> bit (p y) i)"

lemma shadow_write_keeps [simp]:
  "di_mmio (shadow_write word lanes v i d) = di_mmio d" "di_layout (shadow_write word lanes v i d) = di_layout d"
  "di_control (shadow_write word lanes v i d) = di_control d" "di_owned (shadow_write word lanes v i d) = di_owned d"
  "length (di_enabled (shadow_write word lanes v i d)) = length (di_enabled d)"
  "length (di_priority (shadow_write word lanes v i d)) = length (di_priority d)"
  by (simp_all add: shadow_write_def Let_def)

lemma shadow_writes_keep [simp]:
  "di_mmio (fold (shadow_write word lanes v) is d) = di_mmio d"
  "di_layout (fold (shadow_write word lanes v) is d) = di_layout d"
  "di_control (fold (shadow_write word lanes v) is d) = di_control d"
  "di_owned (fold (shadow_write word lanes v) is d) = di_owned d"
  "length (di_enabled (fold (shadow_write word lanes v) is d)) = length (di_enabled d)"
  "length (di_priority (fold (shadow_write word lanes v) is d)) = length (di_priority d)"
  by (induction "is" arbitrary: d) simp_all

lemma protected_owned:
  assumes "di_owned d = di_owned d'"
  shows "protected_mask d = protected_mask d'"
proof -
  have "owned_word_mask d = owned_word_mask d'" "owned_byte_mask d = owned_byte_mask d'"
    "owned_config_mask d = owned_config_mask d'"
    using assms by (simp_all add: fun_eq_iff owned_word_mask_def owned_byte_mask_def owned_config_mask_def)
  then show ?thesis by (intro ext) (simp only: protected_mask_def owned_action_mask_def)
qed

lemma protected_shadow [simp]: "protected_mask (fold (shadow_write word lanes v) is d) = protected_mask d"
  by (rule protected_owned) simp

text \<open>The hardware write a store makes, as one of three kinds.\<close>

lemma distributor_write_Inr:
  fixes v :: u64 and d :: "registers distributor"
  assumes w: "decode_access offset sz = Inr (word, shift, lanes)"
  defines "u \<equiv> push_bit shift (ucast v) AND lanes"
  defines "d1 \<equiv> fold (shadow_write word lanes u) [0..<length (di_owned d)] d"
    and "a \<equiv> gl_distributor (di_layout d) + word" and "p \<equiv> protected_mask d word"
  defines "control \<equiv> ((di_control d AND NOT lanes) OR u) AND 1"
    and "current \<equiv> di_mmio d (gl_distributor (di_layout d) + gic_slot word)"
  shows "distributor_write (gic_hardware (gl_distributor (di_layout d))) offset sz v d
    = (Inr (), d1\<lparr>di_control := if word = 0 then control else di_control d,
        di_mmio := gic_register_write (gl_distributor (di_layout d)) a
          (if word = 0 then control OR 1
           else if is_write_one word then u AND NOT p
           else (((current AND NOT lanes) OR u) AND NOT p) OR (current AND p)) (di_mmio d)\<rparr>)"
proof -
  have "d1\<lparr>di_control := di_control d, di_mmio := x\<rparr> = d1\<lparr>di_mmio := x\<rparr>" for x
    by (simp add: d1_def)
  then show ?thesis
    by (auto simp: distributor_write_def w gic_hardware_def Let_def a_def p_def control_def current_def
        simp flip: u_def d1_def)
      (auto simp: d1_def)
qed


lemma gic_slot_simps:
  "\<not> clear_register x \<Longrightarrow> gic_slot x = x" "gic_slot x = 0 \<longleftrightarrow> x = 0" "\<not> set_register 0" "\<not> clear_register 0"
proof -
  show "\<not> clear_register x \<Longrightarrow> gic_slot x = x" by (simp add: gic_slot_def)
  show "\<not> set_register 0" "\<not> clear_register 0" by (simp_all add: set_register_def clear_register_def)
  have "x \<noteq> 0x80" "x \<noteq> - 0x10" if "clear_register x"
    using that by (auto simp: clear_register_def)
  then show "gic_slot x = 0 \<longleftrightarrow> x = 0"
    by (auto simp: gic_slot_def clear_register_def add_eq_0_iff2)
qed

lemma distributor_write_keeps:
  fixes d :: "registers distributor"
  defines "base \<equiv> gl_distributor (di_layout d)"
  assumes w: "distributor_write (gic_hardware base) offset sz v d = (r, d')"
  shows "di_layout d' = di_layout d" and "di_owned d' = di_owned d"
    and "guarded (protected_mask d) x i \<Longrightarrow> bit (di_mmio d' (base + x)) i = bit (di_mmio d (base + x)) i"
    and "bit (di_mmio d base) 0 \<Longrightarrow> bit (di_mmio d' base) 0"
proof -
  have all: "di_layout d' = di_layout d \<and> di_owned d' = di_owned d
    \<and> (guarded (protected_mask d) x i \<longrightarrow> bit (di_mmio d' (base + x)) i = bit (di_mmio d (base + x)) i)
    \<and> (bit (di_mmio d base) 0 \<longrightarrow> bit (di_mmio d' base) 0)"
  proof (cases "decode_access offset sz")
    case (Inr wsl)
    obtain word shift lanes where wsl: "wsl = (word, shift, lanes)" by (metis surj_pair)
    note d' = w [unfolded base_def distributor_write_Inr [OF Inr [unfolded wsl]], folded base_def]
    have same: "di_layout d' = di_layout d" "di_owned d' = di_owned d" using d' by auto
    define u where "u = push_bit shift (ucast v) AND lanes"
    define c where "c = ((di_control d AND NOT lanes) OR u) AND 1"
    define p where "p = protected_mask d word"
    define m where "m = di_mmio d"
    have m': "di_mmio d' = gic_register_write base (base + word)
          (if word = 0 then c OR 1 else if is_write_one word then u AND NOT p
           else (((m (base + gic_slot word) AND NOT lanes) OR u) AND NOT p) OR (m (base + gic_slot word) AND p)) m"
      using d' by (auto simp: u_def c_def p_def m_def)
    have eq: "(base + gic_slot word = base + x) = (gic_slot word = x)"
      "(base + gic_slot word = base) = (word = 0)"
      using gic_slot_simps(2) [of word] by simp_all
    consider "word = 0" | "word \<noteq> 0" "set_register word" | "word \<noteq> 0" "clear_register word"
      | "word \<noteq> 0" "\<not> is_write_one word" by (auto simp: write_one_registers)
    then have "(guarded (protected_mask d) x i \<longrightarrow> bit (di_mmio d' (base + x)) i = bit (m (base + x)) i)
      \<and> (bit (m base) 0 \<longrightarrow> bit (di_mmio d' base) 0)"
    proof cases
      case 1
      then show ?thesis
        by (simp add: m' gic_register_write_def gic_slot_simps guarded_def bit_or_iff bit_1_iff)
    next
      case 2
      then show ?thesis using gic_slot_simps(1) [OF set_not_clear [OF 2(2)]]
        by (auto simp: m' gic_register_write_def write_one_registers guarded_def bit_simps p_def Let_def)
    next
      case 3
      then show ?thesis using set_not_clear [of word] eq
        by (auto simp: m' gic_register_write_def write_one_registers guarded_def bit_simps p_def Let_def)
    next
      case 4
      then have "gic_slot word = word" using gic_slot_simps(1) by (simp add: write_one_registers)
      then show ?thesis using 4
        by (auto simp: m' gic_register_write_def write_one_registers guarded_def bit_simps p_def Let_def)
    qed
    with same show ?thesis by (simp add: m_def)
  qed (use w in \<open>simp add: distributor_write_def\<close>)
  then show "di_layout d' = di_layout d" "di_owned d' = di_owned d"
    "guarded (protected_mask d) x i \<Longrightarrow> bit (di_mmio d' (base + x)) i = bit (di_mmio d (base + x)) i"
    "bit (di_mmio d base) 0 \<Longrightarrow> bit (di_mmio d' base) 0"
    by blast+
qed

lemma guest_word_keeps:
  "di_layout (snd (guest_word (gic_hardware base) x d)) = di_layout d"
  "di_owned (snd (guest_word (gic_hardware base) x d)) = di_owned d"
  "di_mmio (snd (guest_word (gic_hardware base) x d)) = di_mmio d"
  by (simp_all add: guest_word_def gic_hardware_def Let_def)

definition gic_kept :: "registers distributor \<Rightarrow> registers distributor \<Rightarrow> bool" where
  "gic_kept d0 d \<longleftrightarrow> di_layout d = di_layout d0 \<and> di_owned d = di_owned d0
     \<and> (\<forall>x i. guarded (protected_mask d0) x i
          \<longrightarrow> bit (di_mmio d (gl_distributor (di_layout d0) + x)) i
            = bit (di_mmio d0 (gl_distributor (di_layout d0) + x)) i)
     \<and> (bit (di_mmio d0 (gl_distributor (di_layout d0))) 0
          \<longrightarrow> bit (di_mmio d (gl_distributor (di_layout d0))) 0)"

lemma gic_kept_write:
  assumes "gic_kept d0 d"
  shows "gic_kept d0 (snd (distributor_write (gic_hardware (gl_distributor (di_layout d0))) offset sz v d))"
proof -
  have e: "di_layout d = di_layout d0" "protected_mask d = protected_mask d0"
    using assms by (auto simp: gic_kept_def intro: protected_owned)
  obtain r d' where w: "distributor_write (gic_hardware (gl_distributor (di_layout d0))) offset sz v d = (r, d')"
    by fastforce
  note k = distributor_write_keeps [OF w [folded e(1)], unfolded e]
  show ?thesis using assms k by (simp add: w gic_kept_def)
qed

interpretation gic: virtual_device "distributor_device (gic_hardware (gl_distributor (di_layout d0)))" "gic_kept d0"
  for d0
proof
  fix d d' :: "registers distributor" and offset sz e v
  let ?dev = "distributor_device (gic_hardware (gl_distributor (di_layout d0)))"
  show "vd_read ?dev offset sz d = (Inl e, d') \<Longrightarrow> d' = d"
    by (auto simp: distributor_device_def distributor_read_def split: sum.splits prod.splits)
  show "vd_write ?dev offset sz v d = (Inl e, d') \<Longrightarrow> d' = d"
    by (auto simp: distributor_device_def distributor_write_def Let_def split: sum.splits prod.splits)
  show "gic_kept d0 d \<Longrightarrow> gic_kept d0 (snd (vd_read ?dev offset sz d))"
    by (auto simp: distributor_device_def distributor_read_def gic_kept_def guest_word_keeps
        split: sum.splits prod.splits) (metis guest_word_keeps snd_conv)+
  show "gic_kept d0 d \<Longrightarrow> gic_kept d0 (snd (vd_write ?dev offset sz v d))"
    by (simp add: distributor_device_def gic_kept_write)
qed


lemma clear_slot:
  assumes "clear_register y"
  shows "unat y \<ge> 0x180 \<and> unat y < 0x400 \<and> unat (gic_slot y) = unat y - 0x80 \<and> y = gic_slot y + 0x80
    \<or> unat (gic_slot y) \<ge> 0xf20 \<and> unat (gic_slot y) < 0xf30"
proof (cases "y < 0x400")
  case True
  then have "0x180 \<le> y" using assms by (auto simp: clear_register_def word_le_nat_alt word_less_nat_alt)
  then show ?thesis using True assms
    by (simp add: gic_slot_def unat_sub word_le_nat_alt word_less_nat_alt)
next
  case False
  then have "unat y \<ge> 0xf10" "unat y < 0xf20"
    using assms by (auto simp: clear_register_def word_le_nat_alt word_less_nat_alt)
  moreover from this have "unat (y + 0x10) = unat y + 0x10" by (subst unat_add_no_overflow) simp_all
  ultimately show ?thesis using False assms by (simp add: gic_slot_def)
qed

lemma guarded_action:
  assumes irq: "irq < 1020" and own: "irq \<in> set (di_owned d) \<or> irq = MAINTENANCE_IRQ"
    and base: "base \<in> {GICD_IGROUPR0, GICD_ISENABLER0, GICD_ISPENDR0, GICD_ISACTIVER0}"
  shows "guarded (protected_mask d) (base + irq_word 32 irq) (unat irq mod 32)"
proof -
  let ?x = "base + irq_word 32 irq"
  have w: "unat (irq_word 32 irq) < 0x80" using irq_word_less [OF irq] by (simp add: word_less_nat_alt)
  have x: "unat ?x = unat base + unat (irq_word 32 irq)"
    using base w by (subst unat_add_no_overflow) auto
  have "base \<in> set action_bases" using base by (auto simp: action_bases_def)
  then have "bit (protected_mask d ?x) (unat irq mod 32)" by (rule protected_action [OF irq own])
  moreover have b: "unat base \<in> {0x80, 0x100, 0x200, 0x300}" using base by auto
  then have "\<not> clear_register ?x"
    using w unfolding clear_register_def word_le_nat_alt word_less_nat_alt x by auto
  moreover have "?x \<noteq> 0" using base x by (auto simp flip: unat_eq_zero simp del: unat_eq_zero)
  moreover have "bit (protected_mask d y) (unat irq mod 32)" if y: "clear_register y" "gic_slot y = ?x" for y
  proof -
    have "unat (gic_slot y) < 0x400" unfolding y(2) x using b w by auto
    with clear_slot [OF y(1)] have c: "unat y \<ge> 0x180" "unat (gic_slot y) = unat y - 0x80"
      "y = gic_slot y + 0x80" by linarith+
    then have "y = (base + 0x80) + irq_word 32 irq" unfolding y(2) by (simp only: ac_simps)
    moreover have "unat base \<noteq> 0x80" using c(1,2) w unfolding y(2) x by linarith
    then have "base \<noteq> GICD_IGROUPR0" by auto
    then have "base + 0x80 \<in> set action_bases" using base by (auto simp: action_bases_def)
    ultimately show ?thesis using protected_action [OF irq own, of "base + 0x80"] by simp
  qed
  ultimately show ?thesis by (simp add: guarded_def)
qed

lemma guarded_field:
  assumes "unat x \<ge> 0x400" and "unat x < 0xf00" and "bit (p x) i"
  shows "guarded p x i"
proof -
  have "\<not> clear_register x" using assms(1,2) by (auto simp: clear_register_def word_le_nat_alt word_less_nat_alt)
  moreover have "gic_slot y \<noteq> x" if "clear_register y" for y
    using clear_slot [OF that] assms(1,2) by auto
  ultimately show ?thesis using assms by (auto simp: guarded_def)
qed

text \<open>The physical state of an interrupt, and its target.\<close>

definition irq_state :: "u64 \<Rightarrow> u32 \<Rightarrow> registers \<Rightarrow> bool list \<times> u32 \<times> u32" where
  "irq_state base irq m =
     (map (\<lambda>r. bit (m (base + (r + irq_word 32 irq))) (unat irq mod 32))
        [GICD_IGROUPR0, GICD_ISENABLER0, GICD_ISPENDR0, GICD_ISACTIVER0],
      take_bit 8 (drop_bit (8 * (unat irq mod 4)) (m (base + (GICD_IPRIORITYR0 + irq_word 4 irq)))),
      take_bit 2 (drop_bit (2 * (unat irq mod 16)) (m (base + (GICD_ICFGR0 + irq_word 16 irq)))))"

definition irq_target :: "u64 \<Rightarrow> u32 \<Rightarrow> registers \<Rightarrow> u32" where
  "irq_target base irq m =
     take_bit 8 (drop_bit (8 * (unat irq mod 4)) (m (base + (GICD_ITARGETSR0 + irq_word 4 irq))))"

lemma field_eq:
  fixes a b :: "'a::len word"
  assumes "\<And>j. j < n \<Longrightarrow> bit a (k + j) = bit b (k + j)"
  shows "take_bit n (drop_bit k a) = take_bit n (drop_bit k b)"
  by (rule bit_word_eqI) (auto simp: bit_simps assms)

lemma kept_interrupt:
  assumes kept: "gic_kept d0 d" and irq: "irq < 1020"
    and own: "irq \<in> set (di_owned d0) \<or> irq = MAINTENANCE_IRQ"
  defines "base \<equiv> gl_distributor (di_layout d0)"
  shows "irq_state base irq (di_mmio d) = irq_state base irq (di_mmio d0)"
    and "irq \<in> set (di_owned d0) \<Longrightarrow> irq_target base irq (di_mmio d) = irq_target base irq (di_mmio d0)"
proof -
  have same: "bit (di_mmio d (base + x)) i = bit (di_mmio d0 (base + x)) i"
    if "guarded (protected_mask d0) x i" for x i
    using kept that by (simp add: gic_kept_def base_def)
  have field: "0x400 \<le> unat (r + irq_word k irq) \<and> unat (r + irq_word k irq) < 0xf00"
    if "r \<in> {GICD_IPRIORITYR0, GICD_ICFGR0, GICD_ITARGETSR0}" "k \<in> {4, 16}" "r = GICD_ICFGR0 \<longrightarrow> k = 16" for r k
  proof -
    have i: "unat irq < 1020" using irq by (simp add: word_less_nat_alt)
    have k: "unat (irq_word k irq) = 4 * (unat irq div unat k)" using irq_word(1) [OF irq, of k] that(2) by auto
    then have "unat (r + irq_word k irq) = unat r + 4 * (unat irq div unat k)"
      using that i by (subst unat_add_no_overflow) auto
    with that i show ?thesis by auto
  qed
  have bits: "take_bit n (drop_bit s (di_mmio d (base + (r + irq_word k irq))))
      = take_bit n (drop_bit s (di_mmio d0 (base + (r + irq_word k irq))))"
    if "r \<in> {GICD_IPRIORITYR0, GICD_ICFGR0, GICD_ITARGETSR0}" "k \<in> {4, 16}" "r = GICD_ICFGR0 \<longrightarrow> k = 16"
      "\<And>j. j < n \<Longrightarrow> bit (protected_mask d0 (r + irq_word k irq)) (s + j)" for r k n s
    using field [OF that(1-3)] that(4) by (intro field_eq same guarded_field) simp_all
  have "bit (di_mmio d (base + (r + irq_word 32 irq))) (unat irq mod 32)
      = bit (di_mmio d0 (base + (r + irq_word 32 irq))) (unat irq mod 32)"
    if "r \<in> {GICD_IGROUPR0, GICD_ISENABLER0, GICD_ISPENDR0, GICD_ISACTIVER0}" for r
    using same [OF guarded_action [OF irq own that]] .
  moreover have "take_bit 8 (drop_bit (8 * (unat irq mod 4)) (di_mmio d (base + (GICD_IPRIORITYR0 + irq_word 4 irq))))
      = take_bit 8 (drop_bit (8 * (unat irq mod 4)) (di_mmio d0 (base + (GICD_IPRIORITYR0 + irq_word 4 irq))))"
    by (rule bits) (use protected_fields(1) [OF irq own] in simp_all)
  moreover have "take_bit 2 (drop_bit (2 * (unat irq mod 16)) (di_mmio d (base + (GICD_ICFGR0 + irq_word 16 irq))))
      = take_bit 2 (drop_bit (2 * (unat irq mod 16)) (di_mmio d0 (base + (GICD_ICFGR0 + irq_word 16 irq))))"
    by (rule bits) (use protected_fields(2) [OF irq own] in simp_all)
  ultimately show "irq_state base irq (di_mmio d) = irq_state base irq (di_mmio d0)"
    unfolding irq_state_def by (simp only: list.map insert_iff simp_thms)
  show "irq_target base irq (di_mmio d) = irq_target base irq (di_mmio d0)" if "irq \<in> set (di_owned d0)"
    unfolding irq_target_def by (rule bits) (use protected_fields(3) [OF irq own _ that] in simp_all)
qed



section \<open>The interrupts the guest sees instead\<close>

text \<open>
  For an interrupt the monitor owns, the guest has one enable bit and one priority byte of its own.  The
  specification is per byte: a store writes the bytes from its offset on.
\<close>

definition access_legal :: "u64 \<Rightarrow> u8 \<Rightarrow> bool" where
  "access_legal offset sz \<longleftrightarrow> sz \<in> {1, 2, 4} \<and> unat offset mod 4 + unat sz \<le> 4"

definition written_byte :: "u64 \<Rightarrow> u8 \<Rightarrow> u64 \<Rightarrow> nat \<Rightarrow> u8 option" where
  "written_byte offset sz v x =
     (if unat offset \<le> x \<and> x < unat offset + unat sz
      then Some (ucast (drop_bit (8 * (x - unat offset)) v)) else None)"

definition written_bit :: "u64 \<Rightarrow> u8 \<Rightarrow> u64 \<Rightarrow> nat \<Rightarrow> nat \<Rightarrow> bool" where
  "written_bit offset sz v base n =
     (case written_byte offset sz v (base + n div 8) of None \<Rightarrow> False | Some b \<Rightarrow> bit b (n mod 8))"

definition virtual_write :: "nat \<Rightarrow> u64 \<Rightarrow> u8 \<Rightarrow> u64 \<Rightarrow> bool \<times> u8 \<Rightarrow> bool \<times> u8" where
  "virtual_write n offset sz v = (\<lambda>(e, p).
     if access_legal offset sz
     then ((e \<or> written_bit offset sz v 0x100 n) \<and> \<not> written_bit offset sz v 0x180 n,
           case written_byte offset sz v (0x400 + n) of None \<Rightarrow> p | Some b \<Rightarrow> b AND 0xf8)
     else (e, p))"

lemma word_of_offset:
  fixes offset :: u64
  shows "unat (offset AND NOT 3) = 4 * (unat offset div 4)" and "unat (offset AND 3) = unat offset mod 4"
proof -
  have m: "(3 :: u64) = mask 2" by (simp add: mask_eq_exp_minus_1)
  show "unat (offset AND 3) = unat offset mod 4"
    by (simp add: m unsigned_take_bit_eq take_bit_eq_mod unat_mod flip: take_bit_eq_mask)
  have suc: "Suc (Suc (n - 2)) = n" if "2 \<le> n" for n :: nat using that by simp
  have "offset AND NOT 3 = push_bit 2 (drop_bit 2 offset)"
    unfolding m using suc by (intro bit_word_eqI) (auto simp: bit_simps not_less)
  moreover have "unat offset < 2 ^ 64" using unsigned_less [of offset] by simp
  then have "4 * (unat offset div 4) < 2 ^ 64" by linarith
  ultimately show "unat (offset AND NOT 3) = 4 * (unat offset div 4)"
    by (simp add: push_bit_eq_mult drop_bit_eq_div unat_word_ariths unat_div mult.commute)
qed

lemma decode_access_legal:
  assumes "unat offset < 0x10000"
  shows "decode_access offset sz
     = (if access_legal offset sz
        then Inr (offset AND NOT 3, 8 * (unat offset mod 4), push_bit (8 * (unat offset mod 4)) (mask (8 * unat sz)))
        else Inl AccessSize)"
proof (cases "sz \<in> {1, 2, 4}")
  case True
  let ?s = "unat offset mod 4"
  note word = word_of_offset [of offset]
  have sz: "unat (ucast sz :: u64) = unat sz" "unat sz \<in> {1, 2, 4}" using True by auto
  have "unat ((offset AND NOT 3) + 4) = 4 * (unat offset div 4) + 4"
    using assms word by (subst unat_add_no_overflow) auto
  moreover have "unat (offset + ucast sz) = unat offset + unat sz"
    using assms sz by (subst unat_add_no_overflow) auto
  ultimately have fits: "offset + ucast sz > (offset AND NOT 3) + 4 \<longleftrightarrow> \<not> ?s + unat sz \<le> 4"
    unfolding word_less_nat_alt using mult_div_mod_eq [of 4 "unat offset"] by linarith
  have "unat ((offset AND 3) * 8) = 8 * ?s" using word by (simp add: unat_word_ariths)
  moreover have "drop_bit (32 - unat sz * 8) (- 1 :: u32) = mask (8 * unat sz)"
    using sz(2) by (intro bit_word_eqI) (auto simp: bit_simps)
  ultimately show ?thesis
    using True fits
    by (simp add: decode_access_def access_legal_def Let_def mult.commute [of "unat sz"] del: insert_iff)
qed (simp add: decode_access_def access_legal_def)

text \<open>The lanes of a store, and the bits it carries.\<close>

lemma store_lanes:
  fixes offset :: u64 and sz :: u8 and v :: u64
  assumes "access_legal offset sz"
  defines "s \<equiv> unat offset mod 4"
  defines "lanes \<equiv> push_bit (8 * s) (mask (8 * unat sz)) :: u32"
  shows "bit lanes j \<longleftrightarrow> 8 * s \<le> j \<and> j < 8 * (s + unat sz)"
    and "bit (push_bit (8 * s) (ucast v) AND lanes) j \<longleftrightarrow> 8 * s \<le> j \<and> j < 8 * (s + unat sz) \<and> bit v (j - 8 * s)"
proof -
  have s: "s + unat sz \<le> 4" using assms(1) by (simp add: access_legal_def s_def)
  show lanes: "bit lanes j \<longleftrightarrow> 8 * s \<le> j \<and> j < 8 * (s + unat sz)"
    using s by (auto simp: lanes_def bit_push_bit_iff bit_mask_iff)
  show "bit (push_bit (8 * s) (ucast v) AND lanes) j
      \<longleftrightarrow> 8 * s \<le> j \<and> j < 8 * (s + unat sz) \<and> bit v (j - 8 * s)"
    using s by (auto simp: bit_and_iff lanes bit_push_bit_iff bit_ucast_iff)
qed

lemma written_bit_lane:
  assumes legal: "access_legal offset sz" and base: "base mod 4 = 0"
  shows "written_bit offset sz v base n
    \<longleftrightarrow> 4 * (unat offset div 4) = base + 4 * (n div 32)
      \<and> bit (push_bit (8 * (unat offset mod 4)) (ucast v) AND
              (push_bit (8 * (unat offset mod 4)) (mask (8 * unat sz)) :: u32)) (n mod 32)"
proof -
  define w s q t r where "w = unat offset div 4" and "s = unat offset mod 4" and "q = n div 32"
    and "t = n mod 32 div 8" and "r = n mod 8"
  have o: "unat offset = 4 * w + s" and sz: "s + unat sz \<le> 4" "unat sz \<noteq> 0"
    using legal by (auto simp: w_def s_def access_legal_def)
  have "t = n div 8 mod 4" using mod_mult2_eq' [of n 8 4] by (simp add: t_def)
  moreover have "q = n div 8 div 4" by (simp add: q_def div_mult2_eq [of n 8 4, simplified])
  moreover have "n mod 32 mod 8 = r" by (simp add: r_def mod_mod_cancel)
  ultimately have n: "n div 8 = 4 * q + t" "n mod 32 = 8 * t + r" "t < 4" "r < 8"
    using mult_div_mod_eq [of 8 "n mod 32"] by (simp_all add: r_def t_def)
  obtain b where b: "base = 4 * b" using base by auto
  have "unat offset \<le> base + n div 8 \<and> base + n div 8 < unat offset + unat sz
      \<longleftrightarrow> w = b + q \<and> s \<le> t \<and> t < s + unat sz"
    unfolding o b n(1) using n(3) sz by (cases w "b + q" rule: linorder_cases) auto
  then have i1: "unat offset \<le> base + n div 8 \<and> base + n div 8 < unat offset + unat sz
      \<longleftrightarrow> 4 * w = base + 4 * q \<and> s \<le> t \<and> t < s + unat sz" by (auto simp: b)
  have i2: "8 * s \<le> 8 * t + r \<and> 8 * t + r < 8 * (s + unat sz) \<longleftrightarrow> s \<le> t \<and> t < s + unat sz"
    using n(4) by auto
  have i3: "bit (ucast (drop_bit (8 * (base + n div 8 - unat offset)) v) :: u8) r = bit v (8 * t + r - 8 * s)"
    if "4 * w = base + 4 * q" "s \<le> t" "t < s + unat sz"
  proof -
    have "base + n div 8 - unat offset = (base + 4 * q) + t - (4 * w + s)" unfolding o n(1) by simp
    also have "\<dots> = t - s" unfolding that(1) [symmetric] by simp
    finally have "base + n div 8 - unat offset = t - s" .
    then show ?thesis using that n(4) by (simp add: bit_ucast_iff bit_drop_bit_eq diff_mult_distrib2)
  qed
  have "written_bit offset sz v base n
      \<longleftrightarrow> (4 * w = base + 4 * q \<and> s \<le> t \<and> t < s + unat sz)
        \<and> bit (ucast (drop_bit (8 * (base + n div 8 - unat offset)) v) :: u8) r"
    unfolding written_bit_def written_byte_def i1 by (auto simp: r_def)
  also have "\<dots> \<longleftrightarrow> 4 * w = base + 4 * q \<and> 8 * s \<le> 8 * t + r \<and> 8 * t + r < 8 * (s + unat sz)
      \<and> bit v (8 * t + r - 8 * s)"
    using i2 i3 by blast
  finally show ?thesis
    unfolding store_lanes(2) [OF legal] by (simp only: w_def s_def q_def n(2))
qed


lemma written_byte_lane:
  assumes legal: "access_legal offset sz"
  defines "lanes \<equiv> push_bit (8 * (unat offset mod 4)) (mask (8 * unat sz)) :: u32"
  shows "4 * (unat offset div 4) = 0x400 + 4 * (n div 4) \<and> lanes AND push_bit (8 * (n mod 4)) 0xff \<noteq> 0
      \<longleftrightarrow> written_byte offset sz v (0x400 + n) \<noteq> None"
    and "4 * (unat offset div 4) = 0x400 + 4 * (n div 4) \<Longrightarrow> written_byte offset sz v (0x400 + n) = Some b
      \<Longrightarrow> ucast (drop_bit (8 * (n mod 4)) (push_bit (8 * (unat offset mod 4)) (ucast v) AND lanes)) = b"
proof -
  define w s q t where "w = unat offset div 4" and "s = unat offset mod 4" and "q = n div 4"
    and "t = n mod 4"
  have o: "unat offset = 4 * w + s" and n: "n = 4 * q + t" and sz: "s + unat sz \<le> 4" "unat sz \<noteq> 0" "t < 4"
    using legal by (auto simp: w_def s_def q_def t_def access_legal_def)
  have lane: "bit (push_bit (8 * t) 0xff :: u32) j \<longleftrightarrow> 8 * t \<le> j \<and> j < 8 * t + 8" for j
    using sz(3) by (auto simp: bit_push_bit_iff lane_bits simp del: push_bit_numeral)
  have meet: "lanes AND push_bit (8 * t) 0xff \<noteq> 0 \<longleftrightarrow> s \<le> t \<and> t < s + unat sz"
  proof -
    have "lanes AND push_bit (8 * t) 0xff \<noteq> 0 \<longleftrightarrow> (\<exists>j. bit (lanes AND push_bit (8 * t) 0xff) j)"
      by (auto intro: bit_word_eqI)
    also have "\<dots> \<longleftrightarrow> (\<exists>j. (8 * s \<le> j \<and> j < 8 * (s + unat sz)) \<and> 8 * t \<le> j \<and> j < 8 * t + 8)"
      unfolding bit_and_iff lane lanes_def store_lanes(1) [OF legal] s_def ..
    also have "\<dots> \<longleftrightarrow> s \<le> t \<and> t < s + unat sz"
    proof
      assume "s \<le> t \<and> t < s + unat sz"
      then show "\<exists>j. (8 * s \<le> j \<and> j < 8 * (s + unat sz)) \<and> 8 * t \<le> j \<and> j < 8 * t + 8"
        by (intro exI [of _ "8 * t"]) simp
    qed auto
    finally show ?thesis .
  qed
  have range: "unat offset \<le> 0x400 + n \<and> 0x400 + n < unat offset + unat sz
      \<longleftrightarrow> 4 * w = 0x400 + 4 * q \<and> s \<le> t \<and> t < s + unat sz"
    unfolding o n using sz by (cases w "0x100 + q" rule: linorder_cases) auto
  show "4 * (unat offset div 4) = 0x400 + 4 * (n div 4) \<and> lanes AND push_bit (8 * (n mod 4)) 0xff \<noteq> 0
      \<longleftrightarrow> written_byte offset sz v (0x400 + n) \<noteq> None"
    using range meet by (simp add: written_byte_def flip: w_def q_def t_def)
  assume e: "4 * (unat offset div 4) = 0x400 + 4 * (n div 4)"
    and b: "written_byte offset sz v (0x400 + n) = Some b"
  then have r: "s \<le> t" "t < s + unat sz" and b: "b = ucast (drop_bit (8 * (0x400 + n - unat offset)) v)"
    using range by (auto simp: written_byte_def split: if_splits)
  have "0x400 + n - unat offset = t - s" unfolding o n using e r by (simp add: w_def q_def)
  then have b: "b = ucast (drop_bit (8 * (t - s)) v)" by (simp add: b)
  show "ucast (drop_bit (8 * (n mod 4)) (push_bit (8 * (unat offset mod 4)) (ucast v) AND lanes)) = b"
    unfolding b t_def [symmetric] lanes_def
  proof (rule bit_word_eqI)
    fix i assume i: "i < LENGTH(8)"
    then have "8 * t + i - 8 * s = 8 * (t - s) + i" using r by (simp add: diff_mult_distrib2)
    with i r show "bit (ucast (drop_bit (8 * t) (push_bit (8 * (unat offset mod 4)) (ucast v)
          AND (push_bit (8 * (unat offset mod 4)) (mask (8 * unat sz)) :: u32))) :: u8) i
        = bit (ucast (drop_bit (8 * (t - s)) v) :: u8) i"
      unfolding bit_ucast_iff bit_drop_bit_eq comp_def
      unfolding store_lanes(2) [OF legal]
      unfolding s_def [symmetric] by auto
  qed
qed


definition gic_view :: "nat \<Rightarrow> 'm distributor \<Rightarrow> bool \<times> u8" where
  "gic_view i d = (di_enabled d ! i, di_priority d ! i)"

definition gic_two :: "'m distributor \<Rightarrow> bool" where
  "gic_two d \<longleftrightarrow> length (di_owned d) = 2 \<and> length (di_enabled d) = 2 \<and> length (di_priority d) = 2"

lemma word_mask_written:
  fixes offset :: u64 and base :: u64
  assumes legal: "access_legal offset sz" and irq: "irq < 1020" and base: "unat base < 0x400" "unat base mod 4 = 0"
  shows "(push_bit (8 * (unat offset mod 4)) (ucast v) AND
      (push_bit (8 * (unat offset mod 4)) (mask (8 * unat sz)) :: u32)) AND word_mask irq (offset AND NOT 3) base \<noteq> 0
    \<longleftrightarrow> written_bit offset sz v (unat base) (unat irq)"
proof -
  have "unat irq < 1020" using irq by (simp add: word_less_nat_alt)
  then have "unat (base + irq_word 32 irq) = unat base + 4 * (unat irq div 32)"
    using irq_word(1) [OF irq, of 32] base(1) by (subst unat_add_no_overflow) auto
  then have "offset AND NOT 3 = base + irq_word 32 irq \<longleftrightarrow> 4 * (unat offset div 4) = unat base + 4 * (unat irq div 32)"
    unfolding word_unat_eq_iff word_of_offset by simp
  then show ?thesis
    using written_bit_lane [OF legal base(2), of v "unat irq"] irq
    unfolding word_mask_eq by (simp add: masked_bit_iff del: push_bit_of_1)
qed

lemma shadow_write_view:
  fixes offset :: u64 and v :: u64
  assumes legal: "access_legal offset sz" and two: "gic_two d" and i: "i < 2" "di_owned d ! i < 1020"
  defines "lanes \<equiv> push_bit (8 * (unat offset mod 4)) (mask (8 * unat sz)) :: u32"
  shows "gic_view i (shadow_write (offset AND NOT 3) lanes (push_bit (8 * (unat offset mod 4)) (ucast v) AND lanes) i d)
    = virtual_write (unat (di_owned d ! i)) offset sz v (gic_view i d)"
proof -
  let ?irq = "di_owned d ! i" and ?u = "push_bit (8 * (unat offset mod 4)) (ucast v) AND lanes"
  have len: "i < length (di_enabled d)" "i < length (di_priority d)" using two i(1) by (simp_all add: gic_two_def)
  have e: "?u AND word_mask ?irq (offset AND NOT 3) GICD_ISENABLER0 \<noteq> 0 \<longleftrightarrow> written_bit offset sz v 0x100 (unat ?irq)"
    "?u AND word_mask ?irq (offset AND NOT 3) GICD_ICENABLER0 \<noteq> 0 \<longleftrightarrow> written_bit offset sz v 0x180 (unat ?irq)"
    using word_mask_written [OF legal i(2), of GICD_ISENABLER0 v]
      word_mask_written [OF legal i(2), of GICD_ICENABLER0 v] by (simp_all add: lanes_def)
  have s: "unat (?irq mod 4 * 8) = 8 * (unat ?irq mod 4)" by (simp add: unat_word_ariths unat_mod)
  have "unat ?irq < 1020" using i(2) by (simp add: word_less_nat_alt)
  then have "unat (GICD_IPRIORITYR0 + irq_word 4 ?irq) = 0x400 + 4 * (unat ?irq div 4)"
    using irq_word(1) [OF i(2), of 4] by (subst unat_add_no_overflow) auto
  then have w: "offset AND NOT 3 = GICD_IPRIORITYR0 + irq_word 4 ?irq
      \<longleftrightarrow> 4 * (unat offset div 4) = 0x400 + 4 * (unat ?irq div 4)"
    unfolding word_unat_eq_iff word_of_offset by simp
  note p = written_byte_lane [OF legal, of "unat ?irq" v, folded lanes_def]
  have pri: "di_priority (shadow_write (offset AND NOT 3) lanes ?u i d) ! i
      = (case written_byte offset sz v (0x400 + unat ?irq) of None \<Rightarrow> di_priority d ! i | Some b \<Rightarrow> b AND 0xf8)"
  proof (cases "4 * (unat offset div 4) = 0x400 + 4 * (unat ?irq div 4) \<and> lanes AND push_bit (8 * (unat ?irq mod 4)) 0xff \<noteq> 0")
    case True
    then obtain b where b: "written_byte offset sz v (0x400 + unat ?irq) = Some b" using p(1) by auto
    from True p(2) [OF conjunct1 [OF True] b] show ?thesis
      using w len i(2) by (simp add: shadow_write_def Let_def s b flip: irq_word_def)
  next
    case False
    then have "written_byte offset sz v (0x400 + unat ?irq) = None" using p(1) by auto
    with False show ?thesis
      using w by (auto simp: shadow_write_def Let_def s simp flip: irq_word_def)
  qed
  have en: "di_enabled (shadow_write w l u i d) ! i
      = ((di_enabled d ! i \<or> u AND word_mask ?irq w GICD_ISENABLER0 \<noteq> 0)
          \<and> \<not> u AND word_mask ?irq w GICD_ICENABLER0 \<noteq> 0)" for w l u
    unfolding shadow_write_def Let_def
    by (cases "?irq < 1020 \<and> w = GICD_IPRIORITYR0 + ucast (?irq div 4) * 4";
        cases "u AND word_mask ?irq w GICD_ISENABLER0 \<noteq> 0"; cases "u AND word_mask ?irq w GICD_ICENABLER0 \<noteq> 0";
        use len in \<open>simp only: if_True if_False; simp\<close>)
  have "di_enabled (shadow_write (offset AND NOT 3) lanes ?u i d) ! i
      = ((di_enabled d ! i \<or> written_bit offset sz v 0x100 (unat ?irq)) \<and> \<not> written_bit offset sz v 0x180 (unat ?irq))"
    by (simp only: en e)
  then show ?thesis using legal by (simp only: gic_view_def virtual_write_def pri prod.case if_True)
qed


lemma shadow_write_other:
  "i \<noteq> j \<Longrightarrow> gic_view i (shadow_write w l u j d) = gic_view i d"
  by (simp add: shadow_write_def gic_view_def Let_def)

lemma gic_two_shadow: "gic_two d \<Longrightarrow> gic_two (shadow_write w l u i d)"
  by (simp add: gic_two_def)

lemma distributor_write_view:
  assumes o: "unat offset < 0x10000" and two: "gic_two d" and i: "i < 2" "di_owned d ! i < 1020"
  shows "gic_view i (snd (distributor_write ops offset sz v d))
      = virtual_write (unat (di_owned d ! i)) offset sz v (gic_view i d)"
    and "gic_two (snd (distributor_write ops offset sz v d))"
    and "di_owned (snd (distributor_write ops offset sz v d)) = di_owned d"
proof -
  have all: "gic_view i (snd (distributor_write ops offset sz v d))
      = virtual_write (unat (di_owned d ! i)) offset sz v (gic_view i d)
    \<and> gic_two (snd (distributor_write ops offset sz v d))
    \<and> di_owned (snd (distributor_write ops offset sz v d)) = di_owned d"
  proof (cases "access_legal offset sz")
    case True
    define lanes u d1 where "lanes = (push_bit (8 * (unat offset mod 4)) (mask (8 * unat sz)) :: u32)"
      and "u = push_bit (8 * (unat offset mod 4)) (ucast v) AND lanes"
      and "d1 = fold (shadow_write (offset AND NOT 3) lanes u) [0..<length (di_owned d)] d"
    have n: "[0..<length (di_owned d)] = [0, 1]" using two by (simp add: gic_two_def upt_rec)
    note w = shadow_write_view [OF True _ i(1), where v = v, folded lanes_def, folded u_def]
    have "i = 0 \<or> i = 1" using i(1) by auto
    then have "gic_view i d1 = virtual_write (unat (di_owned d ! i)) offset sz v (gic_view i d)"
      using w [OF two] w [OF gic_two_shadow [OF two]] i(2)
      by (auto simp: d1_def n shadow_write_other simp del: One_nat_def)
    moreover have "gic_two d1" using two by (simp add: d1_def n gic_two_shadow)
    moreover have "di_enabled (snd (distributor_write ops offset sz v d)) = di_enabled d1
        \<and> di_priority (snd (distributor_write ops offset sz v d)) = di_priority d1
        \<and> di_owned (snd (distributor_write ops offset sz v d)) = di_owned d1"
      unfolding distributor_write_def decode_access_legal [OF o] if_P [OF True] sum.case prod.case Let_def
      unfolding lanes_def [symmetric] u_def [symmetric] d1_def [symmetric]
      by (simp split: prod.split)
    ultimately show ?thesis by (simp add: gic_view_def gic_two_def) (simp add: d1_def)
  next
    case False
    then show ?thesis using two
      by (simp add: distributor_write_def decode_access_legal [OF o] virtual_write_def split: prod.split)
  qed
  then show "gic_view i (snd (distributor_write ops offset sz v d))
      = virtual_write (unat (di_owned d ! i)) offset sz v (gic_view i d)"
    "gic_two (snd (distributor_write ops offset sz v d))"
    "di_owned (snd (distributor_write ops offset sz v d)) = di_owned d" by blast+
qed

lemma distributor_read_view:
  "gic_view i (snd (distributor_read ops offset sz d)) = gic_view i d"
  "di_owned (snd (distributor_read ops offset sz d)) = di_owned d"
  "gic_two (snd (distributor_read ops offset sz d)) = gic_two d"
  by (simp_all add: distributor_read_def guest_word_def gic_view_def gic_two_def Let_def
      split: sum.split prod.split)


definition gic_apart_irqs :: "'m distributor \<Rightarrow> bool" where
  "gic_apart_irqs d \<longleftrightarrow> di_owned d ! 0 = di_owned d ! 1 \<longrightarrow> \<not> di_owned d ! 0 < 1020"

lemma irq_word_inj:
  assumes "a < 1020" "b < 1020" "irq_word k a = irq_word k b" "k \<in> {4, 16, 32}" "unat a mod unat k = unat b mod unat k"
  shows "a = b"
proof -
  have "unat a div unat k = unat b div unat k"
    using irq_word(1) [OF assms(1,4)] irq_word(1) [OF assms(2,4)] assms(3) by simp
  with assms(5) show ?thesis by (metis mult_div_mod_eq word_unat_eq_iff)
qed

definition enable_step :: "'m distributor \<Rightarrow> u64 \<Rightarrow> nat \<Rightarrow> u32 \<Rightarrow> u32" where
  "enable_step d offset k v =
     (if di_enabled d ! k
      then v OR word_mask (di_owned d ! k) offset GICD_ISENABLER0 OR word_mask (di_owned d ! k) offset GICD_ICENABLER0
      else v)"

definition priority_step :: "'m distributor \<Rightarrow> u64 \<Rightarrow> nat \<Rightarrow> u32 \<Rightarrow> u32" where
  "priority_step d offset k v =
     (if di_owned d ! k < 1020 \<and> offset = GICD_IPRIORITYR0 + irq_word 4 (di_owned d ! k)
      then (v AND NOT (push_bit (8 * (unat (di_owned d ! k) mod 4)) 0xff))
           OR push_bit (8 * (unat (di_owned d ! k) mod 4)) (ucast (di_priority d ! k))
      else v)"

lemma guest_word_steps:
  assumes "gic_two d" and "offset \<noteq> 0"
  shows "\<exists>m. guest_word ops offset d =
    (let v = fst (mmio_read32 ops (gl_distributor (di_layout d) + offset) (di_mmio d));
         v = (if offset \<in> {GICD_ISENABLER0, GICD_ICENABLER0, GICD_ISPENDR0, GICD_ICPENDR0,
                           GICD_ISACTIVER0, GICD_ICACTIVER0} then v AND NOT MAINTENANCE_BIT else v);
         v = (if owned_action_mask d offset \<noteq> 0
              then enable_step d offset 1 (enable_step d offset 0 (v AND NOT (owned_action_mask d offset))) else v)
     in priority_step d offset 1 (priority_step d offset 0 v), d\<lparr>di_mmio := m\<rparr>)"
proof -
  have n: "[0..<length (di_owned d)] = [0, 1]" using assms(1) by (simp add: gic_two_def upt_rec)
  have s: "unat (irq mod 4 * 8) = 8 * (unat irq mod 4)" for irq :: u32
    by (simp add: unat_word_ariths unat_mod)
  obtain v0 m where r: "mmio_read32 ops (gl_distributor (di_layout d) + offset) (di_mmio d) = (v0, m)"
    by fastforce
  have o: "offset \<noteq> GICD_CTLR" using assms(2) by simp
  have e: "(\<lambda>k v. if di_enabled d ! k
        then v OR word_mask (di_owned d ! k) offset GICD_ISENABLER0
               OR word_mask (di_owned d ! k) offset GICD_ICENABLER0 else v) = enable_step d offset"
    by (simp only: fun_eq_iff enable_step_def simp_thms)
  have p: "(\<lambda>k v. let irq = di_owned d ! k
        in if irq < 1020 \<and> offset = GICD_IPRIORITYR0 + ucast (irq div 4) * 4
           then let shift = unat ((irq mod 4) * 8)
             in (v AND NOT (push_bit shift 0xff)) OR push_bit shift (ucast (di_priority d ! k))
           else v) = priority_step d offset"
    by (simp only: fun_eq_iff priority_step_def Let_def irq_word_def s simp_thms)
  show ?thesis
    unfolding guest_word_def n r prod.case if_not_P [OF o] e p
    unfolding fst_conv Let_def fold.simps comp_def id_def
    by (intro exI [of _ m] refl)
qed

lemma priority_step_bit:
  assumes "t < 4" "j < 8"
  shows "bit (priority_step d offset k v) (8 * t + j)
    = (if di_owned d ! k < 1020 \<and> offset = GICD_IPRIORITYR0 + irq_word 4 (di_owned d ! k)
          \<and> unat (di_owned d ! k) mod 4 = t
       then bit (di_priority d ! k) j else bit v (8 * t + j))"
proof -
  let ?s = "unat (di_owned d ! k) mod 4"
  have l: "bit (push_bit (8 * ?s) 0xff :: u32) (8 * t + j) \<longleftrightarrow> ?s = t"
    using assms lane_shift_bits(1) [of t j] by (auto simp: bit_push_bit_iff lane_bits simp del: push_bit_numeral)
  have "bit (push_bit (8 * ?s) (ucast (di_priority d ! k)) :: u32) (8 * t + j)
      \<longleftrightarrow> ?s = t \<and> bit (di_priority d ! k) j"
  proof (cases ?s t rule: linorder_cases)
    case less
    then have "8 \<le> 8 * t + j - 8 * ?s" by simp
    then show ?thesis using less bit_imp_le_length [of "di_priority d ! k" "8 * t + j - 8 * ?s"]
      by (auto simp: bit_push_bit_iff bit_ucast_iff)
  qed (use assms in \<open>auto simp: bit_push_bit_iff bit_ucast_iff\<close>)
  moreover have "bit (v AND NOT (push_bit (8 * ?s) 0xff)) (8 * t + j) \<longleftrightarrow> bit v (8 * t + j) \<and> ?s \<noteq> t"
    using assms l by (simp only: bit_and_iff bit_not_iff possible_bit_word) (auto dest: bit_imp_le_length)
  ultimately show ?thesis
    unfolding priority_step_def
    by (cases "di_owned d ! k < 1020 \<and> offset = GICD_IPRIORITYR0 + irq_word 4 (di_owned d ! k)"; cases "?s = t";
        simp only: if_True if_False bit_or_iff simp_thms)
qed

lemma guest_priority:
  assumes two: "gic_two d" "gic_apart_irqs d" and i: "i < 2" "di_owned d ! i < 1020"
  shows "fst (distributor_read ops (GICD_IPRIORITYR0 + ucast (di_owned d ! i)) 1 d) = Inr (ucast (di_priority d ! i))"
proof -
  let ?irq = "di_owned d ! i" and ?o = "GICD_IPRIORITYR0 + ucast (di_owned d ! i)"
  have n: "unat ?irq < 1020" using i(2) by (simp add: word_less_nat_alt)
  have o: "unat ?o = 0x400 + unat ?irq"
    using n by (subst unat_add_no_overflow) (simp_all add: unsigned_ucast_eq take_bit_nat_eq_self)
  have legal: "access_legal ?o 1" by (simp add: access_legal_def)
  have m4: "unat ?o mod 4 = unat ?irq mod 4" unfolding o by (simp add: mod_add_left_eq [symmetric])
  have w: "?o AND NOT 3 = GICD_IPRIORITYR0 + irq_word 4 ?irq"
  proof -
    have "unat (GICD_IPRIORITYR0 + irq_word 4 ?irq) = 0x400 + 4 * (unat ?irq div 4)"
      using irq_word(1) [OF i(2), of 4] n by (subst unat_add_no_overflow) auto
    moreover have "4 * ((0x400 + unat ?irq) div 4) = 0x400 + 4 * (unat ?irq div 4)"
      by (simp add: div_plus_div_distrib_dvd_left)
    ultimately show ?thesis unfolding word_unat_eq_iff word_of_offset o by (simp only:)
  qed
  let ?w = "GICD_IPRIORITYR0 + irq_word 4 ?irq"
  have ne: "?w \<noteq> 0" unfolding w [symmetric] word_unat_eq_iff word_of_offset o by simp
  have bits: "bit (priority_step d ?w 1 (priority_step d ?w 0 v)) (8 * (unat ?irq mod 4) + j) = bit (di_priority d ! i) j"
    if j: "j < 8" for j v
  proof -
    have t: "unat ?irq mod 4 < 4" by simp
    have other: "k = i" if "k < 2" "di_owned d ! k < 1020" "irq_word 4 ?irq = irq_word 4 (di_owned d ! k)"
      "unat (di_owned d ! k) mod 4 = unat ?irq mod 4" for k
    proof (rule ccontr)
      assume "k \<noteq> i"
      have "di_owned d ! k = ?irq" using irq_word_inj [OF that(2) i(2) that(3) [symmetric]] that(4) by simp
      with two(2) \<open>k \<noteq> i\<close> that(1,2) i show False
        by (auto simp: gic_apart_irqs_def less_2_cases_iff)
    qed
    have "i = 0 \<or> i = 1" using i(1) by auto
    then show ?thesis
      using other [of 0] other [of 1] i(2)
      unfolding priority_step_bit [OF t j] by auto
  qed
  obtain v m where "guest_word ops ?w d = (priority_step d ?w 1 (priority_step d ?w 0 v), d\<lparr>di_mmio := m\<rparr>)"
    using guest_word_steps [OF two(1) ne, of ops] by (metis (no_types))
  moreover have "drop_bit (8 * (unat ?irq mod 4)) (x AND push_bit (8 * (unat ?irq mod 4)) (mask 8)) = ucast (di_priority d ! i)"
    if "\<And>j. j < 8 \<Longrightarrow> bit x (8 * (unat ?irq mod 4) + j) = bit (di_priority d ! i) j" for x :: u32
  proof -
    have "8 * (unat ?irq mod 4) + n < 32" if "n < 8" for n using that mod_less_divisor [of 4 "unat ?irq"] by linarith
    then show ?thesis
      using that bit_imp_le_length [of "di_priority d ! i"] by (intro bit_word_eqI) (auto simp: bit_simps)
  qed
  ultimately have g: "guest_word ops ?w d = (priority_step d ?w 1 (priority_step d ?w 0 v), d\<lparr>di_mmio := m\<rparr>)"
    and "drop_bit (8 * (unat ?irq mod 4)) (priority_step d ?w 1 (priority_step d ?w 0 v)
          AND push_bit (8 * (unat ?irq mod 4)) (mask 8)) = ucast (di_priority d ! i)"
    using bits by blast+
  then have "ucast (drop_bit (8 * (unat ?irq mod 4)) (priority_step d ?w 1 (priority_step d ?w 0 v)
          AND push_bit (8 * (unat ?irq mod 4)) (mask 8))) = (ucast (di_priority d ! i) :: u64)"
    by (simp only:) (rule bit_word_eqI, auto simp: bit_ucast_iff dest: bit_imp_le_length)
  moreover have "unat ?o < 0x10000" using o n by simp
  moreover have "8 * unat (1 :: u8) = 8" by simp
  ultimately show ?thesis
    by (simp only: distributor_read_def decode_access_legal if_P [OF legal] sum.case prod.case m4 w g fst_conv)
qed

lemma enable_step_bit:
  "bit (enable_step d offset k v) j
    \<longleftrightarrow> bit v j \<or> di_enabled d ! k \<and> di_owned d ! k < 1020 \<and> j = unat (di_owned d ! k) mod 32
      \<and> (offset = GICD_ISENABLER0 + irq_word 32 (di_owned d ! k) \<or> offset = GICD_ICENABLER0 + irq_word 32 (di_owned d ! k))"
  by (auto simp: enable_step_def bit_or_iff word_mask_bit)

lemma guest_action:
  assumes two: "gic_two d" "gic_apart_irqs d" and i: "i < 2" "di_owned d ! i < 1020" and base: "base \<in> set action_bases"
  shows "\<exists>w. fst (distributor_read ops (base + irq_word 32 (di_owned d ! i)) 4 d) = Inr w
    \<and> (bit w (unat (di_owned d ! i) mod 32) \<longleftrightarrow> base \<in> {GICD_ISENABLER0, GICD_ICENABLER0} \<and> di_enabled d ! i)"
proof -
  define irq offset where "irq = di_owned d ! i" and "offset = base + irq_word 32 irq"
  have irq: "irq < 1020" "unat irq < 1020" using i(2) by (simp_all add: irq_def word_less_nat_alt)
  have b: "unat base \<in> {0x80, 0x100, 0x180, 0x200, 0x280, 0x300, 0x380}"
    using base by (auto simp: action_bases_def)
  have o: "unat offset = unat base + 4 * (unat irq div 32)" "unat offset < 0x400" "unat offset \<ge> 0x80"
  proof -
    show "unat offset = unat base + 4 * (unat irq div 32)"
      unfolding offset_def using irq_word(1) [OF irq(1), of 32] irq b by (subst unat_add_no_overflow) auto
    with b irq show "unat offset < 0x400" "unat offset \<ge> 0x80" by auto
  qed
  have m4: "unat offset mod 4 = 0" unfolding o using b by auto
  then have legal: "access_legal offset 4" by (simp add: access_legal_def)
  have "unat (offset AND NOT 3) = unat offset" using m4 unfolding word_of_offset by auto
  then have w: "offset AND NOT 3 = offset" by (simp add: word_unat_eq_iff)
  have ne: "offset \<noteq> 0" using o(3) by auto
  have pri: "priority_step d offset k v = v" for k v
  proof -
    have "unat (GICD_IPRIORITYR0 + irq_word 4 (di_owned d ! k)) \<ge> 0x400" if k: "di_owned d ! k < 1020"
      using irq_word [OF k, of 4] by (subst unat_add_no_overflow) auto
    then show ?thesis using o(2) by (auto simp: priority_step_def)
  qed
  have "irq \<in> set (di_owned d)" using two(1) i(1) by (auto simp: irq_def gic_two_def)
  then have own: "bit (owned_action_mask d offset) (unat irq mod 32)"
    using irq(1) unfolding offset_def owned_action_mask [OF base irq_word_less [OF irq(1)]]
    by (auto simp: owned_word_mask_bit)
  then have nz: "owned_action_mask d offset \<noteq> 0" by auto
  have at: "(offset = GICD_ISENABLER0 + irq_word 32 (di_owned d ! k)
        \<or> offset = GICD_ICENABLER0 + irq_word 32 (di_owned d ! k)) \<and> unat irq mod 32 = unat (di_owned d ! k) mod 32
      \<longleftrightarrow> base \<in> {GICD_ISENABLER0, GICD_ICENABLER0} \<and> k = i"
    if k: "k < 2" "di_owned d ! k < 1020" for k
  proof
    assume a: "(offset = GICD_ISENABLER0 + irq_word 32 (di_owned d ! k)
        \<or> offset = GICD_ICENABLER0 + irq_word 32 (di_owned d ! k)) \<and> unat irq mod 32 = unat (di_owned d ! k) mod 32"
    then obtain e where e: "e \<in> {GICD_ISENABLER0, GICD_ICENABLER0}" "base + irq_word 32 irq = e + irq_word 32 (di_owned d ! k)"
      by (auto simp: offset_def)
    then have "base = e" using action_bases_apart [OF base _ e(2)] irq_word_less irq(1) k(2)
      by (auto simp: action_bases_def)
    with e(2) have "irq_word 32 irq = irq_word 32 (di_owned d ! k)" by simp
    then have "irq = di_owned d ! k" using irq_word_inj [OF irq(1) k(2)] a by simp
    then have "k = i" using two(2) k i by (auto simp: gic_apart_irqs_def less_2_cases_iff irq_def)
    with e(1) \<open>base = e\<close> show "base \<in> {GICD_ISENABLER0, GICD_ICENABLER0} \<and> k = i" by simp
  qed (auto simp: offset_def irq_def)
  obtain v m where g: "guest_word ops offset d
      = (enable_step d offset 1 (enable_step d offset 0 (v AND NOT (owned_action_mask d offset))), d\<lparr>di_mmio := m\<rparr>)"
    using guest_word_steps [OF two(1) ne, of ops] by (auto simp only: pri if_P [OF nz] Let_def)
  let ?v = "enable_step d offset 1 (enable_step d offset 0 (v AND NOT (owned_action_mask d offset)))"
  have "i = 0 \<or> i = 1" using i(1) by auto
  then have v: "bit ?v (unat irq mod 32) \<longleftrightarrow> base \<in> {GICD_ISENABLER0, GICD_ICENABLER0} \<and> di_enabled d ! i"
    using at [of 0] at [of 1] i(2) own
    unfolding enable_step_bit bit_and_iff bit_not_iff by (auto simp del: One_nat_def)
  have "fst (distributor_read ops offset 4 d) = Inr (ucast ?v)"
    using o(2) unfolding distributor_read_def
    by (subst decode_access_legal) (simp_all only: if_P [OF legal] sum.case prod.case w g m4,
        simp_all add: take_bit_word_eq_self flip: take_bit_eq_mask)
  moreover have "bit (ucast ?v :: u64) (unat irq mod 32) = bit ?v (unat irq mod 32)"
    unfolding bit_ucast_iff using less_trans [OF mod_less_divisor, of 32 64 "unat irq"] by simp
  ultimately show ?thesis using v by (auto simp: offset_def irq_def)
qed



section \<open>Properties\<close>

definition gic_boot ::
  "'m mmio_ops \<Rightarrow> gic_layout \<Rightarrow> u32 option \<Rightarrow> u32 option \<Rightarrow> 'm \<Rightarrow> 'm distributor" where
  "gic_boot ops layout usb network m =
     distributor_initialize ops (set_network_interrupt network (set_owned_interrupt usb (distributor_new m layout)))"

definition gic_runs ::
  "u64 \<Rightarrow> (u64 \<times> u64 \<times> u64) list \<Rightarrow> u64 list \<times> registers distributor \<Rightarrow> u64 list \<times> registers distributor" where
  "gic_runs base aborts = (\<lambda>s. foldl (\<lambda>(registers, d) (esr, far, hpfar).
     snd (emulate (distributor_device (gic_hardware base)) esr far hpfar registers d)) s aborts)"

lemma gic_boot_simps [simp]:
  "di_layout (gic_boot ops layout usb network m) = layout"
  "di_owned (gic_boot ops layout usb network m) = [spi_or_spurious usb, spi_or_spurious network]"
  "di_enabled (gic_boot ops layout usb network m) = [False, False]"
  "di_priority (gic_boot ops layout usb network m) = [DEFAULT_OWNED_PRIORITY, DEFAULT_OWNED_PRIORITY]"
  by (simp_all add: gic_boot_def distributor_initialize_def set_network_interrupt_def set_owned_interrupt_def
      distributor_new_def Let_def split: prod.split)

lemma gic_boot_mmio:
  fixes layout :: gic_layout
  defines "base \<equiv> gl_distributor layout"
  shows "\<exists>c. di_mmio (gic_boot (gic_hardware (gl_distributor layout)) layout usb network m) = m(base := c) \<and> bit c 0"
proof -
  have "gic_register_write base base v m = m(base := v)" for v
    by (simp add: gic_register_write_def gic_slot_simps Let_def)
  then show ?thesis
    unfolding base_def
    by (intro exI [of _ "m base AND 1 OR 1"])
       (simp add: gic_boot_def distributor_initialize_def set_network_interrupt_def set_owned_interrupt_def
        distributor_new_def Let_def gic_hardware_def gic_slot_def clear_register_def base_def bit_or_iff bit_1_iff)
qed

lemma gic_kept_refl: "gic_kept d d"
  by (simp add: gic_kept_def)

text \<open>
  C28: Whatever the guest does, the physical distributor stays enabled, and the group, enable, pending and
  active bits, the priority and the configuration of the maintenance interrupt, and those and the target
  of an interrupt the monitor owns, stay as they were before the monitor took the distributor over.
\<close>

theorem gic_interrupts_protected:
  fixes layout :: gic_layout
  assumes "usb = Some irq \<or> network = Some irq" and "32 \<le> irq" and "irq < 1020"
  shows "let base = gl_distributor layout;
      m' = di_mmio (snd (gic_runs base aborts (registers, gic_boot (gic_hardware base) layout usb network m)))
    in bit (m' base) 0 \<and> irq_state base MAINTENANCE_IRQ m' = irq_state base MAINTENANCE_IRQ m
      \<and> irq_state base irq m' = irq_state base irq m \<and> irq_target base irq m' = irq_target base irq m"
proof -
  define base where "base = gl_distributor layout"
  let ?boot = "gic_boot (gic_hardware base) layout usb network m" and ?d = "\<lambda>d. snd (gic_runs base aborts (registers, d))"
  define pre where "pre = ?boot\<lparr>di_mmio := m\<rparr>"
  obtain c where c: "di_mmio ?boot = m(base := c)" "bit c 0"
    using gic_boot_mmio [of layout usb network m] by (auto simp: base_def)
  have "gic_kept pre ?boot"
    using c by (auto simp: gic_kept_def pre_def base_def guarded_def)
  then have kept: "gic_kept pre (?d ?boot)"
    unfolding gic_runs_def using gic.emulate_run_keeps [of pre ?boot] by (simp add: pre_def base_def)
  have "gic_kept ?boot (?d ?boot)"
    unfolding gic_runs_def using gic.emulate_run_keeps [OF gic_kept_refl, of ?boot] by (simp add: base_def)
  then have "bit (di_mmio (?d ?boot) base) 0" using c by (simp add: gic_kept_def base_def)
  moreover have "irq \<in> set (di_owned pre)" using assms by (auto simp: pre_def spi_or_spurious_def)
  moreover have "MAINTENANCE_IRQ < 1020" by simp
  ultimately show ?thesis
    using kept_interrupt [OF kept, of irq] kept_interrupt(1) [OF kept, of MAINTENANCE_IRQ] assms(3)
    by (simp add: pre_def base_def Let_def)
qed

theorem gic_interrupts_protected_witness:
  "let base = gl_distributor TEGRA210;
       m' = di_mmio (snd (gic_runs base [(0x93800046, 0x188, 0x500410)]
              ([0, 0xffffffff], gic_boot (gic_hardware base) TEGRA210 (Some 76) (Some 71) (\<lambda>_. 0))))
   in bit (m' base) 0 \<and> irq_state base MAINTENANCE_IRQ m' = irq_state base MAINTENANCE_IRQ (\<lambda>_. 0)
      \<and> irq_state base 76 m' = irq_state base 76 (\<lambda>_. 0) \<and> irq_target base 76 m' = irq_target base 76 (\<lambda>_. 0)"
  by (rule gic_interrupts_protected) simp_all

text \<open>
  C29: For an interrupt the monitor owns the guest has an enable bit and a priority byte of its own, and
  nothing else.  After any run of accesses they are what the bytes it stored make of them, and the guest
  reads them back; its pending, active and group bits read as zero.  The hardware, a parameter, has no
  influence on any of this.
\<close>

fun gic_accesses ::
  "'m mmio_ops \<Rightarrow> (u64 \<times> u8 \<times> u64 option) list \<Rightarrow> 'm distributor \<Rightarrow> 'm distributor" where
  "gic_accesses ops [] d = d"
| "gic_accesses ops ((offset, sz, None) # as) d = gic_accesses ops as (snd (distributor_read ops offset sz d))"
| "gic_accesses ops ((offset, sz, Some v) # as) d = gic_accesses ops as (snd (distributor_write ops offset sz v d))"

fun virtual_accesses :: "nat \<Rightarrow> (u64 \<times> u8 \<times> u64 option) list \<Rightarrow> bool \<times> u8 \<Rightarrow> bool \<times> u8" where
  "virtual_accesses n [] s = s"
| "virtual_accesses n ((offset, sz, None) # as) s = virtual_accesses n as s"
| "virtual_accesses n ((offset, sz, Some v) # as) s = virtual_accesses n as (virtual_write n offset sz v s)"


lemma gic_accesses_view:
  assumes "\<forall>(offset, sz, v) \<in> set as. unat offset < 0x10000" and "gic_two d" and "i < 2" "di_owned d ! i < 1020"
  shows "gic_view i (gic_accesses ops as d) = virtual_accesses (unat (di_owned d ! i)) as (gic_view i d)
    \<and> gic_two (gic_accesses ops as d) \<and> di_owned (gic_accesses ops as d) = di_owned d"
  using assms
proof (induction ops as d rule: gic_accesses.induct)
  case (2 ops offset sz as d)
  then show ?case by (simp add: distributor_read_view)
next
  case (3 ops offset sz v as d)
  from 3(2) have o: "unat offset < 0x10000" by simp
  note w = distributor_write_view [OF o 3(3-5), of ops sz v]
  show ?case using 3 w by simp
qed simp

theorem gic_owned_interrupt_virtual:
  fixes ops :: "'m mmio_ops" and layout :: gic_layout and m :: 'm
  assumes "usb \<noteq> network" and "usb = Some irq \<and> i = 0 \<or> network = Some irq \<and> i = 1"
    and "32 \<le> irq" and "irq < 1020" and "\<forall>(offset, sz, v) \<in> set as. unat offset < 0x10000"
  defines "d \<equiv> gic_accesses ops as (gic_boot ops layout usb network m)"
  shows "(di_enabled d ! i, di_priority d ! i) = virtual_accesses (unat irq) as (False, DEFAULT_OWNED_PRIORITY)
    \<and> fst (distributor_read ops (GICD_IPRIORITYR0 + ucast irq) 1 d) = Inr (ucast (di_priority d ! i))
    \<and> list_all (\<lambda>base. \<exists>w. fst (distributor_read ops (base + irq_word 32 irq) 4 d) = Inr w
        \<and> (bit w (unat irq mod 32) \<longleftrightarrow> base \<in> {GICD_ISENABLER0, GICD_ICENABLER0} \<and> di_enabled d ! i)) action_bases"
proof -
  let ?boot = "gic_boot ops layout usb network m"
  have i: "i < 2" "di_owned ?boot ! i = irq" using assms(2-4) by (auto simp: spi_or_spurious_def)
  have two: "gic_two ?boot" by (simp add: gic_two_def)
  have apart: "gic_apart_irqs ?boot"
    using assms(1) by (auto simp: gic_apart_irqs_def spi_or_spurious_def split: option.splits)
  from gic_accesses_view [OF assms(5) two i(1), of ops, unfolded i(2), OF assms(4), folded d_def]
  have d: "gic_view i d = virtual_accesses (unat irq) as (gic_view i ?boot)" "gic_two d" "di_owned d = di_owned ?boot"
    by blast+
  have "gic_view i ?boot = (False, DEFAULT_OWNED_PRIORITY)"
    using i(1) by (auto simp: gic_view_def less_2_cases_iff)
  moreover have a: "gic_apart_irqs d" "di_owned d ! i = irq" using apart i(2) d(3) by (simp_all add: gic_apart_irqs_def)
  ultimately show ?thesis
    using d guest_priority [OF d(2) a(1) i(1), of ops, unfolded a(2), OF assms(4)]
      guest_action [OF d(2) a(1) i(1), of _ ops, unfolded a(2), OF assms(4)]
    unfolding list_all_iff by (simp only: gic_view_def) blast
qed

text \<open>The guest enables interrupt 76 and gives it priority \<open>0xe3\<close>, of which five bits remain.\<close>

theorem gic_owned_interrupt_virtual_witness:
  "virtual_accesses 76 [(0x108, 4, Some 0x1000), (0x44c, 1, Some 0xe3)] (False, DEFAULT_OWNED_PRIORITY)
     = (True, 0xe0)
   \<and> di_enabled (gic_accesses (gic_hardware 0) [(0x108, 4, Some 0x1000), (0x44c, 1, Some 0xe3)]
        (gic_boot (gic_hardware 0) TEGRA210 (Some 76) (Some 71) (\<lambda>_. 0))) ! 0"
proof -
  have v: "virtual_accesses 76 [(0x108, 4, Some 0x1000), (0x44c, 1, Some 0xe3)] (False, DEFAULT_OWNED_PRIORITY)
     = (True, 0xe0)"
    by code_simp
  then show ?thesis
    using gic_owned_interrupt_virtual [of "Some 76" "Some 71" 76 0
        "[(0x108, 4, Some 0x1000), (0x44c, 1, Some 0xe3)]" "gic_hardware 0" TEGRA210 "\<lambda>_. 0"]
    by simp
qed

end
