(* ===== verification/Gic_Driver.thy ===== *)
theory Gic_Driver
  imports Vgic Ring "HOL-Library.Multiset"
begin

unbundle bit_operations_syntax

text \<open>
  \<open>drivers/interrupt/gicv2.rs\<close>: the physical interrupt controller.  The monitor acknowledges every
  interrupt and forwards it to the guest through a list register; what does not fit waits in an array with
  one slot for each interrupt, or each source of a software interrupt.  \<open>None\<close> is a panic: an index out of
  range, or a counter that would wrap.
\<close>

definition GICD_TYPER :: u64 where [simp]: "GICD_TYPER = 0x004"
definition GICC_CTLR :: u64 where [simp]: "GICC_CTLR = 0x000"
definition GICC_PMR :: u64 where [simp]: "GICC_PMR = 0x004"
definition GICC_BPR :: u64 where [simp]: "GICC_BPR = 0x008"
definition GICC_IAR :: u64 where [simp]: "GICC_IAR = 0x00c"
definition GICC_EOIR :: u64 where [simp]: "GICC_EOIR = 0x010"
definition GICC_RPR :: u64 where [simp]: "GICC_RPR = 0x014"
definition GICC_ABPR :: u64 where [simp]: "GICC_ABPR = 0x01c"
definition GICC_IIDR :: u64 where [simp]: "GICC_IIDR = 0x0fc"
definition GICC_DIR :: u64 where [simp]: "GICC_DIR = 0x1000"
definition GICH_HCR :: u64 where [simp]: "GICH_HCR = 0x000"
definition GICH_VTR :: u64 where [simp]: "GICH_VTR = 0x004"
definition GICH_VMCR :: u64 where [simp]: "GICH_VMCR = 0x008"
definition GICH_EISR0 :: u64 where [simp]: "GICH_EISR0 = 0x020"
definition GICH_EISR1 :: u64 where [simp]: "GICH_EISR1 = 0x024"
definition GICH_ELRSR0 :: u64 where [simp]: "GICH_ELRSR0 = 0x030"
definition GICH_ELRSR1 :: u64 where [simp]: "GICH_ELRSR1 = 0x034"
definition GICH_APR :: u64 where [simp]: "GICH_APR = 0x0f0"
definition GICH_LR0 :: u64 where [simp]: "GICH_LR0 = 0x100"

definition GICC_ENABLE :: u32 where [simp]: "GICC_ENABLE = 1"
definition GICC_EOI_MODE_NS :: u32 where [simp]: "GICC_EOI_MODE_NS = 0x200"
definition GICH_ENABLE :: u32 where [simp]: "GICH_ENABLE = 1"
definition GICH_UNDERFLOW_ENABLE :: u32 where [simp]: "GICH_UNDERFLOW_ENABLE = 2"
definition LR_EOI :: u32 where [simp]: "LR_EOI = 0x80000"
definition LR_PENDING :: u32 where [simp]: "LR_PENDING = 0x10000000"
definition LR_HARDWARE :: u32 where [simp]: "LR_HARDWARE = 0x80000000"
definition IRQ_ID_MASK :: u32 where [simp]: "IRQ_ID_MASK = 0x3ff"
definition SOURCE_CPU_MASK :: u32 where [simp]: "SOURCE_CPU_MASK = 0x1c00"
definition SGI_SLOTS :: nat where [simp]: "SGI_SLOTS = 128"
definition PENDING_SLOTS :: nat where [simp]: "PENDING_SLOTS = 1148"

datatype gic_error = NotGicV2 | InvalidListRegisterCount

record gic_pending =
  gp_iar :: u32
  gp_priority :: u8

datatype gic_event = NoInterrupt | Guest | Owned gic_pending | Maintenance

definition pending_empty :: gic_pending where
  "pending_empty = \<lparr>gp_iar = SPURIOUS_IRQ, gp_priority = 0xff\<rparr>"

definition pending_id :: "gic_pending \<Rightarrow> u32" where
  "pending_id p = gp_iar p AND IRQ_ID_MASK"

definition pending_valid :: "gic_pending \<Rightarrow> bool" where
  "pending_valid p \<longleftrightarrow> pending_id p < 1020"

definition with_guest_priority :: "u8 \<Rightarrow> gic_pending \<Rightarrow> gic_pending" where
  "with_guest_priority priority p = p\<lparr>gp_priority := drop_bit 3 priority\<rparr>"

record 'm gicv2 =
  gd_mmio :: 'm
  gd_layout :: gic_layout
  gd_list_registers :: nat
  gd_enabled :: bool
  gd_pending :: "gic_pending list"
  gd_pending_count :: nat
  gd_owned :: u32
  gd_network :: u32
  gd_lr_iar :: "u32 list"

definition gicv2_new :: "'m \<Rightarrow> gic_layout \<Rightarrow> 'm gicv2" where
  "gicv2_new m layout =
     \<lparr>gd_mmio = m, gd_layout = layout, gd_list_registers = 0, gd_enabled = True,
      gd_pending = replicate PENDING_SLOTS pending_empty, gd_pending_count = 0,
      gd_owned = SPURIOUS_IRQ, gd_network = SPURIOUS_IRQ, gd_lr_iar = replicate 64 SPURIOUS_IRQ\<rparr>"


section \<open>Register access\<close>

definition gic_read :: "'m mmio_ops \<Rightarrow> u64 \<Rightarrow> 'm gicv2 \<Rightarrow> u32 \<times> 'm gicv2" where
  "gic_read ops a g = (case mmio_read32 ops a (gd_mmio g) of (v, m) \<Rightarrow> (v, g\<lparr>gd_mmio := m\<rparr>))"

definition gic_write :: "'m mmio_ops \<Rightarrow> u64 \<Rightarrow> u32 \<Rightarrow> 'm gicv2 \<Rightarrow> 'm gicv2" where
  "gic_write ops a v g = g\<lparr>gd_mmio := mmio_write32 ops a v (gd_mmio g)\<rparr>"

definition gic_barrier :: "'m mmio_ops \<Rightarrow> 'm gicv2 \<Rightarrow> 'm gicv2" where
  "gic_barrier ops g = g\<lparr>gd_mmio := mmio_barrier ops (gd_mmio g)\<rparr>"

definition read_dist :: "'m mmio_ops \<Rightarrow> u64 \<Rightarrow> 'm gicv2 \<Rightarrow> u32 \<times> 'm gicv2" where
  "read_dist ops offset g = gic_read ops (gl_distributor (gd_layout g) + offset) g"

definition write_dist :: "'m mmio_ops \<Rightarrow> u64 \<Rightarrow> u32 \<Rightarrow> 'm gicv2 \<Rightarrow> 'm gicv2" where
  "write_dist ops offset v g = gic_write ops (gl_distributor (gd_layout g) + offset) v g"

definition read_cpu :: "'m mmio_ops \<Rightarrow> u64 \<Rightarrow> 'm gicv2 \<Rightarrow> u32 \<times> 'm gicv2" where
  "read_cpu ops offset g = gic_read ops (gl_cpu (gd_layout g) + offset) g"

definition write_cpu :: "'m mmio_ops \<Rightarrow> u64 \<Rightarrow> u32 \<Rightarrow> 'm gicv2 \<Rightarrow> 'm gicv2" where
  "write_cpu ops offset v g = gic_write ops (gl_cpu (gd_layout g) + offset) v g"

definition read_hyp :: "'m mmio_ops \<Rightarrow> u64 \<Rightarrow> 'm gicv2 \<Rightarrow> u32 \<times> 'm gicv2" where
  "read_hyp ops offset g = gic_read ops (gl_hypervisor (gd_layout g) + offset) g"

definition write_hyp :: "'m mmio_ops \<Rightarrow> u64 \<Rightarrow> u32 \<Rightarrow> 'm gicv2 \<Rightarrow> 'm gicv2" where
  "write_hyp ops offset v g = gic_write ops (gl_hypervisor (gd_layout g) + offset) v g"


section \<open>Waiting interrupts\<close>

definition irq_slot :: "u32 \<Rightarrow> nat option" where
  "irq_slot iar =
     (let irq = iar AND IRQ_ID_MASK
      in if irq < 16 then Some (unat (irq * 8 + drop_bit 10 (iar AND SOURCE_CPU_MASK)))
         else if irq < 1020 then Some (SGI_SLOTS + unat irq)
         else None)"

definition gic_enqueue :: "gic_pending \<Rightarrow> 'm gicv2 \<Rightarrow> 'm gicv2 option" where
  "gic_enqueue p g =
     (case irq_slot (gp_iar p) of
        None \<Rightarrow> Some g
      | Some i \<Rightarrow>
          if i \<ge> length (gd_pending g) then None
          else if pending_valid (gd_pending g ! i) then Some g
          else if gd_pending_count g + 1 \<ge> 2 ^ 16 then None
          else Some (g\<lparr>gd_pending := (gd_pending g)[i := p], gd_pending_count := gd_pending_count g + 1\<rparr>))"

definition sgi_in_lr :: "u32 \<Rightarrow> 'm gicv2 \<Rightarrow> bool" where
  "sgi_in_lr irq g \<longleftrightarrow>
     irq < 16 \<and> list_ex (\<lambda>iar. iar AND IRQ_ID_MASK = irq) (take (gd_list_registers g) (gd_lr_iar g))"

definition injectable :: "gic_pending \<Rightarrow> 'm gicv2 \<Rightarrow> bool" where
  "injectable p g \<longleftrightarrow> 16 \<le> pending_id p \<or> \<not> sgi_in_lr (pending_id p) g"

text \<open>\<open>(a.priority, a.iar & IRQ_ID_MASK) < (b.priority, b.iar & IRQ_ID_MASK)\<close>\<close>

definition before :: "gic_pending \<Rightarrow> gic_pending \<Rightarrow> bool" where
  "before a b \<longleftrightarrow> gp_priority a < gp_priority b \<or> gp_priority a = gp_priority b \<and> pending_id a < pending_id b"

text \<open>The loop of \<open>pop_highest\<close> over the slots, from \<open>index\<close> on.\<close>

fun find_best :: "'m gicv2 \<Rightarrow> nat \<Rightarrow> gic_pending list \<Rightarrow> nat option \<Rightarrow> nat option" where
  "find_best g index [] best = best"
| "find_best g index (p # ps) best =
     find_best g (index + 1) ps
       (if pending_valid p \<and> injectable p g
            \<and> (case best of None \<Rightarrow> True | Some current \<Rightarrow> before p (gd_pending g ! current))
        then Some index else best)"

definition pop_highest :: "'m gicv2 \<Rightarrow> (gic_pending option \<times> 'm gicv2) option" where
  "pop_highest g =
     (case find_best g 0 (gd_pending g) None of
        None \<Rightarrow> Some (None, g)
      | Some i \<Rightarrow>
          if gd_pending_count g = 0 then None
          else Some (Some (gd_pending g ! i),
            g\<lparr>gd_pending_count := gd_pending_count g - 1, gd_pending := (gd_pending g)[i := pending_empty]\<rparr>))"

definition has_injectable_pending :: "'m gicv2 \<Rightarrow> bool" where
  "has_injectable_pending g \<longleftrightarrow>
     gd_pending_count g \<noteq> 0 \<and> list_ex (\<lambda>p. pending_valid p \<and> injectable p g) (gd_pending g)"


section \<open>List registers\<close>

definition trailing_zeros :: "u64 \<Rightarrow> nat" where
  "trailing_zeros w = length (takeWhile (\<lambda>i. \<not> bit w i) [0..<64])"

definition empty_lrs :: "'m mmio_ops \<Rightarrow> 'm gicv2 \<Rightarrow> u64 \<times> 'm gicv2" where
  "empty_lrs ops g =
     (case read_hyp ops GICH_ELRSR0 g of
        (low, g) \<Rightarrow>
          case (if gd_list_registers g > 32
                then case read_hyp ops GICH_ELRSR1 g of (v, g) \<Rightarrow> (push_bit 32 (ucast v), g) else (0, g)) of
            (high, g) \<Rightarrow>
              let implemented = (if gd_list_registers g = 64 then - 1 else push_bit (gd_list_registers g) 1 - 1)
              in ((ucast low OR high) AND implemented, g))"

definition eoi_lrs :: "'m mmio_ops \<Rightarrow> 'm gicv2 \<Rightarrow> u64 \<times> 'm gicv2" where
  "eoi_lrs ops g =
     (case read_hyp ops GICH_EISR0 g of
        (low, g) \<Rightarrow>
          case (if gd_list_registers g > 32
                then case read_hyp ops GICH_EISR1 g of (v, g) \<Rightarrow> (push_bit 32 (ucast v), g) else (0, g)) of
            (high, g) \<Rightarrow> (ucast low OR high, g))"

fun drain_eois :: "'m mmio_ops \<Rightarrow> u64 \<Rightarrow> nat list \<Rightarrow> 'm gicv2 \<Rightarrow> 'm gicv2 option" where
  "drain_eois ops eois [] g = Some g"
| "drain_eois ops eois (index # indexes) g =
     (if eois AND push_bit index 1 \<noteq> 0
      then let g = write_hyp ops (GICH_LR0 + word_of_nat index * 4) 0 g
        in if index \<ge> length (gd_lr_iar g) then None
           else let iar = gd_lr_iar g ! index;
                    g = g\<lparr>gd_lr_iar := (gd_lr_iar g)[index := SPURIOUS_IRQ]\<rparr>;
                    g = (if iar AND IRQ_ID_MASK < 16 then write_cpu ops GICC_DIR iar g else g)
                in drain_eois ops eois indexes g
      else drain_eois ops eois indexes g)"

definition drain_sgi_eois :: "'m mmio_ops \<Rightarrow> 'm gicv2 \<Rightarrow> 'm gicv2 option" where
  "drain_sgi_eois ops g =
     (case eoi_lrs ops g of (eois, g) \<Rightarrow> drain_eois ops eois [0..<gd_list_registers g] g)"

definition encode_lr :: "gic_pending \<Rightarrow> u32" where
  "encode_lr p =
     (let irq = pending_id p;
          lr = irq OR LR_PENDING OR push_bit 23 (ucast (gp_priority p))
      in if irq < 16 then (lr OR (gp_iar p AND SOURCE_CPU_MASK)) OR LR_EOI
         else lr OR (LR_HARDWARE OR push_bit 10 irq))"

definition gic_inject :: "'m mmio_ops \<Rightarrow> nat \<Rightarrow> gic_pending \<Rightarrow> 'm gicv2 \<Rightarrow> 'm gicv2 option" where
  "gic_inject ops index p g =
     (if index \<ge> length (gd_lr_iar g) then None
      else let g = g\<lparr>gd_lr_iar := (gd_lr_iar g)[index := if pending_id p < 16 then gp_iar p else SPURIOUS_IRQ]\<rparr>
        in Some (write_hyp ops (GICH_LR0 + word_of_nat index * 4) (encode_lr p) g))"

definition try_inject :: "'m mmio_ops \<Rightarrow> gic_pending \<Rightarrow> 'm gicv2 \<Rightarrow> (bool \<times> 'm gicv2) option" where
  "try_inject ops p g =
     (if \<not> gd_enabled g \<or> \<not> injectable p g then Some (False, g)
      else case empty_lrs ops g of
        (free, g) \<Rightarrow>
          if free = 0 then Some (False, g)
          else do { g \<leftarrow> gic_inject ops (trailing_zeros free) p g; Some (True, g) })"

definition update_hcr :: "'m mmio_ops \<Rightarrow> 'm gicv2 \<Rightarrow> 'm gicv2" where
  "update_hcr ops g =
     (let control = (if gd_enabled g
                     then (if has_injectable_pending g then GICH_ENABLE OR GICH_UNDERFLOW_ENABLE else GICH_ENABLE)
                     else 0)
      in write_hyp ops GICH_HCR control g)"

function refill_loop :: "'m mmio_ops \<Rightarrow> u64 \<Rightarrow> 'm gicv2 \<Rightarrow> 'm gicv2 option" where
  "refill_loop ops free g =
     (if free = 0 \<or> gd_pending_count g = 0 then Some g
      else case pop_highest g of
        None \<Rightarrow> None
      | Some (None, g) \<Rightarrow> Some g
      | Some (Some p, g) \<Rightarrow>
          let index = trailing_zeros free
          in case gic_inject ops index p g of
               None \<Rightarrow> None
             | Some g \<Rightarrow> refill_loop ops (free AND NOT (push_bit index 1)) g)"
  by pat_completeness auto

lemma gic_access_fields [simp]:
  "gd_pending (write_hyp ops a v g) = gd_pending g" "gd_pending_count (write_hyp ops a v g) = gd_pending_count g"
  by (simp_all add: write_hyp_def gic_write_def)

termination refill_loop
  by (relation "measure (\<lambda>(ops, free, g). gd_pending_count g)")
    (auto simp: pop_highest_def gic_inject_def Let_def split: option.splits if_splits)

declare refill_loop.simps [simp del]

definition gic_refill :: "'m mmio_ops \<Rightarrow> 'm gicv2 \<Rightarrow> 'm gicv2 option" where
  "gic_refill ops g =
     do {
       g \<leftarrow> (if gd_enabled g then case empty_lrs ops g of (free, g) \<Rightarrow> refill_loop ops free g else Some g);
       Some (update_hcr ops g)
     }"


section \<open>The operations of the driver\<close>

definition gic_set_distributor_enabled :: "'m mmio_ops \<Rightarrow> bool \<Rightarrow> 'm gicv2 \<Rightarrow> 'm gicv2 option" where
  "gic_set_distributor_enabled ops enabled g =
     (if gd_enabled g \<noteq> enabled
      then do { g \<leftarrow> gic_refill ops (g\<lparr>gd_enabled := enabled\<rparr>); Some (gic_barrier ops g) }
      else Some g)"

definition gic_set_owned_interrupt :: "u32 option \<Rightarrow> 'm gicv2 \<Rightarrow> 'm gicv2" where
  "gic_set_owned_interrupt interrupt g =
     g\<lparr>gd_owned := (case interrupt of None \<Rightarrow> SPURIOUS_IRQ
                    | Some irq \<Rightarrow> if 16 \<le> irq \<and> irq < 1020 then irq else SPURIOUS_IRQ)\<rparr>"

definition gic_set_network_interrupt :: "u32 option \<Rightarrow> 'm gicv2 \<Rightarrow> 'm gicv2" where
  "gic_set_network_interrupt interrupt g =
     g\<lparr>gd_network := (case interrupt of None \<Rightarrow> SPURIOUS_IRQ
                    | Some irq \<Rightarrow> if 32 \<le> irq \<and> irq < 1020 then irq else SPURIOUS_IRQ)\<rparr>"

definition owned_group :: "'m mmio_ops \<Rightarrow> u64 \<Rightarrow> u32 \<Rightarrow> 'm gicv2 \<Rightarrow> u32 \<times> 'm gicv2" where
  "owned_group ops register b g =
     (case read_dist ops register g of
        (grp, g) \<Rightarrow> case read_dist ops GICD_TYPER g of
          (typer, g) \<Rightarrow> (if typer AND push_bit 10 1 \<noteq> 0 then grp OR b else grp AND NOT b, g))"

text \<open>A read of a register, and the same register written with some bits cleared or changed.\<close>

definition update_dist :: "'m mmio_ops \<Rightarrow> u64 \<Rightarrow> (u32 \<Rightarrow> u32) \<Rightarrow> 'm gicv2 \<Rightarrow> 'm gicv2" where
  "update_dist ops offset f g = (case read_dist ops offset g of (v, g) \<Rightarrow> write_dist ops offset (f v) g)"

definition configure_maintenance_interrupt :: "'m mmio_ops \<Rightarrow> 'm gicv2 \<Rightarrow> 'm gicv2" where
  "configure_maintenance_interrupt ops g =
     (let b = push_bit (unat MAINTENANCE_IRQ) 1
      in case owned_group ops GICD_IGROUPR0 b g of
           (grp, g) \<Rightarrow>
             let g = write_dist ops GICD_IGROUPR0 grp g;
                 g = update_dist ops GICD_IPRIORITYR6 (\<lambda>v. v AND NOT (push_bit 8 0xff)) g;
                 g = update_dist ops GICD_ICFGR1 (\<lambda>v. v AND NOT (push_bit 18 3)) g;
                 g = write_dist ops GICD_ICPENDR0 b g;
                 g = write_dist ops GICD_ICACTIVER0 b g;
                 g = write_dist ops GICD_ISENABLER0 b g
             in update_dist ops GICD_CTLR (\<lambda>v. v OR 1) g)"

definition configure_interrupt :: "'m mmio_ops \<Rightarrow> u32 \<Rightarrow> u8 \<Rightarrow> 'm gicv2 \<Rightarrow> 'm gicv2" where
  "configure_interrupt ops irq target_mask g =
     (if irq \<ge> 1020 then g
      else
        let register = ucast (irq div 32) * 4;
            b = push_bit (unat (irq mod 32)) 1;
            g = write_dist ops (GICD_ICENABLER0 + register) b g
        in case owned_group ops (GICD_IGROUPR0 + register) b g of
             (grp, g) \<Rightarrow>
               let g = write_dist ops (GICD_IGROUPR0 + register) grp g;
                   byte_register = ucast (irq div 4) * 4;
                   byte_shift = unat ((irq mod 4) * 8);
                   g = update_dist ops (GICD_IPRIORITYR0 + byte_register) (\<lambda>v. v AND NOT (push_bit byte_shift 0xff)) g;
                   g = (if irq \<ge> 32
                        then update_dist ops (GICD_ITARGETSR0 + byte_register)
                          (\<lambda>v. (v AND NOT (push_bit byte_shift 0xff)) OR push_bit byte_shift (ucast target_mask)) g
                        else g);
                   config_register = ucast (irq div 16) * 4;
                   config_shift = unat ((irq mod 16) * 2);
                   g = update_dist ops (GICD_ICFGR0 + config_register) (\<lambda>v. v AND NOT (push_bit config_shift 3)) g;
                   g = write_dist ops (GICD_ICPENDR0 + register) b g;
                   g = write_dist ops (GICD_ICACTIVER0 + register) b g;
                   g = write_dist ops (GICD_ISENABLER0 + register) b g;
                   g = update_dist ops GICD_CTLR (\<lambda>v. v OR 1) g
               in gic_barrier ops g)"

definition configure_owned_interrupt :: "'m mmio_ops \<Rightarrow> u8 \<Rightarrow> 'm gicv2 \<Rightarrow> 'm gicv2" where
  "configure_owned_interrupt ops target_mask g =
     (let g = configure_interrupt ops (gd_owned g) target_mask g
      in configure_interrupt ops (gd_network g) target_mask g)"

definition set_pending :: "'m mmio_ops \<Rightarrow> u32 \<Rightarrow> 'm gicv2 \<Rightarrow> 'm gicv2" where
  "set_pending ops irq g =
     write_dist ops (GICD_ISPENDR0 + ucast (irq div 32) * 4) (push_bit (unat (irq mod 32)) 1) g"

definition pend_owned_interrupt :: "'m mmio_ops \<Rightarrow> 'm gicv2 \<Rightarrow> 'm gicv2" where
  "pend_owned_interrupt ops g =
     (if gd_owned g \<ge> 1020 then g else gic_barrier ops (set_pending ops (gd_owned g) g))"

definition pend_network_interrupt :: "'m mmio_ops \<Rightarrow> 'm gicv2 \<Rightarrow> 'm gicv2" where
  "pend_network_interrupt ops g =
     (if gd_network g < 1020 then gic_barrier ops (set_pending ops (gd_network g) g) else g)"

text \<open>
  What \<open>take_interrupt\<close> and \<open>finish_owned_interrupt\<close> do with an interrupt for the guest.  Finishing a token
  of another interrupt than the two the monitor owns panics: it is a \<open>debug_assert!\<close>.
\<close>

definition gic_forward :: "'m mmio_ops \<Rightarrow> gic_pending \<Rightarrow> 'm gicv2 \<Rightarrow> 'm gicv2 option" where
  "gic_forward ops p g =
     do {
       (injected, g) \<leftarrow> (if gd_pending_count g \<noteq> 0 then Some (False, g) else try_inject ops p g);
       if injected then Some g
       else do { g \<leftarrow> gic_enqueue p g; gic_refill ops g }
     }"

definition finish_owned_interrupt :: "'m mmio_ops \<Rightarrow> gic_pending \<Rightarrow> bool \<Rightarrow> 'm gicv2 \<Rightarrow> 'm gicv2 option" where
  "finish_owned_interrupt ops p deliver g =
     (if pending_id p \<noteq> gd_owned g \<and> pending_id p \<noteq> gd_network g then None
      else do {
       g \<leftarrow> (if deliver then gic_forward ops p (set_pending ops (pending_id p) g)
             else Some (write_cpu ops GICC_DIR (gp_iar p) g));
       Some (gic_barrier ops g)
     })"

definition complete_owned_interrupt :: "'m mmio_ops \<Rightarrow> u32 \<Rightarrow> 'm gicv2 \<Rightarrow> 'm gicv2" where
  "complete_owned_interrupt ops iar g = write_cpu ops GICC_DIR iar (write_cpu ops GICC_EOIR iar g)"

definition gic_initialize :: "'m mmio_ops \<Rightarrow> 'm gicv2 \<Rightarrow> (gic_error + unit) \<times> 'm gicv2" where
  "gic_initialize ops g =
     (case read_cpu ops GICC_IIDR g of (iidr, g) \<Rightarrow>
      if iidr AND 0x00ff0fff \<noteq> 0x0002043b then (Inl NotGicV2, g)
      else case read_hyp ops GICH_VTR g of (vtr, g) \<Rightarrow>
        let count = unat (vtr AND 0x3f) + 1
        in if count > 64 then (Inl InvalidListRegisterCount, g)
           else
             let g = g\<lparr>gd_list_registers := count,
                   gd_pending := replicate (length (gd_pending g)) pending_empty, gd_pending_count := 0,
                   gd_lr_iar := replicate (length (gd_lr_iar g)) SPURIOUS_IRQ\<rparr>;
                 g = fold (\<lambda>index. write_hyp ops (GICH_LR0 + word_of_nat index * 4) 0) [0..<count] g;
                 g = write_hyp ops GICH_APR 0 g
             in case read_cpu ops GICC_CTLR g of (ctlr, g) \<Rightarrow>
                case read_cpu ops GICC_PMR g of (pmr, g) \<Rightarrow>
                case read_cpu ops GICC_BPR g of (bpr, g) \<Rightarrow>
                case read_cpu ops GICC_ABPR g of (abpr, g) \<Rightarrow>
                  let vmcr = (ctlr AND GICC_ENABLE) OR (ctlr AND (push_bit 4 1 OR GICC_EOI_MODE_NS))
                        OR push_bit 18 (abpr AND 7) OR push_bit 21 (bpr AND 7)
                        OR push_bit 27 (drop_bit 3 pmr AND 0x1f);
                      g = write_hyp ops GICH_VMCR vmcr g;
                      g = configure_maintenance_interrupt ops g;
                      g = write_cpu ops GICC_PMR 0xff g;
                      g = write_cpu ops GICC_CTLR (ctlr OR GICC_ENABLE OR GICC_EOI_MODE_NS) g;
                      g = write_hyp ops GICH_HCR GICH_ENABLE g
                  in (Inr (), gic_barrier ops g))"

definition gic_poll :: "'m mmio_ops \<Rightarrow> 'm gicv2 \<Rightarrow> 'm gicv2 option" where
  "gic_poll ops g =
     do { g \<leftarrow> drain_sgi_eois ops g; g \<leftarrow> gic_refill ops g; Some (gic_barrier ops g) }"

definition take_interrupt :: "'m mmio_ops \<Rightarrow> 'm gicv2 \<Rightarrow> (gic_event \<times> 'm gicv2) option" where
  "take_interrupt ops g =
     (case read_cpu ops GICC_IAR g of
        (iar, g) \<Rightarrow>
          let irq = iar AND IRQ_ID_MASK
          in if irq \<ge> 1020 then Some (NoInterrupt, g)
             else if irq = MAINTENANCE_IRQ then do {
               g \<leftarrow> drain_sgi_eois ops g;
               g \<leftarrow> gic_refill ops g;
               Some (Maintenance, gic_barrier ops (complete_owned_interrupt ops iar g))
             }
             else case read_cpu ops GICC_RPR g of
               (rpr, g) \<Rightarrow>
                 let p = \<lparr>gp_iar = iar, gp_priority = ucast (drop_bit 3 rpr AND 0x1f)\<rparr>;
                     g = write_cpu ops GICC_EOIR iar g
                 in if irq = gd_owned g \<or> irq = gd_network g
                    then Some (Owned p, gic_barrier ops g)
                    else do { g \<leftarrow> gic_forward ops p g; Some (Guest, gic_barrier ops g) })"



section \<open>The driver's invariant\<close>

definition waiting :: "'m gicv2 \<Rightarrow> gic_pending list" where
  "waiting g = filter pending_valid (gd_pending g)"

definition sgi_once :: "nat \<Rightarrow> u32 list \<Rightarrow> bool" where
  "sgi_once n lrs \<longleftrightarrow> (\<forall>i < n. \<forall>j < n. i \<noteq> j \<longrightarrow> lrs ! i AND IRQ_ID_MASK < 16 \<longrightarrow> lrs ! i AND IRQ_ID_MASK \<noteq> lrs ! j AND IRQ_ID_MASK)"

definition gicv2_ok :: "'m gicv2 \<Rightarrow> bool" where
  "gicv2_ok g \<longleftrightarrow> length (gd_pending g) = PENDING_SLOTS \<and> length (gd_lr_iar g) = 64 \<and> gd_list_registers g \<le> 64
     \<and> gd_pending_count g = length (waiting g) \<and> sgi_once (gd_list_registers g) (gd_lr_iar g)
     \<and> (\<forall>i < PENDING_SLOTS. pending_valid (gd_pending g ! i) \<longrightarrow>
          irq_slot (gp_iar (gd_pending g ! i)) = Some i \<and> gp_priority (gd_pending g ! i) < 32)"

text \<open>What an access of the registers leaves alone.\<close>

definition same_state :: "'m gicv2 \<Rightarrow> 'm gicv2 \<Rightarrow> bool" where
  "same_state g h \<longleftrightarrow> h = g\<lparr>gd_mmio := gd_mmio h\<rparr>"

lemma same_stateD:
  assumes "same_state g h"
  shows "gd_layout h = gd_layout g" "gd_list_registers h = gd_list_registers g" "gd_enabled h = gd_enabled g"
    "gd_pending h = gd_pending g" "gd_pending_count h = gd_pending_count g" "gd_owned h = gd_owned g"
    "gd_network h = gd_network g" "gd_lr_iar h = gd_lr_iar g"
  using assms unfolding same_state_def by (metis gicv2.ext_inject gicv2.surjective gicv2.update_convs(1))+

lemma same_state_refl [simp]: "same_state g g"
  by (simp add: same_state_def)

lemma same_state_trans: "same_state g h \<Longrightarrow> same_state h k \<Longrightarrow> same_state g k"
  unfolding same_state_def by (metis gicv2.surjective gicv2.update_convs(1))

lemma same_state_write [simp]:
  "same_state g (gic_write ops a v g)" "same_state g (gic_barrier ops g)" "same_state g (write_dist ops a v g)"
  "same_state g (write_cpu ops a v g)" "same_state g (write_hyp ops a v g)"
  by (simp_all add: same_state_def gic_write_def gic_barrier_def write_dist_def write_cpu_def write_hyp_def)

lemma same_state_read [simp]:
  "same_state g (snd (gic_read ops a g))" "same_state g (snd (read_dist ops a g))"
  "same_state g (snd (read_cpu ops a g))" "same_state g (snd (read_hyp ops a g))"
  by (simp_all add: same_state_def gic_read_def read_dist_def read_cpu_def read_hyp_def split: prod.splits)

lemma same_state_ok: "same_state g h \<Longrightarrow> gicv2_ok h = gicv2_ok g"
  by (simp add: gicv2_ok_def waiting_def same_stateD)

lemma same_state_injectable: "same_state g h \<Longrightarrow> injectable p h = injectable p g"
  by (simp add: injectable_def sgi_in_lr_def same_stateD)

lemma irq_slot_bound: "irq_slot iar = Some i \<Longrightarrow> i < PENDING_SLOTS"
proof -
  assume s: "irq_slot iar = Some i"
  show ?thesis
  proof (cases "iar AND IRQ_ID_MASK < 16")
    case True
    have "unat (iar AND SOURCE_CPU_MASK) \<le> 0x1c00" using word_and_le1 [of iar "0x1c00"] by (simp add: word_le_nat_alt)
    then have "unat (drop_bit 10 (iar AND SOURCE_CPU_MASK)) \<le> 7" by (simp add: drop_bit_eq_div unat_div)
    moreover have "unat ((iar AND IRQ_ID_MASK) * 8 + drop_bit 10 (iar AND SOURCE_CPU_MASK))
        \<le> unat (iar AND IRQ_ID_MASK) * 8 + unat (drop_bit 10 (iar AND SOURCE_CPU_MASK))"
      by (simp add: unat_word_ariths)
    moreover have "unat (iar AND IRQ_ID_MASK) < 16" using True by (simp add: word_less_nat_alt)
    ultimately show ?thesis using s True by (simp add: irq_slot_def Let_def)
  next
    case False
    then show ?thesis using s by (auto simp: irq_slot_def Let_def word_less_nat_alt split: if_splits)
  qed
qed

lemma pending_empty_invalid [simp]: "\<not> pending_valid pending_empty"
  by (simp add: pending_valid_def pending_id_def pending_empty_def)

lemma irq_slot_valid: "irq_slot (gp_iar p) \<noteq> None \<longleftrightarrow> pending_valid p"
  by (auto simp: irq_slot_def pending_valid_def pending_id_def Let_def word_less_nat_alt)

lemma gicv2_new_ok: "gicv2_ok (gicv2_new m layout)"
  by (simp add: gicv2_ok_def gicv2_new_def waiting_def sgi_once_def)

lemma filter_update_length:
  "i < length xs \<Longrightarrow> length (filter P (xs[i := x])) + of_bool (P (xs ! i)) = length (filter P xs) + of_bool (P x)"
proof (induction xs arbitrary: i)
  case (Cons y ys)
  then show ?case by (cases i) auto
qed simp

lemma enqueue_ok:
  assumes "gicv2_ok g" and "gp_priority p < 32"
  shows "\<exists>h. gic_enqueue p g = Some h \<and> gicv2_ok h"
proof (cases "irq_slot (gp_iar p)")
  case None
  with assms show ?thesis by (simp add: gic_enqueue_def)
next
  case (Some i)
  have i: "i < length (gd_pending g)" using irq_slot_bound [OF Some] assms by (simp add: gicv2_ok_def)
  have v: "pending_valid p" using Some irq_slot_valid [of p] by simp
  show ?thesis
  proof (cases "pending_valid (gd_pending g ! i)")
    case True
    with Some i assms show ?thesis by (simp add: gic_enqueue_def)
  next
    case False
    have "length (waiting g) \<le> PENDING_SLOTS"
      using assms length_filter_le [of pending_valid "gd_pending g"] by (simp add: gicv2_ok_def waiting_def)
    then have "gd_pending_count g + 1 < 2 ^ 16" using assms by (simp add: gicv2_ok_def)
    moreover have "length (filter pending_valid ((gd_pending g)[i := p])) = length (waiting g) + 1"
      using filter_update_length [OF i, of pending_valid p] False v by (simp add: waiting_def)
    ultimately show ?thesis
      using assms Some i False
      by (auto simp: gic_enqueue_def gicv2_ok_def waiting_def nth_list_update)
  qed
qed


definition candidate :: "'m gicv2 \<Rightarrow> gic_pending \<Rightarrow> bool" where
  "candidate g p \<longleftrightarrow> pending_valid p \<and> injectable p g"

lemma not_before_trans: "before p c \<Longrightarrow> \<not> before q c \<Longrightarrow> \<not> before q p"
  by (auto simp: before_def)

lemma not_before_refl: "\<not> before p p"
  by (simp add: before_def)

lemma find_best_minimum:
  assumes "gd_pending g = pre @ ps" "index = length pre"
    and "case best of
           None \<Rightarrow> \<forall>q \<in> set pre. \<not> candidate g q
         | Some c \<Rightarrow> c < length pre \<and> candidate g (gd_pending g ! c)
             \<and> (\<forall>q \<in> set pre. candidate g q \<longrightarrow> \<not> before q (gd_pending g ! c))"
  shows "case find_best g index ps best of
           None \<Rightarrow> \<forall>q \<in> set (gd_pending g). \<not> candidate g q
         | Some c \<Rightarrow> c < length (gd_pending g) \<and> candidate g (gd_pending g ! c)
             \<and> (\<forall>q \<in> set (gd_pending g). candidate g q \<longrightarrow> \<not> before q (gd_pending g ! c))"
  using assms
proof (induction ps arbitrary: pre index best)
  case (Cons p ps)
  define best' where "best' = (if candidate g p \<and> (case best of None \<Rightarrow> True | Some c \<Rightarrow> before p (gd_pending g ! c))
      then Some index else best)"
  have p: "gd_pending g ! index = p" using Cons.prems(1,2) by simp
  have inv: "case best' of
           None \<Rightarrow> \<forall>q \<in> set (pre @ [p]). \<not> candidate g q
         | Some c \<Rightarrow> c < length (pre @ [p]) \<and> candidate g (gd_pending g ! c)
             \<and> (\<forall>q \<in> set (pre @ [p]). candidate g q \<longrightarrow> \<not> before q (gd_pending g ! c))"
  proof (cases best)
    case None
    with Cons.prems(2,3) p not_before_refl show ?thesis by (simp add: best'_def)
  next
    case (Some c)
    with Cons.prems(3) have c: "c < length pre" "candidate g (gd_pending g ! c)"
      "\<forall>q \<in> set pre. candidate g q \<longrightarrow> \<not> before q (gd_pending g ! c)" by simp_all
    show ?thesis
    proof (cases "candidate g p \<and> before p (gd_pending g ! c)")
      case True
      then have "\<forall>q \<in> set pre. candidate g q \<longrightarrow> \<not> before q p" using c(3) not_before_trans by blast
      with True Cons.prems(2) Some p not_before_refl show ?thesis by (simp add: best'_def)
    next
      case False
      with c Some show ?thesis by (auto simp: best'_def)
    qed
  qed
  have "find_best g index (p # ps) best = find_best g (index + 1) ps best'"
    by (simp add: best'_def candidate_def)
  moreover have "gd_pending g = (pre @ [p]) @ ps" "index + 1 = length (pre @ [p])"
    using Cons.prems(1,2) by simp_all
  ultimately show ?case using Cons.IH [OF _ _ inv] by metis
qed (auto split: option.splits)

definition popped :: "'m gicv2 \<Rightarrow> gic_pending \<Rightarrow> 'm gicv2 \<Rightarrow> bool" where
  "popped g p h \<longleftrightarrow> p \<in> set (waiting g) \<and> injectable p g \<and> (\<forall>q \<in> set (waiting g). injectable q g \<longrightarrow> \<not> before q p)
     \<and> h = g\<lparr>gd_pending := gd_pending h, gd_pending_count := gd_pending_count h\<rparr>
     \<and> mset (waiting g) = add_mset p (mset (waiting h)) \<and> gicv2_ok h"

lemma filter_update_mset:
  "i < length xs \<Longrightarrow> P (xs ! i) \<Longrightarrow> \<not> P x \<Longrightarrow> mset (filter P xs) = add_mset (xs ! i) (mset (filter P (xs[i := x])))"
proof (induction xs arbitrary: i)
  case (Cons y ys)
  then show ?case by (cases i) auto
qed simp

lemma pop_highest_spec:
  assumes ok: "gicv2_ok g"
  shows "\<exists>r h. pop_highest g = Some (r, h) \<and>
    (case r of None \<Rightarrow> h = g \<and> (\<forall>q \<in> set (waiting g). \<not> injectable q g) | Some p \<Rightarrow> popped g p h)"
proof (cases "find_best g 0 (gd_pending g) None")
  case None
  with find_best_minimum [of g "[]" "gd_pending g" 0 None] show ?thesis
    by (auto simp: pop_highest_def waiting_def candidate_def)
next
  case (Some i)
  let ?h = "g\<lparr>gd_pending_count := gd_pending_count g - 1, gd_pending := (gd_pending g)[i := pending_empty]\<rparr>"
  from find_best_minimum [of g "[]" "gd_pending g" 0 None] Some
  have i: "i < length (gd_pending g)" and c: "candidate g (gd_pending g ! i)"
    and best: "\<forall>q \<in> set (gd_pending g). candidate g q \<longrightarrow> \<not> before q (gd_pending g ! i)" by simp_all
  have mem: "gd_pending g ! i \<in> set (waiting g)" using i c by (simp add: waiting_def candidate_def)
  then have count: "gd_pending_count g \<noteq> 0" using ok by (auto simp: gicv2_ok_def)
  have m: "mset (waiting g) = add_mset (gd_pending g ! i) (mset (waiting ?h))"
    using filter_update_mset [OF i, of pending_valid pending_empty] c by (simp add: waiting_def candidate_def)
  have "length (waiting g) = length (waiting ?h) + 1" using arg_cong [OF m, of size] by simp
  then have "gicv2_ok ?h" using ok i by (auto simp: gicv2_ok_def nth_list_update)
  with mem c best m have "popped g (gd_pending g ! i) ?h"
    by (auto simp: popped_def candidate_def waiting_def)
  with Some count show ?thesis by (auto simp: pop_highest_def)
qed



section \<open>Refilling the list registers\<close>

definition free_list :: "u64 \<Rightarrow> nat list" where
  "free_list w = filter (bit w) [0..<64]"

lemma free_list_empty: "free_list w = [] \<longleftrightarrow> w = 0"
proof -
  have "free_list w = [] \<longleftrightarrow> (\<forall>i < 64. \<not> bit w i)" by (auto simp: free_list_def filter_empty_conv)
  also have "\<dots> \<longleftrightarrow> w = 0" by (auto intro!: bit_word_eqI)
  finally show ?thesis .
qed

lemma takeWhile_filter: "filter P xs \<noteq> [] \<Longrightarrow> length (takeWhile (\<lambda>x. \<not> P x) xs) < length xs
    \<and> xs ! length (takeWhile (\<lambda>x. \<not> P x) xs) = hd (filter P xs)"
  by (induction xs) auto

lemma trailing_zeros_hd:
  assumes "w \<noteq> 0"
  shows "trailing_zeros w = hd (free_list w)" "trailing_zeros w < 64" "bit w (trailing_zeros w)"
proof -
  have "filter (bit w) [0..<64] \<noteq> []" using assms free_list_empty by (simp add: free_list_def)
  from takeWhile_filter [OF this] have t: "trailing_zeros w < 64" "[0..<64] ! trailing_zeros w = hd (free_list w)"
    by (simp_all add: trailing_zeros_def free_list_def)
  then show "trailing_zeros w = hd (free_list w)" "trailing_zeros w < 64" by simp_all
  then have "trailing_zeros w \<in> set (free_list w)" using assms free_list_empty by (metis hd_in_set)
  then show "bit w (trailing_zeros w)" by (simp add: free_list_def)
qed

lemma free_list_clear:
  assumes "w \<noteq> 0"
  shows "free_list (w AND NOT (push_bit (trailing_zeros w) 1)) = tl (free_list w)"
proof -
  let ?i = "trailing_zeros w"
  have bits: "bit (w AND NOT (push_bit ?i 1)) j \<longleftrightarrow> bit w j \<and> j \<noteq> ?i" if "j < 64" for j
    using that by (auto simp: bit_simps)
  have d: "distinct (free_list w)" by (simp add: free_list_def)
  have "free_list (w AND NOT (push_bit ?i 1)) = filter (\<lambda>j. j \<noteq> ?i) (free_list w)"
    unfolding free_list_def filter_filter by (rule filter_cong) (use bits in auto)
  also have "\<dots> = tl (free_list w)"
  proof (cases "free_list w")
    case (Cons i rest)
    then have "?i = i" using trailing_zeros_hd(1) [OF assms] by simp
    moreover have "filter (\<lambda>j. j \<noteq> i) rest = rest" using d Cons by (auto intro: filter_True)
    ultimately show ?thesis using Cons by simp
  qed simp
  finally show ?thesis .
qed

text \<open>
  What refilling means: while a list register is free and a waiting interrupt can be injected, the first
  of them by priority and number goes to the lowest free register.
\<close>

definition servable :: "nat \<Rightarrow> u32 list \<Rightarrow> gic_pending \<Rightarrow> bool" where
  "servable n lrs p \<longleftrightarrow> 16 \<le> pending_id p \<or> \<not> list_ex (\<lambda>iar. iar AND IRQ_ID_MASK = pending_id p) (take n lrs)"

definition lr_tag :: "gic_pending \<Rightarrow> u32" where
  "lr_tag p = (if pending_id p < 16 then gp_iar p else SPURIOUS_IRQ)"

fun serve :: "nat \<Rightarrow> nat list \<Rightarrow> gic_pending multiset \<Rightarrow> u32 list \<Rightarrow> (nat \<times> gic_pending) list
    \<Rightarrow> gic_pending multiset \<Rightarrow> u32 list \<Rightarrow> bool" where
  "serve n free waits lrs [] waits' lrs' \<longleftrightarrow>
     waits' = waits \<and> lrs' = lrs \<and> (free = [] \<or> (\<forall>q \<in># waits. \<not> servable n lrs q))"
| "serve n free waits lrs ((i, p) # sent) waits' lrs' \<longleftrightarrow>
     free \<noteq> [] \<and> i = hd free \<and> p \<in># waits \<and> servable n lrs p \<and> (\<forall>q \<in># waits. servable n lrs q \<longrightarrow> \<not> before q p)
     \<and> serve n (tl free) (waits - {#p#}) (lrs[i := lr_tag p]) sent waits' lrs'"

lemma injectable_servable: "injectable p g \<longleftrightarrow> servable (gd_list_registers g) (gd_lr_iar g) p"
  by (auto simp: injectable_def servable_def sgi_in_lr_def)

lemma sgi_once_inject:
  assumes "sgi_once n lrs" "servable n lrs p" "n \<le> length lrs" "i < n"
  shows "sgi_once n (lrs[i := lr_tag p])"
proof -
  have *: "lrs ! j AND IRQ_ID_MASK \<noteq> pending_id p" if "j < n" "pending_id p < 16" for j
    using assms(2,3) that nth_mem [of j "take n lrs"] by (auto simp: servable_def list_ex_iff)
  show ?thesis
    using assms(1,3,4) * unfolding sgi_once_def lr_tag_def
    by (auto simp: nth_list_update pending_id_def) (metis IRQ_ID_MASK_def)+
qed

definition lr_write :: "'m mmio_ops \<Rightarrow> u64 \<Rightarrow> nat \<times> gic_pending \<Rightarrow> 'm \<Rightarrow> 'm" where
  "lr_write ops hyp = (\<lambda>(i, p). mmio_write32 ops (hyp + (GICH_LR0 + word_of_nat i * 4)) (encode_lr p))"

definition same_config :: "'m gicv2 \<Rightarrow> 'm gicv2 \<Rightarrow> bool" where
  "same_config g h \<longleftrightarrow> gd_layout h = gd_layout g \<and> gd_list_registers h = gd_list_registers g \<and> gd_enabled h = gd_enabled g
     \<and> gd_owned h = gd_owned g \<and> gd_network h = gd_network g"

lemma gic_inject_spec:
  assumes "gicv2_ok g" "injectable p g" "i < gd_list_registers g"
  shows "\<exists>h. gic_inject ops i p g = Some h \<and> gicv2_ok h \<and> same_config g h \<and> gd_pending h = gd_pending g
    \<and> gd_pending_count h = gd_pending_count g \<and> gd_lr_iar h = (gd_lr_iar g)[i := lr_tag p]
    \<and> gd_mmio h = lr_write ops (gl_hypervisor (gd_layout g)) (i, p) (gd_mmio g)"
  using assms sgi_once_inject [of "gd_list_registers g" "gd_lr_iar g" p i]
  by (auto simp: gic_inject_def Let_def gicv2_ok_def waiting_def same_config_def lr_tag_def lr_write_def
      write_hyp_def gic_write_def injectable_servable)


lemma waiting_empty: "gicv2_ok g \<Longrightarrow> gd_pending_count g = 0 \<longleftrightarrow> waiting g = []"
  by (simp add: gicv2_ok_def)

lemma refill_loop_serves:
  assumes "gicv2_ok g" and "\<And>i. bit free i \<Longrightarrow> i < gd_list_registers g"
  shows "\<exists>sent h. refill_loop ops free g = Some h \<and> gicv2_ok h \<and> same_config g h
    \<and> serve (gd_list_registers g) (free_list free) (mset (waiting g)) (gd_lr_iar g) sent (mset (waiting h)) (gd_lr_iar h)
    \<and> gd_mmio h = fold (lr_write ops (gl_hypervisor (gd_layout g))) sent (gd_mmio g)"
  using assms
proof (induction "gd_pending_count g" arbitrary: g free rule: less_induct)
  case less
  show ?case
  proof (cases "free = 0 \<or> gd_pending_count g = 0")
    case True
    then have "refill_loop ops free g = Some g" by (subst refill_loop.simps) simp
    moreover have "free_list free = [] \<or> waiting g = []"
      using True free_list_empty waiting_empty [OF less.prems(1)] by blast
    ultimately show ?thesis using less.prems(1)
      by (intro exI [of _ "[]"] exI [of _ g]) (auto simp: same_config_def)
  next
    case False
    then have f: "free \<noteq> 0" "gd_pending_count g \<noteq> 0" by simp_all
    from pop_highest_spec [OF less.prems(1)] obtain r g1 where pop: "pop_highest g = Some (r, g1)"
      "case r of None \<Rightarrow> g1 = g \<and> (\<forall>q \<in> set (waiting g). \<not> injectable q g) | Some p \<Rightarrow> popped g p g1" by blast
    show ?thesis
    proof (cases r)
      case None
      then have "refill_loop ops free g = Some g" using f pop by (subst refill_loop.simps) simp
      then show ?thesis using less.prems(1) pop None
        by (intro exI [of _ "[]"] exI [of _ g]) (auto simp: same_config_def injectable_servable)
    next
      case (Some p)
      let ?i = "trailing_zeros free"
      from Some pop(2) have popped: "popped g p g1" by simp
      then have g1: "gicv2_ok g1" "same_config g g1" "gd_lr_iar g1 = gd_lr_iar g" "gd_mmio g1 = gd_mmio g"
        "mset (waiting g) = add_mset p (mset (waiting g1))" "injectable p g" "p \<in> set (waiting g)"
        "\<forall>q \<in> set (waiting g). injectable q g \<longrightarrow> \<not> before q p"
        unfolding popped_def same_config_def by (metis gicv2.select_convs gicv2.surjective gicv2.update_convs)+
      have i: "?i < gd_list_registers g" using less.prems(2) trailing_zeros_hd(3) [OF f(1)] by blast
      have "injectable p g1" "?i < gd_list_registers g1"
        using g1 i by (simp_all add: injectable_servable same_config_def)
      from gic_inject_spec [OF g1(1) this, of ops] obtain g2 where g2: "gic_inject ops ?i p g1 = Some g2" "gicv2_ok g2"
        "same_config g1 g2" "gd_pending g2 = gd_pending g1" "gd_pending_count g2 = gd_pending_count g1"
        "gd_lr_iar g2 = (gd_lr_iar g1)[?i := lr_tag p]"
        "gd_mmio g2 = lr_write ops (gl_hypervisor (gd_layout g1)) (?i, p) (gd_mmio g1)" by blast
      let ?free = "free AND NOT (push_bit ?i 1)"
      have w2: "waiting g2 = waiting g1" using g2(4) by (simp add: waiting_def)
      have "size (mset (waiting g)) = size (mset (waiting g1)) + 1" unfolding g1(5) by simp
      then have "gd_pending_count g2 < gd_pending_count g" using less.prems(1) g1(1) g2(5) by (simp add: gicv2_ok_def)
      moreover have "\<And>j. bit ?free j \<Longrightarrow> j < gd_list_registers g2"
        using less.prems(2) g1(2) g2(3) by (simp add: bit_simps same_config_def)
      ultimately obtain sent h where h: "refill_loop ops ?free g2 = Some h" "gicv2_ok h" "same_config g2 h"
        "serve (gd_list_registers g2) (free_list ?free) (mset (waiting g2)) (gd_lr_iar g2) sent (mset (waiting h)) (gd_lr_iar h)"
        "gd_mmio h = fold (lr_write ops (gl_hypervisor (gd_layout g2))) sent (gd_mmio g2)"
        using less.hyps [of g2 ?free] g2(2) by blast
      have "refill_loop ops free g = Some h"
        using f pop(1) Some g2(1) h(1) by (subst refill_loop.simps) (simp add: Let_def)
      moreover have "serve (gd_list_registers g) (free_list free) (mset (waiting g)) (gd_lr_iar g) ((?i, p) # sent)
          (mset (waiting h)) (gd_lr_iar h)"
      proof -
        have "mset (waiting g) - {#p#} = mset (waiting g2)" unfolding g1(5) w2 by simp
        moreover have "gd_lr_iar g2 = (gd_lr_iar g)[?i := lr_tag p]" using g2(6) g1(3) by simp
        moreover have "gd_list_registers g2 = gd_list_registers g" using g2(3) g1(2) by (simp add: same_config_def)
        moreover have "free_list ?free = tl (free_list free)" "free_list free \<noteq> []" "?i = hd (free_list free)"
          using free_list_clear [OF f(1)] free_list_empty [of free] trailing_zeros_hd(1) [OF f(1)] f(1) by simp_all
        ultimately show ?thesis using h(4) g1(6-8) by (simp add: injectable_servable)
      qed
      moreover have "gd_mmio h = fold (lr_write ops (gl_hypervisor (gd_layout g))) ((?i, p) # sent) (gd_mmio g)"
        using h(5) g2 g1 by (simp add: same_config_def)
      moreover have "same_config g h" using g1(2) g2(3) h(3) by (simp add: same_config_def)
      ultimately show ?thesis using h(2) by blast
    qed
  qed
qed

lemma empty_lrs_spec:
  assumes "gd_list_registers g \<le> 64"
  shows "same_state g (snd (empty_lrs ops g))" and "bit (fst (empty_lrs ops g)) i \<Longrightarrow> i < gd_list_registers g"
proof -
  show "same_state g (snd (empty_lrs ops g))"
    unfolding empty_lrs_def by (auto simp: Let_def split: prod.splits intro: same_state_trans)
      (metis same_state_read(4) same_state_trans snd_conv)+
  have all: "bit (- 1 :: u64) i \<Longrightarrow> i < 64" using bit_imp_le_length by force
  have low: "bit (push_bit n 1 - 1 :: u64) i \<Longrightarrow> i < n" for n :: nat
  proof -
    have "push_bit n 1 - 1 = (mask n :: u64)" by (simp add: mask_eq_exp_minus_1 push_bit_eq_mult)
    then show "bit (push_bit n 1 - 1 :: u64) i \<Longrightarrow> i < n" by (simp add: bit_mask_iff)
  qed
  have r: "gd_list_registers h = gd_list_registers g'" if "read_hyp ops a g' = (v, h)" for a g' v h
    using same_stateD(2) [OF same_state_read(4) [of g' ops a]] that by simp
  show "bit (fst (empty_lrs ops g)) i \<Longrightarrow> i < gd_list_registers g"
    using all low by (auto simp only: empty_lrs_def Let_def bit_and_iff fst_conv split: prod.splits if_splits dest!: r)
qed


lemma same_state_config: "same_state g h \<Longrightarrow> same_config g h"
  by (simp add: same_config_def same_stateD)

lemma same_config_trans: "same_config g h \<Longrightarrow> same_config h k \<Longrightarrow> same_config g k"
  by (simp add: same_config_def)

lemma same_state_waiting: "same_state g h \<Longrightarrow> waiting h = waiting g"
  by (simp add: waiting_def same_stateD)

definition hcr_value :: "nat \<Rightarrow> u32 list \<Rightarrow> gic_pending multiset \<Rightarrow> u32" where
  "hcr_value n lrs waits = (if \<exists>q \<in># waits. servable n lrs q then 3 else 1)"

lemma update_hcr_spec:
  assumes "gicv2_ok g"
  shows "update_hcr ops g = write_hyp ops GICH_HCR
    (if gd_enabled g then hcr_value (gd_list_registers g) (gd_lr_iar g) (mset (waiting g)) else 0) g"
proof -
  have "has_injectable_pending g \<longleftrightarrow> (\<exists>q \<in># mset (waiting g). servable (gd_list_registers g) (gd_lr_iar g) q)"
    using waiting_empty [OF assms]
    by (auto simp: has_injectable_pending_def list_ex_iff waiting_def injectable_servable filter_empty_conv)
  then show ?thesis by (simp add: update_hcr_def hcr_value_def Let_def)
qed

lemma gic_refill_spec:
  assumes ok: "gicv2_ok g"
  shows "\<exists>sent h. gic_refill ops g = Some h \<and> gicv2_ok h \<and> same_config g h
    \<and> (if gd_enabled g
       then serve (gd_list_registers g) (free_list (fst (empty_lrs ops g))) (mset (waiting g)) (gd_lr_iar g) sent
              (mset (waiting h)) (gd_lr_iar h)
            \<and> gd_mmio h = mmio_write32 ops (gl_hypervisor (gd_layout g) + GICH_HCR)
                (hcr_value (gd_list_registers g) (gd_lr_iar h) (mset (waiting h)))
                (fold (lr_write ops (gl_hypervisor (gd_layout g))) sent (gd_mmio (snd (empty_lrs ops g))))
       else sent = [] \<and> waiting h = waiting g \<and> gd_lr_iar h = gd_lr_iar g
            \<and> gd_mmio h = mmio_write32 ops (gl_hypervisor (gd_layout g) + GICH_HCR) 0 (gd_mmio g))"
proof (cases "gd_enabled g")
  case True
  obtain free g0 where e: "empty_lrs ops g = (free, g0)" by (metis surj_pair)
  have n: "gd_list_registers g \<le> 64" using ok by (simp add: gicv2_ok_def)
  have s: "same_state g g0" using empty_lrs_spec(1) [OF n, of ops] e by simp
  have "bit free i \<Longrightarrow> i < gd_list_registers g0" for i
    using empty_lrs_spec(2) [OF n, of ops i] e same_stateD(2) [OF s] by simp
  from refill_loop_serves [OF _ this, where ops = ops] obtain sent h where h: "refill_loop ops free g0 = Some h" "gicv2_ok h"
    "same_config g0 h" "serve (gd_list_registers g0) (free_list free) (mset (waiting g0)) (gd_lr_iar g0) sent
       (mset (waiting h)) (gd_lr_iar h)"
    "gd_mmio h = fold (lr_write ops (gl_hypervisor (gd_layout g0))) sent (gd_mmio g0)"
    using ok same_state_ok [OF s] by blast
  let ?k = "write_hyp ops GICH_HCR (hcr_value (gd_list_registers h) (gd_lr_iar h) (mset (waiting h))) h"
  have k: "same_state h ?k" by simp
  have "gd_enabled h" "gd_layout h = gd_layout g" "gd_list_registers h = gd_list_registers g"
    using True same_stateD [OF s] h(3) by (simp_all add: same_config_def)
  then have "gic_refill ops g = Some ?k"
    using True e h(1) update_hcr_spec [OF h(2), of ops] by (simp add: gic_refill_def)
  moreover have "gicv2_ok ?k" using h(2) same_state_ok [OF k] by simp
  moreover have "same_config g ?k"
    using same_state_config [OF s] h(3) same_state_config [OF k] same_config_trans by blast
  ultimately show ?thesis
    using True e h(4,5) same_stateD [OF s] same_state_waiting [OF s] same_stateD [OF k] same_state_waiting [OF k]
      \<open>gd_layout h = gd_layout g\<close> \<open>gd_list_registers h = gd_list_registers g\<close>
    by (intro exI [of _ sent] exI [of _ ?k]) (simp add: write_hyp_def gic_write_def)
next
  case False
  let ?k = "write_hyp ops GICH_HCR 0 g"
  have k: "same_state g ?k" by simp
  have "gic_refill ops g = Some ?k" using False update_hcr_spec [OF ok, of ops] by (simp add: gic_refill_def)
  then show ?thesis using False ok same_state_ok [OF k] same_state_config [OF k] same_state_waiting [OF k] same_stateD [OF k]
    by (intro exI [of _ "[]"] exI [of _ ?k]) (simp add: write_hyp_def gic_write_def)
qed

lemma sgi_once_clear: "sgi_once n lrs \<Longrightarrow> n \<le> length lrs \<Longrightarrow> sgi_once n (lrs[i := SPURIOUS_IRQ])"
  unfolding sgi_once_def by (cases "i < length lrs") (auto simp: nth_list_update)

lemma drain_eois_ok:
  "gicv2_ok g \<Longrightarrow> list_all (\<lambda>i. i < 64) js \<Longrightarrow>
    \<exists>h. drain_eois ops eois js g = Some h \<and> gicv2_ok h \<and> same_config g h \<and> waiting h = waiting g"
proof (induction js arbitrary: g)
  case (Cons i js)
  show ?case
  proof (cases "eois AND push_bit i 1 = 0")
    case True
    with Cons show ?thesis by simp
  next
    case False
    define g1 where "g1 = write_hyp ops (GICH_LR0 + word_of_nat i * 4) 0 g"
    define g2 where "g2 = g1\<lparr>gd_lr_iar := (gd_lr_iar g1)[i := SPURIOUS_IRQ]\<rparr>"
    define g3 where "g3 = (if gd_lr_iar g1 ! i AND IRQ_ID_MASK < 16 then write_cpu ops GICC_DIR (gd_lr_iar g1 ! i) g2 else g2)"
    have s1: "same_state g g1" by (simp add: g1_def)
    have s3: "same_state g2 g3" by (simp add: g3_def)
    have ok1: "gicv2_ok g1" using Cons.prems(1) same_state_ok [OF s1] by simp
    have l: "length (gd_lr_iar g1) = 64" using ok1 by (simp add: gicv2_ok_def)
    have ok2: "gicv2_ok g2"
      using ok1 sgi_once_clear [of "gd_list_registers g1" "gd_lr_iar g1" i]
      by (simp add: g2_def gicv2_ok_def waiting_def del: SPURIOUS_IRQ_def)
    have ok3: "gicv2_ok g3" using same_state_ok [OF s3] ok2 by simp
    have c2: "same_config g1 g2" "waiting g2 = waiting g1" by (simp_all add: g2_def same_config_def waiting_def)
    have g3: "same_config g g3" "waiting g3 = waiting g"
      using c2 same_state_config [OF s1] same_state_config [OF s3] same_state_waiting [OF s1] same_state_waiting [OF s3]
      by (simp_all add: same_config_def)
    have "drain_eois ops eois (i # js) g = drain_eois ops eois js g3"
      using False l Cons.prems(2) unfolding drain_eois.simps Let_def g3_def g2_def g1_def [symmetric] by simp
    with Cons.IH [OF ok3] Cons.prems(2) g3 show ?thesis using same_config_trans [OF g3(1)] by auto
  qed
qed (simp add: same_config_def)

lemma eoi_lrs_same: "same_state g (snd (eoi_lrs ops g))"
proof -
  have r: "same_state g' h" if "read_hyp ops a g' = (v, h)" for a g' v h
    using same_state_read(4) [of g' ops a] that by simp
  show ?thesis
    by (auto simp only: eoi_lrs_def snd_conv split: prod.splits if_splits dest!: r intro: same_state_trans)
qed

lemma drain_sgi_eois_ok:
  assumes "gicv2_ok g"
  shows "\<exists>h. drain_sgi_eois ops g = Some h \<and> gicv2_ok h \<and> same_config g h \<and> waiting h = waiting g"
proof -
  obtain eois g1 where e: "eoi_lrs ops g = (eois, g1)" by (metis surj_pair)
  then have s: "same_state g g1" using eoi_lrs_same [of g ops] by simp
  have "list_all (\<lambda>i. i < 64) [0..<gd_list_registers g1]"
    using assms same_stateD [OF s] by (auto simp: gicv2_ok_def list_all_iff)
  from drain_eois_ok [OF _ this, where ops = ops and eois = eois] obtain h
    where "drain_eois ops eois [0..<gd_list_registers g1] g1 = Some h" "gicv2_ok h" "same_config g1 h" "waiting h = waiting g1"
    using assms same_state_ok [OF s] by blast
  then show ?thesis
    using e same_state_config [OF s] same_state_waiting [OF s] by (simp add: drain_sgi_eois_def same_config_def)
qed



section \<open>Every call keeps the invariant\<close>

lemma try_inject_spec:
  assumes ok: "gicv2_ok g"
  shows "\<exists>b h. try_inject ops p g = Some (b, h) \<and> gicv2_ok h \<and> same_config g h \<and> gd_pending h = gd_pending g
    \<and> (if b then gd_enabled g \<and> injectable p g \<and> free_list (fst (empty_lrs ops g)) \<noteq> []
            \<and> gd_lr_iar h = (gd_lr_iar g)[hd (free_list (fst (empty_lrs ops g))) := lr_tag p]
            \<and> gd_mmio h = lr_write ops (gl_hypervisor (gd_layout g)) (hd (free_list (fst (empty_lrs ops g))), p)
                (gd_mmio (snd (empty_lrs ops g)))
       else if gd_enabled g \<and> injectable p g
       then same_state g h \<and> free_list (fst (empty_lrs ops g)) = [] \<and> h = snd (empty_lrs ops g)
       else h = g)"
proof (cases "gd_enabled g \<and> injectable p g")
  case True
  obtain free g0 where e: "empty_lrs ops g = (free, g0)" by (metis surj_pair)
  have n: "gd_list_registers g \<le> 64" using ok by (simp add: gicv2_ok_def)
  have s: "same_state g g0" using empty_lrs_spec(1) [OF n, of ops] e by simp
  show ?thesis
  proof (cases "free = 0")
    case free: True
    then have "free_list free = []" by (simp add: free_list_empty)
    then show ?thesis
      using True e free ok same_state_ok [OF s] same_state_config [OF s] same_stateD(4) [OF s] s
      by (intro exI [of _ False] exI [of _ g0]) (simp add: try_inject_def)
  next
    case False
    have i: "trailing_zeros free < gd_list_registers g0"
      using trailing_zeros_hd(3) [OF False] empty_lrs_spec(2) [OF n, of ops] e same_stateD(2) [OF s] by force
    have inj: "injectable p g0" using True same_state_injectable [OF s] by simp
    from gic_inject_spec [OF _ inj i, of ops] obtain h where "gic_inject ops (trailing_zeros free) p g0 = Some h"
      "gicv2_ok h" "same_config g0 h" "gd_pending h = gd_pending g0"
      "gd_lr_iar h = (gd_lr_iar g0)[trailing_zeros free := lr_tag p]"
      "gd_mmio h = lr_write ops (gl_hypervisor (gd_layout g0)) (trailing_zeros free, p) (gd_mmio g0)"
      using ok same_state_ok [OF s] by blast
    then show ?thesis
      using True False e same_stateD [OF s] trailing_zeros_hd(1) [OF False] free_list_empty [of free]
      by (intro exI [of _ True] exI [of _ h]) (simp add: try_inject_def same_config_def)
  qed
qed (use ok in \<open>auto simp: try_inject_def same_config_def\<close>)




lemma gic_forward_ok:
  assumes ok: "gicv2_ok g" and p: "gp_priority p < 32"
  shows "\<exists>h. gic_forward ops p g = Some h \<and> gicv2_ok h \<and> same_config g h"
proof -
  obtain b g1 where t: "(if gd_pending_count g \<noteq> 0 then Some (False, g) else try_inject ops p g) = Some (b, g1)"
    "gicv2_ok g1" "same_config g g1"
    using try_inject_spec [OF ok, of ops p] ok by (cases "gd_pending_count g = 0") (auto simp: same_config_def)
  obtain g2 where e: "gic_enqueue p g1 = Some g2" "gicv2_ok g2" using enqueue_ok [OF t(2) p] by blast
  have c2: "same_config g1 g2"
    using e(1) by (auto simp: gic_enqueue_def same_config_def split: option.splits if_splits)
  from gic_refill_spec [OF e(2), of ops] obtain h where "gic_refill ops g2 = Some h" "gicv2_ok h" "same_config g2 h" by blast
  then show ?thesis using t e c2 same_config_trans by (cases b) (auto simp: gic_forward_def, blast)
qed

lemma same_state_simps:
  "same_state g (update_dist ops a f g)" "same_state g (snd (owned_group ops a b g))" "same_state g (set_pending ops irq g)"
  "same_state g (complete_owned_interrupt ops iar g)"
proof -
  show "same_state g (update_dist ops a f g)"
    using same_state_trans [OF same_state_read(2) same_state_write(3)] by (simp add: update_dist_def split_beta)
  show "same_state g (snd (owned_group ops a b g))"
    using same_state_trans [OF same_state_read(2) same_state_read(2)] by (simp add: owned_group_def split_beta)
  show "same_state g (set_pending ops irq g)" by (simp add: set_pending_def)
  show "same_state g (complete_owned_interrupt ops iar g)"
    using same_state_trans [OF same_state_write(4) same_state_write(4)] by (simp add: complete_owned_interrupt_def)
qed

lemma same_state_after:
  "same_state g h \<Longrightarrow> same_state g (write_dist ops a v h)" "same_state g h \<Longrightarrow> same_state g (write_cpu ops a v h)"
  "same_state g h \<Longrightarrow> same_state g (write_hyp ops a v h)" "same_state g h \<Longrightarrow> same_state g (gic_barrier ops h)"
  "same_state g h \<Longrightarrow> same_state g (update_dist ops a f h)" "same_state g h \<Longrightarrow> same_state g (snd (owned_group ops a b h))"
  "same_state g h \<Longrightarrow> same_state g (snd (read_cpu ops a h))" "same_state g h \<Longrightarrow> same_state g (snd (read_hyp ops a h))"
  "same_state g h \<Longrightarrow> same_state g (set_pending ops irq h)" "same_state g h \<Longrightarrow> same_state g (complete_owned_interrupt ops iar h)"
  by (erule same_state_trans, simp add: same_state_simps)+

lemma configure_same:
  "same_state g (configure_maintenance_interrupt ops g)" "same_state g (configure_interrupt ops irq m g)"
  "same_state g (pend_owned_interrupt ops g)" "same_state g (pend_network_interrupt ops g)"
  by (simp_all add: configure_maintenance_interrupt_def configure_interrupt_def Let_def split_beta
      pend_owned_interrupt_def pend_network_interrupt_def same_state_after)

lemma configure_owned_same: "same_state g (configure_owned_interrupt ops m g)"
  using same_state_trans [OF configure_same(2) configure_same(2)] by (simp add: configure_owned_interrupt_def Let_def)

lemma same_state_fold: "same_state g (fold (\<lambda>i. write_hyp ops (a i) v) js g)"
  by (induction js arbitrary: g) (auto intro: same_state_trans [OF same_state_write(5)])

definition same_owner :: "'m gicv2 \<Rightarrow> 'm gicv2 \<Rightarrow> bool" where
  "same_owner g h \<longleftrightarrow> gd_owned h = gd_owned g \<and> gd_network h = gd_network g"

lemma same_owner_config: "same_config g h \<Longrightarrow> same_owner g h"
  by (simp add: same_config_def same_owner_def)

lemma same_owner_state: "same_state g h \<Longrightarrow> same_owner g h"
  by (simp add: same_owner_def same_stateD)

lemma gic_initialize_ok:
  assumes "gicv2_ok g"
  shows "gicv2_ok (snd (gic_initialize ops g)) \<and> same_owner g (snd (gic_initialize ops g))"
proof -
  obtain iidr g1 where r1: "read_cpu ops GICC_IIDR g = (iidr, g1)" by (metis surj_pair)
  obtain vtr g2 where r2: "read_hyp ops GICH_VTR g1 = (vtr, g2)" by (metis surj_pair)
  have s1: "same_state g g1" using same_state_read(3) [of g ops GICC_IIDR] unfolding r1 by simp
  have s2: "same_state g g2" using same_state_after(8) [OF s1, of ops GICH_VTR] unfolding r2 by simp
  have ok1: "gicv2_ok g1" "gicv2_ok g2" using assms same_state_ok [OF s1] same_state_ok [OF s2] by simp_all
  note own = same_owner_state [OF s1] same_owner_state [OF s2]
  define n where "n = unat (vtr AND 0x3f) + 1"
  define g3 where "g3 = g2\<lparr>gd_list_registers := n, gd_pending := replicate (length (gd_pending g2)) pending_empty,
    gd_pending_count := 0, gd_lr_iar := replicate (length (gd_lr_iar g2)) SPURIOUS_IRQ\<rparr>"
  have ok3: "gicv2_ok g3" if "n \<le> 64"
    using that ok1(2) by (auto simp: g3_def gicv2_ok_def waiting_def sgi_once_def)
  have own3: "same_owner g g3" using own(2) by (simp add: g3_def same_owner_def)
  have "n \<le> 64 \<Longrightarrow> gicv2_ok h \<and> same_owner g h" if "same_state g3 h" for h
    using ok3 same_state_ok [OF that] own3 same_owner_state [OF that] by (simp add: same_owner_def)
  note keep = this
  show ?thesis
    unfolding gic_initialize_def r1 r2 Let_def prod.case n_def [symmetric] g3_def [symmetric]
    using ok1 own by (simp add: split_beta not_less; intro impI keep same_state_after configure_same(1)
        same_state_trans [OF _ configure_same(1)] same_state_fold)
qed


text \<open>
  The calls the monitor makes of the driver.  \<open>take_interrupt\<close> hands out a token for an interrupt of the
  monitor; there is no other way to make one.  A call of \<open>finish_owned_interrupt\<close> is for one of the tokens
  held, with the priority of the guest or its own; a token may be used again, as it can be copied.  The
  monitor says which interrupts it owns before it takes any, so that no token is held across such a call.
\<close>

datatype gic_command =
  GicInitialize | GicPoll | GicTake | GicFinish nat "u8 option" bool | GicEnable bool
| GicOwned "u32 option" | GicNetwork "u32 option" | GicConfigure u8 | GicPendOwned | GicPendNetwork

type_synonym 'm gic_session = "gic_pending list \<times> 'm gicv2"

fun gic_call :: "'m mmio_ops \<Rightarrow> gic_command \<Rightarrow> 'm gic_session \<Rightarrow> 'm gic_session option" where
  "gic_call ops GicInitialize (tokens, g) = Some (tokens, snd (gic_initialize ops g))"
| "gic_call ops GicPoll (tokens, g) = do { g \<leftarrow> gic_poll ops g; Some (tokens, g) }"
| "gic_call ops GicTake (tokens, g) =
     do { (event, g) \<leftarrow> take_interrupt ops g; Some (case event of Owned p \<Rightarrow> p # tokens | _ \<Rightarrow> tokens, g) }"
| "gic_call ops (GicFinish i priority deliver) (tokens, g) =
     (if i < length tokens
      then do {
        g \<leftarrow> finish_owned_interrupt ops
          (case priority of None \<Rightarrow> tokens ! i | Some v \<Rightarrow> with_guest_priority v (tokens ! i)) deliver g;
        Some (tokens, g)
      }
      else Some (tokens, g))"
| "gic_call ops (GicEnable enabled) (tokens, g) = do { g \<leftarrow> gic_set_distributor_enabled ops enabled g; Some (tokens, g) }"
| "gic_call ops (GicOwned irq) (tokens, g) = Some ([], gic_set_owned_interrupt irq g)"
| "gic_call ops (GicNetwork irq) (tokens, g) = Some ([], gic_set_network_interrupt irq g)"
| "gic_call ops (GicConfigure target) (tokens, g) = Some (tokens, configure_owned_interrupt ops target g)"
| "gic_call ops GicPendOwned (tokens, g) = Some (tokens, pend_owned_interrupt ops g)"
| "gic_call ops GicPendNetwork (tokens, g) = Some (tokens, pend_network_interrupt ops g)"

fun gic_run :: "'m mmio_ops \<Rightarrow> gic_command list \<Rightarrow> 'm gic_session \<Rightarrow> 'm gic_session option" where
  "gic_run ops [] s = Some s"
| "gic_run ops (c # cs) s = do { s \<leftarrow> gic_call ops c s; gic_run ops cs s }"

lemma ok_update: "gicv2_ok (g\<lparr>gd_enabled := e\<rparr>) = gicv2_ok g" "gicv2_ok (g\<lparr>gd_owned := i\<rparr>) = gicv2_ok g"
  "gicv2_ok (g\<lparr>gd_network := i\<rparr>) = gicv2_ok g"
  by (simp_all add: gicv2_ok_def waiting_def)

lemma ok_after: "gicv2_ok g \<Longrightarrow> same_state g h \<Longrightarrow> gicv2_ok h"
  by (simp add: same_state_ok)

lemma ok_barrier [simp]: "gicv2_ok (gic_barrier ops g) = gicv2_ok g"
  by (simp add: same_state_ok)

lemma gic_poll_ok:
  assumes "gicv2_ok g"
  shows "\<exists>h. (do { g \<leftarrow> drain_sgi_eois ops g; gic_refill ops g }) = Some h \<and> gicv2_ok h \<and> same_config g h"
proof -
  from drain_sgi_eois_ok [OF assms, of ops] obtain g1 where d: "drain_sgi_eois ops g = Some g1" "gicv2_ok g1" "same_config g g1"
    by blast
  from gic_refill_spec [OF d(2), of ops] d(1,3) same_config_trans show ?thesis by (metis bind.bind_lunit)
qed

lemma running_priority: "(ucast (drop_bit 3 (rpr :: u32) AND 0x1f) :: u8) < 32"
proof -
  have "unat (drop_bit 3 rpr AND 0x1f) \<le> 0x1f" using word_and_le1 [of "drop_bit 3 rpr" "0x1f"] by (simp add: word_le_nat_alt)
  then show ?thesis by (simp add: word_less_nat_alt unsigned_ucast_eq take_bit_eq_mod)
qed

lemma token_priority: "gp_priority (with_guest_priority v p) < 32"
proof -
  have "unat v < 2 ^ LENGTH(8)" by (rule unsigned_less)
  then show ?thesis by (simp add: with_guest_priority_def word_less_nat_alt drop_bit_eq_div unat_div)
qed

lemma with_guest_priority_id [simp]: "pending_id (with_guest_priority v p) = pending_id p"
  by (simp add: with_guest_priority_def pending_id_def)

text \<open>The tokens the driver hands out: interrupts it owns, with the priority of their service.\<close>

definition token_ok :: "'m gicv2 \<Rightarrow> gic_pending \<Rightarrow> bool" where
  "token_ok g p \<longleftrightarrow> pending_id p \<in> {gd_owned g, gd_network g} \<and> gp_priority p < 32"

lemma take_interrupt_ok:
  assumes "gicv2_ok g"
  shows "\<exists>e h. take_interrupt ops g = Some (e, h) \<and> gicv2_ok h \<and> same_config g h
    \<and> (case e of Owned p \<Rightarrow> token_ok g p | _ \<Rightarrow> True)"
proof -
  obtain iar g1 where r: "read_cpu ops GICC_IAR g = (iar, g1)" by (metis surj_pair)
  obtain rpr g2 where r2: "read_cpu ops GICC_RPR g1 = (rpr, g2)" by (metis surj_pair)
  have s1: "same_state g g1" using same_state_read(3) [of g ops GICC_IAR] unfolding r by simp
  have s2: "same_state g g2" using same_state_trans [OF s1 same_state_read(3) [of g1 ops GICC_RPR]] unfolding r2 by simp
  let ?g3 = "write_cpu ops GICC_EOIR iar g2"
  let ?p = "\<lparr>gp_iar = iar, gp_priority = ucast (drop_bit 3 rpr AND 0x1f)\<rparr>"
  have s3: "same_state g ?g3" by (rule same_state_trans [OF s2]) simp
  note ok = ok_after [OF assms s1] ok_after [OF assms s3]
  have irq: "iar AND IRQ_ID_MASK = pending_id ?p" by (simp add: pending_id_def)
  have own: "gd_owned ?g3 = gd_owned g" "gd_network ?g3 = gd_network g" using same_stateD [OF s3] by simp_all
  note take = take_interrupt_def r r2 prod.case Let_def irq own
  obtain h1 where h1: "(do { g \<leftarrow> drain_sgi_eois ops g1; gic_refill ops g }) = Some h1" "gicv2_ok h1" "same_config g1 h1"
    using gic_poll_ok [OF ok(1)] by blast
  then obtain d where d: "drain_sgi_eois ops g1 = Some d" "gic_refill ops d = Some h1" by (auto simp: bind_eq_Some_conv)
  obtain h2 where h2: "gic_forward ops ?p ?g3 = Some h2" "gicv2_ok h2" "same_config ?g3 h2"
    using gic_forward_ok [OF ok(2), of ?p ops] running_priority by auto
  have m: "same_state h1 (gic_barrier ops (complete_owned_interrupt ops iar h1))" by (simp add: same_state_after)
  have f: "same_state h2 (gic_barrier ops h2)" "same_state g (gic_barrier ops ?g3)" using s3 by (simp_all add: same_state_after)
  have c1: "same_config g (gic_barrier ops (complete_owned_interrupt ops iar h1))"
    using same_config_trans [OF same_state_config [OF s1] same_config_trans [OF h1(3) same_state_config [OF m]]] .
  have c2: "same_config g (gic_barrier ops h2)"
    using same_config_trans [OF same_state_config [OF s3] same_config_trans [OF h2(3) same_state_config [OF f(1)]]] .
  consider "1020 \<le> pending_id ?p" | "\<not> 1020 \<le> pending_id ?p" "pending_id ?p = MAINTENANCE_IRQ"
    | "\<not> 1020 \<le> pending_id ?p" "pending_id ?p \<noteq> MAINTENANCE_IRQ" "pending_id ?p = gd_owned g \<or> pending_id ?p = gd_network g"
    | "\<not> 1020 \<le> pending_id ?p" "pending_id ?p \<noteq> MAINTENANCE_IRQ" "\<not> (pending_id ?p = gd_owned g \<or> pending_id ?p = gd_network g)"
    by blast
  then show ?thesis
  proof cases
    case 1
    then have "take_interrupt ops g = Some (NoInterrupt, g1)" unfolding take by simp
    then show ?thesis using ok(1) same_state_config [OF s1] by simp
  next
    case 2
    then have "take_interrupt ops g = Some (Maintenance, gic_barrier ops (complete_owned_interrupt ops iar h1))"
      unfolding take by (simp add: d)
    then show ?thesis using ok_after [OF h1(2) m] c1 by simp
  next
    case 3
    then have "take_interrupt ops g = Some (Owned ?p, gic_barrier ops ?g3)" unfolding take by auto
    moreover have "token_ok g ?p" using 3 running_priority by (simp add: token_ok_def)
    ultimately show ?thesis using ok_after [OF assms f(2)] same_state_config [OF f(2)] by simp
  next
    case 4
    then have "take_interrupt ops g = Some (Guest, gic_barrier ops h2)" using h2(1) unfolding take by simp
    then show ?thesis using ok_after [OF h2(2) f(1)] c2 by simp
  qed
qed

lemma finish_owned_interrupt_ok:
  assumes "gicv2_ok g" and "token_ok g p"
  shows "\<exists>h. finish_owned_interrupt ops p deliver g = Some h \<and> gicv2_ok h \<and> same_config g h"
proof (cases deliver)
  case True
  have s: "same_state g (set_pending ops (pending_id p) g)" by (rule same_state_simps(3))
  have "gp_priority p < 32" using assms(2) by (simp add: token_ok_def)
  from gic_forward_ok [OF ok_after [OF assms(1) s] this, of ops] obtain h where
    h: "gic_forward ops p (set_pending ops (pending_id p) g) = Some h" "gicv2_ok h" "same_config g h"
    using same_config_trans [OF same_state_config [OF s]] by blast
  have "same_state h (gic_barrier ops h)" by simp
  with h True assms(2) show ?thesis
    using same_config_trans [OF h(3) same_state_config] by (auto simp: finish_owned_interrupt_def token_ok_def)
next
  case False
  have s: "same_state g (gic_barrier ops (write_cpu ops GICC_DIR (gp_iar p) g))" by (simp add: same_state_after)
  then show ?thesis
    using False assms ok_after [OF assms(1) s] same_state_config [OF s]
    by (auto simp: finish_owned_interrupt_def token_ok_def)
qed

text \<open>A session: the driver is well formed and what is held are tokens of the interrupts it owns now.\<close>

fun session_ok :: "'m gic_session \<Rightarrow> bool" where
  "session_ok (tokens, g) \<longleftrightarrow> gicv2_ok g \<and> list_all (token_ok g) tokens"

lemma session_keeps: "session_ok (tokens, g) \<Longrightarrow> gicv2_ok h \<Longrightarrow> same_owner g h \<Longrightarrow> session_ok (tokens, h)"
  by (auto simp: list_all_iff token_ok_def same_owner_def)

lemma session_same_state: "session_ok (tokens, g) \<Longrightarrow> same_state g h \<Longrightarrow> session_ok (tokens, h)"
  by (rule session_keeps) (auto simp: same_state_ok same_owner_state)

lemma gic_call_ok:
  assumes ok: "session_ok (tokens, g)"
  shows "\<exists>s. gic_call ops c (tokens, g) = Some s \<and> session_ok s"
proof (cases c)
  case GicInitialize
  with gic_initialize_ok [of g ops] session_keeps [OF ok] ok show ?thesis by simp
next
  case GicPoll
  obtain h where h: "(do { g \<leftarrow> drain_sgi_eois ops g; gic_refill ops g }) = Some h" "gicv2_ok h" "same_config g h"
    using gic_poll_ok [of g ops] ok by auto
  then have "gic_poll ops g = Some (gic_barrier ops h)" by (auto simp: gic_poll_def bind_eq_Some_conv)
  moreover have "session_ok (tokens, gic_barrier ops h)"
    by (rule session_same_state [OF session_keeps [OF ok h(2) same_owner_config [OF h(3)]]]) simp
  ultimately show ?thesis using GicPoll by simp
next
  case GicTake
  obtain e h where t: "take_interrupt ops g = Some (e, h)" "gicv2_ok h" "same_config g h"
    "case e of Owned p \<Rightarrow> token_ok g p | _ \<Rightarrow> True"
    using take_interrupt_ok [of g ops] ok by auto
  have "session_ok (case e of Owned p \<Rightarrow> p # tokens | _ \<Rightarrow> tokens, g)"
    using ok t(4) by (simp split: gic_event.splits)
  from session_keeps [OF this t(2) same_owner_config [OF t(3)]] GicTake t(1) show ?thesis by simp
next
  case (GicFinish i priority deliver)
  let ?p = "case priority of None \<Rightarrow> tokens ! i | Some v \<Rightarrow> with_guest_priority v (tokens ! i)"
  show ?thesis
  proof (cases "i < length tokens")
    case True
    then have "token_ok g (tokens ! i)" using ok by (simp add: list_all_length)
    then have "token_ok g ?p" by (cases priority) (auto simp: token_ok_def token_priority)
    from finish_owned_interrupt_ok [OF _ this, of ops deliver] ok obtain h where
      "finish_owned_interrupt ops ?p deliver g = Some h" "gicv2_ok h" "same_config g h" by auto
    with True GicFinish session_keeps [OF ok _ same_owner_config] show ?thesis by simp
  qed (use GicFinish ok in simp)
next
  case (GicEnable e)
  have "gicv2_ok (g\<lparr>gd_enabled := e\<rparr>)" using ok by (simp add: ok_update)
  from gic_refill_spec [OF this, of ops] obtain h where h: "gic_refill ops (g\<lparr>gd_enabled := e\<rparr>) = Some h" "gicv2_ok h"
    "same_config (g\<lparr>gd_enabled := e\<rparr>) h" by blast
  have "session_ok (tokens, gic_barrier ops h)"
    by (rule session_same_state [OF session_keeps [OF ok h(2)]]) (use h(3) in \<open>simp_all add: same_config_def same_owner_def\<close>)
  with h(1) GicEnable ok show ?thesis by (simp add: gic_set_distributor_enabled_def)
next
  case (GicConfigure target)
  then show ?thesis using session_same_state [OF ok configure_owned_same] by simp
next
  case GicPendOwned
  then show ?thesis using session_same_state [OF ok configure_same(3)] by simp
next
  case GicPendNetwork
  then show ?thesis using session_same_state [OF ok configure_same(4)] by simp
qed (use ok in \<open>simp_all add: ok_update gic_set_owned_interrupt_def gic_set_network_interrupt_def\<close>)

lemma gic_run_ok: "session_ok s \<Longrightarrow> \<exists>s'. gic_run ops cs s = Some s' \<and> session_ok s'"
proof (induction cs arbitrary: s)
  case (Cons c cs)
  obtain tokens g where s: "s = (tokens, g)" by (cases s)
  from gic_call_ok [OF Cons.prems [unfolded s], of ops c] Cons.IH show ?case by (auto simp: s)
qed simp

lemma gic_run_new:
  "\<exists>tokens g. gic_run ops calls ([], gicv2_new m layout) = Some (tokens, g) \<and> gicv2_ok g \<and> list_all (token_ok g) tokens"
  using gic_run_ok [of "([], gicv2_new m layout)" ops calls] gicv2_new_ok [of m layout] by auto



section \<open>The scheduler\<close>

text \<open>Hardware that answers each read by any function of what happened so far, and a record of every access.\<close>

datatype bus_access = BusRead u64 u32 | BusWrite u64 u32 | BusBarrier

type_synonym bus_log = "bus_access list"

definition gic_bus :: "(bus_log \<Rightarrow> u64 \<Rightarrow> u32) \<Rightarrow> bus_log mmio_ops" where
  "gic_bus dev = \<lparr>mmio_read32 = \<lambda>a log. (dev log a, log @ [BusRead a (dev log a)]),
     mmio_write32 = \<lambda>a v log. log @ [BusWrite a v], mmio_barrier = \<lambda>log. log @ [BusBarrier]\<rparr>"

definition lr_access :: "u64 \<Rightarrow> nat \<times> gic_pending \<Rightarrow> bus_access" where
  "lr_access hyp = (\<lambda>(i, p). BusWrite (hyp + (GICH_LR0 + word_of_nat i * 4)) (encode_lr p))"

lemma fold_lr_write: "fold (lr_write (gic_bus dev) hyp) sent log = log @ map (lr_access hyp) sent"
  by (induction sent arbitrary: log) (auto simp: lr_write_def gic_bus_def lr_access_def split: prod.splits)


text \<open>
  The scheduler, over numbers.  An interrupt is told by the ten low bits of what the acknowledge register
  said.  The smaller priority goes first and among equals the smaller number.  A software interrupt waits
  while a list register holds one of its number.
\<close>

definition irq_number :: "u32 \<Rightarrow> nat" where
  "irq_number iar = unat iar mod 1024"

definition as_urgent :: "gic_pending \<Rightarrow> gic_pending \<Rightarrow> bool" where
  "as_urgent p q \<longleftrightarrow>
     unat (gp_priority p) < unat (gp_priority q)
     \<or> unat (gp_priority p) = unat (gp_priority q) \<and> irq_number (gp_iar p) \<le> irq_number (gp_iar q)"

definition deliverable :: "u32 list \<Rightarrow> gic_pending \<Rightarrow> bool" where
  "deliverable lrs p \<longleftrightarrow> 16 \<le> irq_number (gp_iar p) \<or> irq_number (gp_iar p) \<notin> irq_number ` set lrs"

fun schedule :: "nat list \<Rightarrow> gic_pending multiset \<Rightarrow> u32 list \<Rightarrow> (nat \<times> gic_pending) list
    \<Rightarrow> gic_pending multiset \<Rightarrow> u32 list \<Rightarrow> bool" where
  "schedule free waits lrs [] waits' lrs' \<longleftrightarrow>
     waits' = waits \<and> lrs' = lrs \<and> (free = [] \<or> (\<forall>q \<in># waits. \<not> deliverable lrs q))"
| "schedule free waits lrs ((i, p) # sent) waits' lrs' \<longleftrightarrow>
     free \<noteq> [] \<and> i = hd free \<and> p \<in># waits \<and> deliverable lrs p
     \<and> (\<forall>q \<in># waits. deliverable lrs q \<longrightarrow> as_urgent p q)
     \<and> schedule (tl free) (waits - {#p#}) (lrs[i := if irq_number (gp_iar p) < 16 then gp_iar p else 1023]) sent waits' lrs'"

text \<open>
  What a list register is written with: the number from bit 0, pending at bit 28 and the priority from bit
  23.  A software interrupt names the processor that sent it from bit 10 and asks for a maintenance
  interrupt by bit 19, when the guest is done with it; any other is a hardware interrupt, by bit 31, with
  the physical number from bit 10.
\<close>

definition lr_value :: "gic_pending \<Rightarrow> nat" where
  "lr_value p =
     (let number = irq_number (gp_iar p); source = unat (gp_iar p) div 1024 mod 8
      in number + 2 ^ 28 + 2 ^ 23 * unat (gp_priority p)
         + (if number < 16 then 2 ^ 10 * source + 2 ^ 19 else 2 ^ 31 + 2 ^ 10 * number))"

text \<open>The list registers that are free, the lowest first, by the two status words.\<close>

definition free_registers :: "u32 \<Rightarrow> u32 \<Rightarrow> nat \<Rightarrow> nat list" where
  "free_registers low high n = filter (\<lambda>i. if i < 32 then bit low i else bit high (i - 32)) [0..<n]"

lemma irq_number_mask: "unat (iar AND IRQ_ID_MASK) = irq_number iar"
proof -
  have "IRQ_ID_MASK = mask 10" by (simp add: mask_eq_exp_minus_1)
  then have "iar AND IRQ_ID_MASK = take_bit 10 iar" by (simp only: take_bit_eq_mask)
  then show ?thesis by (simp add: irq_number_def unsigned_take_bit_eq take_bit_eq_mod unat_mod)
qed

lemma irq_number_pending: "unat (pending_id p) = irq_number (gp_iar p)"
  by (simp only: pending_id_def irq_number_mask)

lemma pending_id_number: "pending_id p < 16 \<longleftrightarrow> irq_number (gp_iar p) < 16"
  by (simp add: word_less_nat_alt irq_number_pending)

lemma not_before_urgent: "\<not> before q p \<longleftrightarrow> as_urgent p q"
  by (auto simp: before_def as_urgent_def word_less_nat_alt irq_number_pending word_unat_eq_iff)

lemma servable_deliverable: "servable n lrs p \<longleftrightarrow> deliverable (take n lrs) p"
proof -
  have "iar AND IRQ_ID_MASK = pending_id p \<longleftrightarrow> irq_number iar = irq_number (gp_iar p)" for iar
    by (simp only: word_unat_eq_iff irq_number_mask irq_number_pending)
  then show ?thesis
    using pending_id_number [of p] by (auto simp: servable_def deliverable_def list_ex_iff not_less not_le image_iff)
qed

lemma lr_tag_number: "lr_tag p = (if irq_number (gp_iar p) < 16 then gp_iar p else 1023)"
  by (simp add: lr_tag_def pending_id_number SPURIOUS_IRQ_def)

lemma encode_lr_value:
  assumes p: "gp_priority p < 32" and valid: "pending_valid p"
  shows "encode_lr p = word_of_nat (lr_value p)"
proof -
  define k where "k = pending_id p"
  define prio :: u32 where "prio = ucast (gp_priority p)"
  define src where "src = take_bit 3 (drop_bit 10 (gp_iar p))"
  have masks: "IRQ_ID_MASK = mask 10" "SOURCE_CPU_MASK = push_bit 10 (mask 3)" "LR_PENDING = push_bit 28 1"
    "LR_EOI = push_bit 19 1" "LR_HARDWARE = push_bit 31 1"
    by (simp_all add: mask_eq_exp_minus_1)
  have "take_bit 5 (gp_priority p) = gp_priority p"
    using p by (intro word_unat_eq_iff [THEN iffD2]) (simp add: unsigned_take_bit_eq take_bit_eq_mod unat_mod word_less_nat_alt)
  then have prio: "bit prio i \<Longrightarrow> i < 5" for i
    unfolding prio_def by (metis bit_take_bit_iff bit_ucast_iff)
  have k: "bit k i \<Longrightarrow> i < 10" for i
    unfolding k_def pending_id_def masks by (simp only: bit_and_iff bit_mask_iff)
  have src: "bit src i \<Longrightarrow> i < 3" for i by (simp only: src_def bit_take_bit_iff)
  have small: "bit k i \<Longrightarrow> i < 4" if "k < 16" for i
  proof -
    have "take_bit 4 k = k" using that
      by (intro word_unat_eq_iff [THEN iffD2]) (simp add: unsigned_take_bit_eq take_bit_eq_mod unat_mod word_less_nat_alt)
    then show "bit k i \<Longrightarrow> i < 4" by (metis bit_take_bit_iff)
  qed
  have src_mask: "gp_iar p AND SOURCE_CPU_MASK = push_bit 10 src"
    unfolding masks src_def by (rule bit_word_eqI) (auto simp: bit_and_iff bit_push_bit_iff bit_mask_iff bit_take_bit_iff bit_drop_bit_eq)
  have one: "bit (push_bit n 1 :: u32) i \<longleftrightarrow> i = n \<and> i < 32" for n i
    by (simp only: bit_push_bit_iff bit_1_iff) auto
  have shifted: "bit (push_bit n w :: u32) i \<longleftrightarrow> n \<le> i \<and> i < 32 \<and> bit w (i - n)" for n w i
    by (simp only: bit_push_bit_iff) auto
  note bits = one shifted bit_or_iff bit_1_iff
  have sum: "a OR b = a + b" if "\<And>i. bit a i \<Longrightarrow> bit b i \<Longrightarrow> False" for a b :: u32
  proof (rule disjunctive_add_eq_or [symmetric], rule bit_word_eqI)
    show "bit (a AND b) i = bit 0 i" for i using that by (simp add: bit_and_iff) blast
  qed
  have pend: "k OR push_bit 28 1 = k + push_bit 28 1" by (rule sum) (unfold bits, auto dest: k)
  have base: "k OR push_bit 28 1 OR push_bit 23 prio = k + push_bit 28 1 + push_bit 23 prio"
    unfolding pend [symmetric] or.assoc [symmetric] by (rule sum) (unfold bits, auto dest: k prio)
  have number: "irq_number (gp_iar p) = unat k" "unat (gp_iar p) div 1024 mod 8 = unat src"
    by (simp_all add: irq_number_pending k_def src_def unsigned_take_bit_eq take_bit_eq_mod drop_bit_eq_div unat_mod unat_div)
  have val: "word_of_nat (lr_value p) = k + push_bit 28 1 + push_bit 23 prio
      + (if k < 16 then push_bit 10 src + push_bit 19 1 else push_bit 31 1 + push_bit 10 k)"
    by (simp add: lr_value_def Let_def number prio_def push_bit_eq_mult word_less_nat_alt)
  show ?thesis
  proof (cases "k < 16")
    case True
    have "(k OR push_bit 28 1 OR push_bit 23 prio) OR push_bit 10 src
        = (k OR push_bit 28 1 OR push_bit 23 prio) + push_bit 10 src"
      by (rule sum) (unfold bits, auto dest: small [OF True] src prio)
    moreover have "((k OR push_bit 28 1 OR push_bit 23 prio) OR push_bit 10 src) OR push_bit 19 1
        = ((k OR push_bit 28 1 OR push_bit 23 prio) OR push_bit 10 src) + push_bit 19 1"
      by (rule sum) (unfold bits, auto dest: k src prio)
    ultimately show ?thesis
      unfolding val encode_lr_def Let_def k_def [symmetric] prio_def [symmetric] src_mask masks(3-5)
      using True by (simp only: if_True base add.assoc)
  next
    case False
    have "push_bit 31 1 OR push_bit 10 k = push_bit 31 1 + push_bit 10 k"
      by (rule sum) (unfold bits, auto dest: k)
    moreover have "(k OR push_bit 28 1 OR push_bit 23 prio) OR (push_bit 31 1 OR push_bit 10 k)
        = (k OR push_bit 28 1 OR push_bit 23 prio) + (push_bit 31 1 OR push_bit 10 k)"
      by (rule sum) (unfold bits, auto dest: k prio)
    ultimately show ?thesis
      unfolding val encode_lr_def Let_def k_def [symmetric] prio_def [symmetric] masks(3-5)
      using False by (simp only: if_False base add.assoc)
  qed
qed

lemma serve_sent:
  "serve n free waits lrs sent waits' lrs' \<Longrightarrow> waits = waits' + mset (map snd sent) \<and> map fst sent = take (length sent) free"
proof (induction sent arbitrary: free waits lrs)
  case (Cons x sent)
  then obtain i p where x: "x = (i, p)" by (cases x)
  from Cons.prems have s: "free \<noteq> []" "i = hd free" "p \<in># waits"
    "serve n (tl free) (waits - {#p#}) (lrs[i := lr_tag p]) sent waits' lrs'"
    unfolding x serve.simps by blast+
  from Cons.IH [OF s(4)] s(1-3) show ?case by (cases free) (auto simp: x dest: insert_DiffM)
qed simp

lemma serve_schedule:
  assumes "serve n free waits lrs sent waits' lrs'" and "list_all (\<lambda>i. i < n) free"
  shows "schedule free waits (take n lrs) sent waits' (take n lrs')"
  using assms
proof (induction sent arbitrary: free waits lrs)
  case (Cons x sent)
  then obtain i p where x: "x = (i, p)" by (cases x)
  from Cons.prems(1) have s: "free \<noteq> []" "i = hd free" "serve n (tl free) (waits - {#p#}) (lrs[i := lr_tag p]) sent waits' lrs'"
    "p \<in># waits" "servable n lrs p" "\<forall>q \<in># waits. servable n lrs q \<longrightarrow> \<not> before q p" 
    unfolding x serve.simps by blast+
  have "list_all (\<lambda>i. i < n) (tl free)" using Cons.prems(2) by (cases free) auto
  from Cons.IH [OF s(3) this] s(1,2,4-6) show ?case
    by (simp add: x take_update_swap servable_deliverable not_before_urgent lr_tag_number)
qed (simp add: servable_deliverable)

lemma empty_lrs_reads:
  fixes dev :: "bus_log \<Rightarrow> u64 \<Rightarrow> u32" and g :: "bus_log gicv2"
  assumes n: "gd_list_registers g \<le> 64"
  defines "hyp \<equiv> gl_hypervisor (gd_layout g)"
  defines "low \<equiv> dev (gd_mmio g) (hyp + 0x30)"
  defines "first \<equiv> gd_mmio g @ [BusRead (hyp + 0x30) low]"
  defines "high \<equiv> dev first (hyp + 0x34)"
  shows "gd_mmio (snd (empty_lrs (gic_bus dev) g)) = first @ (if gd_list_registers g > 32 then [BusRead (hyp + 0x34) high] else [])"
    and "free_list (fst (empty_lrs (gic_bus dev) g)) = free_registers low high (gd_list_registers g)"
proof -
  let ?n = "gd_list_registers g" and ?mask = "(if gd_list_registers g = 64 then - 1 else push_bit (gd_list_registers g) 1 - 1) :: u64"
  have e: "empty_lrs (gic_bus dev) g =
      ((ucast low OR (if ?n > 32 then push_bit 32 (ucast high) else 0)) AND ?mask,
       g\<lparr>gd_mmio := first @ (if ?n > 32 then [BusRead (hyp + 0x34) high] else [])\<rparr>)"
    by (simp add: empty_lrs_def read_hyp_def gic_read_def gic_bus_def Let_def hyp_def low_def first_def high_def)
  then show "gd_mmio (snd (empty_lrs (gic_bus dev) g)) = first @ (if ?n > 32 then [BusRead (hyp + 0x34) high] else [])"
    by simp
  have mask: "bit ?mask i \<longleftrightarrow> i < ?n" if "i < 64" for i
  proof (cases "?n = 64")
    case False
    have "push_bit ?n 1 - 1 = (mask ?n :: u64)" by (simp add: mask_eq_exp_minus_1 push_bit_eq_mult)
    with False that show ?thesis by (simp add: bit_mask_iff)
  qed (use that in simp)
  have "bit (fst (empty_lrs (gic_bus dev) g)) i \<longleftrightarrow> i < ?n \<and> (if i < 32 then bit low i else bit high (i - 32))" if "i < 64" for i
    using that n mask [OF that] unfolding e fst_conv
    by (auto simp: bit_and_iff bit_or_iff bit_push_bit_iff bit_ucast_iff dest: bit_imp_le_length)
  then have "free_list (fst (empty_lrs (gic_bus dev) g)) = filter (\<lambda>i. if i < 32 then bit low i else bit high (i - 32)) (filter (\<lambda>i. i < ?n) [0..<64])"
    unfolding free_list_def filter_filter by (intro filter_cong) auto
  also have "filter (\<lambda>i. i < ?n) [0..<64] = [0..<?n]" using n upt_add_eq_append [of 0 ?n "64 - ?n"] by simp
  finally show "free_list (fst (empty_lrs (gic_bus dev) g)) = free_registers low high ?n" by (simp add: free_registers_def)
qed

lemma waiting_member: "gicv2_ok g \<Longrightarrow> q \<in> set (waiting g) \<Longrightarrow> pending_valid q \<and> gp_priority q < 32"
  by (auto simp: waiting_def gicv2_ok_def in_set_conv_nth)

lemma gic_refill_schedule:
  fixes dev :: "bus_log \<Rightarrow> u64 \<Rightarrow> u32" and g :: "bus_log gicv2"
  assumes ok: "gicv2_ok g" and on: "gd_enabled g"
  defines "hyp \<equiv> gl_hypervisor (gd_layout g)" and "n \<equiv> gd_list_registers g"
  defines "low \<equiv> dev (gd_mmio g) (hyp + 0x30)"
  defines "start \<equiv> gd_mmio g @ [BusRead (hyp + 0x30) low]"
  defines "high \<equiv> dev start (hyp + 0x34)"
  shows "\<exists>h sent. gic_refill (gic_bus dev) g = Some h
    \<and> schedule (free_registers low high n) (mset (waiting g)) (take n (gd_lr_iar g)) sent
        (mset (waiting h)) (take n (gd_lr_iar h))
    \<and> gd_mmio h = start @ (if n > 32 then [BusRead (hyp + 0x34) high] else [])
        @ map (\<lambda>(i, p). BusWrite (hyp + 0x100 + 4 * word_of_nat i) (word_of_nat (lr_value p))) sent
        @ [BusWrite hyp (if list_ex (deliverable (take n (gd_lr_iar h))) (waiting h) then 3 else 1)]"
proof -
  have n: "gd_list_registers g \<le> 64" using ok by (simp add: gicv2_ok_def)
  note reads = empty_lrs_reads [OF n, of dev, folded hyp_def n_def, folded low_def, folded start_def, folded high_def]
  from gic_refill_spec [OF ok, of "gic_bus dev"] on obtain sent h where h: "gic_refill (gic_bus dev) g = Some h"
    "serve n (free_list (fst (empty_lrs (gic_bus dev) g))) (mset (waiting g)) (gd_lr_iar g) sent (mset (waiting h)) (gd_lr_iar h)"
    "gd_mmio h = mmio_write32 (gic_bus dev) (hyp + GICH_HCR) (hcr_value n (gd_lr_iar h) (mset (waiting h)))
       (fold (lr_write (gic_bus dev) hyp) sent (gd_mmio (snd (empty_lrs (gic_bus dev) g))))"
    unfolding hyp_def n_def by auto
  have "list_all (\<lambda>i. i < n) (free_registers low high n)" by (auto simp: free_registers_def list_all_iff)
  note sched = serve_schedule [OF h(2) [unfolded reads(2)] this]
  have "set (map snd sent) \<subseteq> set (waiting g)"
    using serve_sent [OF h(2)] by (metis mset_subset_eq_add_right set_mset_mono set_mset_mset)
  then have "list_all (\<lambda>(i, p). encode_lr p = word_of_nat (lr_value p)) sent"
    using encode_lr_value waiting_member [OF ok] by (fastforce simp: list_all_iff)
  then have writes: "map (lr_access hyp) sent
      = map (\<lambda>(i, p). BusWrite (hyp + 0x100 + 4 * word_of_nat i) (word_of_nat (lr_value p))) sent"
    by (auto simp: list_all_iff lr_access_def algebra_simps)
  have "hcr_value n (gd_lr_iar h) (mset (waiting h))
      = (if list_ex (deliverable (take n (gd_lr_iar h))) (waiting h) then 3 else 1)"
    by (auto simp: hcr_value_def servable_deliverable list_ex_iff)
  then have "gd_mmio h = start @ (if n > 32 then [BusRead (hyp + 0x34) high] else [])
        @ map (\<lambda>(i, p). BusWrite (hyp + 0x100 + 4 * word_of_nat i) (word_of_nat (lr_value p))) sent
        @ [BusWrite hyp (if list_ex (deliverable (take n (gd_lr_iar h))) (waiting h) then 3 else 1)]"
    unfolding h(3) fold_lr_write reads(1) writes by (simp add: gic_bus_def)
  with h(1) sched show ?thesis by blast
qed

text \<open>
  C38: refilling is the scheduler, stated over numbers.  On any hardware, from any reachable state, the
  driver reads which list registers are free and writes them, the lowest first, each with the most urgent
  waiting interrupt that may be delivered then, in the layout of a list register, until no register is free
  or nothing that waits may be delivered.  Its last access turns the interface on and asks for an underflow
  interrupt exactly if something that still waits could be delivered.  While the guest's distributor is off
  nothing moves and the interface is turned off.
\<close>

theorem gic_refill_serves:
  "case gic_run (gic_bus dev) calls ([], gicv2_new log layout) of
     None \<Rightarrow> False
   | Some (tokens, g) \<Rightarrow>
       let hyp = gl_hypervisor (gd_layout g); n = gd_list_registers g;
           low = dev (gd_mmio g) (hyp + 0x30); start = gd_mmio g @ [BusRead (hyp + 0x30) low];
           high = dev start (hyp + 0x34)
       in case gic_refill (gic_bus dev) g of
            None \<Rightarrow> False
          | Some h \<Rightarrow>
              if gd_enabled g
              then \<exists>sent.
                schedule (free_registers low high n) (mset (waiting g)) (take n (gd_lr_iar g)) sent
                  (mset (waiting h)) (take n (gd_lr_iar h))
                \<and> gd_mmio h = start @ (if n > 32 then [BusRead (hyp + 0x34) high] else [])
                    @ map (\<lambda>(i, p). BusWrite (hyp + 0x100 + 4 * word_of_nat i) (word_of_nat (lr_value p))) sent
                    @ [BusWrite hyp (if list_ex (deliverable (take n (gd_lr_iar h))) (waiting h) then 3 else 1)]
              else waiting h = waiting g \<and> gd_lr_iar h = gd_lr_iar g \<and> gd_mmio h = gd_mmio g @ [BusWrite hyp 0]"
proof -
  obtain tokens g where g: "gic_run (gic_bus dev) calls ([], gicv2_new log layout) = Some (tokens, g)" "gicv2_ok g"
    using gic_run_new [of "gic_bus dev" calls log layout] by blast
  show ?thesis
  proof (cases "gd_enabled g")
    case True
    from gic_refill_schedule [OF g(2) True, of dev] True show ?thesis
      unfolding g(1) option.case prod.case Let_def by auto
  next
    case False
    from gic_refill_spec [OF g(2), of "gic_bus dev"] False show ?thesis
      unfolding g(1) option.case prod.case Let_def by (auto simp: gic_bus_def)
  qed
qed


section \<open>No interrupt is lost\<close>

















end
