(* ===== verification/Virtio_Queue.thy ===== *)
theory Virtio_Queue
  imports Prelude
begin

text \<open>
  The split queues and descriptor chains of \<open>vdev/virtio_net.rs\<close>, over the guest memory its trait
  \<open>GuestMemory\<close> describes.  The guest owns that memory and may change it between any two reads, so what
  a read returns is up to the implementation of the trait.  Overflowing additions, an index out of range
  and a remainder by zero are panics, the \<open>None\<close> of the outer option.
\<close>

datatype memory_error = MemoryError

record 'm guest_memory_ops =
  gm_valid :: "u64 \<Rightarrow> nat \<Rightarrow> 'm \<Rightarrow> bool"
  gm_read :: "u64 \<Rightarrow> nat \<Rightarrow> 'm \<Rightarrow> (memory_error + bytes) \<times> 'm"
  gm_write :: "u64 \<Rightarrow> bytes \<Rightarrow> 'm \<Rightarrow> (memory_error + unit) \<times> 'm"
  gm_barrier :: "'m \<Rightarrow> 'm"

definition QUEUE_SIZE :: nat where [simp]: "QUEUE_SIZE = 128"

record virtqueue =
  q_num :: u32
  q_ready :: bool
  q_poll_pending :: bool
  q_desc :: u64
  q_avail :: u64
  q_used :: u64
  q_next_avail :: u16
  q_next_used :: u16

definition virtqueue_new :: virtqueue where
  "virtqueue_new = \<lparr>q_num = 0, q_ready = False, q_poll_pending = False, q_desc = 0, q_avail = 0,
     q_used = 0, q_next_avail = 0, q_next_used = 0\<rparr>"

definition queue_valid :: "'m guest_memory_ops \<Rightarrow> 'm \<Rightarrow> virtqueue \<Rightarrow> bool" where
  "queue_valid ops m q \<longleftrightarrow>
     q_num q \<noteq> 0 \<and> is_power_of_two (q_num q) \<and> unat (q_num q) \<le> QUEUE_SIZE
     \<and> q_desc q mod 16 = 0 \<and> q_avail q mod 2 = 0 \<and> q_used q mod 4 = 0
     \<and> gm_valid ops (q_desc q) (unat (q_num q) * 16) m
     \<and> gm_valid ops (q_avail q) (6 + unat (q_num q) * 2) m
     \<and> gm_valid ops (q_used q) (6 + unat (q_num q) * 8) m"

record segment =
  sg_address :: u64
  sg_length :: nat

record desc_chain =
  ch_head :: u16
  ch_segments :: "segment list"
  ch_count :: nat
  ch_length :: nat

definition EMPTY_SEGMENT :: segment where
  "EMPTY_SEGMENT = \<lparr>sg_address = 0, sg_length = 0\<rparr>"

definition chain_new :: desc_chain where
  "chain_new = \<lparr>ch_head = 0, ch_segments = replicate QUEUE_SIZE EMPTY_SEGMENT, ch_count = 0, ch_length = 0\<rparr>"

definition read16 :: "'m guest_memory_ops \<Rightarrow> u64 \<Rightarrow> 'm \<Rightarrow> (memory_error + u16) \<times> 'm" where
  "read16 ops address m =
     (case gm_read ops address 2 m of
        (Inl e, m) \<Rightarrow> (Inl e, m)
      | (Inr bs, m) \<Rightarrow> (Inr (from_le16 bs), m))"


lemma unat_ucast_wider:
  fixes w :: "'a::len word"
  assumes "LENGTH('a) \<le> LENGTH('b::len)"
  shows "unat (ucast w :: 'b word) = unat w"
proof -
  have "unat w < 2 ^ LENGTH('b)" by (rule order.strict_trans2 [OF unsigned_less]) (simp add: assms)
  then show ?thesis by (simp add: unsigned_ucast_eq take_bit_nat_eq_self)
qed

lemma unat_index [simp]:
  fixes i :: u16
  shows "unat (ucast i :: u32) = unat i" and "unat (ucast i :: u64) = unat i"
    and "unat (ucast i * 2 :: u64) = unat i * 2" and "unat (ucast i * 8 :: u64) = unat i * 8"
    and "unat (ucast i * 16 :: u64) = unat i * 16"
  using unat_bounds(2) [of i] by (simp_all add: unat_ucast_wider unat_word_ariths)


section \<open>Taking a descriptor chain from a queue\<close>

text \<open>
  One turn of the loop in \<open>Queue::next\<close>, behind the checks of the index: read, check and record the
  descriptor.  The result is the index of the next one, if the chain goes on.
\<close>

definition take_descriptor ::
  "'m guest_memory_ops \<Rightarrow> virtqueue \<Rightarrow> bool \<Rightarrow> u16 \<Rightarrow> desc_chain \<Rightarrow> 'm
     \<Rightarrow> ((memory_error + u16 option) \<times> desc_chain \<times> 'm) option" where
  "take_descriptor ops q writable index chain m =
     do {
       address \<leftarrow> checked_add (q_desc q) (ucast index * 16);
       case gm_read ops address 16 m of
         (Inl e, m) \<Rightarrow> Some (Inl e, chain, m)
       | (Inr descriptor, m) \<Rightarrow>
           let address = from_le64 (take 8 descriptor);
               len = unat (from_le32 (take 4 (drop 8 descriptor)));
               flags = from_le16 (take 2 (drop 12 descriptor))
           in if flags AND NOT 3 \<noteq> 0 \<or> (flags AND 2 \<noteq> 0) \<noteq> writable \<or> len = 0 \<or> \<not> gm_valid ops address len m
              then Some (Inl MemoryError, chain, m)
              else case usize_checked_add (ch_length chain) len of
                None \<Rightarrow> Some (Inl MemoryError, chain, m)
              | Some sum_length \<Rightarrow>
                  if ch_count chain \<ge> length (ch_segments chain) then None
                  else
                    let chain = chain\<lparr>ch_length := sum_length,
                          ch_segments := (ch_segments chain)[ch_count chain := \<lparr>sg_address = address, sg_length = len\<rparr>],
                          ch_count := ch_count chain + 1\<rparr>
                    in Some (Inr (if flags AND 1 = 0 then None else Some (from_le16 (take 2 (drop 14 descriptor)))),
                             chain, m)
     }"

text \<open>The bitmap \<open>seen\<close> of the descriptors visited: no chain visits one twice.\<close>

definition was_seen :: "nat \<Rightarrow> u64 list \<Rightarrow> bool" where
  "was_seen slot seen \<longleftrightarrow> seen ! (slot div 64) AND push_bit (slot mod 64) 1 \<noteq> 0"

definition mark_seen :: "nat \<Rightarrow> u64 list \<Rightarrow> u64 list" where
  "mark_seen slot seen = seen[slot div 64 := seen ! (slot div 64) OR push_bit (slot mod 64) 1]"

lemma was_seen_bit: "was_seen slot seen \<longleftrightarrow> bit (seen ! (slot div 64)) (slot mod 64)"
  unfolding was_seen_def by (rule masked_bit_iff)

lemma was_seen_mark_seen:
  assumes "slot div 64 < length seen" and "i div 64 < length seen"
  shows "was_seen i (mark_seen slot seen) \<longleftrightarrow> i = slot \<or> was_seen i seen"
proof (cases "i div 64 = slot div 64")
  case True
  have "i = slot \<longleftrightarrow> i mod 64 = slot mod 64" using True by (metis div_mult_mod_eq)
  moreover have "slot mod 64 < 64" "i mod 64 < 64" by simp_all
  ultimately show ?thesis using True assms
    by (auto simp: was_seen_bit mark_seen_def bit_simps)
next
  case False
  then show ?thesis using assms by (auto simp: was_seen_bit mark_seen_def)
qed

definition unseen :: "u64 list \<Rightarrow> nat set" where
  "unseen seen = {i. i div 64 < length seen \<and> \<not> was_seen i seen}"

lemma finite_unseen: "finite (unseen seen)"
proof (rule finite_subset)
  show "unseen seen \<subseteq> {..<64 * length seen}" by (auto simp: unseen_def div_less_iff_less_mult mult.commute)
qed simp

lemma length_mark_seen [simp]: "length (mark_seen slot seen) = length seen"
  by (simp add: mark_seen_def)

lemma unseen_mark_seen:
  "slot div 64 < length seen \<Longrightarrow> unseen (mark_seen slot seen) = unseen seen - {slot}"
  by (auto simp: unseen_def was_seen_mark_seen)

text \<open>
  The loop itself has no counter: it stops because each turn marks a descriptor that was not marked
  before.
\<close>

function queue_walk ::
  "'m guest_memory_ops \<Rightarrow> virtqueue \<Rightarrow> bool \<Rightarrow> u16 \<Rightarrow> u64 list \<Rightarrow> desc_chain \<Rightarrow> 'm
     \<Rightarrow> ((memory_error + unit) \<times> desc_chain \<times> 'm) option" where
  "queue_walk ops q writable index seen chain m =
     (if ucast index \<ge> q_num q then Some (Inl MemoryError, chain, m)
      else let slot = unat index in
        if slot div 64 \<ge> length seen then None
        else if was_seen slot seen then Some (Inl MemoryError, chain, m)
        else case take_descriptor ops q writable index chain m of
          None \<Rightarrow> None
        | Some (Inl e, chain, m) \<Rightarrow> Some (Inl e, chain, m)
        | Some (Inr None, chain, m) \<Rightarrow> Some (Inr (), chain, m)
        | Some (Inr (Some index), chain, m) \<Rightarrow> queue_walk ops q writable index (mark_seen slot seen) chain m)"
  by pat_completeness auto
termination
proof (relation "measure (\<lambda>(ops, q, writable, index, seen, chain, m). card (unseen seen))", simp, goal_cases)
  case (1 ops q writable index seen chain m slot)
  then have "slot \<in> unseen seen" "unseen (mark_seen slot seen) = unseen seen - {slot}"
    using unseen_mark_seen [of slot seen] by (simp_all add: unseen_def)
  then show ?case using finite_unseen [of seen] card_Diff1_less [of "unseen seen" slot] by simp
qed

declare queue_walk.simps [simp del]

definition queue_next ::
  "'m guest_memory_ops \<Rightarrow> bool \<Rightarrow> virtqueue \<Rightarrow> desc_chain \<Rightarrow> 'm
     \<Rightarrow> ((memory_error + bool) \<times> virtqueue \<times> desc_chain \<times> 'm) option" where
  "queue_next ops writable q chain m =
     (if \<not> q_ready q \<or> \<not> q_poll_pending q then Some (Inr False, q, chain, m)
      else if \<not> queue_valid ops m q then Some (Inl MemoryError, q, chain, m)
      else do {
        address \<leftarrow> checked_add (q_avail q) 2;
        case read16 ops address m of
          (Inl e, m) \<Rightarrow> Some (Inl e, q, chain, m)
        | (Inr available, m) \<Rightarrow>
            let m = gm_barrier ops m;
                count = available - q_next_avail q
            in if count = 0 then Some (Inr False, q\<lparr>q_poll_pending := False\<rparr>, chain, m)
               else if ucast count > q_num q then Some (Inl MemoryError, q, chain, m)
               else if (ucast (q_num q) :: u16) = 0 then None
               else do {
                 address \<leftarrow> checked_add (q_avail q) 4;
                 address \<leftarrow> checked_add address (ucast (q_next_avail q mod ucast (q_num q)) * 2);
                 case read16 ops address m of
                   (Inl e, m) \<Rightarrow> Some (Inl e, q, chain, m)
                 | (Inr head, m) \<Rightarrow> do {
                     (result, chain, m) \<leftarrow> queue_walk ops q writable head (replicate (QUEUE_SIZE div 64) 0)
                       (chain\<lparr>ch_head := head, ch_count := 0, ch_length := 0\<rparr>) m;
                     Some (case result of Inl e \<Rightarrow> Inl e | Inr _ \<Rightarrow> Inr True, q, chain, m)
                   }
               }
      })"

text \<open>Returning a chain: the used entry, then the index, then the guest's wish for an interrupt.\<close>

definition queue_finish ::
  "'m guest_memory_ops \<Rightarrow> u16 \<Rightarrow> nat \<Rightarrow> virtqueue \<Rightarrow> 'm
     \<Rightarrow> ((memory_error + bool) \<times> virtqueue \<times> 'm) option" where
  "queue_finish ops head len q m =
     (if (ucast (q_num q) :: u16) = 0 then None
      else do {
        offset \<leftarrow> checked_add (q_used q) 4;
        offset \<leftarrow> checked_add offset (ucast (q_next_used q mod ucast (q_num q)) * 8);
        case gm_write ops offset (to_le32 (ucast head) @ to_le32 (word_of_nat len)) m of
          (Inl e, m) \<Rightarrow> Some (Inl e, q, m)
        | (Inr _, m) \<Rightarrow>
            let m = gm_barrier ops m;
                q = q\<lparr>q_next_used := q_next_used q + 1\<rparr>
            in do {
              index \<leftarrow> checked_add (q_used q) 2;
              case gm_write ops index (to_le16 (q_next_used q)) m of
                (Inl e, m) \<Rightarrow> Some (Inl e, q, m)
              | (Inr _, m) \<Rightarrow>
                  let q = q\<lparr>q_next_avail := q_next_avail q + 1\<rparr>;
                      m = gm_barrier ops m
                  in (case read16 ops (q_avail q) m of
                        (Inl e, m) \<Rightarrow> Some (Inl e, q, m)
                      | (Inr flags, m) \<Rightarrow> Some (Inr (flags AND 1 = 0), q, m))
            }
      })"


section \<open>Copying a chain\<close>

text \<open>
  The loops of \<open>Chain::read\<close> and \<open>Chain::write\<close> over the segments; \<open>cursor\<close> counts the bytes done.
\<close>

fun read_segments ::
  "'m guest_memory_ops \<Rightarrow> segment list \<Rightarrow> nat \<Rightarrow> nat \<Rightarrow> bytes \<Rightarrow> 'm
     \<Rightarrow> ((memory_error + nat) \<times> bytes \<times> 'm) option" where
  "read_segments ops [] offset cursor buf m = Some (Inr cursor, buf, m)"
| "read_segments ops (s # ss) offset cursor buf m =
     (if offset \<ge> sg_length s then read_segments ops ss (offset - sg_length s) cursor buf m
      else let count = min (sg_length s - offset) (length buf - cursor) in
        do {
          address \<leftarrow> checked_add (sg_address s) (word_of_nat offset);
          case gm_read ops address count m of
            (Inl e, m) \<Rightarrow> Some (Inl e, buf, m)
          | (Inr bs, m) \<Rightarrow>
              let buf = splice cursor bs buf; cursor = cursor + count
              in if cursor = length buf then Some (Inr cursor, buf, m)
                 else read_segments ops ss 0 cursor buf m
        })"

fun write_segments ::
  "'m guest_memory_ops \<Rightarrow> segment list \<Rightarrow> nat \<Rightarrow> nat \<Rightarrow> bytes \<Rightarrow> 'm
     \<Rightarrow> ((memory_error + nat) \<times> 'm) option" where
  "write_segments ops [] offset cursor bs m = Some (Inr cursor, m)"
| "write_segments ops (s # ss) offset cursor bs m =
     (if offset \<ge> sg_length s then write_segments ops ss (offset - sg_length s) cursor bs m
      else let count = min (sg_length s - offset) (length bs - cursor) in
        do {
          address \<leftarrow> checked_add (sg_address s) (word_of_nat offset);
          case gm_write ops address (take count (drop cursor bs)) m of
            (Inl e, m) \<Rightarrow> Some (Inl e, m)
          | (Inr _, m) \<Rightarrow>
              let cursor = cursor + count
              in if cursor = length bs then Some (Inr cursor, m)
                 else write_segments ops ss 0 cursor bs m
        })"

definition chain_read ::
  "'m guest_memory_ops \<Rightarrow> desc_chain \<Rightarrow> nat \<Rightarrow> bytes \<Rightarrow> 'm \<Rightarrow> ((memory_error + unit) \<times> bytes \<times> 'm) option" where
  "chain_read ops chain offset buf m =
     do {
       segments \<leftarrow> slice_get 0 (ch_count chain) (ch_segments chain);
       (result, buf, m) \<leftarrow> read_segments ops segments offset 0 buf m;
       Some (case result of Inl e \<Rightarrow> Inl e
             | Inr cursor \<Rightarrow> if cursor = length buf then Inr () else Inl MemoryError, buf, m)
     }"

definition chain_write ::
  "'m guest_memory_ops \<Rightarrow> desc_chain \<Rightarrow> nat \<Rightarrow> bytes \<Rightarrow> 'm \<Rightarrow> ((memory_error + unit) \<times> 'm) option" where
  "chain_write ops chain offset bs m =
     do {
       segments \<leftarrow> slice_get 0 (ch_count chain) (ch_segments chain);
       (result, m) \<leftarrow> write_segments ops segments offset 0 bs m;
       Some (case result of Inl e \<Rightarrow> Inl e
             | Inr cursor \<Rightarrow> if cursor = length bs then Inr () else Inl MemoryError, m)
     }"


section \<open>The contract of guest memory\<close>

text \<open>
  What the device may rely on, whatever the guest does to the contents: an address range is valid or not
  once and for all, a valid range does not reach past the address space and its parts are valid, and an
  access to a valid range keeps \<open>ok\<close> and counts as one step.  It may still be refused.
\<close>

definition chain_ok :: "(u64 \<Rightarrow> nat \<Rightarrow> bool) \<Rightarrow> desc_chain \<Rightarrow> bool" where
  "chain_ok valid chain \<longleftrightarrow> ch_count chain \<le> length (ch_segments chain)
     \<and> (\<forall>s \<in> set (take (ch_count chain) (ch_segments chain)). 0 < sg_length s \<and> valid (sg_address s) (sg_length s))
     \<and> ch_length chain = (\<Sum>s \<leftarrow> take (ch_count chain) (ch_segments chain). sg_length s)"

definition queue_mapped :: "(u64 \<Rightarrow> nat \<Rightarrow> bool) \<Rightarrow> virtqueue \<Rightarrow> bool" where
  "queue_mapped valid q \<longleftrightarrow> q_num q \<noteq> 0 \<and> unat (q_num q) \<le> QUEUE_SIZE
     \<and> valid (q_desc q) (unat (q_num q) * 16) \<and> valid (q_avail q) (6 + unat (q_num q) * 2)
     \<and> valid (q_used q) (6 + unat (q_num q) * 8)"

locale guest_memory =
  fixes ops :: "'m guest_memory_ops" and valid :: "u64 \<Rightarrow> nat \<Rightarrow> bool" and ok :: "'m \<Rightarrow> bool"
    and steps :: "'m \<Rightarrow> nat"
  assumes valid_same: "gm_valid ops a n m = valid a n"
    and valid_bound: "valid a n \<Longrightarrow> unat a + n \<le> 2 ^ 64"
    and valid_part: "valid a n \<Longrightarrow> i + k \<le> n \<Longrightarrow> 0 < k \<Longrightarrow> valid (a + word_of_nat i) k"
    and read_keeps: "ok m \<Longrightarrow> valid a n \<Longrightarrow> gm_read ops a n m = (r, m')
      \<Longrightarrow> ok m' \<and> steps m' \<le> steps m + 1 \<and> (\<forall>bs. r = Inr bs \<longrightarrow> length bs = n)"
    and write_keeps: "ok m \<Longrightarrow> valid a (length bs) \<Longrightarrow> gm_write ops a bs m = (w, m')
      \<Longrightarrow> ok m' \<and> steps m' \<le> steps m + 1"
    and barrier_keeps: "ok m \<Longrightarrow> ok (gm_barrier ops m) \<and> steps (gm_barrier ops m) = steps m"
begin

text \<open>An address inside a valid range is computed without overflow.\<close>

lemma address_inside:
  assumes "valid a n" and "unat x + k \<le> n" and "0 < k"
  shows "checked_add a x = Some (a + x)" and "valid (a + x) k"
proof -
  have "unat a + unat x < 2 ^ 64" using valid_bound [OF assms(1)] assms(2,3) by linarith
  then show "checked_add a x = Some (a + x)" by (simp add: checked_add_def)
  show "valid (a + x) k" using valid_part [OF assms] by simp
qed

lemma segment_part:
  assumes "valid a n" and "offset + k \<le> n" and "0 < k"
  shows "checked_add a (word_of_nat offset) = Some (a + word_of_nat offset)" and "valid (a + word_of_nat offset) k"
proof -
  have "offset < 2 ^ 64" using valid_bound [OF assms(1)] assms(2,3) by linarith
  then have "unat (word_of_nat offset :: u64) = offset" by (simp add: unat_of_nat)
  then show "checked_add a (word_of_nat offset) = Some (a + word_of_nat offset)" "valid (a + word_of_nat offset) k"
    using address_inside [OF assms(1), of "word_of_nat offset" k] assms(2,3) by simp_all
qed

lemma chain_ok_add:
  assumes "chain_ok valid chain" and "ch_count chain < length (ch_segments chain)" and "valid address n" and "0 < n"
  shows "chain_ok valid (chain\<lparr>ch_length := ch_length chain + n,
      ch_segments := (ch_segments chain)[ch_count chain := \<lparr>sg_address = address, sg_length = n\<rparr>],
      ch_count := ch_count chain + 1\<rparr>)"
  using assms by (auto simp: chain_ok_def take_Suc_conv_app_nth)

lemma take_descriptor_safe:
  assumes "ok m" and q: "valid (q_desc q) (unat (q_num q) * 16)" "unat index < unat (q_num q)" "unat (q_num q) \<le> QUEUE_SIZE"
    and chain: "chain_ok valid chain" "ch_count chain < length (ch_segments chain)"
  obtains r chain' m' where "take_descriptor ops q writable index chain m = Some (r, chain', m')"
    and "ok m'" and "steps m' \<le> steps m + 1" and "length (ch_segments chain') = length (ch_segments chain)"
    and "chain_ok valid chain'" and "ch_count chain' \<le> ch_count chain + 1"
proof -
  have fits: "unat (ucast index * 16 :: u64) + 16 \<le> unat (q_num q) * 16" using q(2) by simp
  note address = address_inside [OF q(1) fits]
  obtain r m' where r: "gm_read ops (q_desc q + ucast index * 16) 16 m = (r, m')" by fastforce
  note kept = read_keeps [OF assms(1) address(2) r]
  show ?thesis
  proof (rule that)
    show "take_descriptor ops q writable index chain m = Some (
        (case take_descriptor ops q writable index chain m of Some x \<Rightarrow> fst x),
        (case take_descriptor ops q writable index chain m of Some x \<Rightarrow> fst (snd x)), m')"
      using address(1) r chain(2)
      by (auto simp: take_descriptor_def Let_def split: sum.splits option.splits)
  qed (use address(1) r chain kept chain_ok_add [OF chain] in
      \<open>auto simp: take_descriptor_def Let_def valid_same split: sum.splits option.splits\<close>)
qed

text \<open>The loop visits each descriptor at most once, so a chain fits the scratch array.\<close>

lemma queue_walk_safe:
  assumes "ok m" and "valid (q_desc q) (unat (q_num q) * 16)" "unat (q_num q) \<le> QUEUE_SIZE"
    and "chain_ok valid chain" "length (ch_segments chain) = QUEUE_SIZE" "ch_count chain + card (unseen seen) \<le> QUEUE_SIZE"
    and "length seen = QUEUE_SIZE div 64"
  shows "\<exists>r chain' m'. queue_walk ops q writable index seen chain m = Some (r, chain', m')
    \<and> ok m' \<and> steps m' \<le> steps m + card (unseen seen)
    \<and> length (ch_segments chain') = QUEUE_SIZE \<and> chain_ok valid chain'"
  using assms
proof (induction "card (unseen seen)" arbitrary: index seen chain m rule: less_induct)
  case less
  let ?slot = "unat index"
  show ?case
  proof (cases "ucast index \<ge> q_num q \<or> was_seen ?slot seen")
    case True
    moreover have "ucast index < q_num q \<Longrightarrow> ?slot div 64 < length seen"
      using less.prems(3,7) by (simp add: word_less_nat_alt)
    ultimately show ?thesis using less.prems
      by (subst queue_walk.simps) (auto simp: Let_def not_le)
  next
    case False
    then have i: "?slot < unat (q_num q)" by (simp add: word_le_nat_alt)
    then have slot: "?slot div 64 < length seen" using less.prems(3,7) by simp
    then have member: "?slot \<in> unseen seen" using False by (simp add: unseen_def)
    then have c: "card (unseen (mark_seen ?slot seen)) + 1 = card (unseen seen)"
      using finite_unseen [of seen] unseen_mark_seen [OF slot] card_Suc_Diff1 [of "unseen seen" ?slot] by simp
    then have room: "ch_count chain < length (ch_segments chain)" using less.prems(5,6) by simp
    obtain r chain' m' where t: "take_descriptor ops q writable index chain m = Some (r, chain', m')"
      and kept: "ok m'" "steps m' \<le> steps m + 1" "length (ch_segments chain') = length (ch_segments chain)"
        "chain_ok valid chain'" "ch_count chain' \<le> ch_count chain + 1"
      by (rule take_descriptor_safe [OF less.prems(1,2) i less.prems(3,4) room])
    have more: "\<exists>r chain'' m''. queue_walk ops q writable j (mark_seen ?slot seen) chain' m' = Some (r, chain'', m'')
        \<and> ok m'' \<and> steps m'' \<le> steps m' + card (unseen (mark_seen ?slot seen))
        \<and> length (ch_segments chain'') = QUEUE_SIZE \<and> chain_ok valid chain''" for j
      by (rule less.hyps) (use c kept less.prems in simp_all)
    have "1 \<le> card (unseen seen)" using c by simp
    then show ?thesis
      using False slot t kept less.prems(5) more [of "the (projr r)"] c
      by (subst queue_walk.simps) (auto simp: Let_def split: sum.splits option.splits)
  qed
qed

lemma card_unseen_new: "card (unseen (replicate n 0)) = 64 * n"
proof -
  have "unseen (replicate n 0) = {..<64 * n}"
    by (auto simp: unseen_def was_seen_bit div_less_iff_less_mult mult.commute)
  then show ?thesis by simp
qed

lemma queue_valid_mapped: "queue_valid ops m q \<Longrightarrow> queue_mapped valid q"
  by (simp add: queue_valid_def queue_mapped_def valid_same)

lemma queue_num:
  assumes "queue_mapped valid q"
  shows "(ucast (q_num q) :: u16) \<noteq> 0" and "unat (i mod ucast (q_num q) :: u16) < unat (q_num q)"
proof -
  have n: "unat (ucast (q_num q) :: u16) = unat (q_num q)" "0 < unat (q_num q)"
    using assms by (simp_all add: queue_mapped_def unsigned_ucast_eq take_bit_nat_eq_self unat_gt_0)
  then show nz: "(ucast (q_num q) :: u16) \<noteq> 0" by (metis unat_0 less_irrefl)
  show "unat (i mod ucast (q_num q) :: u16) < unat (q_num q)" using n by (simp add: unat_mod)
qed

text \<open>The addresses the queue is read and written at.\<close>

lemma queue_avail:
  assumes "queue_mapped valid q"
  defines "i \<equiv> ucast (q_next_avail q mod ucast (q_num q)) * 2"
  shows "checked_add (q_avail q) 2 = Some (q_avail q + 2)" and "valid (q_avail q + 2) 2"
    and "checked_add (q_avail q) 4 = Some (q_avail q + 4)"
    and "checked_add (q_avail q + 4) i = Some (q_avail q + 4 + i)" and "valid (q_avail q + 4 + i) 2"
    and "valid (q_avail q) 2"
proof -
  have v: "valid (q_avail q) (6 + unat (q_num q) * 2)" using assms(1) by (simp add: queue_mapped_def)
  show "checked_add (q_avail q) 2 = Some (q_avail q + 2)" "valid (q_avail q + 2) 2"
    "checked_add (q_avail q) 4 = Some (q_avail q + 4)" "valid (q_avail q) 2"
    using address_inside [OF v, of 2 2] address_inside [OF v, of 4 2] valid_part [OF v, of 0 2] by simp_all
  have v': "valid (q_avail q + 4) (2 + unat (q_num q) * 2)" using address_inside(2) [OF v, of 4] by simp
  show "checked_add (q_avail q + 4) i = Some (q_avail q + 4 + i)" "valid (q_avail q + 4 + i) 2"
    using address_inside [OF v', of i 2] queue_num(2) [OF assms(1), of "q_next_avail q"] by (simp_all add: i_def)
qed

lemma queue_used:
  assumes "queue_mapped valid q"
  defines "i \<equiv> ucast (q_next_used q mod ucast (q_num q)) * 8"
  shows "checked_add (q_used q) 2 = Some (q_used q + 2)" and "valid (q_used q + 2) 2"
    and "checked_add (q_used q) 4 = Some (q_used q + 4)"
    and "checked_add (q_used q + 4) i = Some (q_used q + 4 + i)" and "valid (q_used q + 4 + i) 8"
proof -
  have v: "valid (q_used q) (6 + unat (q_num q) * 8)" using assms(1) by (simp add: queue_mapped_def)
  show "checked_add (q_used q) 2 = Some (q_used q + 2)" "valid (q_used q + 2) 2"
    "checked_add (q_used q) 4 = Some (q_used q + 4)"
    using address_inside [OF v, of 2 2] address_inside [OF v, of 4 2] by simp_all
  have v': "valid (q_used q + 4) (2 + unat (q_num q) * 8)" using address_inside(2) [OF v, of 4] by simp
  show "checked_add (q_used q + 4) i = Some (q_used q + 4 + i)" "valid (q_used q + 4 + i) 8"
    using address_inside [OF v', of i 8] queue_num(2) [OF assms(1), of "q_next_used q"] by (simp_all add: i_def)
qed

lemma read16_safe:
  assumes "ok m" and "valid a 2" and "read16 ops a m = (r, m')"
  shows "ok m' \<and> steps m' \<le> steps m + 1"
  using assms(3) read_keeps [OF assms(1,2)]
  by (auto simp: read16_def split: prod.splits sum.splits)

lemma queue_next_safe:
  assumes "ok m" and "length (ch_segments chain) = QUEUE_SIZE"
  shows "\<exists>r q' chain' m'. queue_next ops writable q chain m = Some (r, q', chain', m')
    \<and> ok m' \<and> steps m' \<le> steps m + (QUEUE_SIZE + 2) \<and> length (ch_segments chain') = QUEUE_SIZE
    \<and> (r = Inr True \<longrightarrow> chain_ok valid chain' \<and> queue_mapped valid q')"
proof (cases "q_ready q \<and> q_poll_pending q \<and> queue_valid ops m q")
  case False
  then show ?thesis using assms by (auto simp: queue_next_def)
next
  case True
  then have mapped: "queue_mapped valid q" using queue_valid_mapped by blast
  note addresses = queue_avail [OF mapped]
  obtain r m1 where r: "read16 ops (q_avail q + 2) m = (r, m1)" by fastforce
  have m1: "ok m1" "steps m1 \<le> steps m + 1" using read16_safe [OF assms(1) addresses(2) r] by simp_all
  define m2 where "m2 = gm_barrier ops m1"
  have m2: "ok m2" "steps m2 \<le> steps m + 1" using m1 barrier_keeps [OF m1(1)] by (simp_all add: m2_def)
  let ?i = "ucast (q_next_avail q mod ucast (q_num q)) * 2 :: u64"
  obtain r' m3 where r': "read16 ops (q_avail q + 4 + ?i) m2 = (r', m3)" by fastforce
  have m3: "ok m3" "steps m3 \<le> steps m + 2" using read16_safe [OF m2(1) addresses(5) r'] m2(2) by simp_all
  let ?chain = "\<lambda>head. chain\<lparr>ch_head := head, ch_count := 0, ch_length := 0\<rparr>"
  let ?walk = "\<lambda>head. queue_walk ops q writable head (replicate (QUEUE_SIZE div 64) 0) (?chain head) m3"
  have "\<exists>w chain' m'. ?walk head = Some (w, chain', m')
      \<and> ok m' \<and> steps m' \<le> steps m3 + card (unseen (replicate (QUEUE_SIZE div 64) 0))
      \<and> length (ch_segments chain') = QUEUE_SIZE \<and> chain_ok valid chain'" for head
    by (rule queue_walk_safe [OF m3(1)])
      (use mapped assms(2) in \<open>simp_all add: queue_mapped_def chain_ok_def card_unseen_new\<close>)
  then have walk: "\<exists>w chain' m'. ?walk head = Some (w, chain', m') \<and> ok m' \<and> steps m' \<le> steps m + (QUEUE_SIZE + 2)
      \<and> length (ch_segments chain') = QUEUE_SIZE \<and> chain_ok valid chain'" for head
    using m3(2) unfolding card_unseen_new by fastforce
  obtain w chain' m' where w: "?walk (projr r') = Some (w, chain', m')" "ok m'" "steps m' \<le> steps m + (QUEUE_SIZE + 2)"
      "length (ch_segments chain') = QUEUE_SIZE" "chain_ok valid chain'"
    using walk by blast
  show ?thesis
    using True assms m1 m2 m3 r r' addresses(1,3,4) w mapped queue_num(1) [OF mapped]
    by (auto simp: queue_next_def m2_def Let_def simp del: QUEUE_SIZE_def split: sum.splits)
qed

lemma queue_finish_safe:
  assumes "ok m" and mapped: "queue_mapped valid q"
  shows "\<exists>r q' m'. queue_finish ops head n q m = Some (r, q', m') \<and> ok m' \<and> steps m' \<le> steps m + 3"
proof -
  note addresses = queue_used [OF mapped]
  let ?i = "ucast (q_next_used q mod ucast (q_num q)) * 8 :: u64"
  let ?entry = "to_le32 (ucast head) @ to_le32 (word_of_nat n)"
  obtain w m1 where w: "gm_write ops (q_used q + 4 + ?i) ?entry m = (w, m1)" by fastforce
  have m1: "ok m1" "steps m1 \<le> steps m + 1" using write_keeps [OF assms(1) _ w] addresses(5) by simp_all
  define m2 where "m2 = gm_barrier ops m1"
  have m2: "ok m2" "steps m2 \<le> steps m + 1" using m1 barrier_keeps [OF m1(1)] by (simp_all add: m2_def)
  obtain x m3 where x: "gm_write ops (q_used q + 2) (to_le16 (q_next_used q + 1)) m2 = (x, m3)" by fastforce
  have m3: "ok m3" "steps m3 \<le> steps m + 2" using write_keeps [OF m2(1) _ x] addresses(2) m2(2) by simp_all
  define m4 where "m4 = gm_barrier ops m3"
  have m4: "ok m4" "steps m4 \<le> steps m + 2" using m3 barrier_keeps [OF m3(1)] by (simp_all add: m4_def)
  obtain y m5 where y: "read16 ops (q_avail q) m4 = (y, m5)" by fastforce
  have m5: "ok m5" "steps m5 \<le> steps m + 3" using read16_safe [OF m4(1) queue_avail(6) [OF mapped] y] m4(2) by simp_all
  show ?thesis
    using queue_num(1) [OF mapped] addresses(1,3,4) w m1 x m3 y m5
    by (auto simp: queue_finish_def Let_def m2_def m4_def split: sum.splits)
qed

lemma read_segments_safe:
  assumes "ok m" and "\<forall>s \<in> set ss. 0 < sg_length s \<and> valid (sg_address s) (sg_length s)" and "cursor < length buf"
  shows "\<exists>r buf' m'. read_segments ops ss offset cursor buf m = Some (r, buf', m') \<and> ok m'
    \<and> steps m' \<le> steps m + length ss \<and> length buf' = length buf"
  using assms
proof (induction ss arbitrary: offset cursor buf m)
  case (Cons s ss)
  show ?case
  proof (cases "offset \<ge> sg_length s")
    case True
    then show ?thesis using Cons.IH [OF Cons.prems(1) _ Cons.prems(3), of "offset - sg_length s"] Cons.prems(2)
      by (fastforce simp: Let_def)
  next
    case False
    let ?n = "min (sg_length s - offset) (length buf - cursor)"
    have v: "valid (sg_address s) (sg_length s)" using Cons.prems(2) by simp
    have a: "checked_add (sg_address s) (word_of_nat offset) = Some (sg_address s + word_of_nat offset)"
      "valid (sg_address s + word_of_nat offset) ?n"
      using segment_part [OF v, of offset ?n] False Cons.prems(3) by simp_all
    obtain r m' where r: "gm_read ops (sg_address s + word_of_nat offset) ?n m = (r, m')" by fastforce
    note kept = read_keeps [OF Cons.prems(1) a(2) r]
    show ?thesis
    proof (cases r)
      case (Inl e)
      then show ?thesis using False a(1) r kept by (auto simp: Let_def)
    next
      case (Inr bs)
      then have b: "length bs = ?n" using kept by simp
      have len: "length (splice cursor bs buf) = length buf" by (rule length_splice) (use b Cons.prems(3) in simp)
      show ?thesis
      proof (cases "cursor + ?n = length buf")
        case True
        then show ?thesis using Inr False a(1) r kept len by (auto simp: Let_def)
      next
        case more: False
        then have "cursor + ?n < length (splice cursor bs buf)" using len Cons.prems(3) by simp
        from Cons.IH [OF _ _ this, of m' 0]
        show ?thesis using Inr False a(1) r kept len more Cons.prems(2) by (fastforce simp: Let_def)
      qed
    qed
  qed
qed simp

lemma write_segments_safe:
  assumes "ok m" and "\<forall>s \<in> set ss. 0 < sg_length s \<and> valid (sg_address s) (sg_length s)" and "cursor < length bs"
  shows "\<exists>r m'. write_segments ops ss offset cursor bs m = Some (r, m') \<and> ok m' \<and> steps m' \<le> steps m + length ss"
  using assms
proof (induction ss arbitrary: offset cursor m)
  case (Cons s ss)
  show ?case
  proof (cases "offset \<ge> sg_length s")
    case True
    then show ?thesis using Cons.IH [OF Cons.prems(1) _ Cons.prems(3), of "offset - sg_length s"] Cons.prems(2)
      by (fastforce simp: Let_def)
  next
    case False
    let ?n = "min (sg_length s - offset) (length bs - cursor)"
    have v: "valid (sg_address s) (sg_length s)" using Cons.prems(2) by simp
    have a: "checked_add (sg_address s) (word_of_nat offset) = Some (sg_address s + word_of_nat offset)"
      "valid (sg_address s + word_of_nat offset) ?n"
      using segment_part [OF v, of offset ?n] False Cons.prems(3) by simp_all
    obtain r m' where r: "gm_write ops (sg_address s + word_of_nat offset) (take ?n (drop cursor bs)) m = (r, m')" by fastforce
    have kept: "ok m' \<and> steps m' \<le> steps m + 1" by (rule write_keeps [OF Cons.prems(1) _ r]) (use a(2) in simp)
    show ?thesis
    proof (cases "cursor + ?n = length bs \<or> \<not> is_ok r")
      case True
      then show ?thesis using False a(1) r kept by (auto simp: Let_def is_ok_def split: sum.splits)
    next
      case more: False
      then have "cursor + ?n < length bs" using Cons.prems(3) by (auto simp: min_def split: if_splits)
      from Cons.IH [OF _ _ this, of m' 0]
      show ?thesis using False a(1) r kept more Cons.prems(2)
        by (fastforce simp: Let_def is_ok_def split: sum.splits)
    qed
  qed
qed simp

lemma chain_read_safe:
  assumes "ok m" and "chain_ok valid chain" and "buf \<noteq> []"
  shows "\<exists>r buf' m'. chain_read ops chain offset buf m = Some (r, buf', m') \<and> ok m'
    \<and> steps m' \<le> steps m + ch_count chain \<and> length buf' = length buf"
  using read_segments_safe [OF assms(1), of "take (ch_count chain) (ch_segments chain)" 0 buf offset] assms(2,3)
  by (auto simp: chain_read_def slice_get_def chain_ok_def split: sum.splits)

lemma chain_write_safe:
  assumes "ok m" and "chain_ok valid chain" and "bs \<noteq> []"
  shows "\<exists>r m'. chain_write ops chain offset bs m = Some (r, m') \<and> ok m' \<and> steps m' \<le> steps m + ch_count chain"
  using write_segments_safe [OF assms(1), of "take (ch_count chain) (ch_segments chain)" 0 bs offset] assms(2,3)
  by (auto simp: chain_write_def slice_get_def chain_ok_def split: sum.splits)

end

end
