(* ===== verification/Net.thy ===== *)
theory Net
  imports Ring Control
begin

text \<open>
  \<open>net.rs\<close>: the frame rings, the switch between the USB host and the guest, and the static management
  endpoint.  A slice access out of range is a panic: operations that slice a frame have an outer
  \<open>option\<close>, and a property shows that no frame reaches a panic.
\<close>

definition MTU :: nat where [simp]: "MTU = 1500"
definition FRAME_SIZE :: nat where [simp]: "FRAME_SIZE = 14 + MTU"
definition FRAMES_SIZE :: nat where [simp]: "FRAMES_SIZE = 8"
definition HOST_MAC :: bytes where "HOST_MAC = [0x02, 0x53, 0x56, 0, 0, 1]"
definition GUEST_MAC :: bytes where "GUEST_MAC = [0x02, 0x53, 0x56, 0, 0, 2]"
definition MANAGEMENT_MAC :: bytes where "MANAGEMENT_MAC = [0x02, 0x53, 0x56, 0, 0, 3]"
definition MANAGEMENT_IP :: bytes where "MANAGEMENT_IP = [192, 168, 77, 1]"
definition MANAGEMENT_PORT :: u16 where "MANAGEMENT_PORT = 7777"


section \<open>Frame rings\<close>

record frames =
  fr_bytes :: "bytes list"
  fr_lengths :: "nat list"
  fr_head :: nat
  fr_count :: nat

definition frames_new :: frames where
  "frames_new = \<lparr>fr_bytes = replicate FRAMES_SIZE (replicate FRAME_SIZE 0),
     fr_lengths = replicate FRAMES_SIZE 0, fr_head = 0, fr_count = 0\<rparr>"

definition frames_full :: "frames \<Rightarrow> bool" where
  "frames_full q \<longleftrightarrow> fr_count q = FRAMES_SIZE"

definition frames_empty :: "frames \<Rightarrow> bool" where
  "frames_empty q \<longleftrightarrow> fr_count q = 0"

definition frame_length_ok :: "nat \<Rightarrow> bool" where
  "frame_length_ok n \<longleftrightarrow> 14 \<le> n \<and> n \<le> FRAME_SIZE"

text \<open>\<open>spare\<close> is the index of the slot behind the last frame, whose bytes the caller may fill.\<close>

definition frames_spare :: "frames \<Rightarrow> nat option" where
  "frames_spare q = (if frames_full q then None else Some ((fr_head q + fr_count q) mod FRAMES_SIZE))"

definition frames_commit :: "nat \<Rightarrow> frames \<Rightarrow> bool \<times> frames" where
  "frames_commit n q =
     (if frames_full q \<or> \<not> frame_length_ok n then (False, q)
      else (True, q\<lparr>fr_lengths := (fr_lengths q)[(fr_head q + fr_count q) mod FRAMES_SIZE := n],
                    fr_count := fr_count q + 1\<rparr>))"

definition frames_push :: "bytes \<Rightarrow> frames \<Rightarrow> bool \<times> frames" where
  "frames_push frame q =
     (if frames_full q \<or> \<not> frame_length_ok (length frame) then (False, q)
      else case frames_spare q of
        None \<Rightarrow> (False, q)
      | Some i \<Rightarrow> frames_commit (length frame) (q\<lparr>fr_bytes := (fr_bytes q)[i := splice 0 frame (fr_bytes q ! i)]\<rparr>))"

definition frames_front :: "frames \<Rightarrow> bytes option" where
  "frames_front q =
     (if fr_count q \<noteq> 0 then Some (take (fr_lengths q ! fr_head q) (fr_bytes q ! fr_head q)) else None)"

definition frames_iter :: "frames \<Rightarrow> bytes list" where
  "frames_iter q = map (\<lambda>offset. let index = (fr_head q + offset) mod FRAMES_SIZE
                          in take (fr_lengths q ! index) (fr_bytes q ! index)) [0..<fr_count q]"

definition frames_pop :: "frames \<Rightarrow> frames" where
  "frames_pop q =
     (if fr_count q \<noteq> 0
      then q\<lparr>fr_head := (fr_head q + 1) mod FRAMES_SIZE, fr_count := fr_count q - 1\<rparr> else q)"

definition frames_clear :: "frames \<Rightarrow> frames" where
  "frames_clear q = q\<lparr>fr_count := 0, fr_head := 0\<rparr>"


section \<open>The management endpoint\<close>

text \<open>\<open>bytes.chunks(2)\<close>: the odd byte at the end is the high half of its pair.\<close>

fun checksum_sum :: "u32 \<Rightarrow> bytes \<Rightarrow> u32" where
  "checksum_sum s [] = s"
| "checksum_sum s [a] = s + push_bit 8 (ucast a)"
| "checksum_sum s (a # b # bs) = checksum_sum (s + (push_bit 8 (ucast a) OR ucast b)) bs"

function fold_carries :: "u32 \<Rightarrow> u32" where
  "fold_carries s = (if drop_bit 16 s \<noteq> 0 then fold_carries ((s AND 0xffff) + drop_bit 16 s) else s)"
  by auto

lemma u32_halves:
  fixes s :: u32
  shows "unat (s AND 0xffff) = unat s mod 65536" and "unat (drop_bit 16 s) = unat s div 65536"
    and "unat ((s AND 0xffff) + drop_bit 16 s) = unat s mod 65536 + unat s div 65536"
proof -
  have m: "(0xffff :: u32) = mask 16" by (simp add: mask_eq_exp_minus_1)
  have a: "unat (s AND 0xffff) = unat s mod 65536"
    by (simp add: m unsigned_take_bit_eq take_bit_eq_mod unat_mod flip: take_bit_eq_mask)
  moreover have d: "unat (drop_bit 16 s) = unat s div 65536"
    by (simp add: unat_drop_bit_eq drop_bit_eq_div unat_div)
  ultimately show "unat (s AND 0xffff) = unat s mod 65536" "unat (drop_bit 16 s) = unat s div 65536"
    by simp_all
  have "unat s mod 65536 + unat s div 65536 < 2 ^ 32"
    using unat_bounds(3) [of s] by (simp add: div_less_iff_less_mult)
  then show "unat ((s AND 0xffff) + drop_bit 16 s) = unat s mod 65536 + unat s div 65536"
    using a d by (subst unat_add_no_overflow) simp_all
qed

termination fold_carries
proof (relation "measure unat")
  fix s :: u32 assume "drop_bit 16 s \<noteq> 0"
  then have "unat s div 65536 \<noteq> 0" unfolding u32_halves(2) [symmetric] by (simp add: unat_eq_zero)
  then have "unat s mod 65536 + unat s div 65536 < unat s" using mult_div_mod_eq [of 65536 "unat s"] by linarith
  then show "((s AND 0xffff) + drop_bit 16 s, s) \<in> measure unat" by (simp add: u32_halves(3))
qed simp

declare fold_carries.simps [simp del]

definition net_checksum :: "bytes \<Rightarrow> u16" where
  "net_checksum bs = NOT (ucast (fold_carries (checksum_sum 0 bs)))"

definition get_at :: "nat \<Rightarrow> 'a list \<Rightarrow> 'a option" where
  "get_at i xs = (if i < length xs then Some (xs ! i) else None)"

definition copy_at :: "nat \<Rightarrow> nat \<Rightarrow> 'a list \<Rightarrow> 'a list \<Rightarrow> 'a list option" where
  "copy_at a b src xs =
     (if a \<le> b \<and> b \<le> length xs \<and> length src = b - a then Some (splice a src xs) else None)"

definition be16 :: "bytes \<Rightarrow> nat \<Rightarrow> u16 option" where
  "be16 bs i = do { a \<leftarrow> get_at i bs; b \<leftarrow> get_at (i + 1) bs; Some (from_be16 [a, b]) }"


definition set_at :: "nat \<Rightarrow> 'a \<Rightarrow> 'a list \<Rightarrow> 'a list option" where
  "set_at i x xs = (if i < length xs then Some (xs[i := x]) else None)"

definition arp_reply :: "bytes \<Rightarrow> bytes \<Rightarrow> (nat \<times> bytes) option" where
  "arp_reply frame out =
     (if length frame < 42 then Some (0, out)
      else do {
        request \<leftarrow> slice_get 14 22 frame;
        target \<leftarrow> slice_get 38 42 frame;
        sender \<leftarrow> slice_get 22 28 frame;
        source \<leftarrow> slice_get 6 12 frame;
        if request \<noteq> [0, 1, 8, 0, 6, 4, 0, 1] \<or> target \<noteq> MANAGEMENT_IP \<or> sender \<noteq> source then Some (0, out)
        else do {
          out \<leftarrow> copy_at 0 6 source out;
          out \<leftarrow> copy_at 6 12 MANAGEMENT_MAC out;
          header \<leftarrow> slice_get 12 22 frame;
          out \<leftarrow> copy_at 12 22 header out;
          out \<leftarrow> set_at 21 2 out;
          out \<leftarrow> copy_at 22 28 MANAGEMENT_MAC out;
          out \<leftarrow> copy_at 28 32 MANAGEMENT_IP out;
          asker \<leftarrow> slice_get 22 32 frame;
          out \<leftarrow> copy_at 32 42 asker out;
          out \<leftarrow> copy_at 42 60 (replicate 18 0) out;
          Some (60, out)
        }
      })"

text \<open>
  The payload of a reply, from offset 34 of the frame on.  The first component is the length of its IP
  packet, or \<open>None\<close> where the source returns without a reply.
\<close>

definition echo_payload :: "bytes \<Rightarrow> nat \<Rightarrow> bytes \<Rightarrow> (nat option \<times> bytes) option" where
  "echo_payload payload packet out =
     do {
       out \<leftarrow> copy_at 34 (14 + packet) payload out;
       out \<leftarrow> set_at 34 0 out;
       out \<leftarrow> copy_at 36 38 [0, 0] out;
       reply \<leftarrow> slice_get 34 (14 + packet) out;
       out \<leftarrow> copy_at 36 38 (to_be16 (net_checksum reply)) out;
       Some (Some packet, out)
     }"

definition udp_checksum_ok :: "bytes \<Rightarrow> bytes \<Rightarrow> bool option" where
  "udp_checksum_ok frame payload =
     do {
       supplied \<leftarrow> be16 payload 6;
       addresses \<leftarrow> slice_get 26 34 frame;
       Some (supplied = 0
         \<or> fold_carries (ucast (NOT (net_checksum addresses)) + 17 + word_of_nat (length payload)
                         + ucast (NOT (net_checksum payload))) = 0xffff)
     }"

definition udp_response :: "bytes \<Rightarrow> bytes option" where
  "udp_response request =
     (if request = ascii ''ping'' \<or> request = ascii ''ping'' @ [10] then Some (ascii ''pong'' @ [10])
      else if request = ascii ''status'' \<or> request = ascii ''status'' @ [10]
      then Some (ascii ''switchvisor usb-net management=192.168.77.1 mtu=1500'' @ [10])
      else None)"

definition udp_payload :: "bytes \<Rightarrow> bytes \<Rightarrow> bytes \<Rightarrow> (nat option \<times> bytes) option" where
  "udp_payload frame payload out =
     do {
       ok \<leftarrow> udp_checksum_ok frame payload;
       if \<not> ok then Some (None, out)
       else do {
         request \<leftarrow> slice_from 8 payload;
         case udp_response request of
           None \<Rightarrow> Some (None, out)
         | Some response \<Rightarrow> do {
             out \<leftarrow> copy_at 34 36 (to_be16 MANAGEMENT_PORT) out;
             port \<leftarrow> slice_get 0 2 payload;
             out \<leftarrow> copy_at 36 38 port out;
             out \<leftarrow> copy_at 38 40 (to_be16 (word_of_nat (8 + length response))) out;
             out \<leftarrow> copy_at 40 42 [0, 0] out;
             out \<leftarrow> copy_at 42 (42 + length response) response out;
             Some (Some (28 + length response), out)
           }
       }
     }"

definition reply_payload :: "bytes \<Rightarrow> nat \<Rightarrow> bytes \<Rightarrow> (nat option \<times> bytes) option" where
  "reply_payload frame packet out =
     do {
       payload \<leftarrow> slice_get 34 (14 + packet) frame;
       protocol \<leftarrow> get_at 23 frame;
       if protocol = 1
       then do {
         kind \<leftarrow> slice_get 0 2 payload;
         if kind = [8, 0] \<and> net_checksum payload = 0 then echo_payload payload packet out
         else Some (None, out)
       }
       else if protocol = 17
       then do {
         port \<leftarrow> be16 payload 2;
         size \<leftarrow> be16 payload 4;
         if port = MANAGEMENT_PORT \<and> unat size = length payload then udp_payload frame payload out
         else Some (None, out)
       }
       else Some (None, out)
     }"

definition reply_header :: "bytes \<Rightarrow> nat \<Rightarrow> bytes \<Rightarrow> (nat \<times> bytes) option" where
  "reply_header frame len out =
     do {
       source \<leftarrow> slice_get 6 12 frame;
       out \<leftarrow> copy_at 0 6 source out;
       out \<leftarrow> copy_at 6 12 MANAGEMENT_MAC out;
       header \<leftarrow> slice_get 12 34 frame;
       out \<leftarrow> copy_at 12 34 header out;
       out \<leftarrow> copy_at 16 18 (to_be16 (word_of_nat len)) out;
       out \<leftarrow> copy_at 20 22 [0, 0] out;
       out \<leftarrow> set_at 22 64 out;
       out \<leftarrow> copy_at 24 26 [0, 0] out;
       out \<leftarrow> copy_at 26 30 MANAGEMENT_IP out;
       asker \<leftarrow> slice_get 26 30 frame;
       out \<leftarrow> copy_at 30 34 asker out;
       summed \<leftarrow> slice_get 14 34 out;
       out \<leftarrow> copy_at 24 26 (to_be16 (net_checksum summed)) out;
       let last = max (14 + len) 60;
       out \<leftarrow> copy_at (14 + len) last (replicate (last - (14 + len)) 0) out;
       Some (last, out)
     }"

definition ip_reply :: "bytes \<Rightarrow> bytes \<Rightarrow> (nat \<times> bytes) option" where
  "ip_reply frame out =
     (if length frame < 42 then Some (0, out)
      else do {
        target \<leftarrow> slice_get 0 6 frame;
        kind \<leftarrow> slice_get 12 14 frame;
        version \<leftarrow> get_at 14 frame;
        address \<leftarrow> slice_get 30 34 frame;
        if target \<noteq> MANAGEMENT_MAC \<or> kind \<noteq> [8, 0] \<or> version \<noteq> 0x45 \<or> address \<noteq> MANAGEMENT_IP
        then Some (0, out)
        else do {
          packet \<leftarrow> be16 frame 16;
          fragment \<leftarrow> be16 frame 20;
          lifetime \<leftarrow> get_at 22 frame;
          header \<leftarrow> slice_get 14 34 frame;
          if unat packet < 28 \<or> unat packet + 14 > length frame \<or> fragment AND 0xbfff \<noteq> 0 \<or> lifetime = 0
             \<or> net_checksum header \<noteq> 0
          then Some (0, out)
          else do {
            (len, out) \<leftarrow> reply_payload frame (unat packet) out;
            case len of None \<Rightarrow> Some (0, out) | Some len \<Rightarrow> reply_header frame len out
          }
        }
      })"

definition management :: "bytes \<Rightarrow> bytes \<Rightarrow> (nat \<times> bytes) option" where
  "management frame out =
     do {
       kind \<leftarrow> slice_get 12 14 frame;
       if kind = [8, 6] then arp_reply frame out else ip_reply frame out
     }"


section \<open>The switch\<close>

datatype port = Host | Guest

record bridge =
  br_host :: frames
  br_guest :: frames
  br_received :: u64
  br_rejected :: u64
  br_management_replies :: u64

definition bridge_new :: bridge where
  "bridge_new = \<lparr>br_host = frames_new, br_guest = frames_new, br_received = 0, br_rejected = 0,
     br_management_replies = 0\<rparr>"

definition can_receive_from_guest :: "bridge \<Rightarrow> bool" where
  "can_receive_from_guest b \<longleftrightarrow> \<not> frames_full (br_host b)"

record counters =
  ct_received :: u64
  ct_rejected :: u64
  ct_replies :: u64

text \<open>
  Classify a frame, and write a reply into the spare slot of \<open>reply\<close>.  The result is whether to forward
  the frame.
\<close>

definition route :: "bytes \<Rightarrow> frames \<Rightarrow> counters \<Rightarrow> (bool \<times> frames \<times> counters) option" where
  "route frame reply c =
     (if \<not> frame_length_ok (length frame) \<or> frame ! 6 AND 1 \<noteq> 0
      then Some (False, reply, c\<lparr>ct_rejected := saturating_add (ct_rejected c) 1\<rparr>)
      else
        let c = c\<lparr>ct_received := saturating_add (ct_received c) 1\<rparr>;
            local = (take 6 frame = MANAGEMENT_MAC)
        in if local \<or> frame ! 0 AND 1 \<noteq> 0
           then case frames_spare reply of
               Some i \<Rightarrow> do {
                 (len, out) \<leftarrow> management frame (fr_bytes reply ! i);
                 let (ok, reply) = frames_commit len (reply\<lparr>fr_bytes := (fr_bytes reply)[i := out]\<rparr>);
                 Some (\<not> local, reply, if ok then c\<lparr>ct_replies := saturating_add (ct_replies c) 1\<rparr> else c)
               }
             | None \<Rightarrow> Some (\<not> local, reply, c\<lparr>ct_rejected := saturating_add (ct_rejected c) 1\<rparr>)
           else Some (\<not> local, reply, c))"

definition bridge_counters :: "bridge \<Rightarrow> counters" where
  "bridge_counters b = \<lparr>ct_received = br_received b, ct_rejected = br_rejected b, ct_replies = br_management_replies b\<rparr>"

definition set_counters :: "counters \<Rightarrow> bridge \<Rightarrow> bridge" where
  "set_counters c b = b\<lparr>br_received := ct_received c, br_rejected := ct_rejected c,
     br_management_replies := ct_replies c\<rparr>"

definition bridge_rejected :: "bridge \<Rightarrow> bridge" where
  "bridge_rejected b = b\<lparr>br_rejected := saturating_add (br_rejected b) 1\<rparr>"

definition bridge_receive :: "port \<Rightarrow> bytes \<Rightarrow> bridge \<Rightarrow> (bool \<times> bridge) option" where
  "bridge_receive port frame b =
     (let reply = (case port of Host \<Rightarrow> br_host b | Guest \<Rightarrow> br_guest b)
      in do {
        (fwd, reply, c) \<leftarrow> route frame reply (bridge_counters b);
        let b = set_counters c (case port of Host \<Rightarrow> b\<lparr>br_host := reply\<rparr> | Guest \<Rightarrow> b\<lparr>br_guest := reply\<rparr>);
        if fwd
        then let (ok, q) = frames_push frame (case port of Host \<Rightarrow> br_guest b | Guest \<Rightarrow> br_host b);
                 b = (case port of Host \<Rightarrow> b\<lparr>br_guest := q\<rparr> | Guest \<Rightarrow> b\<lparr>br_host := q\<rparr>)
             in Some (True, if ok then b else bridge_rejected b)
        else Some (True, b)
      })"

text \<open>
  Receiving from the host hands a forwarded frame to the guest device at once if nothing is queued for
  it; \<open>deliver\<close> acts on the state of the device and says whether it took the frame.
\<close>

definition receive_host :: "bytes \<Rightarrow> (bytes \<Rightarrow> 's \<Rightarrow> (bool \<times> 's) option) \<Rightarrow> bridge \<times> 's \<Rightarrow> (bridge \<times> 's) option" where
  "receive_host frame deliver = (\<lambda>(b, s).
     do {
       (fwd, reply, c) \<leftarrow> route frame (br_host b) (bridge_counters b);
       let b = set_counters c (b\<lparr>br_host := reply\<rparr>);
       if fwd
       then do {
         (taken, s) \<leftarrow> (if frames_empty (br_guest b) then deliver frame s else Some (False, s));
         if taken then Some (b, s)
         else let (ok, q) = frames_push frame (br_guest b);
                  b = b\<lparr>br_guest := q\<rparr>
              in Some (if ok then b else bridge_rejected b, s)
       }
       else Some (b, s)
     })"

text \<open>
  Receiving from the guest fills the spare slot of the host's ring in place; \<open>fill\<close> acts on the state of
  the device and returns the length, the slot and the state.  Both callbacks can panic.
\<close>

definition receive_guest :: "(bytes \<Rightarrow> 's \<Rightarrow> ((nat \<times> bytes) \<times> 's) option) \<Rightarrow> bridge \<times> 's \<Rightarrow> (bool \<times> bridge \<times> 's) option" where
  "receive_guest fill = (\<lambda>(b, s).
     case frames_spare (br_host b) of
       None \<Rightarrow> Some (False, b, s)
     | Some i \<Rightarrow> do {
         ((len, slot), s) \<leftarrow> fill (fr_bytes (br_host b) ! i) s;
         let b = b\<lparr>br_host := (br_host b)\<lparr>fr_bytes := (fr_bytes (br_host b))[i := slot]\<rparr>\<rparr>;
         if len = 0 then Some (False, b, s)
         else do {
           frame \<leftarrow> slice_get 0 len slot;
           (fwd, reply, c) \<leftarrow> route frame (br_guest b) (bridge_counters b);
           let b = set_counters c (b\<lparr>br_guest := reply\<rparr>);
           Some (True, if fwd then b\<lparr>br_host := snd (frames_commit len (br_host b))\<rparr> else b, s)
         }
       })"



section \<open>The checksum\<close>

text \<open>The sum of a packet's 16-bit big-endian words, as a number.\<close>

fun word_sum :: "bytes \<Rightarrow> nat" where
  "word_sum [] = 0"
| "word_sum [a] = 256 * unat a"
| "word_sum (a # b # bs) = 256 * unat a + unat b + word_sum bs"

lemma unat_high_byte: "unat (push_bit 8 (ucast (a :: u8)) :: u32) = 256 * unat a"
proof -
  have "unat a * 256 < 2 ^ 32" using unat_bounds(1) [of a] by simp
  then show ?thesis
    by (simp add: push_bit_eq_mult unat_word_ariths unsigned_ucast_eq take_bit_nat_eq_self mult.commute)
qed

lemma unat_pair: "unat (push_bit 8 (ucast (a :: u8)) OR ucast (b :: u8) :: u32) = 256 * unat a + unat b"
proof -
  have eq: "push_bit 8 (ucast a) OR ucast b = push_bit 8 (ucast a) + (ucast b :: u32)"
    by (rule disjunctive_add_eq_or [symmetric])
       (rule bit_word_eqI, auto simp: bit_simps dest: bit_imp_le_length)
  have "unat (ucast b :: u32) = unat b" using unat_bounds(1) [of b]
    by (simp add: unsigned_ucast_eq take_bit_nat_eq_self)
  then show ?thesis
    using unat_bounds(1) [of a] unat_bounds(1) [of b] unfolding eq
    by (subst unat_add_no_overflow) (simp_all only: unat_high_byte, simp_all)
qed

lemma word_sum_bound: "word_sum bs \<le> 65535 * ((length bs + 1) div 2)"
proof (induction bs rule: word_sum.induct)
  case (2 a)
  then show ?case using unat_bounds(1) [of a] by simp
next
  case (3 a b bs)
  then show ?case using unat_bounds(1) [of a] unat_bounds(1) [of b] by simp
qed simp

lemma checksum_sum:
  "unat s + word_sum bs < 2 ^ 32 \<Longrightarrow> unat (checksum_sum s bs) = unat s + word_sum bs"
proof (induction s bs rule: checksum_sum.induct)
  case (2 s a)
  then show ?case by (simp add: unat_add_no_overflow unat_high_byte)
next
  case (3 s a b bs)
  then have "unat (s + (push_bit 8 (ucast a) OR ucast b)) = unat s + (256 * unat a + unat b)"
    by (subst unat_add_no_overflow) (simp_all add: unat_pair)
  with 3 show ?case by (simp add: add.assoc)
qed simp

lemma fold_carries:
  "unat (fold_carries s) < 65536 \<and> unat (fold_carries s) mod 65535 = unat s mod 65535
     \<and> (unat (fold_carries s) = 0 \<longleftrightarrow> unat s = 0)"
proof (induction s rule: fold_carries.induct)
  case (1 s)
  let ?t = "(s AND 0xffff) + drop_bit 16 s"
  note h = u32_halves [of s]
  have "unat s = unat ?t + 65535 * (unat s div 65536)"
    unfolding h using div_mult_mod_eq [of "unat s" 65536] by linarith
  then have m: "unat ?t mod 65535 = unat s mod 65535" by (metis mod_mult_self2)
  have z: "unat ?t = 0 \<longleftrightarrow> unat s = 0" unfolding h using div_mult_mod_eq [of "unat s" 65536] by linarith
  show ?case
  proof (cases "drop_bit 16 s = 0")
    case True
    then have "unat s div 65536 = 0" unfolding h(2) [symmetric] by simp
    with True show ?thesis by (simp add: fold_carries.simps [of s])
  next
    case False
    with 1 [OF False] m z show ?thesis by (simp add: fold_carries.simps [of s])
  qed
qed

lemma unat_complement: "unat (NOT w) = 65535 - unat (w :: u16)"
proof -
  have "NOT w = - 1 - w" by (simp add: not_eq_complement)
  moreover have "unat (- 1 - w) = unat (- 1 :: u16) - unat w" by (rule unat_sub) simp
  ultimately show ?thesis by (simp add: unsigned_minus_1_eq_mask mask_eq_exp_minus_1)
qed

lemma checksum_value:
  assumes "length bs \<le> 65535"
  shows "unat (net_checksum bs) = 65535 - unat (fold_carries (checksum_sum 0 bs))"
    and "unat (fold_carries (checksum_sum 0 bs)) mod 65535 = word_sum bs mod 65535"
    and "unat (fold_carries (checksum_sum 0 bs)) = 0 \<longleftrightarrow> word_sum bs = 0"
    and "unat (fold_carries (checksum_sum 0 bs)) < 65536"
proof -
  have "word_sum bs < 2 ^ 32" using word_sum_bound [of bs] assms by simp
  then have s: "unat (checksum_sum 0 bs) = word_sum bs" using checksum_sum [of 0 bs] by simp
  note f = fold_carries [of "checksum_sum 0 bs", unfolded s]
  show "unat (fold_carries (checksum_sum 0 bs)) mod 65535 = word_sum bs mod 65535"
    "unat (fold_carries (checksum_sum 0 bs)) = 0 \<longleftrightarrow> word_sum bs = 0"
    "unat (fold_carries (checksum_sum 0 bs)) < 65536" using f by blast+
  then have "unat (ucast (fold_carries (checksum_sum 0 bs)) :: u16) = unat (fold_carries (checksum_sum 0 bs))"
    by (simp add: unsigned_ucast_eq take_bit_nat_eq_self)
  then show "unat (net_checksum bs) = 65535 - unat (fold_carries (checksum_sum 0 bs))"
    by (simp add: net_checksum_def unat_complement)
qed

text \<open>A packet verifies exactly if its words sum to a nonzero multiple of \<open>0xffff\<close>.\<close>

lemma checksum_zero:
  assumes "length bs \<le> 65535"
  shows "net_checksum bs = 0 \<longleftrightarrow> word_sum bs \<noteq> 0 \<and> word_sum bs mod 65535 = 0"
proof -
  let ?f = "unat (fold_carries (checksum_sum 0 bs))"
  note c = checksum_value [OF assms]
  have "net_checksum bs = 0 \<longleftrightarrow> unat (net_checksum bs) = 0" by (simp add: unat_eq_zero)
  also have "\<dots> \<longleftrightarrow> ?f = 65535" using c(1,4) by linarith
  also have "\<dots> \<longleftrightarrow> ?f \<noteq> 0 \<and> ?f mod 65535 = 0" using c(4) by (auto simp: mod_eq_0_iff_dvd elim!: dvdE) 
  finally show ?thesis using c(2,3) by simp
qed

lemma word_sum_append: "even (length xs) \<Longrightarrow> word_sum (xs @ ys) = word_sum xs + word_sum ys"
  by (induction xs rule: word_sum.induct) auto

lemma word_sum_be16: "word_sum (to_be16 w) = unat w"
proof -
  have "to_be16 w = [word_of_nat (unat w div 256), word_of_nat (unat w)]"
    by (simp add: to_be16_def be_bytes_def numeral_2_eq_2)
  moreover have "unat w div 256 < 256" using unat_bounds(2) [of w] by (simp add: div_less_iff_less_mult)
  ultimately show ?thesis by (simp add: unat_of_nat unsigned_ucast_eq take_bit_eq_mod)
qed

text \<open>Storing the checksum where the packet had zero makes the packet verify.\<close>

lemma checksum_inserted:
  assumes "even (length xs)" and "length xs + length ys < 65530"
  shows "net_checksum (xs @ to_be16 (net_checksum (xs @ [0, 0] @ ys)) @ ys) = 0"
proof -
  let ?z = "xs @ [0, 0] @ ys" and ?c = "net_checksum (xs @ [0, 0] @ ys)"
  let ?f = "unat (fold_carries (checksum_sum 0 ?z))"
  have len: "length ?z \<le> 65535" "length (xs @ to_be16 ?c @ ys) \<le> 65535" using assms(2) by simp_all
  note c = checksum_value [OF len(1)]
  have z: "word_sum ?z = word_sum xs + word_sum ys" using assms(1) by (simp add: word_sum_append)
  have e: "even (length (to_be16 ?c))" by (simp only: length_endian even_numeral)
  have "word_sum (xs @ to_be16 ?c @ ys) = word_sum xs + (unat ?c + word_sum ys)"
    by (simp only: word_sum_append [OF assms(1)] word_sum_append [OF e] word_sum_be16)
  then have eq: "word_sum (xs @ to_be16 ?c @ ys) = word_sum ?z + (65535 - ?f)"
    using z c(1) by linarith
  have "(word_sum ?z + (65535 - ?f)) mod 65535 = 0"
  proof -
    have "(word_sum ?z + (65535 - ?f)) mod 65535 = (?f + (65535 - ?f)) mod 65535"
      by (rule mod_add_cong [OF c(2) [symmetric] refl])
    then show ?thesis using c(4) by simp
  qed
  moreover have "word_sum ?z + (65535 - ?f) \<noteq> 0" using c(3) by auto
  ultimately show ?thesis unfolding checksum_zero [OF len(2)] eq by blast
qed



section \<open>What the endpoint replies\<close>

text \<open>The reply as a function of the request alone, in the order its bytes have on the wire.\<close>

definition field :: "nat \<Rightarrow> nat \<Rightarrow> 'a list \<Rightarrow> 'a list" where
  "field a n xs = take n (drop a xs)"

definition arp_request :: "bytes \<Rightarrow> bool" where
  "arp_request frame \<longleftrightarrow> 42 \<le> length frame \<and> field 12 10 frame = [8, 6, 0, 1, 8, 0, 6, 4, 0, 1]
     \<and> field 38 4 frame = MANAGEMENT_IP \<and> field 22 6 frame = field 6 6 frame"

definition arp_answer :: "bytes \<Rightarrow> bytes" where
  "arp_answer frame =
     field 6 6 frame @ MANAGEMENT_MAC @ [8, 6, 0, 1, 8, 0, 6, 4, 0, 2] @ MANAGEMENT_MAC @ MANAGEMENT_IP
     @ field 22 10 frame @ replicate 18 0"

definition ip_length :: "bytes \<Rightarrow> nat" where
  "ip_length frame = unat (from_be16 (field 16 2 frame))"

definition ip_request :: "bytes \<Rightarrow> bool" where
  "ip_request frame \<longleftrightarrow> 42 \<le> length frame \<and> field 0 6 frame = MANAGEMENT_MAC \<and> field 12 3 frame = [8, 0, 0x45]
     \<and> field 30 4 frame = MANAGEMENT_IP \<and> 28 \<le> ip_length frame \<and> 14 + ip_length frame \<le> length frame
     \<and> from_be16 (field 20 2 frame) AND 0xbfff = 0 \<and> frame ! 22 \<noteq> 0 \<and> net_checksum (field 14 20 frame) = 0"

definition request_payload :: "bytes \<Rightarrow> bytes" where
  "request_payload frame = field 34 (ip_length frame - 20) frame"

definition echo_answer :: "bytes \<Rightarrow> bytes" where
  "echo_answer payload = [0, payload ! 1] @ to_be16 (net_checksum ([0, payload ! 1] @ [0, 0] @ drop 4 payload))
     @ drop 4 payload"

definition udp_answer :: "bytes \<Rightarrow> bytes \<Rightarrow> bytes" where
  "udp_answer payload response =
     to_be16 MANAGEMENT_PORT @ field 0 2 payload @ to_be16 (word_of_nat (8 + length response)) @ [0, 0] @ response"

definition answer_payload :: "bytes \<Rightarrow> bytes option" where
  "answer_payload frame =
     (let payload = request_payload frame
      in if frame ! 23 = 1 \<and> field 0 2 payload = [8, 0] \<and> net_checksum payload = 0 then Some (echo_answer payload)
         else if frame ! 23 = 17 \<and> from_be16 (field 2 2 payload) = MANAGEMENT_PORT
                 \<and> unat (from_be16 (field 4 2 payload)) = length payload \<and> udp_checksum_ok frame payload = Some True
         then map_option (udp_answer payload) (udp_response (drop 8 payload))
         else None)"

definition ip_header :: "bytes \<Rightarrow> nat \<Rightarrow> u16 \<Rightarrow> bytes" where
  "ip_header frame n c =
     [0x45, frame ! 15] @ to_be16 (word_of_nat n) @ field 18 2 frame @ [0, 0, 64, frame ! 23] @ to_be16 c
     @ MANAGEMENT_IP @ field 26 4 frame"

definition ip_answer :: "bytes \<Rightarrow> bytes \<Rightarrow> bytes" where
  "ip_answer frame payload =
     (let n = 20 + length payload
      in field 6 6 frame @ MANAGEMENT_MAC @ [8, 0] @ ip_header frame n (net_checksum (ip_header frame n 0)) @ payload
         @ replicate (60 - (14 + n)) 0)"

definition reply_of :: "bytes \<Rightarrow> bytes option" where
  "reply_of frame =
     (if arp_request frame then Some (arp_answer frame)
      else if ip_request frame then map_option (ip_answer frame) (answer_payload frame)
      else None)"

text \<open>Filling the reply buffer: what is written is a prefix that never depends on what was there.\<close>

lemma copy_at_start:
  "length src = n \<Longrightarrow> n \<le> length out \<Longrightarrow> copy_at 0 n src out = Some (splice 0 src out)"
  by (simp add: copy_at_def)

lemma copy_at_append:
  assumes "length x = a" and "a \<le> b" and "b \<le> length out" and "length src = b - a"
  shows "copy_at a b src (splice 0 x out) = Some (splice 0 (x @ src) out)"
  using assms by (simp add: copy_at_def splice_def)

lemma copy_at_inside:
  assumes "a \<le> b" and "b \<le> length x" and "length x \<le> length out" and "length src = b - a"
  shows "copy_at a b src (splice 0 x out) = Some (splice 0 (splice a src x) out)"
  using assms by (simp add: copy_at_def splice_def)

lemma set_at_inside:
  assumes "i < length x" and "length x \<le> length out"
  shows "set_at i v (splice 0 x out) = Some (splice 0 (x[i := v]) out)"
  using assms by (simp add: set_at_def splice_def list_update_append)

lemma slice_get_inside:
  assumes "a \<le> b" and "b \<le> length x" and "length x \<le> length out"
  shows "slice_get a b (splice 0 x out) = Some (field a (b - a) x)"
  using assms by (simp add: slice_get_def splice_def field_def)

lemma slice_get_field': "a \<le> b \<Longrightarrow> b \<le> length xs \<Longrightarrow> slice_get a b xs = Some (field a (b - a) xs)"
  by (simp add: slice_get_def field_def)

lemma length_field [simp]: "a + n \<le> length xs \<Longrightarrow> length (field a n xs) = n"
  by (simp add: field_def)

lemma length_macs [simp]: "length MANAGEMENT_MAC = 6" "length MANAGEMENT_IP = 4"
  by (simp_all add: MANAGEMENT_MAC_def MANAGEMENT_IP_def)

lemmas fill_simps = copy_at_start copy_at_append copy_at_inside set_at_inside slice_get_inside slice_get_field'

lemma arp_reply_eq:
  assumes "length out = FRAME_SIZE"
  shows "arp_reply frame out
    = (if 42 \<le> length frame \<and> field 14 8 frame = [0, 1, 8, 0, 6, 4, 0, 1] \<and> field 38 4 frame = MANAGEMENT_IP
          \<and> field 22 6 frame = field 6 6 frame
       then Some (60, splice 0 (field 6 6 frame @ MANAGEMENT_MAC @ (field 12 10 frame)[9 := 2] @ MANAGEMENT_MAC
              @ MANAGEMENT_IP @ field 22 10 frame @ replicate 18 0) out)
       else Some (0, out))"
  using assms
  by (simp add: arp_reply_def fill_simps list_update_append)


lemma length_ascii [simp]: "length (ascii s) = length s"
  by (simp add: ascii_def)

lemma copy_at_fresh:
  "a \<le> b \<Longrightarrow> b \<le> length out \<Longrightarrow> length src = b - a \<Longrightarrow> copy_at a b src out = Some (splice a src out)"
  by (simp add: copy_at_def)

lemma copy_at_behind:
  assumes "c = a + length x" and "c \<le> b" and "b \<le> length out" and "length src = b - c"
  shows "copy_at c b src (splice a x out) = Some (splice a (x @ src) out)"
  using assms by (simp add: copy_at_def splice_def)

lemma copy_at_over:
  assumes "c = a + k" and "c < b" and "b \<le> a + length x" and "a + length x \<le> length out" and "length src = b - c"
  shows "copy_at c b src (splice a x out) = Some (splice a (splice k src x) out)"
  using assms by (auto simp: copy_at_def splice_def min_def)

lemma set_at_over:
  assumes "c = a + k" and "k < length x" and "a + length x \<le> length out"
  shows "set_at c v (splice a x out) = Some (splice a (x[k := v]) out)"
  using assms by (auto simp: set_at_def splice_def list_update_append)

lemma slice_get_over:
  assumes "b = a + length x" and "a + length x \<le> length out"
  shows "slice_get a b (splice a x out) = Some x"
  using assms by (simp add: slice_get_def splice_def)

lemma udp_response_length: "udp_response request = Some r \<Longrightarrow> length r \<in> {5, 53}"
  by (auto simp: udp_response_def split: if_splits)

lemma payload_parts:
  assumes "8 \<le> length (payload :: bytes)"
  obtains p0 p1 p2 p3 p4 p5 p6 p7 rest where "payload = [p0, p1, p2, p3, p4, p5, p6, p7] @ rest"
  using assms by (auto simp: numeral_eq_Suc Suc_le_length_iff)

lemma echo_payload_eq:
  assumes "8 \<le> length payload" and "packet = 20 + length payload" and "14 + packet \<le> length out"
  shows "echo_payload payload packet out = Some (Some packet, splice 34 (echo_answer payload) out)"
proof -
  obtain p0 p1 p2 p3 p4 p5 p6 p7 rest where p: "payload = [p0, p1, p2, p3, p4, p5, p6, p7] @ rest"
    using payload_parts [OF assms(1)] .
  let ?q = "[0, p1, 0, 0, p4, p5, p6, p7] @ rest"
  have c1: "copy_at 34 (14 + packet) payload out = Some (splice 34 payload out)"
    using assms by (intro copy_at_fresh) simp_all
  have c2: "set_at 34 0 (splice 34 payload out) = Some (splice 34 (payload[0 := 0]) out)"
    using assms by (intro set_at_over) (auto simp: p)
  have c3: "copy_at 36 38 [0, 0] (splice 34 (payload[0 := 0]) out) = Some (splice 34 ?q out)"
  proof -
    have "splice 2 [0, 0] (payload[0 := 0]) = ?q" by (simp add: p splice_def)
    moreover have "copy_at 36 38 [0, 0] (splice 34 (payload[0 := 0]) out)
        = Some (splice 34 (splice 2 [0, 0] (payload[0 := 0])) out)"
      using assms by (intro copy_at_over) simp_all
    ultimately show ?thesis by simp
  qed
  have c4: "slice_get 34 (14 + packet) (splice 34 ?q out) = Some ?q"
    using assms by (intro slice_get_over) (simp_all add: p)
  have c5: "copy_at 36 38 (to_be16 (net_checksum ?q)) (splice 34 ?q out)
      = Some (splice 34 (splice 2 (to_be16 (net_checksum ?q)) ?q) out)"
    using assms by (intro copy_at_over) (simp_all add: p)
  have "splice 2 (to_be16 c) ?q = [0, p1] @ to_be16 c @ [p4, p5, p6, p7] @ rest" for c
    by (simp add: splice_def)
  then have "splice 2 (to_be16 (net_checksum ?q)) ?q = echo_answer payload"
    by (simp add: echo_answer_def p)
  then show ?thesis unfolding echo_payload_def c1 bind.simps c2 c3 c4 c5 by simp
qed

lemma udp_payload_eq:
  assumes "8 \<le> length payload" and "34 \<le> length frame" and "length out = FRAME_SIZE"
  shows "udp_payload frame payload out = Some
    (if udp_checksum_ok frame payload = Some True
     then (case udp_response (drop 8 payload) of
             None \<Rightarrow> (None, out)
           | Some r \<Rightarrow> (Some (28 + length r), splice 34 (udp_answer payload r) out))
     else (None, out))"
proof -
  obtain ok where ok: "udp_checksum_ok frame payload = Some ok"
    using assms by (simp add: udp_checksum_ok_def be16_def get_at_def slice_get_def)
  show ?thesis
  proof (cases "ok \<and> udp_response (drop 8 payload) \<noteq> None")
    case True
    then obtain r where r: "udp_response (drop 8 payload) = Some r" by blast
    have len: "42 + length r \<le> length out" using udp_response_length [OF r] assms(3) by auto
    have c1: "copy_at 34 36 (to_be16 MANAGEMENT_PORT) out = Some (splice 34 (to_be16 MANAGEMENT_PORT) out)"
      using len by (intro copy_at_fresh) simp_all
    have g: "slice_get 0 2 payload = Some (field 0 2 payload)" using assms by (simp add: slice_get_field')
    let ?a = "to_be16 MANAGEMENT_PORT @ field 0 2 payload"
    have c2: "copy_at 36 38 (field 0 2 payload) (splice 34 (to_be16 MANAGEMENT_PORT) out) = Some (splice 34 ?a out)"
      using len assms by (intro copy_at_behind) simp_all
    let ?n = "to_be16 (word_of_nat (8 + length r))"
    have c3: "copy_at 38 40 ?n (splice 34 ?a out) = Some (splice 34 (?a @ ?n) out)"
      using len assms by (intro copy_at_behind) simp_all
    have c4: "copy_at 40 42 [0, 0] (splice 34 (?a @ ?n) out) = Some (splice 34 ((?a @ ?n) @ [0, 0]) out)"
      using len assms by (intro copy_at_behind) simp_all
    have c5: "copy_at 42 (42 + length r) r (splice 34 ((?a @ ?n) @ [0, 0]) out)
        = Some (splice 34 (((?a @ ?n) @ [0, 0]) @ r) out)"
      using len assms by (intro copy_at_behind) simp_all
    show ?thesis
      using True assms(1)
      by (simp add: udp_payload_def ok r slice_from_def c1 g c2 c3 c4 c5 udp_answer_def
          del: append_assoc of_nat_add)
        (simp del: of_nat_add)
  next
    case False
    then show ?thesis using assms(1) ok
      by (cases ok) (auto simp: udp_payload_def slice_from_def)
  qed
qed


lemma frame_parts:
  assumes "34 \<le> length (frame :: bytes)"
  obtains f0 f1 f2 f3 f4 f5 f6 f7 f8 f9 f10 f11 f12 f13 f14 f15 f16 f17 f18 f19 f20 f21 f22 f23 f24 f25 f26 f27 f28 f29 f30 f31 f32 f33 rest
  where "frame = [f0, f1, f2, f3, f4, f5, f6, f7, f8, f9, f10, f11, f12, f13, f14, f15, f16, f17, f18, f19, f20, f21, f22, f23, f24, f25, f26, f27, f28, f29, f30, f31, f32, f33] @ rest"
  using assms by (auto simp: numeral_eq_Suc Suc_le_length_iff)

lemma two_bytes: "\<exists>x y. to_be16 w = [x, y]"
  by (metis length_0_conv length_Suc_conv numeral_2_eq_2 length_endian(4))

text \<open>The header is filled into the front of the buffer, whatever that holds.\<close>

lemma reply_header_front:
  fixes frame q :: bytes and n :: nat
  assumes frame: "34 \<le> length frame" "field 12 3 frame = [8, 0, 0x45]" and q: "34 \<le> length q"
  defines "h \<equiv> field 6 6 frame @ MANAGEMENT_MAC @ [8, 0] @ ip_header frame n (net_checksum (ip_header frame n 0))"
  shows "reply_header frame n q
    = do {
        let last = max (14 + n) 60;
        out \<leftarrow> copy_at (14 + n) last (replicate (last - (14 + n)) 0) (splice 0 h q);
        Some (last, out)
      }"
    and "length h = 34"
proof -
  obtain f0 f1 f2 f3 f4 f5 f6 f7 f8 f9 f10 f11 f12 f13 f14 f15 f16 f17 f18 f19 f20 f21 f22 f23 f24 f25 f26 f27 f28 f29 f30 f31 f32 f33 rest
    where f: "frame = [f0, f1, f2, f3, f4, f5, f6, f7, f8, f9, f10, f11, f12, f13, f14, f15, f16, f17, f18, f19, f20, f21, f22, f23, f24, f25, f26, f27, f28, f29, f30, f31, f32, f33] @ rest"
    using frame_parts [OF frame(1)] .
  obtain x y where xy: "to_be16 (word_of_nat n) = [x, y]" using two_bytes by blast
  have k: "f12 = 8" "f13 = 0" "f14 = 0x45" using frame(2) by (simp_all add: f field_def)
  have ip: "ip_header frame n c = [0x45, f15, x, y, f18, f19, 0, 0, 64, f23] @ to_be16 c @ MANAGEMENT_IP
      @ [f26, f27, f28, f29]" for c
    by (simp add: ip_header_def xy f field_def)
  have be0: "to_be16 0 = [0, 0]" by (simp add: to_be16_def be_bytes_def numeral_2_eq_2)
  let ?ip0 = "[0x45, f15, x, y, f18, f19, 0, 0, 64, f23, 0, 0, 192, 168, 77, 1, f26, f27, f28, f29]"
  have ip0: "ip_header frame n 0 = ?ip0" by (simp add: ip be0 MANAGEMENT_IP_def)
  obtain cx cy where cs: "to_be16 (net_checksum ?ip0) = [cx, cy]" using two_bytes by blast
  have h: "h = [f6, f7, f8, f9, f10, f11] @ MANAGEMENT_MAC @ [8, 0] @ [0x45, f15, x, y, f18, f19, 0, 0, 64, f23]
      @ [cx, cy] @ MANAGEMENT_IP @ [f26, f27, f28, f29]"
    unfolding h_def ip0 unfolding ip cs by (simp add: f field_def)
  show "length h = 34" by (simp add: h)
  show "reply_header frame n q
    = do {
        let last = max (14 + n) 60;
        out \<leftarrow> copy_at (14 + n) last (replicate (last - (14 + n)) 0) (splice 0 h q);
        Some (last, out)
      }"
  proof -
    define filled where "filled x = splice 0 x q" for x
    have s0: "copy_at 0 6 src q = Some (filled src)" if "length src = 6" for src
      using that q by (simp add: filled_def copy_at_start)
    have s1: "copy_at a b src (filled z) = Some (filled (z @ src))"
      if "length z = a" "length src = b - a" "a \<le> b" "b \<le> 34" for a b src z
      unfolding filled_def using that q by (intro copy_at_append) simp_all
    have s2: "copy_at a b src (filled z) = Some (filled (take a z @ src @ drop b z))"
      if "length z = 34" "length src = b - a" "a \<le> b" "b \<le> 34" for a b src z
    proof -
      have "copy_at a b src (filled z) = Some (filled (splice a src z))"
        unfolding filled_def using that q by (intro copy_at_inside) simp_all
      then show ?thesis using that by (simp add: splice_def)
    qed
    have s3: "set_at i v (filled z) = Some (filled (z[i := v]))" if "length z = 34" "i < 34" for i v z
      unfolding filled_def using that q by (intro set_at_inside) simp_all
    have s4: "slice_get 14 34 (filled z) = Some (drop 14 z)" if "length z = 34" for z
      unfolding filled_def using that q by (subst slice_get_inside) (simp_all add: field_def)
    have "length frame = 34 + length rest" by (simp add: f)
    then have g: "slice_get a b frame = Some (field a (b - a) frame)" if "a \<le> b" "b \<le> 34" for a b
      using that by (simp add: slice_get_field')
    have front: "filled h = splice 0 h q" by (simp add: filled_def)
    have fields: "field 6 6 frame = [f6, f7, f8, f9, f10, f11]"
      "field 12 22 frame = [8, 0, 0x45, f15, f16, f17, f18, f19, f20, f21, f22, f23, f24, f25, f26, f27, f28, f29,
         f30, f31, f32, f33]" "field 26 4 frame = [f26, f27, f28, f29]"
      by (simp_all add: f k field_def)
    show ?thesis
      unfolding front [symmetric] reply_header_def
      by (simp add: g s0 s1 s2 s3 s4 fields xy MANAGEMENT_MAC_def MANAGEMENT_IP_def h cs Let_def)
  qed
qed


lemma field_split: "field a (m + n) xs = field a m xs @ field (a + m) n xs"
  by (simp add: field_def take_add ac_simps)

lemma be16_field: "k + 2 \<le> length bs \<Longrightarrow> be16 bs k = Some (from_be16 (field k 2 bs))"
proof -
  assume k: "k + 2 \<le> length bs"
  then have "field k 2 bs = [bs ! k, bs ! (k + 1)]"
    by (intro nth_equalityI) (auto simp: field_def less_Suc_eq numeral_2_eq_2)
  with k show ?thesis by (simp add: be16_def get_at_def)
qed

lemma reply_header_eq:
  assumes frame: "34 \<le> length frame" "field 12 3 frame = [8, 0, 0x45]"
    and n: "n = 20 + length payload" and out: "14 + n \<le> length out" "60 \<le> length out"
  shows "reply_header frame n (splice 34 payload out)
    = Some (length (ip_answer frame payload), splice 0 (ip_answer frame payload) out)"
proof -
  let ?q = "splice 34 payload out"
  have q: "34 \<le> length ?q" using n out by simp
  define h where "h = field 6 6 frame @ MANAGEMENT_MAC @ [8, 0] @ ip_header frame n (net_checksum (ip_header frame n 0))"
  have len: "length h = 34" unfolding h_def by (rule reply_header_front(2) [OF frame q])
  have front: "splice 0 h ?q = splice 0 (h @ payload) out"
    using len n out by (simp add: splice_def)
  let ?last = "max (14 + n) 60" and ?z = "replicate (max (14 + n) 60 - (14 + n)) (0 :: u8)"
  have "copy_at (14 + n) ?last ?z (splice 0 (h @ payload) out) = Some (splice 0 ((h @ payload) @ ?z) out)"
    using len n out by (intro copy_at_behind) auto
  moreover have ans: "(h @ payload) @ ?z = ip_answer frame payload"
    using n by (simp add: ip_answer_def h_def Let_def)
  moreover have "length (ip_answer frame payload) = ?last" using len n unfolding ans [symmetric] by simp
  ultimately show ?thesis
    unfolding reply_header_front(1) [OF frame q] h_def [symmetric] front Let_def by simp
qed

lemma answer_payload_length:
  "answer_payload frame = Some p \<Longrightarrow> 28 \<le> ip_length frame \<Longrightarrow> 14 + ip_length frame \<le> length frame
     \<Longrightarrow> 8 \<le> length p \<and> length p \<le> max (ip_length frame - 20) 61"
  by (auto simp: answer_payload_def Let_def echo_answer_def udp_answer_def request_payload_def
      split: if_splits dest!: udp_response_length)

lemma reply_payload_eq:
  assumes frame: "28 \<le> ip_length frame" "14 + ip_length frame \<le> length frame" "length frame \<le> FRAME_SIZE"
    and out: "length out = FRAME_SIZE"
  shows "reply_payload frame (ip_length frame) out
    = Some (case answer_payload frame of
              None \<Rightarrow> (None, out)
            | Some p \<Rightarrow> (Some (20 + length p), splice 34 p out))"
proof -
  let ?p = "request_payload frame"
  have p: "slice_get 34 (14 + ip_length frame) frame = Some ?p" and len: "20 + length ?p = ip_length frame" "8 \<le> length ?p"
    using frame by (simp_all add: slice_get_field' request_payload_def)
  have proto: "get_at 23 frame = Some (frame ! 23)" using frame by (simp add: get_at_def)
  have kind: "slice_get 0 2 ?p = Some (field 0 2 ?p)" using len by (simp add: slice_get_field')
  have be: "be16 ?p 2 = Some (from_be16 (field 2 2 ?p))" "be16 ?p 4 = Some (from_be16 (field 4 2 ?p))"
    using len by (simp_all add: be16_field)
  have echo: "echo_payload ?p (ip_length frame) out = Some (Some (ip_length frame), splice 34 (echo_answer ?p) out)"
    using len frame out by (intro echo_payload_eq) simp_all
  have echo_len: "20 + length (echo_answer ?p) = ip_length frame" using len by (simp add: echo_answer_def)
  have udp: "udp_payload frame ?p out = Some
    (if udp_checksum_ok frame ?p = Some True
     then (case udp_response (drop 8 ?p) of
             None \<Rightarrow> (None, out)
           | Some r \<Rightarrow> (Some (28 + length r), splice 34 (udp_answer ?p r) out))
     else (None, out))"
    using len frame out by (intro udp_payload_eq) simp_all
  have udp_len: "20 + length (udp_answer ?p r) = 28 + length r" for r using len by (simp add: udp_answer_def)
  show ?thesis
    unfolding reply_payload_def p bind.simps proto kind be echo udp answer_payload_def Let_def
    using echo_len udp_len by (auto split: option.splits)
qed

lemma ip_reply_eq:
  assumes frame: "frame_length_ok (length frame)" and out: "length out = FRAME_SIZE"
  shows "ip_reply frame out
    = Some (case (if ip_request frame then answer_payload frame else None) of
              None \<Rightarrow> (0, out)
            | Some p \<Rightarrow> (length (ip_answer frame p), splice 0 (ip_answer frame p) out))"
proof (cases "42 \<le> length frame")
  case True
  have s: "slice_get 0 6 frame = Some (field 0 6 frame)" "slice_get 12 14 frame = Some (field 12 2 frame)"
    "slice_get 30 34 frame = Some (field 30 4 frame)" "slice_get 14 34 frame = Some (field 14 20 frame)"
    "get_at 14 frame = Some (frame ! 14)" "get_at 22 frame = Some (frame ! 22)"
    "be16 frame 16 = Some (from_be16 (field 16 2 frame))" "be16 frame 20 = Some (from_be16 (field 20 2 frame))"
    using True by (simp_all add: slice_get_field' get_at_def be16_field)
  have kind: "field 12 3 frame = [8, 0, 0x45] \<longleftrightarrow> field 12 2 frame = [8, 0] \<and> frame ! 14 = 0x45"
  proof -
    have "field 14 1 frame = [frame ! 14]"
      using True by (intro nth_equalityI) (auto simp: field_def)
    then show ?thesis using field_split [of 12 2 1 frame] by simp
  qed
  show ?thesis
  proof (cases "ip_request frame")
    case req: True
    then have r: "28 \<le> ip_length frame" "14 + ip_length frame \<le> length frame" "field 12 3 frame = [8, 0, 0x45]"
      by (simp_all add: ip_request_def)
    have le: "length frame \<le> FRAME_SIZE" using frame by (simp add: frame_length_ok_def)
    have "ip_reply frame out = do {
        (len, out) \<leftarrow> reply_payload frame (ip_length frame) out;
        case len of None \<Rightarrow> Some (0, out) | Some len \<Rightarrow> reply_header frame len out
      }"
      using req True kind unfolding ip_reply_def s
      by (simp add: ip_request_def ip_length_def not_less add.commute)
    also have "\<dots> = Some (case answer_payload frame of
              None \<Rightarrow> (0, out)
            | Some p \<Rightarrow> (length (ip_answer frame p), splice 0 (ip_answer frame p) out))"
    proof (cases "answer_payload frame")
      case (Some p)
      have "14 + (20 + length p) \<le> length out"
        using answer_payload_length [OF Some r(1,2)] r(2) le out by auto
      then have "reply_header frame (20 + length p) (splice 34 p out)
          = Some (length (ip_answer frame p), splice 0 (ip_answer frame p) out)"
        using True r out by (intro reply_header_eq) simp_all
      then show ?thesis by (simp add: reply_payload_eq [OF r(1,2) le out] Some)
    qed (simp add: reply_payload_eq [OF r(1,2) le out])
    finally show ?thesis using req by simp
  next
    case False
    then show ?thesis using True kind unfolding ip_reply_def s
      by (auto simp: ip_request_def ip_length_def not_less add.commute)
  qed
qed (simp add: ip_reply_def ip_request_def)

lemma management_eq:
  assumes frame: "frame_length_ok (length frame)" and out: "length out = FRAME_SIZE"
  shows "management frame out
    = Some (case reply_of frame of None \<Rightarrow> (0, out) | Some r \<Rightarrow> (length r, splice 0 r out))"
proof -
  have kind: "slice_get 12 14 frame = Some (field 12 2 frame)"
    using frame by (simp add: slice_get_field' frame_length_ok_def)
  have arp: "arp_request frame \<longleftrightarrow> field 12 2 frame = [8, 6] \<and> 42 \<le> length frame
      \<and> field 14 8 frame = [0, 1, 8, 0, 6, 4, 0, 1] \<and> field 38 4 frame = MANAGEMENT_IP \<and> field 22 6 frame = field 6 6 frame"
  proof -
    have "field 12 10 frame = [8, 6, 0, 1, 8, 0, 6, 4, 0, 1]
        \<longleftrightarrow> field 12 2 frame = [8, 6] \<and> field 14 8 frame = [0, 1, 8, 0, 6, 4, 0, 1]" if "42 \<le> length frame"
      using that field_split [of 12 2 8 frame] append_eq_append_conv
        [of "field 12 2 frame" "[8, 6]" "field 14 8 frame" "[0, 1, 8, 0, 6, 4, 0, 1]"] by simp
    then show ?thesis by (auto simp: arp_request_def)
  qed
  show ?thesis
  proof (cases "field 12 2 frame = [8, 6]")
    case True
    have "\<not> ip_request frame" using True field_split [of 12 2 1 frame] by (auto simp: ip_request_def)
    moreover have "(field 12 10 frame)[9 := 2] = [8, 6, 0, 1, 8, 0, 6, 4, 0, 2]" if "arp_request frame"
      using that by (simp add: arp_request_def)
    ultimately show ?thesis
      using True arp
      by (simp add: management_def kind arp_reply_eq [OF out] reply_of_def arp_answer_def)
  next
    case False
    then have "\<not> arp_request frame" using arp by simp
    then show ?thesis using False
      by (simp add: management_def kind ip_reply_eq [OF frame out] reply_of_def split: option.split)
  qed
qed



section \<open>The rings hold lists of frames\<close>

definition frames_ok :: "frames \<Rightarrow> bool" where
  "frames_ok q \<longleftrightarrow> length (fr_bytes q) = FRAMES_SIZE \<and> (\<forall>slot \<in> set (fr_bytes q). length slot = FRAME_SIZE)
     \<and> length (fr_lengths q) = FRAMES_SIZE \<and> fr_head q < FRAMES_SIZE \<and> fr_count q \<le> FRAMES_SIZE"

lemma frames_iter_ring:
  "frames_iter q = ring_items FRAMES_SIZE (\<lambda>i. take (fr_lengths q ! i) (fr_bytes q ! i)) (fr_head q) (fr_count q)"
  by (simp add: frames_iter_def ring_items_def Let_def)

lemma length_frames_iter [simp]: "length (frames_iter q) = fr_count q"
  by (simp add: frames_iter_ring)

text \<open>Filling the spare slot is invisible, and committing it appends its front to the list.\<close>

lemma frames_fill_commit:
  assumes ok: "frames_ok q" and i: "frames_spare q = Some i" and out: "length out = FRAME_SIZE"
  defines "q' \<equiv> q\<lparr>fr_bytes := (fr_bytes q)[i := out]\<rparr>"
  shows "frames_ok q'" and "frames_iter q' = frames_iter q" and "length (fr_bytes q ! i) = FRAME_SIZE"
    and "frames_ok (snd (frames_commit n q'))" and "fst (frames_commit n q') \<longleftrightarrow> frame_length_ok n"
    and "frames_iter (snd (frames_commit n q')) = (if frame_length_ok n then frames_iter q @ [take n out] else frames_iter q)"
proof -
  have c: "fr_count q < FRAMES_SIZE" and i: "i = (fr_head q + fr_count q) mod FRAMES_SIZE"
    using i ok by (auto simp: frames_spare_def frames_full_def frames_ok_def split: if_splits)
  have lt: "i < FRAMES_SIZE" by (simp add: i)
  show ok': "frames_ok q'"
    using ok out by (auto simp: q'_def frames_ok_def dest: set_update_subset_insert [THEN subsetD])
  show "length (fr_bytes q ! i) = FRAME_SIZE" using ok lt by (simp add: frames_ok_def)
  show same: "frames_iter q' = frames_iter q"
    unfolding frames_iter_ring
    using c ring_slot_distinct [OF _ c, of _ "fr_head q", THEN not_sym]
    by (auto simp: q'_def i intro!: ring_items_same)
  have nf: "\<not> frames_full q'" using c by (simp add: q'_def frames_full_def)
  show "fst (frames_commit n q') \<longleftrightarrow> frame_length_ok n" "frames_ok (snd (frames_commit n q'))"
    using nf ok' c by (auto simp: frames_commit_def frames_ok_def q'_def)
  show "frames_iter (snd (frames_commit n q')) = (if frame_length_ok n then frames_iter q @ [take n out] else frames_iter q)"
  proof (cases "frame_length_ok n")
    case True
    have "frames_iter (snd (frames_commit n q'))
        = ring_items FRAMES_SIZE (\<lambda>j. take ((fr_lengths q)[i := n] ! j) ((fr_bytes q)[i := out] ! j)) (fr_head q) (Suc (fr_count q))"
      using True nf by (simp add: frames_commit_def frames_iter_ring q'_def i)
    also have "\<dots> = frames_iter q @ [take n out]"
      unfolding frames_iter_ring using c lt ok
      by (intro ring_items_append) (auto simp: i frames_ok_def)
    finally show ?thesis using True by simp
  next
    case False
    then show ?thesis using same by (simp add: frames_commit_def)
  qed
qed

lemma frames_spare_iff: "frames_ok q \<Longrightarrow> frames_spare q = None \<longleftrightarrow> length (frames_iter q) = FRAMES_SIZE"
  by (simp add: frames_spare_def frames_full_def)

lemma frames_push:
  assumes ok: "frames_ok q"
  shows "frames_ok (snd (frames_push f q))"
    and "fst (frames_push f q) \<longleftrightarrow> frame_length_ok (length f) \<and> length (frames_iter q) < FRAMES_SIZE"
    and "frames_iter (snd (frames_push f q))
      = (if frame_length_ok (length f) \<and> length (frames_iter q) < FRAMES_SIZE then frames_iter q @ [f] else frames_iter q)"
proof -
  have le: "fr_count q \<le> FRAMES_SIZE" using ok by (simp add: frames_ok_def)
  have all: "frames_ok (snd (frames_push f q))
    \<and> (fst (frames_push f q) \<longleftrightarrow> frame_length_ok (length f) \<and> length (frames_iter q) < FRAMES_SIZE)
    \<and> frames_iter (snd (frames_push f q))
      = (if frame_length_ok (length f) \<and> length (frames_iter q) < FRAMES_SIZE then frames_iter q @ [f] else frames_iter q)"
  proof (cases "frame_length_ok (length f) \<and> \<not> frames_full q")
    case True
    then obtain i where i: "frames_spare q = Some i" by (simp add: frames_spare_def)
    have len: "length (fr_bytes q ! i) = FRAME_SIZE"
      using ok i by (auto simp: frames_spare_def frames_ok_def split: if_splits)
    then have out: "length (splice 0 f (fr_bytes q ! i)) = FRAME_SIZE" and
      "take (length f) (splice 0 f (fr_bytes q ! i)) = f"
      using True by (simp_all add: frame_length_ok_def splice_def)
    with frames_fill_commit(4-6) [OF ok i out, of "length f"] True le show ?thesis
      by (auto simp: frames_push_def i frames_full_def)
  qed (use ok le in \<open>auto simp: frames_push_def frames_full_def\<close>)
  then show "frames_ok (snd (frames_push f q))"
    "fst (frames_push f q) \<longleftrightarrow> frame_length_ok (length f) \<and> length (frames_iter q) < FRAMES_SIZE"
    "frames_iter (snd (frames_push f q))
      = (if frame_length_ok (length f) \<and> length (frames_iter q) < FRAMES_SIZE then frames_iter q @ [f] else frames_iter q)"
    by blast+
qed

lemma frames_pop:
  assumes "frames_ok q"
  shows "frames_ok (frames_pop q)" and "frames_iter (frames_pop q) = drop 1 (frames_iter q)"
proof -
  show "frames_ok (frames_pop q)" using assms by (auto simp: frames_pop_def frames_ok_def)
  show "frames_iter (frames_pop q) = drop 1 (frames_iter q)"
  proof (cases "fr_count q = 0")
    case False
    then show ?thesis
      using ring_items_drop [of 1 "fr_count q" FRAMES_SIZE _ "fr_head q"]
      by (simp add: frames_pop_def frames_iter_ring)
  qed (simp add: frames_pop_def frames_iter_def)
qed

lemma frames_front:
  "frames_ok q \<Longrightarrow> frames_front q = (case frames_iter q of [] \<Rightarrow> None | f # _ \<Rightarrow> Some f)"
  by (cases "fr_count q") (auto simp: frames_front_def frames_iter_def frames_ok_def upt_conv_Cons Let_def simp del: upt_Suc)

lemma frames_clear: "frames_ok q \<Longrightarrow> frames_ok (frames_clear q)" "frames_iter (frames_clear q) = []"
  by (simp_all add: frames_clear_def frames_ok_def frames_iter_def)

lemma frames_new: "frames_ok frames_new" "frames_iter frames_new = []"
  by (simp_all add: frames_new_def frames_ok_def frames_iter_def)

fun frames_pops :: "nat \<Rightarrow> frames \<Rightarrow> frames" where
  "frames_pops 0 q = q"
| "frames_pops (Suc n) q = frames_pops n (frames_pop q)"

lemma frames_pops: "frames_ok q \<Longrightarrow> frames_iter (frames_pops n q) = drop n (frames_iter q) \<and> frames_ok (frames_pops n q)"
  by (induction n q rule: frames_pops.induct) (simp_all add: frames_pop drop_Suc drop_tl)

interpretation frames: bounded_queue frames_iter frames_ok FRAMES_SIZE "\<lambda>f. frame_length_ok (length f)"
  "\<lambda>f q. snd (frames_push f q)" frames_pops frames_clear
proof
  fix q assume ok: "frames_ok q"
  then show "length (frames_iter q) \<le> FRAMES_SIZE" by (simp add: frames_ok_def)
  show "frames_iter (snd (frames_push x q))
      = (if frame_length_ok (length x) \<and> length (frames_iter q) < FRAMES_SIZE then frames_iter q @ [x] else frames_iter q)"
    "frames_ok (snd (frames_push x q))" for x by (rule frames_push [OF ok])+
  show "frames_iter (frames_pops n q) = drop n (frames_iter q)" "frames_ok (frames_pops n q)" for n
    using frames_pops [OF ok] by blast+
  show "frames_iter (frames_clear q) = []" "frames_ok (frames_clear q)" by (rule frames_clear | rule ok)+
qed



section \<open>The switch over lists\<close>

lemma length_ip_answer:
  assumes "34 \<le> length frame"
  shows "length (ip_header frame n c) = 20" and "length (ip_answer frame p) = max 60 (34 + length p)"
proof -
  show h: "length (ip_header frame n c) = 20" for c n using assms by (simp add: ip_header_def)
  show "length (ip_answer frame p) = max 60 (34 + length p)" using assms h by (simp add: ip_answer_def Let_def)
qed

lemma reply_length:
  assumes frame: "frame_length_ok (length frame)" and r: "reply_of frame = Some r"
  shows "60 \<le> length r" and "length r \<le> FRAME_SIZE"
proof -
  have "60 \<le> length r \<and> length r \<le> FRAME_SIZE"
  proof (cases "arp_request frame")
    case True
    with r have "r = arp_answer frame" "42 \<le> length frame" by (auto simp: reply_of_def arp_request_def)
    then show ?thesis by (simp add: arp_answer_def)
  next
    case False
    with r obtain p where p: "ip_request frame" "answer_payload frame = Some p" "r = ip_answer frame p"
      by (auto simp: reply_of_def split: if_splits)
    then have "length p \<le> max (ip_length frame - 20) 61" "14 + ip_length frame \<le> length frame" "42 \<le> length frame"
      using answer_payload_length [OF p(2)] by (auto simp: ip_request_def)
    then show ?thesis using frame p(3) length_ip_answer(2) [of frame p] by (auto simp: frame_length_ok_def)
  qed
  then show "60 \<le> length r" "length r \<le> FRAME_SIZE" by blast+
qed

record switch =
  sw_host :: "bytes list"
  sw_guest :: "bytes list"
  sw_counters :: counters

definition bridge_view :: "bridge \<Rightarrow> switch" where
  "bridge_view b = \<lparr>sw_host = frames_iter (br_host b), sw_guest = frames_iter (br_guest b),
     sw_counters = bridge_counters b\<rparr>"

definition bridge_ok :: "bridge \<Rightarrow> bool" where
  "bridge_ok b \<longleftrightarrow> frames_ok (br_host b) \<and> frames_ok (br_guest b)"

text \<open>A queue of at most eight frames of legal length, and the classification over it.\<close>

definition queue_push :: "bytes \<Rightarrow> bytes list \<Rightarrow> bool \<times> bytes list" where
  "queue_push f q = (if frame_length_ok (length f) \<and> length q < FRAMES_SIZE then (True, q @ [f]) else (False, q))"

definition count_rejected :: "counters \<Rightarrow> counters" where
  "count_rejected c = c\<lparr>ct_rejected := saturating_add (ct_rejected c) 1\<rparr>"

definition classify :: "bytes \<Rightarrow> bytes list \<Rightarrow> counters \<Rightarrow> bool \<times> bytes list \<times> counters" where
  "classify frame q c =
     (if \<not> frame_length_ok (length frame) \<or> bit (frame ! 6) 0 then (False, q, count_rejected c)
      else
        let c = c\<lparr>ct_received := saturating_add (ct_received c) 1\<rparr>;
            local = (field 0 6 frame = MANAGEMENT_MAC)
        in if \<not> local \<and> \<not> bit (frame ! 0) 0 then (True, q, c)
           else if length q = FRAMES_SIZE then (\<not> local, q, count_rejected c)
           else case reply_of frame of
               None \<Rightarrow> (\<not> local, q, c)
             | Some r \<Rightarrow> (\<not> local, q @ [r], c\<lparr>ct_replies := saturating_add (ct_replies c) 1\<rparr>))"

lemma and_1_bit: "w AND 1 \<noteq> 0 \<longleftrightarrow> bit (w :: u8) 0"
  using masked_bit_iff [of w 0] by simp

lemma route_classify:
  assumes ok: "frames_ok q"
  shows "\<exists>q'. route frame q c = Some (fst (classify frame (frames_iter q) c), q', snd (snd (classify frame (frames_iter q) c)))
    \<and> frames_ok q' \<and> frames_iter q' = fst (snd (classify frame (frames_iter q) c))"
proof (cases "frame_length_ok (length frame) \<and> \<not> bit (frame ! 6) 0 \<and> (take 6 frame = MANAGEMENT_MAC \<or> bit (frame ! 0) 0)")
  case True
  show ?thesis
  proof (cases "frames_spare q")
    case None
    then show ?thesis using True ok frames_spare_iff [OF ok]
      by (auto simp: route_def classify_def Let_def and_1_bit field_def count_rejected_def simp del: FRAMES_SIZE_def)
  next
    case (Some i)
    then have n: "length (frames_iter q) \<noteq> FRAMES_SIZE" using frames_spare_iff [OF ok] by simp
    have slot: "length (fr_bytes q ! i) = FRAME_SIZE"
      using ok Some by (auto simp: frames_spare_def frames_ok_def split: if_splits)
    show ?thesis
    proof (cases "reply_of frame")
      case None
      have m: "management frame (fr_bytes q ! i) = Some (0, fr_bytes q ! i)"
        using management_eq [OF _ slot] True None by simp
      have "\<not> frame_length_ok 0" by (simp add: frame_length_ok_def)
      with frames_fill_commit [OF ok Some slot] show ?thesis
        using True None n m Some
        by (auto simp: route_def classify_def Let_def and_1_bit field_def frames_commit_def)
    next
      case r: (Some r)
      have m: "management frame (fr_bytes q ! i) = Some (length r, splice 0 r (fr_bytes q ! i))"
        using management_eq [OF _ slot] True r by simp
      have len: "frame_length_ok (length r)" using reply_length [OF _ r] True by (auto simp: frame_length_ok_def)
      then have out: "length (splice 0 r (fr_bytes q ! i)) = FRAME_SIZE" "take (length r) (splice 0 r (fr_bytes q ! i)) = r"
        using slot by (simp_all add: frame_length_ok_def splice_def)
      obtain q' where q': "frames_commit (length r) (q\<lparr>fr_bytes := (fr_bytes q)[i := splice 0 r (fr_bytes q ! i)]\<rparr>) = (True, q')"
        "frames_ok q'" "frames_iter q' = frames_iter q @ [r]"
        using frames_fill_commit(4-6) [OF ok Some out(1), of "length r"] len out(2)
        by (intro that [of "snd (frames_commit (length r) (q\<lparr>fr_bytes := (fr_bytes q)[i := splice 0 r (fr_bytes q ! i)]\<rparr>))"])
           (simp_all add: prod_eq_iff)
      then show ?thesis
        using True r n m Some
        by (auto simp: route_def classify_def Let_def and_1_bit field_def)
    qed
  qed
qed (use ok in \<open>auto simp: route_def classify_def Let_def and_1_bit field_def count_rejected_def\<close>)


definition switch_forward :: "bytes \<Rightarrow> bool \<Rightarrow> bytes list \<Rightarrow> counters \<Rightarrow> bytes list \<times> counters" where
  "switch_forward frame fwd q c =
     (if fwd then case queue_push frame q of (ok, q) \<Rightarrow> (q, if ok then c else count_rejected c) else (q, c))"

definition switch_receive :: "port \<Rightarrow> bytes \<Rightarrow> switch \<Rightarrow> switch" where
  "switch_receive p frame s =
     (case p of
        Host \<Rightarrow> (case classify frame (sw_host s) (sw_counters s) of
                   (fwd, h, c) \<Rightarrow> (case switch_forward frame fwd (sw_guest s) c of
                     (g, c) \<Rightarrow> \<lparr>sw_host = h, sw_guest = g, sw_counters = c\<rparr>))
      | Guest \<Rightarrow> (case classify frame (sw_guest s) (sw_counters s) of
                   (fwd, g, c) \<Rightarrow> (case switch_forward frame fwd (sw_host s) c of
                     (h, c) \<Rightarrow> \<lparr>sw_host = h, sw_guest = g, sw_counters = c\<rparr>)))"

definition switch_host :: "bytes \<Rightarrow> (bytes \<Rightarrow> 's \<Rightarrow> bool \<times> 's) \<Rightarrow> switch \<times> 's \<Rightarrow> switch \<times> 's" where
  "switch_host frame deliver = (\<lambda>(s, st).
     case classify frame (sw_host s) (sw_counters s) of
       (fwd, h, c) \<Rightarrow>
         if fwd \<and> sw_guest s = [] \<and> fst (deliver frame st)
         then (\<lparr>sw_host = h, sw_guest = sw_guest s, sw_counters = c\<rparr>, snd (deliver frame st))
         else (case switch_forward frame fwd (sw_guest s) c of
                 (g, c) \<Rightarrow> (\<lparr>sw_host = h, sw_guest = g, sw_counters = c\<rparr>,
                            if fwd \<and> sw_guest s = [] then snd (deliver frame st) else st)))"

definition switch_guest :: "('s \<Rightarrow> bytes \<times> 's) \<Rightarrow> switch \<times> 's \<Rightarrow> bool \<times> switch \<times> 's" where
  "switch_guest supply = (\<lambda>(s, st).
     if length (sw_host s) = FRAMES_SIZE then (False, s, st)
     else case supply st of
       (frame, st) \<Rightarrow>
         if frame = [] then (False, s, st)
         else case classify frame (sw_guest s) (sw_counters s) of
           (fwd, g, c) \<Rightarrow> (True, \<lparr>sw_host = (if fwd then sw_host s @ [frame] else sw_host s), sw_guest = g,
                                sw_counters = c\<rparr>, st))"

lemma classify_forward: "classify frame q c = (True, q', c') \<Longrightarrow> frame_length_ok (length frame)"
  by (auto simp: classify_def Let_def split: if_splits option.splits)

lemma bridge_counters_simps [simp]:
  "bridge_counters (set_counters c b) = c" "bridge_counters (b\<lparr>br_host := h\<rparr>) = bridge_counters b"
  "bridge_counters (b\<lparr>br_guest := h\<rparr>) = bridge_counters b"
  "bridge_counters (bridge_rejected b) = count_rejected (bridge_counters b)"
  "br_host (set_counters c b) = br_host b" "br_guest (set_counters c b) = br_guest b"
  "br_host (bridge_rejected b) = br_host b" "br_guest (bridge_rejected b) = br_guest b"
  by (simp_all add: bridge_counters_def set_counters_def bridge_rejected_def count_rejected_def)

lemma frames_push_queue:
  assumes "frames_ok q"
  shows "fst (frames_push f q) = fst (queue_push f (frames_iter q))"
    and "frames_iter (snd (frames_push f q)) = snd (queue_push f (frames_iter q))"
  using frames_push [OF assms, of f] by (simp_all add: queue_push_def)

lemma bridge_receive_refines:
  assumes "bridge_ok b"
  shows "\<exists>b'. bridge_receive p frame b = Some (True, b') \<and> bridge_ok b'
    \<and> bridge_view b' = switch_receive p frame (bridge_view b)"
proof -
  have ok: "frames_ok (br_host b)" "frames_ok (br_guest b)" using assms by (simp_all add: bridge_ok_def)
  show ?thesis
  proof (cases p)
    case Host
    obtain fwd q c q' where r: "route frame (br_host b) (bridge_counters b) = Some (fwd, q', c)" "frames_ok q'"
      "classify frame (frames_iter (br_host b)) (bridge_counters b) = (fwd, q, c)" "frames_iter q' = q"
      using route_classify [OF ok(1), of frame "bridge_counters b"] by (metis prod.collapse)
    then show ?thesis
      using Host ok frames_push [OF ok(2), of frame] frames_push_queue [OF ok(2), of frame]
      by (auto simp: bridge_receive_def switch_receive_def bridge_view_def switch_forward_def bridge_ok_def Let_def
          split: prod.splits)
  next
    case Guest
    obtain fwd q c q' where r: "route frame (br_guest b) (bridge_counters b) = Some (fwd, q', c)" "frames_ok q'"
      "classify frame (frames_iter (br_guest b)) (bridge_counters b) = (fwd, q, c)" "frames_iter q' = q"
      using route_classify [OF ok(2), of frame "bridge_counters b"] by (metis prod.collapse)
    then show ?thesis
      using Guest ok frames_push [OF ok(1), of frame] frames_push_queue [OF ok(1), of frame]
      by (auto simp: bridge_receive_def switch_receive_def bridge_view_def switch_forward_def bridge_ok_def Let_def
          split: prod.splits)
  qed
qed

lemma receive_host_refines:
  assumes "bridge_ok b" and deliver: "deliver' frame st = Some (deliver frame st)"
  shows "\<exists>b' st'. receive_host frame deliver' (b, st) = Some (b', st') \<and> bridge_ok b'
    \<and> (bridge_view b', st') = switch_host frame deliver (bridge_view b, st)"
proof -
  have ok: "frames_ok (br_host b)" "frames_ok (br_guest b)" using assms by (simp_all add: bridge_ok_def)
  obtain fwd q c q' where r: "route frame (br_host b) (bridge_counters b) = Some (fwd, q', c)" "frames_ok q'"
    "classify frame (frames_iter (br_host b)) (bridge_counters b) = (fwd, q, c)" "frames_iter q' = q"
    using route_classify [OF ok(1), of frame "bridge_counters b"] by (metis prod.collapse)
  have empty: "frames_empty (br_guest b) \<longleftrightarrow> frames_iter (br_guest b) = []"
    by (simp add: frames_empty_def flip: length_0_conv)
  show ?thesis
    using r ok deliver frames_push [OF ok(2), of frame] frames_push_queue [OF ok(2), of frame]
    by (cases "deliver frame st"; cases "frames_push frame (br_guest b)"; cases fwd)
       (auto simp: receive_host_def switch_host_def bridge_view_def switch_forward_def bridge_ok_def Let_def empty
        split: prod.splits)
qed

lemma receive_guest_refines:
  assumes "bridge_ok b"
    and fill: "\<And>slot. length slot = FRAME_SIZE \<Longrightarrow>
      \<exists>slot'. fill slot st = Some ((length (fst (supply st)), slot'), snd (supply st)) \<and> length slot' = FRAME_SIZE
        \<and> length (fst (supply st)) \<le> FRAME_SIZE \<and> take (length (fst (supply st))) slot' = fst (supply st)"
  shows "\<exists>r b' st'. receive_guest fill (b, st) = Some (r, b', st') \<and> bridge_ok b'
    \<and> (r, bridge_view b', st') = switch_guest supply (bridge_view b, st)"
proof -
  have ok: "frames_ok (br_host b)" "frames_ok (br_guest b)" using assms by (simp_all add: bridge_ok_def)
  show ?thesis
  proof (cases "frames_spare (br_host b)")
    case None
    then show ?thesis using ok frames_spare_iff [OF ok(1)] assms(1)
      by (auto simp: receive_guest_def switch_guest_def bridge_view_def)
  next
    case (Some i)
    then have n: "length (frames_iter (br_host b)) \<noteq> FRAMES_SIZE" using frames_spare_iff [OF ok(1)] by simp
    obtain f st' where s: "supply st = (f, st')" by fastforce
    have "length (fr_bytes (br_host b) ! i) = FRAME_SIZE"
      using ok(1) Some by (auto simp: frames_spare_def frames_ok_def split: if_splits)
    then obtain slot' where slot: "fill (fr_bytes (br_host b) ! i) st = Some ((length f, slot'), st')"
      "length slot' = FRAME_SIZE" "length f \<le> FRAME_SIZE" "take (length f) slot' = f"
      using fill s by fastforce
    note c = frames_fill_commit [OF ok(1) Some slot(2)]
    obtain fwd q ct q' where r: "route f (br_guest b) (bridge_counters b) = Some (fwd, q', ct)" "frames_ok q'"
      "classify f (frames_iter (br_guest b)) (bridge_counters b) = (fwd, q, ct)" "frames_iter q' = q"
      using route_classify [OF ok(2), of f "bridge_counters b"] by (metis prod.collapse)
    have "slice_get 0 (length f) slot' = Some f" using slot by (simp add: slice_get_def)
    moreover have "fwd \<Longrightarrow> frame_length_ok (length f)" using r(3) classify_forward [of f _ _ q ct] by auto
    ultimately show ?thesis
      using r s slot n c(1,2) c(4-6) [of "length f"] ok Some
      by (cases "f = []"; cases fwd) (auto simp: receive_guest_def switch_guest_def bridge_view_def bridge_ok_def Let_def)
  qed
qed



section \<open>Runs\<close>

text \<open>
  What can happen to the switch: a frame from either port, with the guest device taking a frame at once
  or not; frames leaving towards the host or the guest; and the link or the guest going down.
\<close>

datatype net_event =
    Received port bytes
  | FromHost bytes bool
  | FromGuest bytes
  | SentToHost nat
  | SentToGuest
  | HostDown
  | GuestDown

definition fill_frame :: "bytes \<Rightarrow> bytes \<Rightarrow> unit \<Rightarrow> ((nat \<times> bytes) \<times> unit) option" where
  "fill_frame frame slot st = Some ((length (take FRAME_SIZE frame), splice 0 (take FRAME_SIZE frame) slot), st)"

fun net_step :: "net_event \<Rightarrow> bridge \<Rightarrow> bridge option" where
  "net_step (Received p frame) b = map_option snd (bridge_receive p frame b)"
| "net_step (FromHost frame taken) b = map_option fst (receive_host frame (\<lambda>_ st. Some (taken, st)) (b, ()))"
| "net_step (FromGuest frame) b = map_option (fst \<circ> snd) (receive_guest (fill_frame frame) (b, ()))"
| "net_step (SentToHost n) b = Some (b\<lparr>br_host := frames_pops n (br_host b)\<rparr>)"
| "net_step SentToGuest b = Some (b\<lparr>br_guest := frames_pop (br_guest b)\<rparr>)"
| "net_step HostDown b = Some (b\<lparr>br_host := frames_clear (br_host b)\<rparr>)"
| "net_step GuestDown b = Some (b\<lparr>br_guest := frames_clear (br_guest b)\<rparr>)"

fun switch_step :: "net_event \<Rightarrow> switch \<Rightarrow> switch" where
  "switch_step (Received p frame) s = switch_receive p frame s"
| "switch_step (FromHost frame taken) s = fst (switch_host frame (\<lambda>_ st. (taken, st)) (s, ()))"
| "switch_step (FromGuest frame) s = fst (snd (switch_guest (\<lambda>st. (take FRAME_SIZE frame, st)) (s, ())))"
| "switch_step (SentToHost n) s = s\<lparr>sw_host := drop n (sw_host s)\<rparr>"
| "switch_step SentToGuest s = s\<lparr>sw_guest := drop 1 (sw_guest s)\<rparr>"
| "switch_step HostDown s = s\<lparr>sw_host := []\<rparr>"
| "switch_step GuestDown s = s\<lparr>sw_guest := []\<rparr>"

fun net_run :: "net_event list \<Rightarrow> bridge \<Rightarrow> bridge option" where
  "net_run [] b = Some b"
| "net_run (e # es) b = do { b \<leftarrow> net_step e b; net_run es b }"

lemma net_step_refines:
  assumes ok: "bridge_ok b"
  shows "\<exists>b'. net_step e b = Some b' \<and> bridge_ok b' \<and> bridge_view b' = switch_step e (bridge_view b)"
proof (cases e)
  case (Received p frame)
  then show ?thesis using bridge_receive_refines [OF ok, of p frame] by auto
next
  case (FromHost frame taken)
  then show ?thesis using receive_host_refines [OF ok, of "\<lambda>_ st. Some (taken, st)" frame "()" "\<lambda>_ st. (taken, st)"]
    by (force dest: sym)
next
  case (FromGuest frame)
  have "\<exists>slot'. fill_frame frame slot () = Some ((length (fst (take FRAME_SIZE frame, ())), slot'), snd (take FRAME_SIZE frame, ()))
      \<and> length slot' = FRAME_SIZE \<and> length (fst (take FRAME_SIZE frame, ())) \<le> FRAME_SIZE
      \<and> take (length (fst (take FRAME_SIZE frame, ()))) slot' = fst (take FRAME_SIZE frame, ())"
    if "length slot = FRAME_SIZE" for slot
    using that by (simp add: fill_frame_def splice_def min_def del: FRAME_SIZE_def)
  from receive_guest_refines [OF ok, of "fill_frame frame" "()" "\<lambda>st. (take FRAME_SIZE frame, st)", OF this]
  show ?thesis unfolding FromGuest by (force dest: sym)
next
  case (SentToHost n)
  then show ?thesis using ok frames_pops [of "br_host b" n] by (simp add: bridge_ok_def bridge_view_def)
next
  case SentToGuest
  then show ?thesis using ok frames_pop [of "br_guest b"] by (simp add: bridge_ok_def bridge_view_def)
next
  case HostDown
  then show ?thesis using ok frames_clear [of "br_host b"] by (simp add: bridge_ok_def bridge_view_def)
next
  case GuestDown
  then show ?thesis using ok frames_clear [of "br_guest b"] by (simp add: bridge_ok_def bridge_view_def)
qed

lemma net_run_refines:
  "bridge_ok b \<Longrightarrow> \<exists>b'. net_run es b = Some b' \<and> bridge_ok b' \<and> bridge_view b' = fold switch_step es (bridge_view b)"
proof (induction es arbitrary: b)
  case (Cons e es)
  obtain b1 where b1: "net_step e b = Some b1" "bridge_ok b1" "bridge_view b1 = switch_step e (bridge_view b)"
    using net_step_refines [OF Cons.prems, of e] by blast
  from Cons.IH [OF b1(2)] b1(1,3) show ?case by simp
qed simp

lemma bridge_new_ok: "bridge_ok bridge_new"
  by (simp add: bridge_ok_def bridge_new_def frames_new)


section \<open>Properties\<close>

text \<open>
  C30: The switch works as one over two lists of frames.  In every run no frame, whatever its bytes,
  reaches a panic; frames leave each port in the order they were accepted, at most eight wait, a frame
  that finds no room is counted as rejected, and a management reply is a function of the request alone:
  nothing of the reused slot it is written into remains in it.
\<close>

theorem switch_refines_lists:
  "\<exists>b. net_run es bridge_new = Some b
     \<and> bridge_view b = fold switch_step es (bridge_view bridge_new)
     \<and> length (sw_host (bridge_view b)) \<le> FRAMES_SIZE \<and> length (sw_guest (bridge_view b)) \<le> FRAMES_SIZE"
  using net_run_refines [OF bridge_new_ok, of es] frames.bounded
  by (auto simp: bridge_ok_def bridge_view_def simp del: FRAMES_SIZE_def)

text \<open>
  The endpoint as its peers see it, by the formats of the protocols.  A packet verifies if its 16-bit words
  sum to a nonzero multiple of \<open>0xffff\<close>.  A request is an echo request or a datagram for the port 7777 that
  verifies, in a whole packet for the management address.
\<close>

definition verifies :: "bytes \<Rightarrow> bool" where
  "verifies bs \<longleftrightarrow> word_sum bs \<noteq> 0 \<and> word_sum bs mod 65535 = 0"

definition packet_request :: "bytes \<Rightarrow> bool" where
  "packet_request frame \<longleftrightarrow> 42 \<le> length frame \<and> field 0 6 frame = MANAGEMENT_MAC \<and> field 12 3 frame = [8, 0, 0x45]
     \<and> field 30 4 frame = MANAGEMENT_IP \<and> 28 \<le> ip_length frame \<and> 14 + ip_length frame \<le> length frame
     \<and> field 20 2 frame \<in> {[0, 0], [0x40, 0]} \<and> frame ! 22 \<noteq> 0 \<and> verifies (field 14 20 frame)"

definition echo_request :: "bytes \<Rightarrow> bool" where
  "echo_request frame \<longleftrightarrow> packet_request frame \<and> frame ! 23 = 1 \<and> field 34 2 frame = [8, 0]
     \<and> verifies (request_payload frame)"

definition udp_text :: "bytes \<Rightarrow> bytes option" where
  "udp_text = map_of
     (let pong = ascii ''pong'' @ [10]; status = ascii ''switchvisor usb-net management=192.168.77.1 mtu=1500'' @ [10]
      in [(ascii ''ping'', pong), (ascii ''ping'' @ [10], pong), (ascii ''status'', status), (ascii ''status'' @ [10], status)])"

definition udp_request :: "bytes \<Rightarrow> bool" where
  "udp_request frame \<longleftrightarrow>
     (let payload = request_payload frame
      in packet_request frame \<and> frame ! 23 = 17 \<and> field 36 2 frame = [0x1e, 0x61]
         \<and> unat (from_be16 (field 38 2 frame)) = length payload
         \<and> (field 40 2 frame = [0, 0]
            \<or> (word_sum (field 26 8 frame) + 17 + length payload + word_sum payload) mod 65535 = 0)
         \<and> udp_text (drop 8 payload) \<noteq> None)"

text \<open>What comes back: an ARP answer, or a packet from the management address to the asker.\<close>

definition arp_response :: "bytes \<Rightarrow> bytes \<Rightarrow> bool" where
  "arp_response frame r \<longleftrightarrow> length r = 60 \<and> field 0 6 r = field 6 6 frame \<and> field 6 6 r = MANAGEMENT_MAC
     \<and> field 12 10 r = [8, 6, 0, 1, 8, 0, 6, 4, 0, 2] \<and> field 22 6 r = MANAGEMENT_MAC
     \<and> field 28 4 r = MANAGEMENT_IP \<and> field 32 10 r = field 22 10 frame \<and> drop 42 r = replicate 18 0"

definition packet_response :: "bytes \<Rightarrow> bytes \<Rightarrow> bytes \<Rightarrow> bool" where
  "packet_response frame p r \<longleftrightarrow> length r = max 60 (34 + length p)
     \<and> field 0 6 r = field 6 6 frame \<and> field 6 6 r = MANAGEMENT_MAC \<and> field 12 3 r = [8, 0, 0x45]
     \<and> ip_length r = 20 + length p \<and> field 20 2 r = [0, 0] \<and> r ! 22 = 64 \<and> r ! 23 = frame ! 23
     \<and> field 26 4 r = MANAGEMENT_IP \<and> field 30 4 r = field 26 4 frame \<and> verifies (field 14 20 r)
     \<and> field 34 (length p) r = p \<and> drop (34 + length p) r = replicate (60 - (34 + length p)) 0"

definition echo_response :: "bytes \<Rightarrow> bytes \<Rightarrow> bool" where
  "echo_response payload p \<longleftrightarrow> length p = length payload \<and> field 0 2 p = [0, 0] \<and> verifies p \<and> drop 4 p = drop 4 payload"

definition udp_response_to :: "bytes \<Rightarrow> bytes \<Rightarrow> bool" where
  "udp_response_to payload p \<longleftrightarrow>
     (case udp_text (drop 8 payload) of
        None \<Rightarrow> False
      | Some text \<Rightarrow> field 0 2 p = [0x1e, 0x61] \<and> field 2 2 p = field 0 2 payload
          \<and> unat (from_be16 (field 4 2 p)) = 8 + length text \<and> field 6 2 p = [0, 0] \<and> drop 8 p = text)"

lemma field_append:
  "a + n \<le> length xs \<Longrightarrow> field a n (xs @ ys) = field a n xs"
  "length xs \<le> a \<Longrightarrow> field a n (xs @ ys) = field (a - length xs) n ys"
  by (simp_all add: field_def)

lemma echo_answer_valid:
  assumes "8 \<le> length payload" and "length payload \<le> 1480"
  shows "net_checksum (echo_answer payload) = 0" and "echo_answer payload ! 0 = 0"
  using checksum_inserted [of "[0, payload ! 1]" "drop 4 payload"] assms by (simp_all add: echo_answer_def)

lemma verifies_checksum: "length bs \<le> 65535 \<Longrightarrow> verifies bs \<longleftrightarrow> net_checksum bs = 0"
  by (simp add: verifies_def checksum_zero)

lemma udp_text_response: "udp_text data = udp_response data"
proof -
  have "map_of [(a, x), (b, x), (c, y), (d, y)] z = (if z = a \<or> z = b then Some x else if z = c \<or> z = d then Some y else None)"
    for a b c d z :: bytes and x y :: bytes by simp
  then show ?thesis unfolding udp_text_def udp_response_def Let_def by blast
qed

lemma to_from_be16: "length xs = 2 \<Longrightarrow> to_be16 (from_be16 xs) = xs"
proof -
  assume n: "length xs = 2"
  then have "be_value xs < 65536" using le_value_bound [of "rev xs"] by (simp add: be_value_def)
  then show ?thesis using be_bytes_be_value [of xs] n by (simp add: to_be16_def from_be16_def unat_of_nat)
qed

lemma from_be16_eq: "length xs = 2 \<Longrightarrow> from_be16 xs = w \<longleftrightarrow> xs = to_be16 w"
  using to_from_be16 by fastforce

lemma to_be16_values: "to_be16 0 = [0, 0]" "to_be16 0x4000 = [0x40, 0]" "to_be16 7777 = [0x1e, 0x61]"
proof -
  have "to_be16 w = [word_of_nat (unat w div 256), word_of_nat (unat w)]" for w
    by (simp add: to_be16_def be_bytes_def numeral_2_eq_2)
  then show "to_be16 0 = [0, 0]" "to_be16 0x4000 = [0x40, 0]" "to_be16 7777 = [0x1e, 0x61]" by simp_all
qed

lemma unfragmented:
  assumes "length xs = 2"
  shows "from_be16 xs AND 0xbfff = 0 \<longleftrightarrow> xs \<in> {[0, 0], [0x40, 0]}"
proof -
  define w where "w = from_be16 xs"
  define k :: u16 where "k = push_bit 14 1"
  have m: "(0xbfff :: u16) = NOT k" "(0x4000 :: u16) = k" by (simp_all add: k_def not_eq_complement)
  have one: "bit k i \<longleftrightarrow> i = 14" for i unfolding k_def by (simp only: bit_push_bit_iff bit_1_iff) auto
  have "w AND NOT k = 0 \<longleftrightarrow> w = 0 \<or> w = k"
  proof
    assume "w AND NOT k = 0"
    then have "\<not> bit (w AND NOT k) i" for i by simp
    then have z: "bit w i \<Longrightarrow> i = 14" for i using bit_imp_le_length [of w i] by (auto simp: bit_and_iff bit_not_iff one)
    have "w = (if bit w 14 then k else 0)"
    proof (rule bit_word_eqI)
      show "bit w i = bit (if bit w 14 then k else 0) i" for i using z [of i] by (auto simp: one)
    qed
    then show "w = 0 \<or> w = k" by metis
  next
    assume "w = 0 \<or> w = k"
    then show "w AND NOT k = 0" by auto
  qed
  then have "w AND 0xbfff = 0 \<longleftrightarrow> w = 0 \<or> w = 0x4000" by (simp only: m)
  then show ?thesis unfolding w_def from_be16_eq [OF assms] to_be16_values by simp
qed

lemma udp_checksum_sums:
  assumes "34 \<le> length frame" and "8 \<le> length payload" "length payload \<le> 1500"
  shows "udp_checksum_ok frame payload = Some (field 6 2 payload = [0, 0]
    \<or> (word_sum (field 26 8 frame) + 17 + length payload + word_sum payload) mod 65535 = 0)"
proof -
  let ?a = "fold_carries (checksum_sum 0 (field 26 8 frame))" and ?p = "fold_carries (checksum_sum 0 payload)"
  let ?t = "ucast (NOT (net_checksum (field 26 8 frame))) + 17 + word_of_nat (length payload) + ucast (NOT (net_checksum payload)) :: u32"
  have la: "length (field 26 8 frame) = 8" using assms(1) by simp
  have "unat (NOT (net_checksum bs)) = unat (fold_carries (checksum_sum 0 bs))" if "length bs \<le> 65535" for bs
    using checksum_value(1,4) [OF that] unat_complement [of "net_checksum bs"] by simp
  then have c: "unat (NOT (net_checksum (field 26 8 frame))) = unat ?a" "unat (NOT (net_checksum payload)) = unat ?p"
    using la assms(3) by simp_all
  note a = checksum_value [of "field 26 8 frame", unfolded la] and p = checksum_value [of payload]
  have u: "unat (ucast w :: u32) = unat w" for w :: u16 using unat_bounds(2) [of w] by (simp add: unsigned_ucast_eq take_bit_nat_eq_self)
  have n: "unat (word_of_nat (length payload) :: u32) = length payload" using assms(3) by (simp add: unat_of_nat)
  have small: "unat ?a < 65536" "unat ?p < 65536" using a(4) p(4) assms(3) by simp_all
  have t1: "unat (ucast (NOT (net_checksum (field 26 8 frame))) + 17 :: u32) = unat ?a + 17"
    using small by (subst unat_add_no_overflow) (simp_all add: u c)
  have t2: "unat (ucast (NOT (net_checksum (field 26 8 frame))) + 17 + word_of_nat (length payload) :: u32)
      = unat ?a + 17 + length payload"
    using small assms(3) by (subst unat_add_no_overflow) (simp_all add: t1 n)
  have t: "unat ?t = unat ?a + 17 + length payload + unat ?p"
    using small assms(3) by (subst unat_add_no_overflow) (simp_all add: t2 u c)
  note f = fold_carries [of ?t]
  have "fold_carries ?t = 0xffff \<longleftrightarrow> unat (fold_carries ?t) = 65535" by (simp add: word_unat_eq_iff)
  also have "\<dots> \<longleftrightarrow> unat (fold_carries ?t) mod 65535 = 0"
    using f t by (auto simp: mod_eq_0_iff_dvd elim!: dvdE)
  also have "\<dots> \<longleftrightarrow> (unat ?a + 17 + length payload + unat ?p) mod 65535 = 0" using f t by simp
  also have "(unat ?a + 17 + length payload + unat ?p) mod 65535
      = (word_sum (field 26 8 frame) + 17 + length payload + word_sum payload) mod 65535"
    using a(2) p(2) assms(3) by (intro mod_add_cong refl) simp_all
  finally have sums: "fold_carries ?t = 0xffff
      \<longleftrightarrow> (word_sum (field 26 8 frame) + 17 + length payload + word_sum payload) mod 65535 = 0" .
  have "be16 payload 6 = Some (from_be16 (field 6 2 payload))" using assms(2) by (simp add: be16_field)
  moreover have "slice_get 26 34 frame = Some (field 26 8 frame)" using assms(1) by (simp add: slice_get_field')
  moreover have "from_be16 (field 6 2 payload) = 0 \<longleftrightarrow> field 6 2 payload = [0, 0]"
    using assms(2) from_be16_eq [of "field 6 2 payload" 0] by (simp add: to_be16_values)
  ultimately show ?thesis unfolding udp_checksum_ok_def by (simp add: sums)
qed

lemma ip_request_packet: "frame_length_ok (length frame) \<Longrightarrow> ip_request frame \<longleftrightarrow> packet_request frame"
  using unfragmented [of "field 20 2 frame"]
  by (auto simp: ip_request_def packet_request_def verifies_checksum)

lemma payload_field: "28 \<le> ip_length frame \<Longrightarrow> i + n \<le> 8 \<Longrightarrow> field i n (request_payload frame) = field (34 + i) n frame"
  by (simp add: field_def request_payload_def drop_take min_absorb1 add.commute)

lemma answer_payload_spec:
  assumes frame: "frame_length_ok (length frame)" and req: "packet_request frame"
  defines "p \<equiv> request_payload frame"
  shows "answer_payload frame =
    (if echo_request frame then Some (echo_answer p)
     else if udp_request frame then map_option (udp_answer p) (udp_text (drop 8 p)) else None)"
proof -
  have f: "28 \<le> ip_length frame" "14 + ip_length frame \<le> length frame" using req by (simp_all add: packet_request_def)
  have le: "length frame \<le> 1514" using frame by (simp add: frame_length_ok_def)
  have len: "8 \<le> length p" "length p \<le> 1480" using f le by (simp_all add: p_def request_payload_def)
  have fields: "field 0 2 p = field 34 2 frame" "field 2 2 p = field 36 2 frame" "field 4 2 p = field 38 2 frame"
    "field 6 2 p = field 40 2 frame"
    using f(1) by (simp_all add: p_def payload_field)
  have "field 2 2 p = [0x1e, 0x61] \<longleftrightarrow> from_be16 (field 2 2 p) = MANAGEMENT_PORT"
    using len from_be16_eq [of "field 2 2 p" 7777] by (simp add: to_be16_values MANAGEMENT_PORT_def)
  then have port: "from_be16 (field 36 2 frame) = MANAGEMENT_PORT \<longleftrightarrow> field 36 2 frame = [0x1e, 0x61]" by (simp add: fields)
  have "udp_checksum_ok frame p = Some (field 40 2 frame = [0, 0]
      \<or> (word_sum (field 26 8 frame) + 17 + length p + word_sum p) mod 65535 = 0)"
    using udp_checksum_sums [of frame p] f len by (simp add: fields)
  then have sums: "udp_checksum_ok frame p = Some True \<longleftrightarrow> field 40 2 frame = [0, 0]
      \<or> (word_sum (field 26 8 frame) + 17 + length p + word_sum p) mod 65535 = 0" by simp
  have ver: "net_checksum p = 0 \<longleftrightarrow> verifies p" using len by (simp add: verifies_checksum)
  show ?thesis
    unfolding answer_payload_def echo_request_def udp_request_def Let_def p_def [symmetric] udp_text_response fields port sums ver
    using req by (cases "udp_response (drop 8 p)") (simp_all del: mod_eq_0_iff_dvd)
qed

lemma echo_answer_response:
  assumes "8 \<le> length payload" and "length payload \<le> 1480" and "field 0 2 payload = [8, 0]"
  shows "echo_response payload (echo_answer payload)"
proof -
  have "payload ! 1 = field 0 2 payload ! 1" using assms(1) by (simp add: field_def)
  then have "payload ! 1 = 0" by (simp add: assms(3))
  moreover have "length (echo_answer payload) = length payload" using assms(1) by (simp add: echo_answer_def)
  ultimately show ?thesis
    using echo_answer_valid(1) [OF assms(1,2)] assms
    by (simp add: echo_response_def verifies_checksum) (simp add: echo_answer_def field_def)
qed

lemma udp_answer_response:
  assumes "8 \<le> length payload" and "udp_text (drop 8 payload) = Some t"
  shows "udp_response_to payload (udp_answer payload t)"
proof -
  have "length t \<le> 53" using udp_response_length [of "drop 8 payload" t] assms(2) by (auto simp: udp_text_response)
  moreover have "to_be16 MANAGEMENT_PORT = [0x1e, 0x61]" by (simp add: MANAGEMENT_PORT_def to_be16_values)
  ultimately show ?thesis
    using assms by (simp add: udp_response_to_def udp_answer_def field_def unat_of_nat del: of_nat_add)
qed

lemma ip_header_response:
  fixes n :: nat
  assumes frame: "34 \<le> length frame"
  defines "h \<equiv> ip_header frame n (net_checksum (ip_header frame n 0))"
  shows "length h = 20" "verifies h" "take 1 h = [0x45]" "field 2 2 h = to_be16 (word_of_nat n)" "field 6 2 h = [0, 0]"
    "h ! 8 = 64" "h ! 9 = frame ! 23" "field 12 4 h = MANAGEMENT_IP" "field 16 4 h = field 26 4 frame"
proof -
  let ?x = "[0x45, frame ! 15] @ to_be16 (word_of_nat n) @ field 18 2 frame @ [0, 0, 64, frame ! 23]"
  let ?y = "MANAGEMENT_IP @ field 26 4 frame"
  have h: "h = ?x @ to_be16 (net_checksum (?x @ [0, 0] @ ?y)) @ ?y"
    by (simp add: h_def ip_header_def to_be16_values)
  have len: "length ?x = 10" "length ?y = 8" using frame by simp_all
  show l: "length h = 20" using frame by (simp add: h)
  have "net_checksum h = 0" unfolding h by (rule checksum_inserted) (simp_all only: len, simp_all)
  then show "verifies h" using l by (simp add: verifies_checksum)
  show "take 1 h = [0x45]" "field 2 2 h = to_be16 (word_of_nat n)" "field 6 2 h = [0, 0]"
    "field 12 4 h = MANAGEMENT_IP" "field 16 4 h = field 26 4 frame"
    using frame by (simp_all add: h field_def)
  show "h ! 8 = 64" "h ! 9 = frame ! 23" using frame by (simp_all add: h nth_append)
qed

lemma ip_answer_response:
  assumes frame: "34 \<le> length frame" and p: "8 \<le> length p" "length p \<le> 1480"
  shows "packet_response frame p (ip_answer frame p)"
proof -
  define h where "h = ip_header frame (20 + length p) (net_checksum (ip_header frame (20 + length p) 0))"
  define front where "front = field 6 6 frame @ MANAGEMENT_MAC @ [8, 0]"
  define r where "r = ip_answer frame p"
  have r: "r = front @ h @ p @ replicate (60 - (34 + length p)) 0"
    by (simp add: r_def ip_answer_def Let_def h_def front_def)
  note h = ip_header_response [OF frame, of "20 + length p", folded h_def]
  have len: "length front = 14" "length (field 6 6 frame) = 6" using frame by (simp_all add: front_def)
  have hdr: "field (14 + k) m r = field k m h" if "k + m \<le> 20" for k m
    using that h(1) by (simp add: r field_append len)
  have at: "r ! (14 + k) = h ! k" if "k < 20" for k using that h(1) by (simp add: r nth_append len)
  have "field 16 2 r = to_be16 (word_of_nat (20 + length p))" using hdr [of 2 2] h(4) by simp
  then have "ip_length r = 20 + length p" using p by (simp add: ip_length_def unat_of_nat del: of_nat_add)
  moreover have "field 12 3 r = [8, 0] @ take 1 h" using h(1) len by (simp add: r front_def field_def)
  moreover have "field 0 6 r = field 6 6 frame" "field 6 6 r = MANAGEMENT_MAC" using len(2) by (simp_all add: r front_def field_def)
  moreover have "field 34 (length p) r = p" "drop (34 + length p) r = replicate (60 - (34 + length p)) 0"
    "length r = max 60 (34 + length p)"
    using len(1) h(1) by (simp_all add: r field_def)
  ultimately show ?thesis
    using hdr [of 6 2] hdr [of 12 4] hdr [of 16 4] hdr [of 0 20] at [of 8] at [of 9] h
    by (simp add: packet_response_def flip: r_def) (simp add: field_def)
qed

lemma arp_answer_response: "42 \<le> length frame \<Longrightarrow> arp_response frame (arp_answer frame)"
  by (simp add: arp_response_def arp_answer_def field_append) (simp add: field_def)

lemma not_answered:
  assumes "frame_length_ok (length frame)" and "reply_of frame = None"
  shows "\<not> arp_request frame" and "\<not> echo_request frame" and "\<not> udp_request frame"
  using assms answer_payload_spec [OF assms(1)]
  by (auto simp: reply_of_def ip_request_packet echo_request_def udp_request_def Let_def split: if_splits)

lemma answered:
  assumes frame: "frame_length_ok (length frame)" and r: "reply_of frame = Some r"
  shows "if arp_request frame then arp_response frame r
    else if echo_request frame then \<exists>p. packet_response frame p r \<and> echo_response (request_payload frame) p
    else udp_request frame \<and> (\<exists>p. packet_response frame p r \<and> udp_response_to (request_payload frame) p)"
proof (cases "arp_request frame")
  case True
  then show ?thesis using r arp_answer_response [of frame] by (auto simp: reply_of_def arp_request_def)
next
  case False
  let ?q = "request_payload frame"
  from False r obtain p where p: "packet_request frame" "answer_payload frame = Some p" "r = ip_answer frame p"
    by (auto simp: reply_of_def ip_request_packet [OF frame] split: if_splits)
  then have f: "34 \<le> length frame" "28 \<le> ip_length frame" "14 + ip_length frame \<le> length frame"
    by (simp_all add: packet_request_def)
  have le: "length frame \<le> 1514" using frame by (simp add: frame_length_ok_def)
  have len: "8 \<le> length p" "length p \<le> 1480" "8 \<le> length ?q" "length ?q \<le> 1480"
    using answer_payload_length [OF p(2) f(2,3)] f le by (auto simp: request_payload_def)
  note packet = ip_answer_response [OF f(1) len(1,2), folded p(3)]
  show ?thesis
  proof (cases "echo_request frame")
    case True
    then have "field 0 2 ?q = [8, 0]" "p = echo_answer ?q"
      using p(2) answer_payload_spec [OF frame p(1)] payload_field [OF f(2), of 0 2] by (simp_all add: echo_request_def)
    then show ?thesis using False True packet echo_answer_response [OF len(3,4)] by auto
  next
    case echo: False
    then obtain t where "udp_request frame" "udp_text (drop 8 ?q) = Some t" "p = udp_answer ?q t"
      using p(2) answer_payload_spec [OF frame p(1)] by (auto split: if_splits)
    then show ?thesis using False echo packet udp_answer_response [OF len(3)] by auto
  qed
qed

text \<open>
  C31: The management endpoint, over any frame and any buffer.  The call returns.  It answers exactly an ARP
  request for its address, an echo request that verifies and a command to its port that verifies, all of
  them whole and addressed to it.  The answer it writes is well formed: an ARP answer that
  gives its address, or a packet from its address to the asker whose header verifies and whose payload is
  the echo of the request, verifying again, or the text the command asks for.  Nothing of the buffer beyond the
  answer changes.
\<close>

theorem management_reply_valid:
  assumes frame: "frame_length_ok (length frame)" and out: "length out = FRAME_SIZE"
  shows "case management frame out of
      None \<Rightarrow> False
    | Some (n, out') \<Rightarrow>
        length out' = FRAME_SIZE \<and> drop n out' = drop n out
        \<and> (if arp_request frame then arp_response frame (take n out')
           else if echo_request frame
           then \<exists>p. packet_response frame p (take n out') \<and> echo_response (request_payload frame) p
           else if udp_request frame
           then \<exists>p. packet_response frame p (take n out') \<and> udp_response_to (request_payload frame) p
           else n = 0)"
proof (cases "reply_of frame")
  case None
  then show ?thesis
    unfolding management_eq [OF frame out] using out not_answered [OF frame] by simp
next
  case (Some r)
  note len = reply_length [OF frame Some]
  have "take (length r) (splice 0 r out) = r" "drop (length r) (splice 0 r out) = drop (length r) out"
    "length (splice 0 r out) = FRAME_SIZE"
    using len(2) out by (simp_all add: splice_def)
  then show ?thesis unfolding management_eq [OF frame out] using Some answered [OF frame Some] by simp
qed

text \<open>An echo request.\<close>

theorem management_reply_valid_witness:
  "let frame = [2, 83, 86, 0, 0, 3, 2, 1, 2, 3, 4, 5, 8, 0, 69, 0, 0, 28, 0, 0, 0, 0, 64, 1, 95, 134, 192, 168,
       77, 9, 192, 168, 77, 1, 8, 0, 247, 247, 0, 7, 0, 1]
   in echo_request frame
      \<and> (case management frame (replicate FRAME_SIZE 0xee) of
            None \<Rightarrow> False
          | Some (n, out) \<Rightarrow>
              \<exists>p. packet_response frame p (take n out) \<and> echo_response (request_payload frame) p)"
proof -
  let ?f = "[2, 83, 86, 0, 0, 3, 2, 1, 2, 3, 4, 5, 8, 0, 69, 0, 0, 28, 0, 0, 0, 0, 64, 1, 95, 134, 192, 168,
       77, 9, 192, 168, 77, 1, 8, 0, 247, 247, 0, 7, 0, 1] :: bytes"
  have len: "frame_length_ok (length ?f)" by (simp add: frame_length_ok_def)
  have ip: "ip_length ?f = 28" by (simp add: ip_length_def field_def from_be16_def be_value_def)
  have req: "echo_request ?f"
    by (simp add: echo_request_def packet_request_def ip request_payload_def field_def verifies_def MANAGEMENT_MAC_def MANAGEMENT_IP_def)
  have arp: "\<not> arp_request ?f" by (simp add: arp_request_def field_def)
  have "length (replicate FRAME_SIZE (0xee :: u8)) = FRAME_SIZE" by simp
  from management_reply_valid [OF len this] have
    "case management ?f (replicate FRAME_SIZE 0xee) of None \<Rightarrow> False
      | Some (n, out) \<Rightarrow> \<exists>p. packet_response ?f p (take n out) \<and> echo_response (request_payload ?f) p"
    unfolding if_not_P [OF arp] if_P [OF req] by (auto split: option.splits)
  with req show ?thesis unfolding Let_def by blast
qed

end
