(* ===== verification/Virtio_Net.thy ===== *)
theory Virtio_Net
  imports Virtio_Queue Net Vdev
begin

text \<open>
  The network device of \<open>vdev/virtio_net.rs\<close>: transmission and reception over its two queues, and its
  registers.
\<close>

definition NET_HEADER_SIZE :: nat where [simp]: "NET_HEADER_SIZE = 12"
definition NET_FEATURES :: u64 where "NET_FEATURES = push_bit 5 1 OR push_bit 16 1 OR push_bit 32 1"
definition DRIVER_OK :: u32 where [simp]: "DRIVER_OK = 4"
definition FEATURES_OK :: u32 where [simp]: "FEATURES_OK = 8"
definition NEEDS_RESET :: u32 where [simp]: "NEEDS_RESET = 64"
definition FAILED :: u32 where [simp]: "FAILED = 128"

record net =
  vn_queues :: "virtqueue list"
  vn_chain :: desc_chain
  vn_queue_sel :: u32
  vn_device_features_sel :: u32
  vn_driver_features_sel :: u32
  vn_driver_features :: u64
  vn_status :: u32
  vn_interrupt :: u32
  vn_generation :: u8
  vn_link :: bool
  vn_tx_packets :: u64
  vn_rx_packets :: u64
  vn_errors :: u64

definition net_new :: net where
  "net_new = \<lparr>vn_queues = replicate 2 virtqueue_new, vn_chain = chain_new, vn_queue_sel = 0,
     vn_device_features_sel = 0, vn_driver_features_sel = 0, vn_driver_features = 0, vn_status = 0,
     vn_interrupt = 0, vn_generation = 0, vn_link = False, vn_tx_packets = 0, vn_rx_packets = 0,
     vn_errors = 0\<rparr>"

definition net_interrupt_pending :: "net \<Rightarrow> bool" where
  "net_interrupt_pending d \<longleftrightarrow> vn_interrupt d \<noteq> 0"

definition net_running :: "net \<Rightarrow> bool" where
  "net_running d \<longleftrightarrow>
     vn_status d AND (DRIVER_OK OR FEATURES_OK OR NEEDS_RESET OR FAILED) = DRIVER_OK OR FEATURES_OK"

definition set_link :: "bool \<Rightarrow> net \<Rightarrow> net" where
  "set_link up d =
     (if vn_link d \<noteq> up
      then let d = d\<lparr>vn_link := up, vn_generation := vn_generation d + 1\<rparr>
           in if net_running d \<and> vn_driver_features d AND push_bit 16 1 \<noteq> 0
              then d\<lparr>vn_interrupt := vn_interrupt d OR 2\<rparr> else d
      else d)"

definition broken :: "net \<Rightarrow> net" where
  "broken d = d\<lparr>vn_status := vn_status d OR NEEDS_RESET, vn_interrupt := vn_interrupt d OR 2,
     vn_errors := saturating_add (vn_errors d) 1\<rparr>"


section \<open>Packets\<close>

text \<open>What follows \<open>Queue::finish\<close> in both directions: raise the interrupt the guest asked for.\<close>

definition notify :: "bool \<Rightarrow> net \<Rightarrow> net" where
  "notify wanted d = (if wanted then d\<lparr>vn_interrupt := vn_interrupt d OR 1\<rparr> else d)"

definition set_queue :: "nat \<Rightarrow> virtqueue \<Rightarrow> net \<Rightarrow> net" where
  "set_queue i q d = d\<lparr>vn_queues := (vn_queues d)[i := q]\<rparr>"

definition transmit_inner ::
  "'m guest_memory_ops \<Rightarrow> bytes \<Rightarrow> net \<Rightarrow> 'm \<Rightarrow> ((memory_error + nat) \<times> bytes \<times> net \<times> 'm) option" where
  "transmit_inner ops slot d m =
     do {
       q \<leftarrow> get_at 1 (vn_queues d);
       (result, q, chain, m) \<leftarrow> queue_next ops False q (vn_chain d) m;
       let d = set_queue 1 q (d\<lparr>vn_chain := chain\<rparr>);
       case result of
         Inl e \<Rightarrow> Some (Inl e, slot, d, m)
       | Inr False \<Rightarrow> Some (Inr 0, slot, d, m)
       | Inr True \<Rightarrow>
           if \<not> (NET_HEADER_SIZE + 14 \<le> ch_length chain \<and> ch_length chain \<le> NET_HEADER_SIZE + FRAME_SIZE)
           then Some (Inl MemoryError, slot, d, m)
           else do {
             (result, header, m) \<leftarrow> chain_read ops chain 0 (replicate NET_HEADER_SIZE 0) m;
             case result of
               Inl e \<Rightarrow> Some (Inl e, slot, d, m)
             | Inr _ \<Rightarrow>
                 if header ! 0 \<noteq> 0 \<or> header ! 1 \<noteq> 0 \<or> drop 10 header \<noteq> [0, 0]
                 then Some (Inl MemoryError, slot, d, m)
                 else do {
                   let len = ch_length chain - NET_HEADER_SIZE;
                   part \<leftarrow> slice_get 0 len slot;
                   (result, part, m) \<leftarrow> chain_read ops chain NET_HEADER_SIZE part m;
                   let slot = splice 0 part slot;
                   case result of
                     Inl e \<Rightarrow> Some (Inl e, slot, d, m)
                   | Inr _ \<Rightarrow> do {
                       (result, q, m) \<leftarrow> queue_finish ops (ch_head chain) 0 q m;
                       let d = set_queue 1 q d;
                       case result of
                         Inl e \<Rightarrow> Some (Inl e, slot, d, m)
                       | Inr wanted \<Rightarrow>
                           let d = notify wanted d
                           in Some (Inr len, slot, d\<lparr>vn_tx_packets := saturating_add (vn_tx_packets d) 1\<rparr>, m)
                     }
                 }
           }
     }"

definition transmit ::
  "'m guest_memory_ops \<Rightarrow> bytes \<Rightarrow> net \<Rightarrow> 'm \<Rightarrow> (nat \<times> bytes \<times> net \<times> 'm) option" where
  "transmit ops slot d m =
     (if \<not> net_running d then Some (0, slot, d, m)
      else do {
        (result, slot, d, m) \<leftarrow> transmit_inner ops slot d m;
        Some (case result of
                Inr len \<Rightarrow> (len, slot, d, m)
              | Inl e \<Rightarrow> (0, slot, broken d, m))
      })"

definition receive_inner ::
  "'m guest_memory_ops \<Rightarrow> bytes \<Rightarrow> net \<Rightarrow> 'm \<Rightarrow> ((memory_error + bool) \<times> net \<times> 'm) option" where
  "receive_inner ops frame d m =
     do {
       q \<leftarrow> get_at 0 (vn_queues d);
       (result, q, chain, m) \<leftarrow> queue_next ops True q (vn_chain d) m;
       let d = set_queue 0 q (d\<lparr>vn_chain := chain\<rparr>);
       case result of
         Inl e \<Rightarrow> Some (Inl e, d, m)
       | Inr False \<Rightarrow> Some (Inr False, d, m)
       | Inr True \<Rightarrow>
           let len = NET_HEADER_SIZE + length frame
           in if ch_length chain < len then Some (Inl MemoryError, d, m)
              else do {
                let header = (replicate NET_HEADER_SIZE 0)[10 := 1];
                (result, m) \<leftarrow> chain_write ops chain 0 header m;
                case result of
                  Inl e \<Rightarrow> Some (Inl e, d, m)
                | Inr _ \<Rightarrow> do {
                    (result, m) \<leftarrow> chain_write ops chain NET_HEADER_SIZE frame m;
                    case result of
                      Inl e \<Rightarrow> Some (Inl e, d, m)
                    | Inr _ \<Rightarrow> do {
                        (result, q, m) \<leftarrow> queue_finish ops (ch_head chain) len q m;
                        let d = set_queue 0 q d;
                        case result of
                          Inl e \<Rightarrow> Some (Inl e, d, m)
                        | Inr wanted \<Rightarrow>
                            let d = notify wanted d
                            in Some (Inr True, d\<lparr>vn_rx_packets := saturating_add (vn_rx_packets d) 1\<rparr>, m)
                      }
                  }
              }
     }"

definition net_receive ::
  "'m guest_memory_ops \<Rightarrow> bytes \<Rightarrow> net \<Rightarrow> 'm \<Rightarrow> (bool \<times> net \<times> 'm) option" where
  "net_receive ops frame d m =
     (if \<not> net_running d \<or> \<not> frame_length_ok (length frame) then Some (False, d, m)
      else do {
        (result, d, m) \<leftarrow> receive_inner ops frame d m;
        Some (case result of
                Inr accepted \<Rightarrow> (accepted, d, m)
              | Inl e \<Rightarrow> (False, broken d, m))
      })"


section \<open>Registers\<close>

definition config_space :: "net \<Rightarrow> bytes" where
  "config_space d = GUEST_MAC @ [if vn_link d then 1 else 0, 0]"

definition config_value :: "net \<Rightarrow> u64 \<Rightarrow> u8 \<Rightarrow> u64" where
  "config_value d offset sz =
     foldl (\<lambda>v i. v OR push_bit (i * 8) (ucast (config_space d ! (unat offset - 0x100 + i)))) 0 [0..<unat sz]"

definition net_register :: "u64 \<Rightarrow> net \<Rightarrow> u32" where
  "net_register offset d =
     (let queue = (if unat (vn_queue_sel d) < length (vn_queues d)
                   then Some (vn_queues d ! unat (vn_queue_sel d)) else None)
      in if offset = 0x00 then 0x74726976
         else if offset = 0x04 then 2
         else if offset = 0x08 then 1
         else if offset = 0x0c then 0x53575652
         else if offset = 0x10
         then (if vn_device_features_sel d < 2
               then ucast (drop_bit (unat (vn_device_features_sel d * 32)) NET_FEATURES) else 0)
         else if offset = 0x34 then (if queue \<noteq> None then of_nat QUEUE_SIZE else 0)
         else if offset = 0x44 then (case queue of None \<Rightarrow> 0 | Some q \<Rightarrow> if q_ready q then 1 else 0)
         else if offset = 0x60 then vn_interrupt d
         else if offset = 0x70 then vn_status d
         else if offset = 0xfc then ucast (vn_generation d)
         else 0)"

definition net_read :: "u64 \<Rightarrow> u8 \<Rightarrow> net \<Rightarrow> (device_error + u64) \<times> net" where
  "net_read offset sz d =
     (if 0x100 \<le> offset \<and> offset < 0x108
      then if sz \<notin> {1, 2, 4} \<or> offset + ucast sz > 0x108 \<or> offset mod ucast sz \<noteq> 0
           then (Inl AccessSize, d)
           else (Inr (config_value d offset sz), d)
      else if sz \<noteq> 4 \<or> offset mod 4 \<noteq> 0 \<or> offset \<ge> VIRTIO_SIZE then (Inl AccessSize, d)
      else (Inr (ucast (net_register offset d)), d))"

definition poll_ready :: "virtqueue \<Rightarrow> virtqueue" where
  "poll_ready q = q\<lparr>q_poll_pending := q_ready q\<rparr>"

definition low_half :: "u64 \<Rightarrow> u32 \<Rightarrow> u64" where
  "low_half a v = (a AND NOT 0xffffffff) OR ucast v"

definition high_half :: "u64 \<Rightarrow> u32 \<Rightarrow> u64" where
  "high_half a v = (a AND 0xffffffff) OR push_bit 32 (ucast v)"

text \<open>The registers of the selected queue.\<close>

definition queue_register :: "u64 \<Rightarrow> u32 \<Rightarrow> virtqueue \<Rightarrow> virtqueue" where
  "queue_register offset v q =
     (if offset = 0x44
      then if v = 0 then q\<lparr>q_ready := False, q_poll_pending := False\<rparr>
           else if v = 1 then q\<lparr>q_ready := True, q_poll_pending := True\<rparr>
           else q
      else if \<not> q_ready q
      then if offset = 0x38 then q\<lparr>q_num := v\<rparr>
           else if offset = 0x80 then q\<lparr>q_desc := low_half (q_desc q) v\<rparr>
           else if offset = 0x84 then q\<lparr>q_desc := high_half (q_desc q) v\<rparr>
           else if offset = 0x90 then q\<lparr>q_avail := low_half (q_avail q) v\<rparr>
           else if offset = 0x94 then q\<lparr>q_avail := high_half (q_avail q) v\<rparr>
           else if offset = 0xa0 then q\<lparr>q_used := low_half (q_used q) v\<rparr>
           else if offset = 0xa4 then q\<lparr>q_used := high_half (q_used q) v\<rparr>
           else q
      else q)"

text \<open>The status register: reset on zero, otherwise what negotiation allows of the bits stored.\<close>

definition next_status :: "u32 \<Rightarrow> net \<Rightarrow> u32" where
  "next_status v d =
     (let nxt = v OR (vn_status d AND NEEDS_RESET);
          nxt = (if nxt AND FEATURES_OK \<noteq> 0
                    \<and> (vn_driver_features d AND NOT NET_FEATURES \<noteq> 0 \<or> vn_driver_features d AND push_bit 32 1 = 0)
                 then nxt AND NOT FEATURES_OK else nxt);
          nxt = (if nxt AND (FEATURES_OK OR 3) \<noteq> FEATURES_OK OR 3 then nxt AND NOT DRIVER_OK else nxt)
      in nxt AND 0xcf)"

definition status_write :: "u32 \<Rightarrow> net \<Rightarrow> net" where
  "status_write v d =
     (if v = 0 then net_new\<lparr>vn_link := vn_link d\<rparr>
      else let was_running = net_running d;
               d = d\<lparr>vn_status := next_status v d\<rparr>
           in if \<not> was_running \<and> net_running d then d\<lparr>vn_queues := map poll_ready (vn_queues d)\<rparr> else d)"

definition update_queue :: "nat \<Rightarrow> (virtqueue \<Rightarrow> virtqueue) \<Rightarrow> net \<Rightarrow> net" where
  "update_queue i f d = (if i < length (vn_queues d) then set_queue i (f (vn_queues d ! i)) d else d)"

definition net_write_register :: "u64 \<Rightarrow> u32 \<Rightarrow> net \<Rightarrow> net" where
  "net_write_register offset v d =
     (if offset = 0x14 then d\<lparr>vn_device_features_sel := v\<rparr>
      else if offset = 0x24 then d\<lparr>vn_driver_features_sel := v\<rparr>
      else if offset = 0x20 \<and> vn_status d AND FEATURES_OK = 0 \<and> vn_driver_features_sel d < 2
      then let shift = unat (vn_driver_features_sel d * 32)
           in d\<lparr>vn_driver_features :=
                  (vn_driver_features d AND NOT (push_bit shift 0xffffffff)) OR push_bit shift (ucast v)\<rparr>
      else if offset = 0x30 then d\<lparr>vn_queue_sel := v\<rparr>
      else if offset = 0x50 then update_queue (unat v) poll_ready d
      else if offset = 0x64 then d\<lparr>vn_interrupt := vn_interrupt d AND NOT (v AND 3)\<rparr>
      else if offset = 0x70 then status_write v d
      else if offset \<in> {0x38, 0x44, 0x80, 0x84, 0x90, 0x94, 0xa0, 0xa4}
      then update_queue (unat (vn_queue_sel d)) (queue_register offset v) d
      else d)"

definition net_write :: "u64 \<Rightarrow> u8 \<Rightarrow> u64 \<Rightarrow> net \<Rightarrow> (device_error + unit) \<times> net" where
  "net_write offset sz v d =
     (if sz \<noteq> 4 \<or> offset mod 4 \<noteq> 0 \<or> offset \<ge> VIRTIO_SIZE then (Inl AccessSize, d)
      else (Inr (), net_write_register offset (ucast v) d))"

definition net_device :: "net virtual_device" where
  "net_device = \<lparr>vd_region = \<lambda>_. \<lparr>rg_base = VIRTIO_BASE, rg_size = VIRTIO_SIZE\<rparr>,
     vd_read = net_read, vd_write = net_write\<rparr>"


section \<open>The device under any guest\<close>

definition net_ok :: "net \<Rightarrow> bool" where
  "net_ok d \<longleftrightarrow> length (vn_queues d) = 2 \<and> length (ch_segments (vn_chain d)) = QUEUE_SIZE"

lemma net_ok_new: "net_ok net_new"
  by (simp add: net_ok_def net_new_def chain_new_def)

lemma net_ok_set_queue [simp]: "net_ok (set_queue i q d) = net_ok d"
  by (simp add: net_ok_def set_queue_def)

lemma net_ok_notify [simp]: "net_ok (notify w d) = net_ok d"
  by (simp add: net_ok_def notify_def)

lemma net_ok_broken [simp]: "net_ok (broken d) = net_ok d"
  by (simp add: net_ok_def broken_def)

lemma net_ok_counted [simp]:
  "net_ok (d\<lparr>vn_tx_packets := a\<rparr>) = net_ok d" "net_ok (d\<lparr>vn_rx_packets := b\<rparr>) = net_ok d"
  "net_ok (d\<lparr>vn_chain := c\<rparr>) \<longleftrightarrow> length (vn_queues d) = 2 \<and> length (ch_segments c) = QUEUE_SIZE"
  by (simp_all add: net_ok_def)

context guest_memory
begin

lemma transmit_inner_safe:
  assumes "ok m" and "net_ok d" and "length buf = FRAME_SIZE"
  shows "\<exists>r buf' d' m'. transmit_inner ops buf d m = Some (r, buf', d', m') \<and> ok m'
    \<and> steps m' \<le> steps m + (3 * QUEUE_SIZE + 5) \<and> length buf' = FRAME_SIZE \<and> net_ok d'
    \<and> (\<forall>n. r = Inr n \<longrightarrow> n = 0 \<or> frame_length_ok n)"
proof -
  have d: "length (vn_queues d) = 2" "length (ch_segments (vn_chain d)) = QUEUE_SIZE"
    using assms(2) by (simp_all add: net_ok_def)
  let ?q = "vn_queues d ! 1"
  obtain r q1 c m1 where n: "queue_next ops False ?q (vn_chain d) m = Some (r, q1, c, m1)"
    "ok m1" "steps m1 \<le> steps m + (QUEUE_SIZE + 2)" "length (ch_segments c) = QUEUE_SIZE"
    "r = Inr True \<Longrightarrow> chain_ok valid c \<and> queue_mapped valid q1"
    using queue_next_safe [OF assms(1) d(2)] by metis
  show ?thesis
  proof (cases "r = Inr True \<and> NET_HEADER_SIZE + 14 \<le> ch_length c \<and> ch_length c \<le> NET_HEADER_SIZE + FRAME_SIZE")
    case False
    have "get_at 1 (vn_queues d) = Some ?q" using d(1) by (simp add: get_at_def)
    then show ?thesis using False n assms(2,3) d
      by (cases r; cases "r = Inr True") (auto simp: transmit_inner_def Let_def net_ok_def set_queue_def split: sum.splits bool.splits)
  next
    case True
    then have c: "chain_ok valid c" "queue_mapped valid q1" "ch_count c \<le> QUEUE_SIZE"
      using n(4,5) by (auto simp: chain_ok_def)
    obtain r2 h m2 where h: "chain_read ops c 0 (replicate NET_HEADER_SIZE 0) m1 = Some (r2, h, m2)"
      "ok m2" "steps m2 \<le> steps m1 + ch_count c"
      using chain_read_safe [OF n(2) c(1), of "replicate NET_HEADER_SIZE 0" 0] by auto
    let ?n = "ch_length c - NET_HEADER_SIZE"
    have part: "slice_get 0 ?n buf = Some (take ?n buf)" "take ?n buf \<noteq> []" "length (take ?n buf) = ?n"
      using True assms(3) by (auto simp: slice_get_def)
    obtain r3 b m3 where b: "chain_read ops c NET_HEADER_SIZE (take ?n buf) m2 = Some (r3, b, m3)"
      "ok m3" "steps m3 \<le> steps m2 + ch_count c" "length b = ?n"
      using chain_read_safe [OF h(2) c(1) part(2), of NET_HEADER_SIZE] part(3) by auto
    have l: "length (splice 0 b buf) = FRAME_SIZE" using b(4) True assms(3) by (simp add: splice_def)
    obtain r4 q2 m4 where f: "queue_finish ops (ch_head c) 0 q1 m3 = Some (r4, q2, m4)" "ok m4" "steps m4 \<le> steps m3 + 3"
      using queue_finish_safe [OF b(2) c(2)] by metis
    have s: "steps m2 \<le> steps m + (3 * QUEUE_SIZE + 5)" "steps m3 \<le> steps m + (3 * QUEUE_SIZE + 5)"
      "steps m4 \<le> steps m + (3 * QUEUE_SIZE + 5)" using n(3) h(3) b(3) f(3) c(3) by linarith+
    have fl: "frame_length_ok ?n" using True by (auto simp: frame_length_ok_def)
    have "get_at 1 (vn_queues d) = Some ?q" using d(1) by (simp add: get_at_def)
    then show ?thesis
      using True n(1,4) h(1,2) part(1) b(1,2) f(1,2) s l fl assms(3) d
      by (simp add: transmit_inner_def Let_def net_ok_def notify_def set_queue_def split: sum.splits bool.splits
          del: NET_HEADER_SIZE_def QUEUE_SIZE_def FRAME_SIZE_def)
  qed
qed

lemma receive_inner_safe:
  assumes "ok m" and "net_ok d" and "frame \<noteq> []"
  shows "\<exists>r d' m'. receive_inner ops frame d m = Some (r, d', m') \<and> ok m'
    \<and> steps m' \<le> steps m + (3 * QUEUE_SIZE + 5) \<and> net_ok d'"
proof -
  have d: "length (vn_queues d) = 2" "length (ch_segments (vn_chain d)) = QUEUE_SIZE"
    using assms(2) by (simp_all add: net_ok_def)
  let ?q = "vn_queues d ! 0" and ?n = "NET_HEADER_SIZE + length frame"
  have q: "get_at 0 (vn_queues d) = Some ?q" using d(1) by (simp add: get_at_def)
  obtain r q1 c m1 where n: "queue_next ops True ?q (vn_chain d) m = Some (r, q1, c, m1)"
    "ok m1" "steps m1 \<le> steps m + (QUEUE_SIZE + 2)" "length (ch_segments c) = QUEUE_SIZE"
    "r = Inr True \<Longrightarrow> chain_ok valid c \<and> queue_mapped valid q1"
    using queue_next_safe [OF assms(1) d(2)] by metis
  show ?thesis
  proof (cases "r = Inr True \<and> ?n \<le> ch_length c")
    case False
    then show ?thesis using q n d
      by (cases r; cases "r = Inr True") (auto simp: receive_inner_def Let_def net_ok_def set_queue_def split: sum.splits bool.splits)
  next
    case True
    then have c: "chain_ok valid c" "queue_mapped valid q1" "ch_count c \<le> QUEUE_SIZE"
      using n(4,5) by (auto simp: chain_ok_def)
    let ?header = "(replicate NET_HEADER_SIZE 0)[10 := 1] :: bytes"
    have "?header \<noteq> []" by simp
    from chain_write_safe [OF n(2) c(1) this, of 0]
    obtain r2 m2 where h: "chain_write ops c 0 ?header m1 = Some (r2, m2)" "ok m2" "steps m2 \<le> steps m1 + ch_count c"
      by auto
    obtain r3 m3 where b: "chain_write ops c NET_HEADER_SIZE frame m2 = Some (r3, m3)"
      "ok m3" "steps m3 \<le> steps m2 + ch_count c"
      using chain_write_safe [OF h(2) c(1) assms(3), of NET_HEADER_SIZE] by auto
    obtain r4 q2 m4 where f: "queue_finish ops (ch_head c) ?n q1 m3 = Some (r4, q2, m4)" "ok m4" "steps m4 \<le> steps m3 + 3"
      using queue_finish_safe [OF b(2) c(2)] by metis
    have s: "steps m2 \<le> steps m + (3 * QUEUE_SIZE + 5)" "steps m3 \<le> steps m + (3 * QUEUE_SIZE + 5)"
      "steps m4 \<le> steps m + (3 * QUEUE_SIZE + 5)" using n(3) h(3) b(3) f(3) c(3) by linarith+
    show ?thesis
      using True q n(1,4) h(1,2) b(1,2) f(1,2) s d
      by (simp add: receive_inner_def Let_def net_ok_def notify_def set_queue_def split: sum.splits bool.splits
          del: NET_HEADER_SIZE_def QUEUE_SIZE_def)
  qed
qed

lemma transmit_safe:
  assumes "ok m" and "net_ok d" and "length buf = FRAME_SIZE"
  shows "\<exists>n buf' d' m'. transmit ops buf d m = Some (n, buf', d', m') \<and> ok m'
    \<and> steps m' \<le> steps m + (3 * QUEUE_SIZE + 5) \<and> length buf' = FRAME_SIZE \<and> net_ok d'
    \<and> (n = 0 \<or> frame_length_ok n)"
proof (cases "net_running d")
  case True
  obtain r buf' d' m' where "transmit_inner ops buf d m = Some (r, buf', d', m')" "ok m'"
    "steps m' \<le> steps m + (3 * QUEUE_SIZE + 5)" "length buf' = FRAME_SIZE" "net_ok d'"
    "\<forall>n. r = Inr n \<longrightarrow> n = 0 \<or> frame_length_ok n"
    using transmit_inner_safe [OF assms] by blast
  then show ?thesis using True by (cases r) (simp_all add: transmit_def)
qed (use assms in \<open>simp add: transmit_def\<close>)

lemma net_receive_safe:
  assumes "ok m" and "net_ok d"
  shows "\<exists>taken d' m'. net_receive ops frame d m = Some (taken, d', m') \<and> ok m'
    \<and> steps m' \<le> steps m + (3 * QUEUE_SIZE + 5) \<and> net_ok d'"
proof (cases "net_running d \<and> frame_length_ok (length frame)")
  case True
  then have "frame \<noteq> []" by (auto simp: frame_length_ok_def)
  then obtain r d' m' where "receive_inner ops frame d m = Some (r, d', m')" "ok m'"
    "steps m' \<le> steps m + (3 * QUEUE_SIZE + 5)" "net_ok d'"
    using receive_inner_safe [OF assms] by blast
  then show ?thesis using True by (cases r) (auto simp: net_receive_def)
qed (use assms in \<open>auto simp: net_receive_def\<close>)

end

lemma net_ok_registers:
  assumes "net_ok d"
  shows "net_ok (net_write_register offset v d)"
  using assms
  by (simp add: net_write_register_def net_ok_def update_queue_def set_queue_def status_write_def Let_def
      net_new_def chain_new_def del: QUEUE_SIZE_def)

interpretation virtio: virtual_device net_device net_ok
  by unfold_locales
    (auto simp: net_device_def net_read_def net_write_def net_ok_registers split: if_splits)

end
