(* ===== verification/Virtio_Spec.thy ===== *)
theory Virtio_Spec
  imports Virtio_Net
begin

text \<open>
  What the virtio network device means while the guest leaves its memory alone: a chain is what following
  its descriptors yields, a packet is the contents of a chain, and a received packet is spread over one.
  The specification has no scratch array, no bitmap of visited descriptors and no partial copies.
\<close>

type_synonym ram = "u64 \<Rightarrow> u8"

definition ram_load :: "u64 \<Rightarrow> nat \<Rightarrow> ram \<Rightarrow> bytes" where
  "ram_load a n mem = map (\<lambda>i. mem (a + word_of_nat i)) [0..<n]"

definition ram_store :: "u64 \<Rightarrow> bytes \<Rightarrow> ram \<Rightarrow> ram" where
  "ram_store a bs mem = (\<lambda>x. if unat (x - a) < length bs then bs ! unat (x - a) else mem x)"

lemma length_ram_load [simp]: "length (ram_load a n mem) = n"
  by (simp add: ram_load_def)

lemma ram_load_add: "ram_load a (n + k) mem = ram_load a n mem @ ram_load (a + word_of_nat n) k mem"
  by (rule nth_equalityI) (auto simp: ram_load_def nth_append add.assoc simp flip: of_nat_add)

lemma take_drop_ram_load:
  assumes "i + k \<le> n"
  shows "take k (drop i (ram_load a n mem)) = ram_load (a + word_of_nat i) k mem"
  using assms by (intro nth_equalityI) (auto simp: ram_load_def add.assoc simp flip: of_nat_add)

lemma ram_store_Nil [simp]: "ram_store a [] mem = mem"
  by (simp add: ram_store_def)

lemma ram_store_append:
  assumes "length (xs @ ys) \<le> 2 ^ 64"
  shows "ram_store (a + word_of_nat (length xs)) ys (ram_store a xs mem) = ram_store a (xs @ ys) mem"
proof
  fix x
  let ?k = "unat (x - a)" and ?n = "length xs"
  have w: "x - (a + word_of_nat ?n) = (x - a) - word_of_nat ?n" by simp
  have "unat (x - (a + word_of_nat ?n)) = ?k - ?n" if "?n \<le> ?k"
  proof -
    have "?n < 2 ^ 64" using that unat_bounds(4) [of "x - a"] by simp
    then have "unat (word_of_nat ?n :: u64) = ?n" by (simp add: unat_of_nat)
    then show ?thesis unfolding w using that by (subst unat_sub) (simp_all add: word_le_nat_alt)
  qed
  moreover have "length ys \<le> unat (x - (a + word_of_nat ?n))" if "?k < ?n"
  proof (cases "ys = []")
    case False
    then have n: "?n < 2 ^ 64" "unat (word_of_nat ?n :: u64) = ?n" using assms by (cases ys; simp add: unat_of_nat)+
    have "unat ((x - a) - word_of_nat ?n) = 2 ^ 64 + ?k - ?n"
      using that n by (simp add: unat_sub_if_size size_word_def word_le_nat_alt)
    then show ?thesis unfolding w using assms by simp
  qed simp
  ultimately show "ram_store (a + word_of_nat ?n) ys (ram_store a xs mem) x = ram_store a (xs @ ys) mem x"
    using not_less by (auto simp: ram_store_def nth_append)
qed


section \<open>Specification\<close>

definition descriptor_segment :: "(u64 \<Rightarrow> nat \<Rightarrow> bool) \<Rightarrow> bool \<Rightarrow> bytes \<Rightarrow> segment option" where
  "descriptor_segment valid writable bs =
     (let address = from_le64 (take 8 bs); len = unat (from_le32 (take 4 (drop 8 bs)));
          flags = from_le16 (take 2 (drop 12 bs))
      in if flags AND NOT 3 \<noteq> 0 \<or> (flags AND 2 \<noteq> 0) \<noteq> writable \<or> len = 0 \<or> \<not> valid address len then None
         else Some \<lparr>sg_address = address, sg_length = len\<rparr>)"

definition descriptor_next :: "bytes \<Rightarrow> u16 option" where
  "descriptor_next bs =
     (if from_le16 (take 2 (drop 12 bs)) AND 1 = 0 then None else Some (from_le16 (take 2 (drop 14 bs))))"

definition descriptor_at :: "ram \<Rightarrow> virtqueue \<Rightarrow> u16 \<Rightarrow> bytes" where
  "descriptor_at mem q i = ram_load (q_desc q + ucast i * 16) 16 mem"

text \<open>The segments of a chain of at most \<open>k\<close> descriptors.\<close>

fun chain_of :: "(u64 \<Rightarrow> nat \<Rightarrow> bool) \<Rightarrow> ram \<Rightarrow> virtqueue \<Rightarrow> bool \<Rightarrow> nat \<Rightarrow> u16 \<Rightarrow> segment list option" where
  "chain_of valid mem q writable 0 i = None"
| "chain_of valid mem q writable (Suc k) i =
     (if unat (q_num q) \<le> unat i then None
      else let bs = descriptor_at mem q i
        in case descriptor_segment valid writable bs of
             None \<Rightarrow> None
           | Some s \<Rightarrow> (case descriptor_next bs of
               None \<Rightarrow> Some [s]
             | Some j \<Rightarrow> map_option (\<lambda>ss. s # ss) (chain_of valid mem q writable k j)))"

text \<open>What the driver offers next: nothing (perhaps until it kicks the queue again), or a chain.\<close>

definition queue_offer ::
  "(u64 \<Rightarrow> nat \<Rightarrow> bool) \<Rightarrow> ram \<Rightarrow> bool \<Rightarrow> virtqueue \<Rightarrow> memory_error + (virtqueue \<times> (u16 \<times> segment list) option)" where
  "queue_offer valid mem writable q =
     (if \<not> q_ready q \<or> \<not> q_poll_pending q then Inr (q, None)
      else if q_num q = 0 \<or> \<not> is_power_of_two (q_num q) \<or> QUEUE_SIZE < unat (q_num q)
        \<or> q_desc q mod 16 \<noteq> 0 \<or> q_avail q mod 2 \<noteq> 0 \<or> q_used q mod 4 \<noteq> 0 \<or> \<not> queue_mapped valid q
      then Inl MemoryError
      else
        let count = from_le16 (ram_load (q_avail q + 2) 2 mem) - q_next_avail q;
            head = from_le16 (ram_load (q_avail q + 4 + ucast (q_next_avail q mod ucast (q_num q)) * 2) 2 mem)
        in if count = 0 then Inr (q\<lparr>q_poll_pending := False\<rparr>, None)
           else if ucast count > q_num q then Inl MemoryError
           else case chain_of valid mem q writable (unat (q_num q)) head of
             None \<Rightarrow> Inl MemoryError
           | Some ss \<Rightarrow> Inr (q, Some (head, ss)))"

definition gather :: "segment list \<Rightarrow> ram \<Rightarrow> bytes" where
  "gather ss mem = concat (map (\<lambda>s. ram_load (sg_address s) (sg_length s) mem) ss)"

fun scatter :: "segment list \<Rightarrow> bytes \<Rightarrow> ram \<Rightarrow> ram" where
  "scatter [] bs mem = mem"
| "scatter (s # ss) bs mem =
     scatter ss (drop (sg_length s) bs) (ram_store (sg_address s) (take (sg_length s) bs) mem)"

fun scatter_from :: "segment list \<Rightarrow> nat \<Rightarrow> bytes \<Rightarrow> ram \<Rightarrow> ram" where
  "scatter_from [] offset bs mem = mem"
| "scatter_from (s # ss) offset bs mem =
     (if offset \<ge> sg_length s then scatter_from ss (offset - sg_length s) bs mem
      else scatter ss (drop (sg_length s - offset) bs)
             (ram_store (sg_address s + word_of_nat offset) (take (sg_length s - offset) bs) mem))"

lemma scatter_Nil [simp]: "scatter ss [] mem = mem"
  by (induction ss) simp_all

lemma scatter_from_0: "scatter_from ss 0 bs mem = scatter ss bs mem"
  by (induction ss arbitrary: bs mem) simp_all

text \<open>Two copies, the second behind the first, are one.\<close>

lemma scatter_append:
  assumes "\<forall>s \<in> set ss. sg_length s \<le> 2 ^ 64"
  shows "scatter_from ss (length xs) ys (scatter ss xs mem) = scatter ss (xs @ ys) mem"
  using assms
proof (induction ss arbitrary: xs mem)
  case (Cons s ss)
  show ?case
  proof (cases "length xs \<ge> sg_length s")
    case True
    then show ?thesis using Cons.IH [of "drop (sg_length s) xs"] Cons.prems by simp
  next
    case False
    then have "length (xs @ take (sg_length s - length xs) ys) \<le> 2 ^ 64" using Cons.prems by (auto simp: min_def)
    from ram_store_append [OF this] show ?thesis using False by simp
  qed
qed simp

lemma length_gather: "length (gather ss mem) = (\<Sum>s \<leftarrow> ss. sg_length s)"
  by (simp add: gather_def length_concat comp_def)

text \<open>Returning a chain: the used entry, the used index, and whether the driver wants an interrupt.\<close>

definition publish :: "u16 \<Rightarrow> nat \<Rightarrow> virtqueue \<Rightarrow> ram \<Rightarrow> bool \<times> virtqueue \<times> ram" where
  "publish head n q mem =
     (let mem = ram_store (q_used q + 4 + ucast (q_next_used q mod ucast (q_num q)) * 8)
                  (to_le32 (ucast head) @ to_le32 (word_of_nat n)) mem;
          mem = ram_store (q_used q + 2) (to_le16 (q_next_used q + 1)) mem
      in (from_le16 (ram_load (q_avail q) 2 mem) AND 1 = 0,
          q\<lparr>q_next_used := q_next_used q + 1, q_next_avail := q_next_avail q + 1\<rparr>, mem))"

definition transmit_spec :: "(u64 \<Rightarrow> nat \<Rightarrow> bool) \<Rightarrow> net \<Rightarrow> ram \<Rightarrow> bytes \<times> net \<times> ram" where
  "transmit_spec valid d mem =
     (if \<not> net_running d then ([], d, mem)
      else case queue_offer valid mem False (vn_queues d ! 1) of
        Inl e \<Rightarrow> ([], broken d, mem)
      | Inr (q, None) \<Rightarrow> ([], set_queue 1 q d, mem)
      | Inr (q, Some (head, ss)) \<Rightarrow>
          let packet = gather ss mem
          in if \<not> frame_length_ok (length packet - NET_HEADER_SIZE) \<or> length packet < NET_HEADER_SIZE
                \<or> packet ! 0 \<noteq> 0 \<or> packet ! 1 \<noteq> 0 \<or> packet ! 10 \<noteq> 0 \<or> packet ! 11 \<noteq> 0
             then ([], broken d, mem)
             else case publish head 0 q mem of
               (wanted, q, mem) \<Rightarrow>
                 (drop NET_HEADER_SIZE packet,
                  notify wanted (set_queue 1 q (d\<lparr>vn_tx_packets := saturating_add (vn_tx_packets d) 1\<rparr>)), mem))"

definition receive_header :: bytes where
  "receive_header = [0, 0, 0, 0, 0, 0, 0, 0, 0, 0, 1, 0]"

lemma receive_header: "(replicate 12 0)[10 := 1] = receive_header"
  by (simp add: receive_header_def numeral_eq_Suc)

lemma length_receive_header [simp]: "length receive_header = 12"
  by (simp add: receive_header_def)

definition receive_spec :: "(u64 \<Rightarrow> nat \<Rightarrow> bool) \<Rightarrow> bytes \<Rightarrow> net \<Rightarrow> ram \<Rightarrow> bool \<times> net \<times> ram" where
  "receive_spec valid f d mem =
     (if \<not> net_running d \<or> \<not> frame_length_ok (length f) then (False, d, mem)
      else case queue_offer valid mem True (vn_queues d ! 0) of
        Inl e \<Rightarrow> (False, broken d, mem)
      | Inr (q, None) \<Rightarrow> (False, set_queue 0 q d, mem)
      | Inr (q, Some (head, ss)) \<Rightarrow>
          let packet = receive_header @ f
          in if (\<Sum>s \<leftarrow> ss. sg_length s) < length packet then (False, broken d, mem)
             else case publish head (length packet) q (scatter ss packet mem) of
               (wanted, q, mem) \<Rightarrow>
                 (True, notify wanted (set_queue 0 q (d\<lparr>vn_rx_packets := saturating_add (vn_rx_packets d) 1\<rparr>)), mem))"

text \<open>The scratch chain is the only part of the device the specification does not determine.\<close>

definition net_view :: "net \<Rightarrow> net" where
  "net_view d = d\<lparr>vn_chain := chain_new\<rparr>"


section \<open>Following a chain\<close>

lemma chain_of_unique:
  "chain_of valid mem q w k i = Some ss \<Longrightarrow> chain_of valid mem q w k' i = Some ss' \<Longrightarrow> ss' = ss"
proof (induction k arbitrary: k' i ss ss')
  case (Suc k)
  then obtain k'' where "k' = Suc k''" by (cases k') auto
  with Suc show ?case by (auto simp: Let_def split: if_splits option.splits)
qed simp

lemma descriptor_segment_ok:
  "descriptor_segment valid w bs = Some s \<Longrightarrow> 0 < sg_length s \<and> valid (sg_address s) (sg_length s) \<and> sg_length s < 2 ^ 32"
  using unat_bounds(3) [of "from_le32 (take 4 (drop 8 bs))"]
  by (auto simp: descriptor_segment_def Let_def split: if_splits)

lemma chain_of_ok:
  "chain_of valid mem q w k i = Some ss \<Longrightarrow> ss \<noteq> [] \<and> length ss \<le> k
     \<and> (\<forall>s \<in> set ss. 0 < sg_length s \<and> valid (sg_address s) (sg_length s))"
proof (induction k arbitrary: i ss)
  case (Suc k)
  then show ?case
    by (auto simp: Let_def split: if_splits option.splits dest: descriptor_segment_ok)
qed simp

definition add_segment :: "segment \<Rightarrow> desc_chain \<Rightarrow> desc_chain" where
  "add_segment s chain = chain\<lparr>ch_length := ch_length chain + sg_length s,
     ch_segments := (ch_segments chain)[ch_count chain := s], ch_count := ch_count chain + 1\<rparr>"

text \<open>What the scratch array holds after a chain was recorded behind what it held before.\<close>

definition records :: "desc_chain \<Rightarrow> segment list \<Rightarrow> desc_chain \<Rightarrow> bool" where
  "records chain ss chain' \<longleftrightarrow> ch_head chain' = ch_head chain
     \<and> ch_count chain' = ch_count chain + length ss \<and> length (ch_segments chain') = length (ch_segments chain)
     \<and> ch_count chain' \<le> length (ch_segments chain')
     \<and> take (ch_count chain') (ch_segments chain') = take (ch_count chain) (ch_segments chain) @ ss
     \<and> ch_length chain' = ch_length chain + (\<Sum>s \<leftarrow> ss. sg_length s)"

lemma records_one:
  "ch_count chain < length (ch_segments chain) \<Longrightarrow> records chain [s] (add_segment s chain)"
  by (simp add: records_def add_segment_def take_Suc_conv_app_nth)

lemma records_trans: "records a xs b \<Longrightarrow> records b ys c \<Longrightarrow> records a (xs @ ys) c"
  unfolding records_def by clarsimp

text \<open>
  The invariant of the loop: the scratch array has room for every descriptor not visited yet.
\<close>

definition walk_ready :: "(u64 \<Rightarrow> nat \<Rightarrow> bool) \<Rightarrow> virtqueue \<Rightarrow> u64 list \<Rightarrow> desc_chain \<Rightarrow> bool" where
  "walk_ready valid q seen chain \<longleftrightarrow> valid (q_desc q) (unat (q_num q) * 16) \<and> unat (q_num q) \<le> QUEUE_SIZE
     \<and> length seen = QUEUE_SIZE div 64 \<and> length (ch_segments chain) = QUEUE_SIZE
     \<and> ch_count chain + card (unseen seen) \<le> QUEUE_SIZE \<and> ch_length chain \<le> ch_count chain * 2 ^ 32"


section \<open>Memory that only the device changes\<close>

locale guest_ram =
  fixes ops :: "ram guest_memory_ops" and valid :: "u64 \<Rightarrow> nat \<Rightarrow> bool"
  assumes ram_same: "gm_valid ops a n m = valid a n"
    and ram_bound: "valid a n \<Longrightarrow> unat a + n \<le> 2 ^ 64"
    and ram_part: "valid a n \<Longrightarrow> i + k \<le> n \<Longrightarrow> 0 < k \<Longrightarrow> valid (a + word_of_nat i) k"
    and read_ram: "valid a n \<Longrightarrow> gm_read ops a n mem = (Inr (ram_load a n mem), mem)"
    and write_ram: "valid a (length bs) \<Longrightarrow> gm_write ops a bs mem = (Inr (), ram_store a bs mem)"
    and barrier_ram: "gm_barrier ops mem = mem"

sublocale guest_ram \<subseteq> guest_memory ops valid "\<lambda>_. True" "\<lambda>_. 0"
  by unfold_locales (auto simp: ram_same ram_bound [simplified] ram_part read_ram)

context guest_ram
begin

lemma read16_ram: "valid a 2 \<Longrightarrow> read16 ops a mem = (Inr (from_le16 (ram_load a 2 mem)), mem)"
  by (simp add: read16_def read_ram)

lemma take_descriptor_ram:
  assumes q: "valid (q_desc q) (unat (q_num q) * 16)" "unat i < unat (q_num q)"
    and room: "ch_count chain < length (ch_segments chain)" "ch_length chain + 2 ^ 32 < 2 ^ 64"
  shows "take_descriptor ops q writable i chain mem = Some
    (case descriptor_segment valid writable (descriptor_at mem q i) of
       None \<Rightarrow> (Inl MemoryError, chain, mem)
     | Some s \<Rightarrow> (Inr (descriptor_next (descriptor_at mem q i)), add_segment s chain, mem))"
proof -
  have fits: "unat (ucast i * 16 :: u64) + 16 \<le> unat (q_num q) * 16" using q(2) by simp
  note address = address_inside [OF q(1) fits]
  have l: "ch_length chain + unat (from_le32 (take 4 (drop 8 (descriptor_at mem q i)))) < 2 ^ 64"
    using room(2) unat_bounds(3) [of "from_le32 (take 4 (drop 8 (descriptor_at mem q i)))"] by simp
  show ?thesis
    using address(1) read_ram [OF address(2)] room(1) l
    by (simp add: take_descriptor_def Let_def descriptor_at_def [symmetric] descriptor_segment_def descriptor_next_def
        valid_same usize_checked_add_def add_segment_def)
qed

lemma walk_ready_slot: "walk_ready valid q seen chain \<Longrightarrow> n < unat (q_num q) \<Longrightarrow> n div 64 < length seen"
  by (auto simp: walk_ready_def div_less_iff_less_mult)

lemma walk_ready_member:
  assumes ready: "walk_ready valid q seen chain" and i: "unat i < unat (q_num q)" "\<not> was_seen (unat i) seen"
  shows "unat i \<in> unseen seen" and "unseen (mark_seen (unat i) seen) = unseen seen - {unat i}"
    and "card (unseen (mark_seen (unat i) seen)) + 1 = card (unseen seen)"
proof -
  have slot: "unat i div 64 < length seen" using walk_ready_slot [OF ready i(1)] .
  then show m: "unat i \<in> unseen seen" using i(2) by (simp add: unseen_def)
  show u: "unseen (mark_seen (unat i) seen) = unseen seen - {unat i}" by (rule unseen_mark_seen [OF slot])
  show "card (unseen (mark_seen (unat i) seen)) + 1 = card (unseen seen)"
    using card_Suc_Diff1 [OF finite_unseen m] by (simp add: u)
qed

lemma walk_ready_room:
  assumes ready: "walk_ready valid q seen chain" and i: "unat i < unat (q_num q)" "\<not> was_seen (unat i) seen"
  shows "ch_count chain < length (ch_segments chain)" and "ch_length chain + 2 ^ 32 < 2 ^ 64"
proof -
  show room: "ch_count chain < length (ch_segments chain)"
    using ready walk_ready_member(3) [OF assms] by (simp add: walk_ready_def)
  then have "ch_count chain * 2 ^ 32 + 2 ^ 32 < (2 ^ 64 :: nat)" using ready by (simp add: walk_ready_def)
  then show "ch_length chain + 2 ^ 32 < 2 ^ 64" using ready unfolding walk_ready_def by linarith
qed

lemma walk_turn:
  assumes ready: "walk_ready valid q seen chain"
  shows "queue_walk ops q w i seen chain mem =
    (if unat (q_num q) \<le> unat i \<or> was_seen (unat i) seen then Some (Inl MemoryError, chain, mem)
     else case descriptor_segment valid w (descriptor_at mem q i) of
       None \<Rightarrow> Some (Inl MemoryError, chain, mem)
     | Some s \<Rightarrow> (case descriptor_next (descriptor_at mem q i) of
         None \<Rightarrow> Some (Inr (), add_segment s chain, mem)
       | Some j \<Rightarrow> queue_walk ops q w j (mark_seen (unat i) seen) (add_segment s chain) mem))"
proof -
  have i: "q_num q \<le> ucast i \<longleftrightarrow> unat (q_num q) \<le> unat i" by (simp add: word_le_nat_alt)
  note slot = walk_ready_slot [OF ready, of "unat i"]
  have room: "ch_count chain < length (ch_segments chain)" "ch_length chain + 2 ^ 32 < 2 ^ 64"
    if "unat i < unat (q_num q)" "\<not> was_seen (unat i) seen"
    using walk_ready_room [OF ready that] by simp_all
  show ?thesis
    using ready room slot i take_descriptor_ram [of q i chain w mem]
    by (subst queue_walk.simps) (auto simp: Let_def walk_ready_def not_le split: option.splits)
qed

lemma walk_ready_step:
  assumes ready: "walk_ready valid q seen chain" and i: "unat i < unat (q_num q)" "\<not> was_seen (unat i) seen"
    and s: "descriptor_segment valid w bs = Some s"
  shows "walk_ready valid q (mark_seen (unat i) seen) (add_segment s chain)"
    and "card (unseen (mark_seen (unat i) seen)) < card (unseen seen)"
    and "card {j \<in> unseen (mark_seen (unat i) seen). j < unat (q_num q)} + 1 = card {j \<in> unseen seen. j < unat (q_num q)}"
proof -
  note member = walk_ready_member [OF ready i]
  have "{j \<in> unseen (mark_seen (unat i) seen). j < unat (q_num q)} = {j \<in> unseen seen. j < unat (q_num q)} - {unat i}"
    unfolding member(2) by auto
  moreover have "finite {j \<in> unseen seen. j < unat (q_num q)}" "unat i \<in> {j \<in> unseen seen. j < unat (q_num q)}"
    using finite_unseen [of seen] member(1) i(1) by auto
  ultimately show "card {j \<in> unseen (mark_seen (unat i) seen). j < unat (q_num q)} + 1 = card {j \<in> unseen seen. j < unat (q_num q)}"
    by (simp only: card_Suc_Diff1 Suc_eq_plus1 [symmetric])
  show "card (unseen (mark_seen (unat i) seen)) < card (unseen seen)" using member(3) by simp
  show "walk_ready valid q (mark_seen (unat i) seen) (add_segment s chain)"
    using ready member(3) descriptor_segment_ok [OF s] by (simp add: walk_ready_def add_segment_def)
qed

lemma walk_records:
  assumes "walk_ready valid q seen chain" and "queue_walk ops q w i seen chain mem = Some (Inr (), chain', mem')"
  shows "mem' = mem \<and> (\<exists>ss. records chain ss chain' \<and> (\<forall>k \<ge> length ss. chain_of valid mem q w k i = Some ss)
    \<and> length ss \<le> card {j \<in> unseen seen. j < unat (q_num q)})"
  using assms
proof (induction "card (unseen seen)" arbitrary: i seen chain rule: less_induct)
  case less
  note ready = less.prems(1) and turn = walk_turn [OF less.prems(1), of w i mem]
  have i: "unat i < unat (q_num q)" "\<not> was_seen (unat i) seen" using less.prems(2) turn by (auto split: if_splits)
  then obtain s where s: "descriptor_segment valid w (descriptor_at mem q i) = Some s"
    using less.prems(2) turn by (auto split: option.splits)
  note step = walk_ready_step [OF ready i s]
  have one: "records chain [s] (add_segment s chain)" by (rule records_one [OF walk_ready_room(1) [OF ready i]])
  show ?case
  proof (cases "descriptor_next (descriptor_at mem q i)")
    case None
    then have "chain' = add_segment s chain \<and> mem' = mem" using less.prems(2) i s by (simp add: turn)
    moreover have "\<forall>k \<ge> length [s]. chain_of valid mem q w k i = Some [s]"
      using i(1) s None by (auto simp: Suc_le_eq gr0_conv_Suc Let_def)
    ultimately show ?thesis using one step(3) by (intro conjI exI [of _ "[s]"]) simp_all
  next
    case (Some j)
    then have "queue_walk ops q w j (mark_seen (unat i) seen) (add_segment s chain) mem = Some (Inr (), chain', mem')"
      using less.prems(2) i s by (simp add: turn)
    from less.hyps [OF step(2,1) this] obtain ss where ss: "mem' = mem" "records (add_segment s chain) ss chain'"
      "\<forall>k \<ge> length ss. chain_of valid mem q w k j = Some ss"
      "length ss \<le> card {j \<in> unseen (mark_seen (unat i) seen). j < unat (q_num q)}" by blast
    have "chain_of valid mem q w (Suc k) i = Some (s # ss)" if "length ss \<le> k" for k
      using i(1) s Some ss(3) that by (simp add: Let_def)
    then have "\<forall>k \<ge> length (s # ss). chain_of valid mem q w k i = Some (s # ss)"
      by (metis Suc_le_D Suc_le_mono length_Cons)
    then show ?thesis using ss(1,4) records_trans [OF one ss(2)] step(3) by (intro conjI exI [of _ "s # ss"]) simp_all
  qed
qed

lemma walk_follows:
  assumes "walk_ready valid q seen chain" and "chain_of valid mem q w k i = Some ss"
    and "\<And>j k' ss'. was_seen (unat j) seen \<Longrightarrow> unat j < unat (q_num q) \<Longrightarrow> chain_of valid mem q w k' j = Some ss'
      \<Longrightarrow> length ss < length ss'"
  shows "\<exists>chain'. queue_walk ops q w i seen chain mem = Some (Inr (), chain', mem)"
  using assms
proof (induction k arbitrary: i seen chain ss)
  case (Suc k)
  note ready = Suc.prems(1) and chain = Suc.prems(2) and turn = walk_turn [OF Suc.prems(1), of w i mem]
  have i: "unat i < unat (q_num q)" using chain by (simp split: if_splits)
  have new: "\<not> was_seen (unat i) seen" using Suc.prems(3) [OF _ i chain] by blast
  obtain s where s: "descriptor_segment valid w (descriptor_at mem q i) = Some s"
    using chain by (auto simp: Let_def split: if_splits option.splits)
  show ?case
  proof (cases "descriptor_next (descriptor_at mem q i)")
    case None
    then show ?thesis using i new s by (simp add: turn)
  next
    case (Some j)
    then obtain ss1 where ss1: "chain_of valid mem q w k j = Some ss1" "ss = s # ss1"
      using chain i s by (auto simp: Let_def)
    have "length ss1 < length ss'" if "was_seen (unat x) (mark_seen (unat i) seen)" "unat x < unat (q_num q)"
      "chain_of valid mem q w k' x = Some ss'" for x k' ss'
    proof (cases "x = i")
      case True
      then show ?thesis using chain_of_unique [OF chain] that(3) ss1(2) by fastforce
    next
      case False
      moreover have "unat i div 64 < length seen" "unat x div 64 < length seen"
        using walk_ready_slot [OF ready] i that(2) by blast+
      ultimately have "was_seen (unat x) seen" using that(1) by (simp add: was_seen_mark_seen word_unat_eq_iff)
      from Suc.prems(3) [OF this that(2,3)] show ?thesis using ss1(2) by simp
    qed
    from Suc.IH [OF walk_ready_step(1) [OF ready i new s] ss1(1) this]
    show ?thesis using i new s Some by (simp add: turn)
  qed
qed simp

lemma walk_same_memory:
  assumes "walk_ready valid q seen chain" and "queue_walk ops q w i seen chain mem = Some (r, chain', mem')"
  shows "mem' = mem"
  using assms
proof (induction "card (unseen seen)" arbitrary: i seen chain rule: less_induct)
  case less
  note turn = walk_turn [OF less.prems(1), of w i mem]
  show ?case
  proof (cases "unat (q_num q) \<le> unat i \<or> was_seen (unat i) seen \<or> descriptor_segment valid w (descriptor_at mem q i) = None
      \<or> descriptor_next (descriptor_at mem q i) = None")
    case True
    then show ?thesis using less.prems(2) turn by (auto split: if_splits option.splits)
  next
    case False
    then obtain s j where s: "descriptor_segment valid w (descriptor_at mem q i) = Some s"
      "descriptor_next (descriptor_at mem q i) = Some j" "unat i < unat (q_num q)" "\<not> was_seen (unat i) seen" by auto
    note step = walk_ready_step [OF less.prems(1) s(3,4,1)]
    show ?thesis by (rule less.hyps [OF step(2,1), of j]) (use less.prems(2) turn s in auto)
  qed
qed

text \<open>A fresh walk with the queue's size as the limit finds exactly the chains of the specification.\<close>

lemma walk_chain:
  fixes head :: u16
  assumes mapped: "queue_mapped valid q" and chain: "length (ch_segments chain) = QUEUE_SIZE"
  defines "start \<equiv> chain\<lparr>ch_head := head, ch_count := 0, ch_length := 0\<rparr>"
  shows "\<exists>chain'. queue_walk ops q w head (replicate (QUEUE_SIZE div 64) 0) start mem
      = Some (case chain_of valid mem q w (unat (q_num q)) head of None \<Rightarrow> Inl MemoryError | Some ss \<Rightarrow> Inr (), chain', mem)
    \<and> length (ch_segments chain') = QUEUE_SIZE
    \<and> (\<forall>ss. chain_of valid mem q w (unat (q_num q)) head = Some ss \<longrightarrow> records start ss chain')"
proof -
  let ?seen = "replicate (QUEUE_SIZE div 64) 0 :: u64 list"
  have ready: "walk_ready valid q ?seen start"
    using mapped chain by (simp add: walk_ready_def queue_mapped_def start_def card_unseen_new)
  have unseen: "\<not> was_seen (unat j) ?seen" if "unat j < unat (q_num q)" for j :: u16
    using walk_ready_slot [OF ready that] by (simp add: was_seen_bit)
  have "\<exists>r chain' m'. queue_walk ops q w head ?seen start mem = Some (r, chain', m')
      \<and> True \<and> 0 \<le> 0 + card (unseen ?seen) \<and> length (ch_segments chain') = QUEUE_SIZE \<and> chain_ok valid chain'"
    by (rule queue_walk_safe [OF TrueI])
      (use mapped chain in \<open>simp_all add: queue_mapped_def start_def card_unseen_new chain_ok_def\<close>)
  then obtain r chain' mem' where w: "queue_walk ops q w head ?seen start mem = Some (r, chain', mem')"
    "length (ch_segments chain') = QUEUE_SIZE" by blast
  show ?thesis
  proof (cases "chain_of valid mem q w (unat (q_num q)) head")
    case (Some ss)
    then obtain c where c: "queue_walk ops q w head ?seen start mem = Some (Inr (), c, mem)"
      using walk_follows [OF ready Some] unseen by blast
    from walk_records [OF ready c] obtain ss' where ss': "records start ss' c"
      "\<forall>k \<ge> length ss'. chain_of valid mem q w k head = Some ss'" by blast
    then have "ss' = ss" using chain_of_unique [OF Some, of "length ss'"] by simp
    then show ?thesis using Some c w ss'(1) by simp
  next
    case None
    have "r \<noteq> Inr ()"
    proof
      assume "r = Inr ()"
      with w have "queue_walk ops q w head ?seen start mem = Some (Inr (), chain', mem')" by simp
      from walk_records [OF ready this] obtain ss where ss: "\<forall>k \<ge> length ss. chain_of valid mem q w k head = Some ss"
        "length ss \<le> card {j \<in> unseen ?seen. j < unat (q_num q)}" by blast
      have "card {j \<in> unseen ?seen. j < unat (q_num q)} \<le> card {..<unat (q_num q)}" by (rule card_mono) auto
      then have "length ss \<le> unat (q_num q)" using ss(2) by simp
      then show False using ss(1) None by simp
    qed
    then obtain e where "r = Inl e" by (cases r) auto
    then show ?thesis using None w walk_same_memory [OF ready w(1)] by (cases e) auto
  qed
qed

lemma queue_valid_iff:
  "queue_valid ops mem q \<longleftrightarrow> \<not> (q_num q = 0 \<or> \<not> is_power_of_two (q_num q) \<or> QUEUE_SIZE < unat (q_num q)
     \<or> q_desc q mod 16 \<noteq> 0 \<or> q_avail q mod 2 \<noteq> 0 \<or> q_used q mod 4 \<noteq> 0 \<or> \<not> queue_mapped valid q)"
  unfolding queue_valid_def queue_mapped_def valid_same not_le [symmetric] by blast

lemma queue_next_ram:
  assumes chain: "length (ch_segments chain) = QUEUE_SIZE"
  shows "\<exists>chain'. queue_next ops w q chain mem = Some
      (case queue_offer valid mem w q of
         Inl e \<Rightarrow> (Inl e, q, chain', mem)
       | Inr (q', None) \<Rightarrow> (Inr False, q', chain', mem)
       | Inr (q', Some (head, ss)) \<Rightarrow> (Inr True, q', chain', mem))
    \<and> length (ch_segments chain') = QUEUE_SIZE
    \<and> (\<forall>q' head ss. queue_offer valid mem w q = Inr (q', Some (head, ss)) \<longrightarrow>
         ch_head chain' = head \<and> slice_get 0 (ch_count chain') (ch_segments chain') = Some ss
         \<and> ch_length chain' = (\<Sum>s \<leftarrow> ss. sg_length s) \<and> queue_mapped valid q'
         \<and> (\<forall>s \<in> set ss. 0 < sg_length s \<and> valid (sg_address s) (sg_length s)))"
proof (cases "q_ready q \<and> q_poll_pending q \<and> queue_valid ops mem q")
  case False
  then show ?thesis using chain
    unfolding queue_next_def queue_offer_def queue_valid_iff by (cases "q_ready q \<and> q_poll_pending q") auto
next
  case True
  then have mapped: "queue_mapped valid q" using queue_valid_mapped by blast
  note addresses = queue_avail [OF mapped]
  let ?head = "from_le16 (ram_load (q_avail q + 4 + ucast (q_next_avail q mod ucast (q_num q)) * 2) 2 mem)"
  obtain c where c: "queue_walk ops q w ?head (replicate (QUEUE_SIZE div 64) 0)
        (chain\<lparr>ch_head := ?head, ch_count := 0, ch_length := 0\<rparr>) mem
      = Some (case chain_of valid mem q w (unat (q_num q)) ?head of None \<Rightarrow> Inl MemoryError | Some ss \<Rightarrow> Inr (), c, mem)"
    "length (ch_segments c) = QUEUE_SIZE"
    "\<And>ss. chain_of valid mem q w (unat (q_num q)) ?head = Some ss
      \<Longrightarrow> records (chain\<lparr>ch_head := ?head, ch_count := 0, ch_length := 0\<rparr>) ss c"
    using walk_chain [OF mapped chain] by blast
  have rec: "ch_head c = ?head \<and> slice_get 0 (ch_count c) (ch_segments c) = Some ss
      \<and> ch_length c = (\<Sum>s \<leftarrow> ss. sg_length s) \<and> (\<forall>s \<in> set ss. 0 < sg_length s \<and> valid (sg_address s) (sg_length s))"
    if "chain_of valid mem q w (unat (q_num q)) ?head = Some ss" for ss
    using c(3) [OF that] chain_of_ok [OF that] by (clarsimp simp: records_def slice_get_def)
  have v: "\<not> (q_num q = 0 \<or> \<not> is_power_of_two (q_num q) \<or> QUEUE_SIZE < unat (q_num q)
     \<or> q_desc q mod 16 \<noteq> 0 \<or> q_avail q mod 2 \<noteq> 0 \<or> q_used q mod 4 \<noteq> 0 \<or> \<not> queue_mapped valid q)"
    using True unfolding queue_valid_iff by blast
  note run = True addresses barrier_ram queue_num(1) [OF mapped] read16_ram
  show ?thesis
  proof (cases "from_le16 (ram_load (q_avail q + 2) 2 mem) = q_next_avail q
      \<or> q_num q < ucast (from_le16 (ram_load (q_avail q + 2) 2 mem) - q_next_avail q)")
    case True
    then show ?thesis unfolding queue_next_def queue_offer_def if_not_P [OF v]
      using run chain by (auto simp: Let_def)
  next
    case False
    then show ?thesis unfolding queue_next_def queue_offer_def if_not_P [OF v]
      using run c(1,2) rec mapped
      by (cases "chain_of valid mem q w (unat (q_num q)) ?head") (simp_all add: Let_def)
  qed
qed

lemma queue_finish_ram:
  assumes mapped: "queue_mapped valid q"
  shows "queue_finish ops head n q mem = Some (case publish head n q mem of (wanted, q, mem) \<Rightarrow> (Inr wanted, q, mem))"
  using queue_num(1) [OF mapped] queue_used [OF mapped] queue_avail(6) [OF mapped]
  by (simp add: queue_finish_def publish_def Let_def write_ram read16_ram barrier_ram)

text \<open>A partial copy out of a chain is a part of its contents.\<close>

lemma read_segments_ram:
  assumes "\<forall>s \<in> set ss. 0 < sg_length s \<and> valid (sg_address s) (sg_length s)" and "cursor < length buf"
    and "offset + (length buf - cursor) \<le> length (gather ss mem)"
  shows "read_segments ops ss offset cursor buf mem
    = Some (Inr (length buf), take cursor buf @ take (length buf - cursor) (drop offset (gather ss mem)), mem)"
  using assms
proof (induction ss arbitrary: offset cursor buf)
  case (Cons s ss)
  have g: "gather (s # ss) mem = ram_load (sg_address s) (sg_length s) mem @ gather ss mem" by (simp add: gather_def)
  show ?case
  proof (cases "offset \<ge> sg_length s")
    case True
    then have "read_segments ops ss (offset - sg_length s) cursor buf mem
        = Some (Inr (length buf), take cursor buf @ take (length buf - cursor) (drop (offset - sg_length s) (gather ss mem)), mem)"
      by (intro Cons.IH) (use Cons.prems g in auto)
    then show ?thesis using True by (simp add: g)
  next
    case False
    let ?n = "min (sg_length s - offset) (length buf - cursor)"
    have v: "valid (sg_address s) (sg_length s)" using Cons.prems(1) by simp
    have a: "checked_add (sg_address s) (word_of_nat offset) = Some (sg_address s + word_of_nat offset)"
      "valid (sg_address s + word_of_nat offset) ?n"
      using segment_part [OF v, of offset ?n] False Cons.prems(2) by simp_all
    let ?bs = "ram_load (sg_address s + word_of_nat offset) ?n mem"
    have bs: "?bs = take ?n (drop offset (ram_load (sg_address s) (sg_length s) mem))"
      by (rule take_drop_ram_load [symmetric]) (use False in simp)
    have buf: "splice cursor ?bs buf = take cursor buf @ ?bs @ drop (cursor + ?n) buf" by (simp add: splice_def)
    show ?thesis
    proof (cases "cursor + ?n = length buf")
      case True
      then have k: "length buf - cursor = ?n" "?n \<le> sg_length s - offset" by simp_all
      have "take ?n (drop offset (gather (s # ss) mem)) = ?bs"
        unfolding bs using k(2) False by (simp add: g)
      then have "take (length buf - cursor) (drop offset (gather (s # ss) mem)) = ?bs"
        by (simp only: k(1) [symmetric])
      then show ?thesis using False a(1) read_ram [OF a(2), of mem] buf True by (simp add: Let_def)
    next
      case more: False
      then have n: "?n = sg_length s - offset" "cursor + ?n < length buf" using Cons.prems(2) by (auto simp: min_def split: if_splits)
      let ?buf = "splice cursor ?bs buf"
      have len: "length ?buf = length buf" by (rule length_splice) (use n(2) in simp)
      have next_part: "read_segments ops ss 0 (cursor + ?n) ?buf mem = Some (Inr (length ?buf),
          take (cursor + ?n) ?buf @ take (length ?buf - (cursor + ?n)) (drop 0 (gather ss mem)), mem)"
        by (rule Cons.IH) (use Cons.prems g n len False in auto)
      have "take (cursor + ?n) ?buf = take cursor buf @ ?bs" unfolding buf using n(2) by simp
      moreover have "take (length buf - cursor) (drop offset (gather (s # ss) mem))
          = ?bs @ take (length buf - (cursor + ?n)) (gather ss mem)"
        unfolding bs using n False by (simp add: g)
      ultimately show ?thesis
        using False a(1) read_ram [OF a(2), of mem] more next_part len by (simp add: Let_def)
    qed
  qed
qed (simp add: gather_def)

lemma write_segments_ram:
  assumes "\<forall>s \<in> set ss. 0 < sg_length s \<and> valid (sg_address s) (sg_length s)" and "cursor < length bs"
    and "offset + (length bs - cursor) \<le> (\<Sum>s \<leftarrow> ss. sg_length s)"
  shows "write_segments ops ss offset cursor bs mem = Some (Inr (length bs), scatter_from ss offset (drop cursor bs) mem)"
  using assms
proof (induction ss arbitrary: offset cursor mem)
  case (Cons s ss)
  show ?case
  proof (cases "offset \<ge> sg_length s")
    case True
    then show ?thesis using Cons by auto
  next
    case False
    let ?n = "min (sg_length s - offset) (length bs - cursor)"
    have v: "valid (sg_address s) (sg_length s)" using Cons.prems(1) by simp
    have a: "checked_add (sg_address s) (word_of_nat offset) = Some (sg_address s + word_of_nat offset)"
      "valid (sg_address s + word_of_nat offset) ?n"
      using segment_part [OF v, of offset ?n] False Cons.prems(2) by simp_all
    have part: "take ?n (drop cursor bs) = take (sg_length s - offset) (drop cursor bs)" by (simp add: min_def)
    have "valid (sg_address s + word_of_nat offset) (length (take ?n (drop cursor bs)))" using a(2) by simp
    note w = write_ram [OF this, of mem, unfolded part]
    show ?thesis
    proof (cases "cursor + ?n = length bs")
      case True
      then have "drop (sg_length s - offset) (drop cursor bs) = []" by (auto simp: min_def split: if_splits)
      then show ?thesis using False a(1) w True by (simp add: Let_def part)
    next
      case more: False
      then have n: "?n = sg_length s - offset" "cursor + ?n < length bs" using Cons.prems(2) by (auto simp: min_def split: if_splits)
      from Cons.IH [of "cursor + ?n" 0] show ?thesis
        using False a(1) w more n Cons.prems by (simp add: Let_def part scatter_from_0 add.commute)
    qed
  qed
qed simp

lemma chain_read_ram:
  assumes "slice_get 0 (ch_count c) (ch_segments c) = Some ss" and "buf \<noteq> []"
    and "\<forall>s \<in> set ss. 0 < sg_length s \<and> valid (sg_address s) (sg_length s)"
    and "offset + length buf \<le> (\<Sum>s \<leftarrow> ss. sg_length s)"
  shows "chain_read ops c offset buf mem = Some (Inr (), take (length buf) (drop offset (gather ss mem)), mem)"
  using read_segments_ram [OF assms(3), of 0 buf offset mem] assms by (auto simp: chain_read_def length_gather)

lemma chain_write_ram:
  assumes "slice_get 0 (ch_count c) (ch_segments c) = Some ss" and "bs \<noteq> []"
    and "\<forall>s \<in> set ss. 0 < sg_length s \<and> valid (sg_address s) (sg_length s)"
    and "offset + length bs \<le> (\<Sum>s \<leftarrow> ss. sg_length s)"
  shows "chain_write ops c offset bs mem = Some (Inr (), scatter_from ss offset bs mem)"
  using write_segments_ram [OF assms(3), of 0 bs offset mem] assms by (simp add: chain_write_def)

end

lemma net_view_simps [simp]:
  "net_view (set_queue i q d) = set_queue i q (net_view d)" "net_view (broken d) = broken (net_view d)"
  "net_view (notify w d) = notify w (net_view d)" "net_view (d\<lparr>vn_chain := c\<rparr>) = net_view d"
  "net_view (d\<lparr>vn_tx_packets := k\<rparr>) = (net_view d)\<lparr>vn_tx_packets := k\<rparr>"
  "net_view (d\<lparr>vn_rx_packets := k\<rparr>) = (net_view d)\<lparr>vn_rx_packets := k\<rparr>"
  "net_running (net_view d) = net_running d" "vn_queues (net_view d) = vn_queues d"
  "vn_tx_packets (net_view d) = vn_tx_packets d" "vn_rx_packets (net_view d) = vn_rx_packets d"
  by (simp_all add: net_view_def set_queue_def broken_def notify_def net_running_def)

lemma set_queue_same [simp]:
  "set_queue i (vn_queues d ! i) d = d" "set_queue i (vn_queues d ! i) (d\<lparr>vn_chain := c\<rparr>) = d\<lparr>vn_chain := c\<rparr>"
  by (simp_all add: set_queue_def)

lemma queue_offer_same: "queue_offer valid mem w q = Inr (q', Some x) \<Longrightarrow> q' = q"
  by (auto simp: queue_offer_def Let_def split: if_splits option.splits)

lemma set_queue_twice [simp]: "set_queue i q' (set_queue i q d) = set_queue i q' d"
  by (simp add: set_queue_def)

lemma counted_simps [simp]:
  "vn_tx_packets (notify w d) = vn_tx_packets d" "vn_rx_packets (notify w d) = vn_rx_packets d"
  "vn_tx_packets (set_queue i q d) = vn_tx_packets d" "vn_rx_packets (set_queue i q d) = vn_rx_packets d"
  "(notify w d)\<lparr>vn_tx_packets := k\<rparr> = notify w (d\<lparr>vn_tx_packets := k\<rparr>)"
  "(notify w d)\<lparr>vn_rx_packets := k\<rparr> = notify w (d\<lparr>vn_rx_packets := k\<rparr>)"
  "(set_queue i q d)\<lparr>vn_tx_packets := k\<rparr> = set_queue i q (d\<lparr>vn_tx_packets := k\<rparr>)"
  "(set_queue i q d)\<lparr>vn_rx_packets := k\<rparr> = set_queue i q (d\<lparr>vn_rx_packets := k\<rparr>)"
  by (simp_all add: notify_def set_queue_def)

lemma notify_set_queue: "notify w (set_queue i q d) = set_queue i q (notify w d)"
  by (simp add: notify_def set_queue_def)

context guest_ram
begin

text \<open>A received packet: one spread of its header and the frame.\<close>

lemma net_receive_refines:
  assumes "net_ok d"
  shows "\<exists>d'. net_receive ops f d mem = Some (case receive_spec valid f (net_view d) mem of (taken, v, mem) \<Rightarrow> (taken, d', mem))
    \<and> net_ok d' \<and> net_view d' = fst (snd (receive_spec valid f (net_view d) mem))"
proof (cases "net_running d \<and> frame_length_ok (length f)")
  case False
  then show ?thesis using assms by (auto simp: net_receive_def receive_spec_def)
next
  case True
  have d: "length (vn_queues d) = 2" "length (ch_segments (vn_chain d)) = QUEUE_SIZE"
    using assms by (simp_all add: net_ok_def)
  let ?q = "vn_queues d ! 0" and ?n = "NET_HEADER_SIZE + length f"
  have q: "get_at 0 (vn_queues d) = Some ?q" using d(1) by (simp add: get_at_def)
  obtain c where c: "queue_next ops True ?q (vn_chain d) mem = Some
      (case queue_offer valid mem True ?q of
         Inl e \<Rightarrow> (Inl e, ?q, c, mem)
       | Inr (q', None) \<Rightarrow> (Inr False, q', c, mem)
       | Inr (q', Some (head, ss)) \<Rightarrow> (Inr True, q', c, mem))"
    "length (ch_segments c) = QUEUE_SIZE"
    "\<And>q' head ss. queue_offer valid mem True ?q = Inr (q', Some (head, ss)) \<Longrightarrow>
         ch_head c = head \<and> slice_get 0 (ch_count c) (ch_segments c) = Some ss
         \<and> ch_length c = (\<Sum>s \<leftarrow> ss. sg_length s) \<and> queue_mapped valid q'
         \<and> (\<forall>s \<in> set ss. 0 < sg_length s \<and> valid (sg_address s) (sg_length s))"
    using queue_next_ram [OF d(2), of True ?q mem] by blast
  consider (none) "\<forall>q' head ss. queue_offer valid mem True ?q \<noteq> Inr (q', Some (head, ss))"
    | (some) q' head ss where "queue_offer valid mem True ?q = Inr (q', Some (head, ss))" by blast
  then show ?thesis
  proof cases
    case none
    then show ?thesis using True q c(1,2) d
      by (cases "queue_offer valid mem True ?q")
         (auto simp: net_receive_def receive_inner_def receive_spec_def Let_def split: option.splits)
  next
    case some
    note chain = c(3) [OF some]
    show ?thesis
    proof (cases "(\<Sum>s \<leftarrow> ss. sg_length s) < ?n")
      case small: True
      then show ?thesis using True q c(1,2) d some chain queue_offer_same [OF some]
        by (auto simp: net_receive_def receive_inner_def receive_spec_def Let_def)
    next
      case room: False
      have f: "f \<noteq> []" using True by (auto simp: frame_length_ok_def)
      have seg: "\<forall>s \<in> set ss. sg_length s \<le> 2 ^ 64"
        using chain valid_bound by (meson add_leD2)
      have slice: "slice_get 0 (ch_count c) (ch_segments c) = Some ss" and mapped: "queue_mapped valid q'"
        and ok: "\<forall>s \<in> set ss. 0 < sg_length s \<and> valid (sg_address s) (sg_length s)" using chain by simp_all
      have h: "chain_write ops c 0 receive_header mem = Some (Inr (), scatter ss receive_header mem)"
        using chain_write_ram [OF slice _ ok, of receive_header 0 mem] room by (simp add: scatter_from_0 receive_header_def)
      have b: "chain_write ops c NET_HEADER_SIZE f (scatter ss receive_header mem) = Some (Inr (), scatter ss (receive_header @ f) mem)"
        using chain_write_ram [OF slice f ok, of NET_HEADER_SIZE] room scatter_append [OF seg, of receive_header f mem] by simp
      obtain wanted q2 mem2 where p: "publish head ?n q' (scatter ss (receive_header @ f) mem) = (wanted, q2, mem2)"
        using prod_cases3 by blast
      have fin: "queue_finish ops (ch_head c) ?n q' (scatter ss (receive_header @ f) mem) = Some (Inr wanted, q2, mem2)"
        using queue_finish_ram [OF mapped] p chain by simp
      show ?thesis
        using True q c(1,2) d some chain room h b fin p
        by (simp add: net_receive_def receive_inner_def receive_spec_def receive_header notify_set_queue Let_def)
    qed
  qed
qed

lemma packet_reads:
  assumes "slice_get 0 (ch_count c) (ch_segments c) = Some ss"
    and "\<forall>s \<in> set ss. 0 < sg_length s \<and> valid (sg_address s) (sg_length s)" and "ch_length c = (\<Sum>s \<leftarrow> ss. sg_length s)"
    and fits: "NET_HEADER_SIZE + 14 \<le> ch_length c" "ch_length c \<le> NET_HEADER_SIZE + FRAME_SIZE" and buf: "length buf = FRAME_SIZE"
  defines "n \<equiv> ch_length c - NET_HEADER_SIZE"
  shows "chain_read ops c 0 (replicate NET_HEADER_SIZE 0) mem = Some (Inr (), take 12 (gather ss mem), mem)"
    and "slice_get 0 n buf = Some (take n buf)"
    and "chain_read ops c NET_HEADER_SIZE (take n buf) mem = Some (Inr (), drop 12 (gather ss mem), mem)"
    and "drop 10 (take 12 (gather ss mem)) = [gather ss mem ! 10, gather ss mem ! 11]"
proof -
  have len: "length (gather ss mem) = ch_length c" using assms(3) by (simp add: length_gather)
  show "chain_read ops c 0 (replicate NET_HEADER_SIZE 0) mem = Some (Inr (), take 12 (gather ss mem), mem)"
    using chain_read_ram [OF assms(1) _ assms(2), of "replicate NET_HEADER_SIZE 0" 0 mem] fits assms(3) by simp
  show "slice_get 0 n buf = Some (take n buf)" using fits buf by (auto simp: slice_get_def n_def)
  have "take n buf \<noteq> []" "length (take n buf) = n" "NET_HEADER_SIZE + n \<le> (\<Sum>s \<leftarrow> ss. sg_length s)"
    using fits buf assms(3) by (auto simp: n_def)
  from chain_read_ram [OF assms(1) this(1) assms(2), of NET_HEADER_SIZE mem] this(2,3)
  show "chain_read ops c NET_HEADER_SIZE (take n buf) mem = Some (Inr (), drop 12 (gather ss mem), mem)"
    using len by (simp add: n_def)
  show "drop 10 (take 12 (gather ss mem)) = [gather ss mem ! 10, gather ss mem ! 11]"
    using fits len by (intro nth_equalityI) (auto simp: less_Suc_eq numeral_2_eq_2)
qed

text \<open>A transmitted packet: the contents of its chain behind the header.\<close>

lemma transmit_refines:
  assumes "net_ok d" and "length buf = FRAME_SIZE" and spec: "transmit_spec valid (net_view d) mem = (f, v, mem')"
  shows "\<exists>buf' d'. transmit ops buf d mem = Some (length f, buf', d', mem') \<and> length buf' = FRAME_SIZE
    \<and> length f \<le> FRAME_SIZE \<and> take (length f) buf' = f \<and> net_ok d' \<and> net_view d' = v"
proof (cases "net_running d")
  case False
  then show ?thesis using assms by (auto simp: transmit_def transmit_spec_def)
next
  case True
  have d: "length (vn_queues d) = 2" "length (ch_segments (vn_chain d)) = QUEUE_SIZE"
    using assms by (simp_all add: net_ok_def)
  let ?q = "vn_queues d ! 1"
  have q: "get_at 1 (vn_queues d) = Some ?q" using d(1) by (simp add: get_at_def)
  obtain c where c: "queue_next ops False ?q (vn_chain d) mem = Some
      (case queue_offer valid mem False ?q of
         Inl e \<Rightarrow> (Inl e, ?q, c, mem)
       | Inr (q', None) \<Rightarrow> (Inr False, q', c, mem)
       | Inr (q', Some (head, ss)) \<Rightarrow> (Inr True, q', c, mem))"
    "length (ch_segments c) = QUEUE_SIZE"
    "\<And>q' head ss. queue_offer valid mem False ?q = Inr (q', Some (head, ss)) \<Longrightarrow>
         ch_head c = head \<and> slice_get 0 (ch_count c) (ch_segments c) = Some ss
         \<and> ch_length c = (\<Sum>s \<leftarrow> ss. sg_length s) \<and> queue_mapped valid q'
         \<and> (\<forall>s \<in> set ss. 0 < sg_length s \<and> valid (sg_address s) (sg_length s))"
    using queue_next_ram [OF d(2), of False ?q mem] by blast
  consider (none) "\<forall>q' head ss. queue_offer valid mem False ?q \<noteq> Inr (q', Some (head, ss))"
    | (some) q' head ss where "queue_offer valid mem False ?q = Inr (q', Some (head, ss))" by blast
  then show ?thesis
  proof cases
    case none
    then show ?thesis using True q c(1,2) d assms(2) spec
      by (cases "queue_offer valid mem False ?q")
         (auto simp: transmit_def transmit_inner_def transmit_spec_def Let_def split: option.splits)
  next
    case some
    note chain = c(3) [OF some]
    let ?packet = "gather ss mem" and ?n = "ch_length c - NET_HEADER_SIZE"
    have len: "length ?packet = ch_length c" using chain by (simp add: length_gather)
    show ?thesis
    proof (cases "frame_length_ok ?n \<and> NET_HEADER_SIZE \<le> ch_length c")
      case bad: False
      then have "\<not> (NET_HEADER_SIZE + 14 \<le> ch_length c \<and> ch_length c \<le> NET_HEADER_SIZE + FRAME_SIZE)"
        by (auto simp: frame_length_ok_def)
      then show ?thesis using True q c(1,2) d some chain bad assms(2) spec queue_offer_same [OF some] len
        by (auto simp: transmit_def transmit_inner_def transmit_spec_def Let_def)
    next
      case good: True
      then have fits: "NET_HEADER_SIZE + 14 \<le> ch_length c" "ch_length c \<le> NET_HEADER_SIZE + FRAME_SIZE"
        by (auto simp: frame_length_ok_def)
      have reads: "chain_read ops c 0 (replicate NET_HEADER_SIZE 0) mem = Some (Inr (), take 12 ?packet, mem)"
        "slice_get 0 ?n buf = Some (take ?n buf)"
        "chain_read ops c NET_HEADER_SIZE (take ?n buf) mem = Some (Inr (), drop 12 ?packet, mem)"
        "drop 10 (take 12 ?packet) = [?packet ! 10, ?packet ! 11]"
        using packet_reads [OF _ _ _ fits assms(2)] chain by simp_all
      have n: "length ?packet - 12 = ?n" "splice 0 (drop 12 ?packet) buf = drop 12 ?packet @ drop ?n buf"
        "?n \<le> FRAME_SIZE" "length (drop 12 ?packet @ drop ?n buf) = FRAME_SIZE"
        using len fits assms(2) by (simp_all add: splice_def)
      obtain wanted q2 mem2 where p: "publish head 0 q' mem = (wanted, q2, mem2)" using prod_cases3 by blast
      have fin: "queue_finish ops (ch_head c) 0 q' mem = Some (Inr wanted, q2, mem2)"
        using queue_finish_ram [of q'] p chain by simp
      show ?thesis
      proof (cases "?packet ! 0 \<noteq> 0 \<or> ?packet ! 1 \<noteq> 0 \<or> ?packet ! 10 \<noteq> 0 \<or> ?packet ! 11 \<noteq> 0")
        case bad: True
        then show ?thesis using True q c(1,2) d some fits reads assms(2) spec queue_offer_same [OF some] good len
          by (auto simp: transmit_def transmit_inner_def transmit_spec_def Let_def)
      next
        case False
        then show ?thesis using True q c(1,2) d some fits reads assms(2) spec good len fin p n
          by (auto simp: transmit_def transmit_inner_def transmit_spec_def notify_set_queue Let_def)
      qed
    qed
  qed
qed

end

section \<open>Delivery\<close>

definition address_set :: "u64 \<Rightarrow> nat \<Rightarrow> u64 set" where
  "address_set a n = {x. unat (x - a) < n}"

fun disjoint_segments :: "segment list \<Rightarrow> bool" where
  "disjoint_segments [] = True"
| "disjoint_segments (s # ss) \<longleftrightarrow>
     list_all (\<lambda>t. address_set (sg_address s) (sg_length s) \<inter> address_set (sg_address t) (sg_length t) = {}) ss
     \<and> disjoint_segments ss"

lemma in_address_set:
  assumes "n \<le> 2 ^ 64" and "i < n"
  shows "a + word_of_nat i \<in> address_set a n"
  using assms by (simp add: address_set_def unat_of_nat)

lemma address_set_shift:
  assumes "x \<in> address_set (a + word_of_nat i) k" and "i + k \<le> 2 ^ 64"
  shows "unat (x - a) = unat (x - (a + word_of_nat i)) + i"
proof -
  let ?y = "x - (a + word_of_nat i)"
  have y: "unat ?y < k" using assms(1) by (simp add: address_set_def)
  then have "i < 2 ^ 64" using assms(2) by linarith
  then have i: "unat (word_of_nat i :: u64) = i" by (simp add: unat_of_nat)
  then have "unat (?y + word_of_nat i) = unat ?y + i"
    using y assms(2) by (subst unat_add_no_overflow) simp_all
  moreover have "?y + word_of_nat i = x - a" by simp
  ultimately show ?thesis by simp
qed

lemma ram_store_outside: "x \<notin> address_set a (length bs) \<Longrightarrow> ram_store a bs mem x = mem x"
  by (simp add: ram_store_def address_set_def)

lemma address_set_mono: "n \<le> k \<Longrightarrow> address_set a n \<subseteq> address_set a k"
  by (auto simp: address_set_def)

lemma ram_load_cong:
  assumes "n \<le> 2 ^ 64" and "\<And>x. x \<in> address_set a n \<Longrightarrow> mem' x = mem x"
  shows "ram_load a n mem' = ram_load a n mem"
  using assms by (auto simp: ram_load_def in_address_set)

lemma ram_load_store:
  assumes "length bs \<le> n" and "n \<le> 2 ^ 64"
  shows "ram_load a n (ram_store a bs mem) = bs @ drop (length bs) (ram_load a n mem)"
  using assms by (intro nth_equalityI) (auto simp: ram_load_def ram_store_def nth_append unat_of_nat)

lemma scatter_outside:
  "\<forall>s \<in> set ss. x \<notin> address_set (sg_address s) (sg_length s) \<Longrightarrow> scatter ss bs mem x = mem x"
proof (induction ss arbitrary: bs mem)
  case (Cons s ss)
  then have "x \<notin> address_set (sg_address s) (length (take (sg_length s) bs))"
    using address_set_mono [of "length (take (sg_length s) bs)" "sg_length s"] by fastforce
  with Cons show ?case by (simp add: ram_store_outside)
qed simp

text \<open>Over disjoint segments, what is spread is found again.\<close>

lemma gather_scatter:
  assumes "disjoint_segments ss" and "\<forall>s \<in> set ss. sg_length s \<le> 2 ^ 64" and "length bs \<le> (\<Sum>s \<leftarrow> ss. sg_length s)"
  shows "take (length bs) (gather ss (scatter ss bs mem)) = bs"
  using assms
proof (induction ss arbitrary: bs mem)
  case (Cons s ss)
  let ?n = "sg_length s" and ?mem = "ram_store (sg_address s) (take (sg_length s) bs) mem"
  have "ram_load (sg_address s) ?n (scatter ss (drop ?n bs) ?mem) = ram_load (sg_address s) ?n ?mem"
    by (rule ram_load_cong, use Cons.prems in simp, rule scatter_outside) (use Cons.prems(1) in \<open>auto simp: list_all_iff\<close>)
  also have "\<dots> = take ?n bs @ drop (length (take ?n bs)) (ram_load (sg_address s) ?n mem)"
    by (rule ram_load_store) (use Cons.prems(2) in auto)
  finally have s: "ram_load (sg_address s) ?n (scatter ss (drop ?n bs) ?mem)
      = take ?n bs @ drop (length (take ?n bs)) (ram_load (sg_address s) ?n mem)" .
  have "take (length (drop ?n bs)) (gather ss (scatter ss (drop ?n bs) ?mem)) = drop ?n bs"
    by (rule Cons.IH) (use Cons.prems in auto)
  then show ?case using s by (cases "length bs \<le> ?n") (simp_all add: gather_def)
qed (simp add: gather_def)

lemma gather_cong:
  assumes "\<forall>s \<in> set ss. sg_length s \<le> 2 ^ 64"
    and "\<And>s x. s \<in> set ss \<Longrightarrow> x \<in> address_set (sg_address s) (sg_length s) \<Longrightarrow> mem' x = mem x"
  shows "gather ss mem' = gather ss mem"
  unfolding gather_def by (intro arg_cong [where f = concat] map_cong refl ram_load_cong) (use assms in auto)

definition used_ring :: "virtqueue \<Rightarrow> u64 set" where
  "used_ring q = address_set (q_used q) (6 + unat (q_num q) * 8)"

context guest_ram
begin

text \<open>Publishing writes the used ring and nothing else.\<close>

lemma publish_outside:
  assumes mapped: "queue_mapped valid q" and "publish head n q mem = (wanted, q', mem')" and "x \<notin> used_ring q"
  shows "mem' x = mem x"
proof -
  have part: "x \<notin> address_set (q_used q + word_of_nat i) k" if "i + k \<le> 6 + unat (q_num q) * 8" "0 < k" for i k
  proof
    assume x: "x \<in> address_set (q_used q + word_of_nat i) k"
    have "valid (q_used q) (6 + unat (q_num q) * 8)" using mapped by (simp add: queue_mapped_def)
    then have "i + k \<le> 2 ^ 64" using valid_bound that by fastforce
    from address_set_shift [OF x this]
    have "unat (x - q_used q) = unat (x - (q_used q + word_of_nat i)) + i" .
    then show False using x that assms(3) by (simp add: used_ring_def address_set_def)
  qed
  have e: "q_used q + 4 + ucast (q_next_used q mod ucast (q_num q)) * 8
      = q_used q + word_of_nat (4 + unat (q_next_used q mod ucast (q_num q)) * 8)"
    by (simp add: add.assoc)
  have n: "4 + unat (q_next_used q mod ucast (q_num q)) * 8 + 8 \<le> 6 + unat (q_num q) * 8"
    using queue_num(2) [OF mapped, of "q_next_used q"] by simp
  show ?thesis
    using assms(2) part [OF n] part [of 2 2]
    by (auto simp: publish_def Let_def e ram_store_outside simp del: of_nat_add of_nat_mult)
qed

text \<open>What the driver finds in the used ring.\<close>

lemma publish_ring:
  assumes mapped: "queue_mapped valid q" and p: "publish head n q mem = (wanted, q', mem')"
  shows "ram_load (q_used q + 2) 2 mem' = to_le16 (q_next_used q + 1)"
    and "ram_load (q_used q + 4 + ucast (q_next_used q mod ucast (q_num q)) * 8) 8 mem'
      = to_le32 (ucast head) @ to_le32 (word_of_nat n)"
proof -
  let ?i = "4 + unat (q_next_used q mod ucast (q_num q)) * 8"
  let ?a = "q_used q + 4 + ucast (q_next_used q mod ucast (q_num q)) * 8" and ?bs = "to_le32 (ucast head) @ to_le32 (word_of_nat n)"
  have e: "?a = q_used q + word_of_nat ?i" by (simp add: add.assoc)
  have v: "unat (q_used q) + (6 + unat (q_num q) * 8) \<le> 2 ^ 64" using mapped valid_bound by (simp add: queue_mapped_def)
  have n: "?i + 8 \<le> 6 + unat (q_num q) * 8" using queue_num(2) [OF mapped, of "q_next_used q"] by simp
  have mem': "mem' = ram_store (q_used q + 2) (to_le16 (q_next_used q + 1)) (ram_store ?a ?bs mem)"
    using p by (auto simp: publish_def Let_def)
  show "ram_load (q_used q + 2) 2 mem' = to_le16 (q_next_used q + 1)"
    unfolding mem' by (subst ram_load_store) simp_all
  have "ram_load ?a 8 mem' = ram_load ?a 8 (ram_store ?a ?bs mem)"
  proof (rule ram_load_cong)
    fix x assume x: "x \<in> address_set ?a 8"
    have "?i + 8 \<le> 2 ^ 64" using n v by linarith
    with x have y: "unat (x - q_used q) = unat (x - ?a) + ?i" unfolding e by (rule address_set_shift)
    have "x - (q_used q + 2) = (x - q_used q) - 2" by simp
    moreover have "unat ((x - q_used q) - 2) = unat (x - q_used q) - 2"
      using y by (subst unat_sub) (simp_all add: word_le_nat_alt)
    ultimately have "unat (x - (q_used q + 2)) = unat (x - q_used q) - 2" by (simp only:)
    then have "x \<notin> address_set (q_used q + 2) (length (to_le16 (q_next_used q + 1)))"
      using y by (simp add: address_set_def)
    then show "mem' x = ram_store ?a ?bs mem x" unfolding mem' by (rule ram_store_outside)
  qed simp
  then show "ram_load ?a 8 mem' = ?bs" by (simp add: ram_load_store)
qed

text \<open>A frame the device takes is in the driver's buffers, and only those and the used ring have changed.\<close>

lemma receive_delivers:
  assumes "net_running d" and "frame_length_ok (length f)"
    and offer: "queue_offer valid mem True (vn_queues d ! 0) = Inr (q, Some (head, ss))"
    and room: "12 + length f \<le> (\<Sum>s \<leftarrow> ss. sg_length s)" and disjoint: "disjoint_segments ss"
    and apart: "\<forall>s \<in> set ss. address_set (sg_address s) (sg_length s) \<inter> used_ring q = {}"
  shows "\<exists>v mem'. receive_spec valid f d mem = (True, v, mem') \<and> take (12 + length f) (gather ss mem') = receive_header @ f
    \<and> ram_load (q_used q + 2) 2 mem' = to_le16 (q_next_used q + 1)
    \<and> ram_load (q_used q + 4 + ucast (q_next_used q mod ucast (q_num q)) * 8) 8 mem'
        = to_le32 (ucast head) @ to_le32 (word_of_nat (12 + length f))
    \<and> (\<forall>x. (\<forall>s \<in> set ss. x \<notin> address_set (sg_address s) (sg_length s)) \<longrightarrow> x \<notin> used_ring q \<longrightarrow> mem' x = mem x)"
proof -
  have mapped: "queue_mapped valid q" and ok: "\<forall>s \<in> set ss. valid (sg_address s) (sg_length s)"
    using offer chain_of_ok by (fastforce simp: queue_offer_def Let_def split: if_splits option.splits)+
  have len: "\<forall>s \<in> set ss. sg_length s \<le> 2 ^ 64" using ok valid_bound by (meson add_leD2)
  let ?packet = "receive_header @ f" and ?mem = "scatter ss (receive_header @ f) mem"
  obtain wanted q' mem' where p: "publish head (12 + length f) q ?mem = (wanted, q', mem')" by (metis surj_pair)
  have "gather ss mem' = gather ss ?mem"
    by (rule gather_cong [OF len]) (use publish_outside [OF mapped p] apart in blast)
  then have "take (12 + length f) (gather ss mem') = ?packet"
    using gather_scatter [OF disjoint len, of ?packet mem] room by simp
  moreover have "mem' x = mem x" if "\<forall>s \<in> set ss. x \<notin> address_set (sg_address s) (sg_length s)" "x \<notin> used_ring q" for x
    using publish_outside [OF mapped p that(2)] scatter_outside [OF that(1)] by simp
  ultimately show ?thesis
    using assms(1,2) offer room p publish_ring [OF mapped p] by (simp add: receive_spec_def)
qed

end

end
