(* ===== verification/Vm_Network.thy ===== *)
theory Vm_Network
  imports Virtio_Spec Loader_Protocol
begin

text \<open>
  The network as the monitor runs it: \<open>Network::service\<close> of \<open>net.rs\<close> moves frames between the USB
  transport (the \<open>Ethernet\<close> trait), the switch and the virtio device, and \<open>vm/network.rs\<close> gives the
  device its view of guest memory.
\<close>


section \<open>Guest memory (vm/network.rs)\<close>

text \<open>
  \<open>load\<close> and \<open>store\<close> are the volatile copies with their cache maintenance (assembly); \<open>high_end\<close> is
  the end of the memory above 4 GiB the guest may use.  A \<open>usize\<close> is below \<open>2 ^ 64\<close>.
\<close>

definition memory_valid :: "u64 \<Rightarrow> u64 \<Rightarrow> nat \<Rightarrow> bool" where
  "memory_valid high_end address len \<longleftrightarrow> len < 2 ^ 64
     \<and> (guest_range address (word_of_nat len)
        \<or> address \<ge> 0x100000000 \<and> len \<noteq> 0
          \<and> (case checked_add address (word_of_nat len) of None \<Rightarrow> False | Some stop \<Rightarrow> stop \<le> high_end))"

definition memory_read ::
  "(u64 \<Rightarrow> nat \<Rightarrow> 'm \<Rightarrow> bytes \<times> 'm) \<Rightarrow> u64 \<Rightarrow> u64 \<Rightarrow> nat \<Rightarrow> 'm \<Rightarrow> (memory_error + bytes) \<times> 'm" where
  "memory_read load high_end address len m =
     (if \<not> memory_valid high_end address len then (Inl MemoryError, m)
      else case load address len m of (bs, m) \<Rightarrow> (Inr bs, m))"

definition memory_write ::
  "(u64 \<Rightarrow> bytes \<Rightarrow> 'm \<Rightarrow> 'm) \<Rightarrow> u64 \<Rightarrow> u64 \<Rightarrow> bytes \<Rightarrow> 'm \<Rightarrow> (memory_error + unit) \<times> 'm" where
  "memory_write store high_end address bs m =
     (if \<not> memory_valid high_end address (length bs) then (Inl MemoryError, m)
      else (Inr (), store address bs m))"

definition vm_memory ::
  "(u64 \<Rightarrow> nat \<Rightarrow> 'm \<Rightarrow> bytes \<times> 'm) \<Rightarrow> (u64 \<Rightarrow> bytes \<Rightarrow> 'm \<Rightarrow> 'm) \<Rightarrow> u64 \<Rightarrow> 'm guest_memory_ops" where
  "vm_memory load store high_end =
     \<lparr>gm_valid = \<lambda>address len _. memory_valid high_end address len,
      gm_read = memory_read load high_end, gm_write = memory_write store high_end, gm_barrier = \<lambda>m. m\<rparr>"


section \<open>Serving the network (net.rs)\<close>

record 'e ethernet_ops =
  et_link_up :: "'e \<Rightarrow> bool"
  et_receive_frame :: "'e \<Rightarrow> bytes option \<times> bool \<times> 'e"
  et_send_frames :: "frames \<Rightarrow> 'e \<Rightarrow> nat \<times> frames \<times> 'e"

text \<open>The trait's own \<open>send_frames\<close>, over the \<open>send_frame\<close> of a transport.\<close>

definition send_frames_default ::
  "(bytes \<Rightarrow> 'e \<Rightarrow> bool \<times> 'e) \<Rightarrow> frames \<Rightarrow> 'e \<Rightarrow> nat \<times> frames \<times> 'e" where
  "send_frames_default send_frame q e =
     (case frames_front q of
        None \<Rightarrow> (0, q, e)
      | Some f \<Rightarrow> (case send_frame f e of
          (sent, e) \<Rightarrow> if sent then (1, frames_pop q, e) else (0, q, e)))"

record network =
  nt_device :: net
  nt_bridge :: bridge
  nt_link :: bool

definition network_new :: network where
  "network_new = \<lparr>nt_device = net_new, nt_bridge = bridge_new, nt_link = False\<rparr>"

definition clear_host :: "network \<Rightarrow> network" where
  "clear_host n = n\<lparr>nt_bridge := (nt_bridge n)\<lparr>br_host := frames_clear (br_host (nt_bridge n))\<rparr>\<rparr>"

definition clear_guest :: "network \<Rightarrow> network" where
  "clear_guest n = n\<lparr>nt_bridge := (nt_bridge n)\<lparr>br_guest := frames_clear (br_guest (nt_bridge n))\<rparr>\<rparr>"

text \<open>What \<open>service\<close> does about the link before it moves frames.\<close>

definition service_link :: "bool \<Rightarrow> network \<Rightarrow> network" where
  "service_link up n =
     (let n = (if nt_link n \<noteq> up then (clear_guest (clear_host n))\<lparr>nt_link := up\<rparr> else n);
          n = n\<lparr>nt_device := set_link up (nt_device n)\<rparr>;
          n = (if \<not> net_running (nt_device n) then clear_guest n else n)
      in if \<not> up then clear_host n else n)"

definition deliver_to_guest ::
  "'m guest_memory_ops \<Rightarrow> bytes \<Rightarrow> net \<times> 'm \<Rightarrow> (bool \<times> net \<times> 'm) option" where
  "deliver_to_guest ops frame = (\<lambda>(d, m). net_receive ops frame d m)"

definition fill_from_guest ::
  "'m guest_memory_ops \<Rightarrow> bytes \<Rightarrow> net \<times> 'm \<Rightarrow> ((nat \<times> bytes) \<times> net \<times> 'm) option" where
  "fill_from_guest ops buf = (\<lambda>(d, m). map_option (\<lambda>(len, buf, d, m). ((len, buf), d, m)) (transmit ops buf d m))"

text \<open>One turn of the loop; the first component says whether anything moved.\<close>

definition service_turn ::
  "'m guest_memory_ops \<Rightarrow> 'e ethernet_ops \<Rightarrow> network \<times> 'm \<times> 'e \<Rightarrow> (bool \<times> network \<times> 'm \<times> 'e) option" where
  "service_turn ops eth = (\<lambda>(n, m, e).
     let (sent, q, e) = et_send_frames eth (br_host (nt_bridge n)) e;
         b = (nt_bridge n)\<lparr>br_host := q\<rparr>; d = nt_device n
     in do {
       (delivered, d, m, b) \<leftarrow>
         (case frames_front (br_guest b) of
            None \<Rightarrow> Some (False, d, m, b)
          | Some f \<Rightarrow> do {
              (taken, d, m) \<leftarrow> net_receive ops f d m;
              Some (taken, d, m, if taken then b\<lparr>br_guest := frames_pop (br_guest b)\<rparr> else b)
            });
       let (frame, received, e) = et_receive_frame eth e;
       (b, d, m) \<leftarrow>
         (case frame of None \<Rightarrow> Some (b, d, m)
          | Some f \<Rightarrow> receive_host f (deliver_to_guest ops) (b, d, m));
       (transmitted, b, d, m) \<leftarrow> receive_guest (fill_from_guest ops) (b, d, m);
       Some (sent \<noteq> 0 \<or> delivered \<or> received \<or> transmitted, n\<lparr>nt_device := d, nt_bridge := b\<rparr>, m, e)
     })"

fun service_loop ::
  "'m guest_memory_ops \<Rightarrow> 'e ethernet_ops \<Rightarrow> nat \<Rightarrow> network \<times> 'm \<times> 'e \<Rightarrow> (network \<times> 'm \<times> 'e) option" where
  "service_loop ops eth 0 s = Some s"
| "service_loop ops eth (Suc k) s =
     do {
       (progressed, s) \<leftarrow> service_turn ops eth s;
       if progressed then service_loop ops eth k s else Some s
     }"

definition network_service ::
  "'m guest_memory_ops \<Rightarrow> 'e ethernet_ops \<Rightarrow> network \<times> 'm \<times> 'e \<Rightarrow> (network \<times> 'm \<times> 'e) option" where
  "network_service ops eth = (\<lambda>(n, m, e). service_loop ops eth 16 (service_link (et_link_up eth e) n, m, e))"


section \<open>Memory that the guest rewrites at will\<close>

text \<open>
  The accesses in order are all the state there is; what a read returns is any function of them, so the
  guest may change every byte between any two accesses.  The memory itself checks nothing.
\<close>

datatype guest_access = GuestRead u64 nat | GuestWrite u64 bytes

fun access_valid :: "(u64 \<Rightarrow> nat \<Rightarrow> bool) \<Rightarrow> guest_access \<Rightarrow> bool" where
  "access_valid valid (GuestRead a n) = valid a n"
| "access_valid valid (GuestWrite a bs) = valid a (length bs)"

definition shared_memory :: "(guest_access list \<Rightarrow> u64 \<Rightarrow> u8) \<Rightarrow> u64 \<Rightarrow> guest_access list guest_memory_ops" where
  "shared_memory guest high_end =
     \<lparr>gm_valid = \<lambda>a n _. memory_valid high_end a n,
      gm_read = \<lambda>a n log. (Inr (map (\<lambda>i. guest log (a + word_of_nat i)) [0..<n]), log @ [GuestRead a n]),
      gm_write = \<lambda>a bs log. (Inr (), log @ [GuestWrite a bs]), gm_barrier = \<lambda>log. log\<rparr>"

lemma memory_valid_iff:
  "memory_valid high_end a n \<longleftrightarrow> n \<noteq> 0 \<and>
    ({unat a..<unat a + n} \<subseteq> uploadable \<or> 2 ^ 32 \<le> unat a \<and> unat a + n < 2 ^ 64 \<and> unat a + n \<le> unat high_end)"
proof (cases "n < 2 ^ 64")
  case True
  then have n: "unat (word_of_nat n :: u64) = n" by (simp add: unat_of_nat)
  have z: "(word_of_nat n :: u64) \<noteq> 0 \<longleftrightarrow> n \<noteq> 0" by (metis n unat_0 unat_eq_zero)
  have c: "(case checked_add a (word_of_nat n) of None \<Rightarrow> False | Some stop \<Rightarrow> stop \<le> high_end)
      \<longleftrightarrow> unat a + n < 2 ^ 64 \<and> unat a + n \<le> unat high_end"
    using n by (auto simp: checked_add_def word_le_nat_alt unat_add_no_overflow)
  show ?thesis using True unfolding memory_valid_def guest_range_iff z n c by (auto simp: word_le_nat_alt)
next
  case False
  have "\<not> {unat a..<unat a + n} \<subseteq> uploadable" 
  proof
    assume "{unat a..<unat a + n} \<subseteq> uploadable"
    moreover have "2 ^ 64 - 1 \<in> {unat a..<unat a + n}" using False unat_bounds(4) [of a] by auto
    ultimately show False by (auto simp: uploadable_def)
  qed
  then show ?thesis using False by (simp add: memory_valid_def)
qed

lemma uploadable_bound: "{a..<a + n} \<subseteq> uploadable \<Longrightarrow> n \<noteq> 0 \<Longrightarrow> a + n < 2 ^ 64"
proof (rule ccontr)
  assume s: "{a..<a + n} \<subseteq> uploadable" "n \<noteq> 0" and "\<not> a + n < 2 ^ 64"
  then have "a + n - 1 \<in> uploadable" "2 ^ 64 \<le> a + n" by auto
  then show False by (auto simp: uploadable_def)
qed

lemma memory_valid_bound: "memory_valid high_end a n \<Longrightarrow> unat a + n < 2 ^ 64"
  using uploadable_bound by (auto simp: memory_valid_iff)

lemma memory_valid_part:
  assumes "memory_valid high_end a n" and "i + k \<le> n" and "0 < k"
  shows "memory_valid high_end (a + word_of_nat i) k"
proof -
  have i: "unat (word_of_nat i :: u64) = i" "unat a + i < 2 ^ 64"
    using memory_valid_bound [OF assms(1)] assms(2,3) by (simp_all add: unat_of_nat)
  then have a: "unat (a + word_of_nat i) = unat a + i" by (simp add: unat_add_no_overflow)
  have "{unat a + i..<unat a + i + k} \<subseteq> {unat a..<unat a + n}" using assms(2,3) by auto
  then have "{unat a..<unat a + n} \<subseteq> uploadable \<Longrightarrow> {unat a + i..<unat a + i + k} \<subseteq> uploadable" by (rule order_trans)
  then show ?thesis using assms unfolding memory_valid_iff a by simp linarith
qed

definition all_valid :: "u64 \<Rightarrow> guest_access list \<Rightarrow> bool" where
  "all_valid high_end log \<longleftrightarrow> (\<forall>x \<in> set log. access_valid (memory_valid high_end) x)"

interpretation shared: guest_memory "shared_memory guest high_end" "memory_valid high_end" "all_valid high_end" length
  by unfold_locales
    (auto simp: shared_memory_def all_valid_def memory_valid_bound [THEN less_imp_le] memory_valid_part
      simp del: power_numeral)


section \<open>Serving the network is safe\<close>

text \<open>
  The contract of a transport: what it takes from the frames waiting for the host it takes from the
  front.
\<close>

locale ethernet_link =
  fixes eth :: "'e ethernet_ops"
  assumes send_keeps: "frames_ok q \<Longrightarrow> et_send_frames eth q e = (n, q', e')
    \<Longrightarrow> frames_ok q' \<and> (\<exists>k. frames_iter q' = drop k (frames_iter q))"

lemma receive_host_keeps:
  assumes "bridge_ok b" and "P st" and "\<exists>taken st'. deliver f st = Some (taken, st') \<and> P st'"
  shows "\<exists>b' st'. receive_host f deliver (b, st) = Some (b', st') \<and> bridge_ok b' \<and> P st'"
proof -
  obtain taken st1 where d: "deliver f st = Some (taken, st1)" "P st1" using assms(3) by blast
  from receive_host_refines [OF assms(1), of deliver f st "\<lambda>_ _. (taken, st1)", OF d(1)]
  obtain b' st' where r: "receive_host f deliver (b, st) = Some (b', st')" "bridge_ok b'"
    "(bridge_view b', st') = switch_host f (\<lambda>_ _. (taken, st1)) (bridge_view b, st)" by blast
  have "st' = st \<or> st' = st1" using r(3) by (auto simp: switch_host_def split: prod.splits if_splits)
  then show ?thesis using r(1,2) assms(2) d(2) by blast
qed

lemma receive_guest_keeps:
  assumes "bridge_ok b" and "P st"
    and fill: "\<And>buf. length buf = FRAME_SIZE \<Longrightarrow>
      \<exists>n buf' st'. fill buf st = Some ((n, buf'), st') \<and> length buf' = FRAME_SIZE \<and> n \<le> FRAME_SIZE \<and> P st'"
  shows "\<exists>r b' st'. receive_guest fill (b, st) = Some (r, b', st') \<and> bridge_ok b' \<and> P st'"
proof (cases "frames_spare (br_host b)")
  case None
  then show ?thesis using assms by (auto simp: receive_guest_def)
next
  case (Some i)
  then have "length (fr_bytes (br_host b) ! i) = FRAME_SIZE"
    using assms(1) by (auto simp: bridge_ok_def frames_spare_def frames_ok_def split: if_splits)
  from fill [OF this] obtain n buf' st1 where f: "fill (fr_bytes (br_host b) ! i) st = Some ((n, buf'), st1)"
    "length buf' = FRAME_SIZE" "n \<le> FRAME_SIZE" "P st1" by blast
  let ?fill = "\<lambda>_ _. Some ((n, buf'), st1)"
  have same: "receive_guest fill (b, st) = receive_guest ?fill (b, st)" using Some f(1) by (simp add: receive_guest_def)
  have "\<exists>buf''. ?fill buf st = Some ((length (fst (take n buf', st1)), buf''), snd (take n buf', st1))
      \<and> length buf'' = FRAME_SIZE \<and> length (fst (take n buf', st1)) \<le> FRAME_SIZE
      \<and> take (length (fst (take n buf', st1))) buf'' = fst (take n buf', st1)" for buf :: bytes
    using f(2,3) by simp
  from receive_guest_refines [OF assms(1), of ?fill st "\<lambda>_. (take n buf', st1)", OF this]
  obtain r b' st' where r: "receive_guest ?fill (b, st) = Some (r, b', st')" "bridge_ok b'"
    "(r, bridge_view b', st') = switch_guest (\<lambda>_. (take n buf', st1)) (bridge_view b, st)" by blast
  have "st' = st \<or> st' = st1" using r(3) by (auto simp: switch_guest_def split: prod.splits if_splits)
  then show ?thesis using r(1,2) assms(2) f(4) same by auto
qed

definition network_ok :: "network \<Rightarrow> bool" where
  "network_ok n \<longleftrightarrow> net_ok (nt_device n) \<and> bridge_ok (nt_bridge n)"

lemma network_ok_new: "network_ok network_new"
  by (simp add: network_ok_def network_new_def net_ok_new bridge_ok_def bridge_new_def frames_new)

lemma set_link_ok [simp]: "net_ok (set_link up d) = net_ok d"
  by (simp add: set_link_def net_ok_def Let_def)

lemma service_link_ok: "network_ok n \<Longrightarrow> network_ok (service_link up n)"
  by (simp add: service_link_def network_ok_def clear_host_def clear_guest_def bridge_ok_def frames_clear Let_def)

text \<open>A packet costs at most this many accesses to guest memory, a turn at most three packets.\<close>

definition packet_cost :: nat where "packet_cost = 3 * QUEUE_SIZE + 5"

definition spent :: "('m \<Rightarrow> bool) \<Rightarrow> ('m \<Rightarrow> nat) \<Rightarrow> nat \<Rightarrow> net \<times> 'm \<Rightarrow> bool" where
  "spent good steps k = (\<lambda>(d, m). net_ok d \<and> good m \<and> steps m \<le> k)"

locale network_host = guest_memory ops valid ok steps + ethernet_link eth
  for ops :: "'m guest_memory_ops" and valid ok steps and eth :: "'e ethernet_ops"
begin

lemma spent_mono: "spent ok steps k st \<Longrightarrow> k \<le> k' \<Longrightarrow> spent ok steps k' st"
  by (auto simp: spent_def)

lemma deliver_spent:
  assumes "spent ok steps k (d, m)"
  shows "\<exists>taken st. net_receive ops f d m = Some (taken, st) \<and> spent ok steps (k + packet_cost) st"
  using net_receive_safe [of m d f] assms by (fastforce simp: spent_def packet_cost_def)

lemma fill_spent:
  assumes "spent ok steps k (d, m)" and "length buf = FRAME_SIZE"
  shows "\<exists>n buf' st. fill_from_guest ops buf (d, m) = Some ((n, buf'), st) \<and> length buf' = FRAME_SIZE
    \<and> n \<le> FRAME_SIZE \<and> spent ok steps (k + packet_cost) st"
proof -
  have "n = 0 \<or> frame_length_ok n \<Longrightarrow> n \<le> FRAME_SIZE" for n by (auto simp: frame_length_ok_def)
  then show ?thesis using transmit_safe [of m d buf] assms
    by (fastforce simp: spent_def packet_cost_def fill_from_guest_def)
qed

lemma service_turn_safe:
  assumes "network_ok n" and "ok m" and "steps m \<le> k"
  shows "\<exists>p n' m' e'. service_turn ops eth (n, m, e) = Some (p, n', m', e')
    \<and> network_ok n' \<and> ok m' \<and> steps m' \<le> k + 3 * packet_cost"
proof -
  let ?d = "nt_device n" and ?b = "nt_bridge n"
  have ok: "net_ok ?d" "frames_ok (br_host ?b)" "frames_ok (br_guest ?b)"
    using assms(1) by (simp_all add: network_ok_def bridge_ok_def)
  obtain sent q e1 where sent: "et_send_frames eth (br_host ?b) e = (sent, q, e1)" by (metis surj_pair)
  then have q: "frames_ok q" using send_keeps [OF ok(2)] by blast
  let ?b1 = "?b\<lparr>br_host := q\<rparr>"
  have s0: "spent ok steps k (?d, m)" using assms(2,3) ok(1) by (simp add: spent_def)
  have "\<exists>taken d1 m1 b2. (case frames_front (br_guest ?b1) of None \<Rightarrow> Some (False, ?d, m, ?b1)
      | Some f \<Rightarrow> do { (taken, d, m) \<leftarrow> net_receive ops f ?d m;
                    Some (taken, d, m, if taken then ?b1\<lparr>br_guest := frames_pop (br_guest ?b1)\<rparr> else ?b1) })
      = Some (taken, d1, m1, b2) \<and> bridge_ok b2 \<and> spent ok steps (k + packet_cost) (d1, m1)"
  proof (cases "frames_front (br_guest ?b1)")
    case None
    then show ?thesis using q ok s0 spent_mono by (auto simp: bridge_ok_def)
  next
    case (Some f)
    obtain taken d1 m1 where "net_receive ops f ?d m = Some (taken, d1, m1)" "spent ok steps (k + packet_cost) (d1, m1)"
      using deliver_spent [OF s0, of f] by auto
    then show ?thesis using Some q ok by (simp add: bridge_ok_def frames_pop)
  qed
  then obtain taken d1 m1 b2 where front: "(case frames_front (br_guest ?b1) of None \<Rightarrow> Some (False, ?d, m, ?b1)
      | Some f \<Rightarrow> do { (taken, d, m) \<leftarrow> net_receive ops f ?d m;
                    Some (taken, d, m, if taken then ?b1\<lparr>br_guest := frames_pop (br_guest ?b1)\<rparr> else ?b1) })
      = Some (taken, d1, m1, b2)" "bridge_ok b2" "spent ok steps (k + packet_cost) (d1, m1)" by blast
  obtain frame received e2 where rx: "et_receive_frame eth e1 = (frame, received, e2)" by (metis surj_pair)
  have "\<exists>b3 d2 m2. (case frame of None \<Rightarrow> Some (b2, d1, m1) | Some f \<Rightarrow> receive_host f (deliver_to_guest ops) (b2, d1, m1))
      = Some (b3, d2, m2) \<and> bridge_ok b3 \<and> spent ok steps (k + 2 * packet_cost) (d2, m2)"
  proof (cases frame)
    case None
    then show ?thesis using front(2) spent_mono [OF front(3)] by simp
  next
    case (Some f)
    have "\<exists>taken st. deliver_to_guest ops f (d1, m1) = Some (taken, st) \<and> spent ok steps (k + 2 * packet_cost) st"
      using deliver_spent [OF front(3), of f] by (simp add: deliver_to_guest_def add.assoc mult_2)
    from receive_host_keeps [where P = "spent ok steps (k + 2 * packet_cost)" and deliver = "deliver_to_guest ops" and f = f and st = "(d1, m1)",
      OF front(2) spent_mono [OF front(3)] this] show ?thesis using Some by auto
  qed
  then obtain b3 d2 m2 where host: "(case frame of None \<Rightarrow> Some (b2, d1, m1) | Some f \<Rightarrow> receive_host f (deliver_to_guest ops) (b2, d1, m1))
      = Some (b3, d2, m2)" "bridge_ok b3" "spent ok steps (k + 2 * packet_cost) (d2, m2)" by blast
  have "\<exists>r b4 st. receive_guest (fill_from_guest ops) (b3, d2, m2) = Some (r, b4, st) \<and> bridge_ok b4 \<and> spent ok steps (k + 3 * packet_cost) st"
  proof (rule receive_guest_keeps [where P = "spent ok steps (k + 3 * packet_cost)" and st = "(d2, m2)" and fill = "fill_from_guest ops",
      OF host(2) spent_mono [OF host(3)]])
    fix buf :: bytes assume "length buf = FRAME_SIZE"
    from fill_spent [OF host(3) this]
    show "\<exists>n buf' st'. fill_from_guest ops buf (d2, m2) = Some ((n, buf'), st') \<and> length buf' = FRAME_SIZE
        \<and> n \<le> FRAME_SIZE \<and> spent ok steps (k + 3 * packet_cost) st'"
      by (simp add: algebra_simps)
  qed simp
  then obtain r b4 d3 m3 where guest: "receive_guest (fill_from_guest ops) (b3, d2, m2) = Some (r, b4, d3, m3)"
    "bridge_ok b4" "spent ok steps (k + 3 * packet_cost) (d3, m3)" by auto
  show ?thesis
    unfolding service_turn_def
    using sent rx front(1) host(1) guest by (simp add: Let_def network_ok_def spent_def)
qed

lemma service_loop_safe:
  assumes "network_ok n" and "ok m" and "steps m \<le> k"
  shows "\<exists>n' m' e'. service_loop ops eth t (n, m, e) = Some (n', m', e')
    \<and> network_ok n' \<and> ok m' \<and> steps m' \<le> k + t * (3 * packet_cost)"
  using assms
proof (induction t arbitrary: n m e k)
  case (Suc t)
  obtain p n1 m1 e1 where turn: "service_turn ops eth (n, m, e) = Some (p, n1, m1, e1)"
    "network_ok n1" "ok m1" "steps m1 \<le> k + 3 * packet_cost"
    using service_turn_safe [OF Suc.prems] by blast
  from Suc.IH [OF turn(2-4), of e1] obtain n' m' e' where "service_loop ops eth t (n1, m1, e1) = Some (n', m', e')"
    "network_ok n'" "ok m'" "steps m' \<le> k + Suc t * (3 * packet_cost)" by (auto simp: add.assoc)
  with turn show ?case by (cases p) auto
qed auto

lemma network_service_safe:
  assumes "network_ok n" and "ok m"
  shows "\<exists>n' m' e'. network_service ops eth (n, m, e) = Some (n', m', e')
    \<and> network_ok n' \<and> ok m' \<and> steps m' \<le> steps m + 16 * (3 * packet_cost)"
  using service_loop_safe [OF service_link_ok [OF assms(1), of "et_link_up eth e"] assms(2) order_refl, of 16 e]
  by (simp add: network_service_def)

end

definition transport ::
  "('e \<Rightarrow> bool) \<Rightarrow> ('e \<Rightarrow> bytes option \<times> bool \<times> 'e) \<Rightarrow> (bytes \<Rightarrow> 'e \<Rightarrow> bool \<times> 'e) \<Rightarrow> 'e ethernet_ops" where
  "transport up rx send =
     \<lparr>et_link_up = up, et_receive_frame = rx, et_send_frames = send_frames_default send\<rparr>"

interpretation one_frame: ethernet_link "transport up rx send"
proof
  fix q e n q' e'
  assume ok: "frames_ok q" and s: "et_send_frames (transport up rx send) q e = (n, q', e')"
  have "q' = q \<or> q' = frames_pop q"
    using s by (auto simp: transport_def send_frames_default_def split: option.splits prod.splits if_splits)
  moreover have "frames_iter q = drop 0 (frames_iter q)" by simp
  ultimately show "frames_ok q' \<and> (\<exists>k. frames_iter q' = drop k (frames_iter q))"
    using ok frames_pop [OF ok] by metis
qed

interpretation host: network_host "shared_memory guest high_end" "memory_valid high_end" "all_valid high_end" length
  "transport up rx send"
  by unfold_locales

text \<open>Whatever happens: the guest accesses a register of the device, or the monitor serves the network.\<close>

datatype vm_event = RegisterLoad u64 u8 | RegisterStore u64 u8 u64 | Serve

fun vm_step ::
  "'m guest_memory_ops \<Rightarrow> 'e ethernet_ops \<Rightarrow> vm_event \<Rightarrow> network \<times> 'm \<times> 'e \<Rightarrow> (network \<times> 'm \<times> 'e) option" where
  "vm_step ops eth (RegisterLoad offset sz) (n, m, e) =
     Some (n\<lparr>nt_device := snd (net_read offset sz (nt_device n))\<rparr>, m, e)"
| "vm_step ops eth (RegisterStore offset sz v) (n, m, e) =
     Some (n\<lparr>nt_device := snd (net_write offset sz v (nt_device n))\<rparr>, m, e)"
| "vm_step ops eth Serve (n, m, e) = network_service ops eth (n, m, e)"

fun vm_run ::
  "'m guest_memory_ops \<Rightarrow> 'e ethernet_ops \<Rightarrow> vm_event list \<Rightarrow> network \<times> 'm \<times> 'e \<Rightarrow> (network \<times> 'm \<times> 'e) option" where
  "vm_run ops eth [] s = Some s"
| "vm_run ops eth (x # xs) s = do { s \<leftarrow> vm_step ops eth x s; vm_run ops eth xs s }"

lemma vm_run_safe:
  fixes guest high_end up rx send
  defines "ops \<equiv> shared_memory guest high_end" and "eth \<equiv> transport up rx send"
  assumes "network_ok n" and "all_valid high_end log"
  shows "\<exists>n' log' e'. vm_run ops eth xs (n, log, e) = Some (n', log', e') \<and> network_ok n' \<and> all_valid high_end log'
    \<and> length log' \<le> length log + 48 * packet_cost * count_list xs Serve"
  using assms(3,4)
proof (induction xs arbitrary: n log e)
  case (Cons x xs)
  have "\<exists>n1 log1 e1. vm_step ops eth x (n, log, e) = Some (n1, log1, e1) \<and> network_ok n1 \<and> all_valid high_end log1
      \<and> length log1 \<le> length log + 48 * packet_cost * (if x = Serve then 1 else 0)"
  proof (cases x)
    case Serve
    then show ?thesis
      using host.network_service_safe [OF Cons.prems, of guest up rx send e] by (simp add: ops_def eth_def)
  next
    case (RegisterLoad offset sz)
    then show ?thesis using Cons.prems virtio.read_keeps [of "nt_device n" offset sz]
      by (simp add: network_ok_def net_device_def)
  next
    case (RegisterStore offset sz v)
    then show ?thesis using Cons.prems virtio.write_keeps [of "nt_device n" offset sz v]
      by (simp add: network_ok_def net_device_def)
  qed
  then obtain n1 log1 e1 where one: "vm_step ops eth x (n, log, e) = Some (n1, log1, e1)" "network_ok n1"
    "all_valid high_end log1" "length log1 \<le> length log + 48 * packet_cost * (if x = Serve then 1 else 0)" by blast
  from Cons.IH [OF one(2,3), of e1] one(1,4) show ?case by (auto split: if_splits)
qed simp


section \<open>Memory that the guest leaves alone\<close>

definition vm_ram :: "u64 \<Rightarrow> ram guest_memory_ops" where
  "vm_ram = vm_memory (\<lambda>a n mem. (ram_load a n mem, mem)) ram_store"

interpretation vm: guest_ram "vm_ram high_end" "memory_valid high_end"
  by unfold_locales
    (auto simp: vm_ram_def vm_memory_def memory_read_def memory_write_def memory_valid_part
      memory_valid_bound [THEN less_imp_le, simplified])

text \<open>
  The device's operations in any order, and the guest changing its memory in between; what each reports.
\<close>

datatype packet_event =
    Load u64 u8
  | Store u64 u8 u64
  | Link bool
  | Rewrite ram
  | Transmit
  | Receive bytes

datatype packet_answer = Loaded "device_error + u64" | Stored "device_error + unit" | Nothing | Frame bytes | Taken bool

fun packet_step ::
  "ram guest_memory_ops \<Rightarrow> packet_event \<Rightarrow> net \<times> bytes \<times> ram \<Rightarrow> (packet_answer \<times> net \<times> bytes \<times> ram) option" where
  "packet_step ops (Load offset sz) (d, buf, mem) =
     (case net_read offset sz d of (r, d) \<Rightarrow> Some (Loaded r, d, buf, mem))"
| "packet_step ops (Store offset sz v) (d, buf, mem) =
     (case net_write offset sz v d of (r, d) \<Rightarrow> Some (Stored r, d, buf, mem))"
| "packet_step ops (Link up) (d, buf, mem) = Some (Nothing, set_link up d, buf, mem)"
| "packet_step ops (Rewrite mem') (d, buf, mem) = Some (Nothing, d, buf, mem')"
| "packet_step ops Transmit (d, buf, mem) =
     map_option (\<lambda>(n, buf, d, mem). (Frame (take n buf), d, buf, mem)) (transmit ops buf d mem)"
| "packet_step ops (Receive f) (d, buf, mem) =
     map_option (\<lambda>(taken, d, mem). (Taken taken, d, buf, mem)) (net_receive ops f d mem)"

fun packet_run ::
  "ram guest_memory_ops \<Rightarrow> packet_event list \<Rightarrow> net \<times> bytes \<times> ram \<Rightarrow> (packet_answer list \<times> net \<times> bytes \<times> ram) option" where
  "packet_run ops [] s = Some ([], s)"
| "packet_run ops (x # xs) s =
     do { (a, s) \<leftarrow> packet_step ops x s; (as, s) \<leftarrow> packet_run ops xs s; Some (a # as, s) }"

fun spec_step :: "(u64 \<Rightarrow> nat \<Rightarrow> bool) \<Rightarrow> packet_event \<Rightarrow> net \<times> ram \<Rightarrow> packet_answer \<times> net \<times> ram" where
  "spec_step valid (Load offset sz) (d, mem) = (case net_read offset sz d of (r, d) \<Rightarrow> (Loaded r, d, mem))"
| "spec_step valid (Store offset sz v) (d, mem) = (case net_write offset sz v d of (r, d) \<Rightarrow> (Stored r, d, mem))"
| "spec_step valid (Link up) (d, mem) = (Nothing, set_link up d, mem)"
| "spec_step valid (Rewrite mem') (d, mem) = (Nothing, d, mem')"
| "spec_step valid Transmit (d, mem) = (case transmit_spec valid d mem of (f, d, mem) \<Rightarrow> (Frame f, d, mem))"
| "spec_step valid (Receive f) (d, mem) = (case receive_spec valid f d mem of (taken, d, mem) \<Rightarrow> (Taken taken, d, mem))"

fun spec_run :: "(u64 \<Rightarrow> nat \<Rightarrow> bool) \<Rightarrow> packet_event list \<Rightarrow> net \<times> ram \<Rightarrow> packet_answer list \<times> net \<times> ram" where
  "spec_run valid [] s = ([], s)"
| "spec_run valid (x # xs) s =
     (case spec_step valid x s of (a, s) \<Rightarrow> case spec_run valid xs s of (as, s) \<Rightarrow> (a # as, s))"

lemma net_view_fields [simp]:
  "vn_queue_sel (net_view d) = vn_queue_sel d" "vn_device_features_sel (net_view d) = vn_device_features_sel d"
  "vn_driver_features_sel (net_view d) = vn_driver_features_sel d" "vn_driver_features (net_view d) = vn_driver_features d"
  "vn_status (net_view d) = vn_status d" "vn_interrupt (net_view d) = vn_interrupt d"
  "vn_generation (net_view d) = vn_generation d" "vn_link (net_view d) = vn_link d"
  by (simp_all add: net_view_def)

lemma net_view_updates [simp]:
  "net_view (d\<lparr>vn_device_features_sel := a\<rparr>) = (net_view d)\<lparr>vn_device_features_sel := a\<rparr>"
  "net_view (d\<lparr>vn_driver_features_sel := a\<rparr>) = (net_view d)\<lparr>vn_driver_features_sel := a\<rparr>"
  "net_view (d\<lparr>vn_driver_features := b\<rparr>) = (net_view d)\<lparr>vn_driver_features := b\<rparr>"
  "net_view (d\<lparr>vn_queue_sel := a\<rparr>) = (net_view d)\<lparr>vn_queue_sel := a\<rparr>"
  "net_view (d\<lparr>vn_interrupt := a\<rparr>) = (net_view d)\<lparr>vn_interrupt := a\<rparr>"
  "net_view (d\<lparr>vn_status := a\<rparr>) = (net_view d)\<lparr>vn_status := a\<rparr>"
  "net_view (d\<lparr>vn_queues := qs\<rparr>) = (net_view d)\<lparr>vn_queues := qs\<rparr>"
  "net_view (net_new\<lparr>vn_link := up\<rparr>) = net_new\<lparr>vn_link := up\<rparr>"
  by (simp_all add: net_view_def net_new_def)

lemma net_read_view: "net_read offset sz (net_view d) = (fst (net_read offset sz d), net_view d)"
  by (simp add: net_read_def net_register_def config_value_def config_space_def)

lemma net_read_same: "net_read offset sz d = (fst (net_read offset sz d), d)"
  by (simp add: net_read_def)

lemma status_write_view: "status_write v (net_view d) = net_view (status_write v d)"
  by (simp add: status_write_def next_status_def net_running_def Let_def)

lemma update_queue_view: "update_queue i g (net_view d) = net_view (update_queue i g d)"
  by (simp add: update_queue_def)

lemma net_write_register_view: "net_write_register offset v (net_view d) = net_view (net_write_register offset v d)"
  unfolding net_write_register_def by (simp only: if_distrib [of net_view] Let_def net_view_updates net_view_fields
      status_write_view update_queue_view cong: if_cong)

lemma net_write_view:
  "net_write offset sz v (net_view d) = (fst (net_write offset sz v d), net_view (snd (net_write offset sz v d)))"
  by (simp add: net_write_def net_write_register_view)

lemma packet_step_refines:
  assumes "net_ok d" and "length buf = FRAME_SIZE"
    and "spec_step (memory_valid high_end) x (net_view d, mem) = (a, v, mem')"
  shows "\<exists>d' buf'. packet_step (vm_ram high_end) x (d, buf, mem) = Some (a, d', buf', mem')
    \<and> net_ok d' \<and> length buf' = FRAME_SIZE \<and> net_view d' = v"
proof (cases x)
  case (Load offset sz)
  then show ?thesis using assms net_read_view [of offset sz d] net_read_same [of offset sz d] by (auto split: prod.splits)
next
  case (Store offset sz v)
  then show ?thesis using assms virtio.write_keeps [of d offset sz v]
    by (auto simp: net_write_view net_device_def split: prod.splits)
next
  case (Link up)
  then show ?thesis using assms by (auto simp: set_link_def net_view_def net_running_def Let_def net_ok_def)
next
  case (Rewrite mem1)
  then show ?thesis using assms by simp
next
  case Transmit
  obtain f v1 mem1 where f: "transmit_spec (memory_valid high_end) (net_view d) mem = (f, v1, mem1)" by (metis surj_pair)
  from vm.transmit_refines [OF assms(1,2) f] show ?thesis using Transmit f assms(3) by fastforce
next
  case (Receive f)
  obtain taken v1 mem1 where r: "receive_spec (memory_valid high_end) f (net_view d) mem = (taken, v1, mem1)" by (metis surj_pair)
  from vm.net_receive_refines [OF assms(1), of high_end f mem] show ?thesis using Receive r assms(2,3) by fastforce
qed

lemma packet_run_refines:
  assumes "net_ok d" and "length buf = FRAME_SIZE"
    and "spec_run (memory_valid high_end) xs (net_view d, mem) = (as, v, mem')"
  shows "\<exists>d' buf'. packet_run (vm_ram high_end) xs (d, buf, mem) = Some (as, d', buf', mem') \<and> net_view d' = v"
  using assms
proof (induction xs arbitrary: d buf mem as)
  case (Cons x xs)
  obtain a v1 mem1 where s: "spec_step (memory_valid high_end) x (net_view d, mem) = (a, v1, mem1)" by (metis surj_pair)
  obtain d1 buf1 where one: "packet_step (vm_ram high_end) x (d, buf, mem) = Some (a, d1, buf1, mem1)" "net_ok d1"
    "length buf1 = FRAME_SIZE" "net_view d1 = v1" using packet_step_refines [OF Cons.prems(1,2) s] by blast
  obtain bs where run: "spec_run (memory_valid high_end) xs (net_view d1, mem1) = (bs, v, mem')" "as = a # bs"
    using Cons.prems(3) s one(4) by (auto split: prod.splits)
  from Cons.IH [OF one(2,3) run(1)] show ?case using one(1) run(2) by auto
qed simp


section \<open>Properties\<close>

text \<open>
  C32: Started new, the network device and the switch never panic and every call returns, whatever the
  guest stores in the device's registers, however it rewrites its memory under the device, and whatever
  frames come from the host: a service makes at most 16 turns of three packets, each of a bounded number
  of accesses, and the device never reads or writes memory outside what the monitor lets the guest use.
\<close>

theorem network_total_and_confined:
  "\<exists>n log e'. vm_run (shared_memory guest high_end) (transport up rx send) xs (network_new, [], e) = Some (n, log, e')
     \<and> length log \<le> 48 * (3 * 128 + 5) * count_list xs Serve
     \<and> list_all (access_valid (memory_valid high_end)) log"
  using vm_run_safe [OF network_ok_new, of high_end "[]" guest up rx send xs e]
  by (auto simp: all_valid_def packet_cost_def list_all_iff)

text \<open>
  C33: In memory the guest changes only between operations, the device answers every run of register
  accesses and packets as its specification does: a transmitted frame is the contents of the next chain
  behind its header, a received frame is spread over the next chain and published, and a malformed queue,
  chain or header breaks the device without a packet and without a store to guest memory.
\<close>

theorem virtio_refines_packets:
  "\<exists>d buf. packet_run (vm_ram high_end) xs (net_new, replicate FRAME_SIZE 0, mem)
     = Some (case spec_run (memory_valid high_end) xs (net_view net_new, mem) of (as, v, mem') \<Rightarrow> (as, d, buf, mem'))
     \<and> net_view d = fst (snd (spec_run (memory_valid high_end) xs (net_view net_new, mem)))"
proof -
  obtain as v mem' where s: "spec_run (memory_valid high_end) xs (net_view net_new, mem) = (as, v, mem')" by (metis surj_pair)
  from packet_run_refines [OF net_ok_new _ s, of "replicate FRAME_SIZE 0"] show ?thesis using s by auto
qed

text \<open>
  C34: A frame offered to a running device whose driver has a chain with room for it is taken, and the
  driver's buffers then begin with the packet header and the frame, the used ring names the chain and its
  length, and no byte of guest memory outside the buffers and the used ring has changed, if the driver
  keeps its buffers apart from each other and from the used ring.
\<close>

theorem received_frame_delivered:
  assumes "net_ok d" and "net_running d" and "frame_length_ok (length f)"
    and "queue_offer (memory_valid high_end) mem True (vn_queues d ! 0) = Inr (q, Some (head, ss))"
    and "12 + length f \<le> (\<Sum>s \<leftarrow> ss. sg_length s)" and "disjoint_segments ss"
    and "\<forall>s \<in> set ss. address_set (sg_address s) (sg_length s) \<inter> used_ring q = {}"
  shows "\<exists>d' mem'. net_receive (vm_ram high_end) f d mem = Some (True, d', mem') \<and> net_ok d'
    \<and> take (12 + length f) (gather ss mem') = receive_header @ f
    \<and> ram_load (q_used q + 2) 2 mem' = to_le16 (q_next_used q + 1)
    \<and> ram_load (q_used q + 4 + ucast (q_next_used q mod ucast (q_num q)) * 8) 8 mem'
        = to_le32 (ucast head) @ to_le32 (word_of_nat (12 + length f))
    \<and> (\<forall>x. (\<forall>s \<in> set ss. x \<notin> address_set (sg_address s) (sg_length s)) \<longrightarrow> x \<notin> used_ring q \<longrightarrow> mem' x = mem x)"
proof -
  have running: "net_running (net_view d)" using assms(2) by simp
  obtain v mem' where spec: "receive_spec (memory_valid high_end) f (net_view d) mem = (True, v, mem')"
    and rest: "take (12 + length f) (gather ss mem') = receive_header @ f
      \<and> ram_load (q_used q + 2) 2 mem' = to_le16 (q_next_used q + 1)
      \<and> ram_load (q_used q + 4 + ucast (q_next_used q mod ucast (q_num q)) * 8) 8 mem'
          = to_le32 (ucast head) @ to_le32 (word_of_nat (12 + length f))
      \<and> (\<forall>x. (\<forall>s \<in> set ss. x \<notin> address_set (sg_address s) (sg_length s)) \<longrightarrow> x \<notin> used_ring q \<longrightarrow> mem' x = mem x)"
    using vm.receive_delivers [OF running assms(3) _ assms(5-7), of high_end mem head] assms(4) by auto
  from vm.net_receive_refines [OF assms(1), of high_end f mem] spec show ?thesis using rest by auto
qed

definition sample_queue :: virtqueue where
  "sample_queue = \<lparr>q_num = 1, q_ready = True, q_poll_pending = True, q_desc = 0x80000000, q_avail = 0x80001000,
     q_used = 0x80002000, q_next_avail = 0, q_next_used = 0\<rparr>"

definition sample_ram :: ram where
  "sample_ram = ram_store 0x80000000 [0, 0x30, 0, 0x80, 0, 0, 0, 0, 0, 8, 0, 0, 2, 0, 0, 0]
     (ram_store 0x80001000 [0, 0, 1, 0, 0, 0] (\<lambda>_. 0))"

definition sample_net :: net where
  "sample_net = net_new\<lparr>vn_queues := [sample_queue, virtqueue_new], vn_status := 15\<rparr>"

lemma sample_valid:
  "memory_valid 0 0x80000000 16" "memory_valid 0 0x80001000 8" "memory_valid 0 0x80002000 14" "memory_valid 0 0x80003000 2048"
  by (auto simp: memory_valid_iff uploadable_def)

lemma sample_contents:
  "descriptor_at sample_ram sample_queue 0 = [0, 0x30, 0, 0x80, 0, 0, 0, 0, 0, 8, 0, 0, 2, 0, 0, 0]"
  "ram_load 0x80001002 2 sample_ram = [1, 0]" "ram_load 0x80001004 2 sample_ram = [0, 0]"
proof -
  have two: "[0..<2] = [0, 1 :: nat]" by (simp add: upt_rec)
  show "descriptor_at sample_ram sample_queue 0 = [0, 0x30, 0, 0x80, 0, 0, 0, 0, 0, 8, 0, 0, 2, 0, 0, 0]"
    by (simp add: descriptor_at_def sample_queue_def sample_ram_def ram_load_store)
  show "ram_load 0x80001002 2 sample_ram = [1, 0]" "ram_load 0x80001004 2 sample_ram = [0, 0]"
    by (simp_all add: ram_load_def two sample_ram_def ram_store_def)
qed

lemma sample_chain:
  "chain_of (memory_valid 0) sample_ram sample_queue True 1 0 = Some [\<lparr>sg_address = 0x80003000, sg_length = 2048\<rparr>]"
proof -
  have n: "unat (q_num sample_queue) = 1" by (simp add: sample_queue_def)
  have w: "from_le64 [0, 0x30, 0, 0x80, 0, 0, 0, 0] = 0x80003000" "from_le32 [0, 8, 0, 0] = 2048" "from_le16 [2, 0] = 2"
    by (simp_all add: from_le64_def from_le32_def from_le16_def)
  show ?thesis
    by (simp add: n sample_contents(1) descriptor_segment_def descriptor_next_def Let_def w sample_valid)
qed

lemma sample_offer:
  "queue_offer (memory_valid 0) sample_ram True sample_queue = Inr (sample_queue, Some (0, [\<lparr>sg_address = 0x80003000, sg_length = 2048\<rparr>]))"
proof -
  have p: "is_power_of_two (1 :: u32)" unfolding is_power_of_two_def by (rule bexI [of _ 0]) simp_all
  have m: "queue_mapped (memory_valid 0) sample_queue" using sample_valid by (simp add: queue_mapped_def sample_queue_def)
  have w: "from_le16 [1, 0] = 1" "from_le16 [0, 0] = 0" by (simp_all add: from_le16_def)
  have q: "q_ready sample_queue" "q_poll_pending sample_queue" "q_num sample_queue = 1" "q_desc sample_queue = 0x80000000"
    "q_avail sample_queue = 0x80001000" "q_used sample_queue = 0x80002000" "q_next_avail sample_queue = 0" by (simp_all add: sample_queue_def)
  show ?thesis using sample_contents(2,3) sample_chain
    by (simp add: queue_offer_def q m p w)
qed

text \<open>A shortest frame, and a queue of one descriptor with a buffer of 2 KiB.\<close>

theorem received_frame_delivered_witness:
  "\<exists>d' mem'. net_receive (vm_ram 0) (replicate 14 7) sample_net sample_ram = Some (True, d', mem')
     \<and> take 26 (gather [\<lparr>sg_address = 0x80003000, sg_length = 2048\<rparr>] mem') = receive_header @ replicate 14 7"
proof -
  have d: "net_ok sample_net" "net_running sample_net" "vn_queues sample_net ! 0 = sample_queue"
    by (simp_all add: sample_net_def net_ok_def net_running_def net_new_def chain_new_def)
  have apart: "\<forall>s \<in> set [\<lparr>sg_address = 0x80003000, sg_length = 2048\<rparr>].
      address_set (sg_address s) (sg_length s) \<inter> used_ring sample_queue = {}"
  proof -
    have False if x: "unat (x - 0x80003000) < 2048" "unat (x - 0x80002000) < 14" for x :: u64
    proof -
      have "x - 0x80002000 = (x - 0x80003000) + 0x1000" by simp
      then have "unat (x - 0x80002000) = unat (x - 0x80003000) + 0x1000"
        using x(1) by (simp only:) (subst unat_add_no_overflow, simp_all)
      then show False using x(2) by simp
    qed
    then show ?thesis by (auto simp: address_set_def used_ring_def sample_queue_def)
  qed
  show ?thesis
    using received_frame_delivered [of sample_net "replicate 14 7" 0 sample_ram sample_queue 0
        "[\<lparr>sg_address = 0x80003000, sg_length = 2048\<rparr>]"] d sample_offer apart
    by (auto simp: frame_length_ok_def)
qed

end
