(* ===== verification/Ncm.thy ===== *)
theory Ncm
  imports Net
begin

text \<open>
  \<open>drivers/usb/ncm.rs\<close>: blocks of Ethernet frames as the USB network class carries them.  A block starts
  with a header that points to a table of datagrams, and each table to the next.  An array with a count is
  the list of its first entries; an index or a copy out of range is a panic.
\<close>

definition NTB_SIZE :: nat where [simp]: "NTB_SIZE = 16384"
definition MAX_DATAGRAMS :: nat where [simp]: "MAX_DATAGRAMS = 16"
definition FRAME_OFFSET :: nat where [simp]: "FRAME_OFFSET = 30"

datatype ncm_error = NcmHeader | NcmPointer | NcmLength | NcmOverlap | NcmTooMany

record datagram =
  dg_offset :: nat
  dg_length :: nat

type_synonym ncm_block = "datagram list"

definition NCMH :: bytes where "NCMH = [78, 67, 77, 72]"
definition NCM0 :: bytes where "NCM0 = [78, 67, 77, 48]"

definition ncm_u16_at :: "bytes \<Rightarrow> nat \<Rightarrow> ncm_error + nat" where
  "ncm_u16_at bs i = (case slice_get i (i + 2) bs of None \<Rightarrow> Inl NcmLength | Some pair \<Rightarrow> Inr (unat (from_le16 pair)))"

definition overlaps :: "datagram \<Rightarrow> datagram \<Rightarrow> bool" where
  "overlaps a b \<longleftrightarrow> dg_offset a < dg_offset b + dg_length b \<and> dg_offset b < dg_offset a + dg_length a"


section \<open>Decoding\<close>

text \<open>The entries of a table, at the positions given; whether the table was terminated.\<close>

fun decode_entries :: "bytes \<Rightarrow> nat list \<Rightarrow> ncm_block \<Rightarrow> ncm_error + (bool \<times> ncm_block)" where
  "decode_entries bs [] block = Inr (False, block)"
| "decode_entries bs (e # es) block =
     and_then (ncm_u16_at bs e) (\<lambda>offset. and_then (ncm_u16_at bs (e + 2)) (\<lambda>len.
       if offset = 0 \<and> len = 0 then Inr (True, block)
       else if offset < 12 \<or> (offset + 14) mod 4 \<noteq> 0 \<or> \<not> frame_length_ok len \<or> offset + len > length bs
       then Inl NcmLength
       else if length block = MAX_DATAGRAMS then Inl NcmTooMany
       else
         let d = \<lparr>dg_offset = offset, dg_length = len\<rparr>
         in if list_ex (\<lambda>old. overlaps old d) block then Inl NcmOverlap
            else decode_entries bs es (block @ [d])))"

text \<open>\<open>(first..stop).step_by(4)\<close>\<close>

definition entry_positions :: "nat \<Rightarrow> nat \<Rightarrow> nat list" where
  "entry_positions first stop = map (\<lambda>i. first + i * 4) [0..<(stop - first + 3) div 4]"

text \<open>
  One turn of the loop over the tables: the tables and datagrams so far, and the next table.  There are
  never more than \<open>MAX_DATAGRAMS\<close> tables; the test for more in \<open>decode_tables\<close> only makes it total.
\<close>

definition decode_table ::
  "bytes \<Rightarrow> nat \<Rightarrow> datagram list \<Rightarrow> ncm_block \<Rightarrow> ncm_error + (nat \<times> datagram list \<times> ncm_block)" where
  "decode_table bs nxt tables block =
     (if length tables = MAX_DATAGRAMS then Inl NcmTooMany
      else if nxt < 12 \<or> nxt mod 4 \<noteq> 0 \<or> slice_get nxt (nxt + 4) bs \<noteq> Some NCM0 then Inl NcmPointer
      else and_then (ncm_u16_at bs (nxt + 4)) (\<lambda>sz.
        if sz < 12 \<or> sz mod 4 \<noteq> 0 \<or> nxt + sz > length bs then Inl NcmLength
        else
          let table = \<lparr>dg_offset = nxt, dg_length = sz\<rparr>
          in if list_ex (\<lambda>old. overlaps old table) tables then Inl NcmOverlap
             else and_then (decode_entries bs (entry_positions (nxt + 8) (nxt + sz)) block) (\<lambda>(terminated, block).
               if \<not> terminated then Inl NcmPointer
               else and_then (ncm_u16_at bs (nxt + 6)) (\<lambda>nxt. Inr (nxt, tables @ [table], block)))))"

function decode_tables ::
  "bytes \<Rightarrow> nat \<Rightarrow> datagram list \<Rightarrow> ncm_block \<Rightarrow> ncm_error + (datagram list \<times> ncm_block)" where
  "decode_tables bs nxt tables block =
     (if nxt = 0 then Inr (tables, block)
      else if length tables > MAX_DATAGRAMS then Inl NcmTooMany
      else case decode_table bs nxt tables block of
        Inl e \<Rightarrow> Inl e
      | Inr (nxt, tables, block) \<Rightarrow> decode_tables bs nxt tables block)"
  by pat_completeness auto

lemma decode_table_counts:
  "decode_table bs nxt tables block = Inr (nxt', tables', block') \<Longrightarrow>
    length tables \<noteq> MAX_DATAGRAMS \<and> length tables' = length tables + 1"
  by (auto simp: decode_table_def Let_def and_then_Inr_iff split: if_splits)

termination decode_tables
  by (relation "measure (\<lambda>(bs, nxt, tables, block). MAX_DATAGRAMS + 1 - length tables)")
    (auto dest!: decode_table_counts)

declare decode_tables.simps [simp del]

definition ncm_decode :: "bytes \<Rightarrow> ncm_error + ncm_block" where
  "ncm_decode bs =
     (if length bs < 12 \<or> length bs > NTB_SIZE \<or> take 4 bs \<noteq> NCMH then Inl NcmHeader
      else and_then (ncm_u16_at bs 4) (\<lambda>header.
        if header \<noteq> 12 then Inl NcmHeader
        else and_then (ncm_u16_at bs 8) (\<lambda>len.
          if len \<noteq> length bs then Inl NcmHeader
          else and_then (ncm_u16_at bs 10) (\<lambda>nxt.
            if nxt = 0 then Inl NcmPointer
            else and_then (decode_tables bs nxt [] []) (\<lambda>(tables, block).
              if list_ex (\<lambda>d. list_ex (\<lambda>table. overlaps table d) tables) block then Inl NcmOverlap
              else Inr block)))))"


section \<open>Encoding\<close>

text \<open>A block of one frame, with its table in front.\<close>

definition ncm_encode :: "bytes \<Rightarrow> u16 \<Rightarrow> bytes \<Rightarrow> ((ncm_error + nat) \<times> bytes) option" where
  "ncm_encode frame sequence out =
     (let len = FRAME_OFFSET + length frame
      in if \<not> frame_length_ok (length frame) \<or> length out < len then Some (Inl NcmLength, out)
         else do {
           out \<leftarrow> copy_at 0 FRAME_OFFSET (replicate FRAME_OFFSET 0) out;
           out \<leftarrow> copy_at 0 4 NCMH out;
           out \<leftarrow> copy_at 4 6 (to_le16 12) out;
           out \<leftarrow> copy_at 6 8 (to_le16 sequence) out;
           out \<leftarrow> copy_at 8 10 (to_le16 (word_of_nat len)) out;
           out \<leftarrow> copy_at 10 12 (to_le16 12) out;
           out \<leftarrow> copy_at 12 16 NCM0 out;
           out \<leftarrow> copy_at 16 18 (to_le16 16) out;
           out \<leftarrow> copy_at 20 22 (to_le16 (word_of_nat FRAME_OFFSET)) out;
           out \<leftarrow> copy_at 22 24 (to_le16 (word_of_nat (length frame))) out;
           out \<leftarrow> copy_at FRAME_OFFSET len frame out;
           Some (Inr len, out)
         })"

text \<open>A block of several frames: the frames in front, aligned so that their payload is, then the table.\<close>

record encoder =
  en_block :: ncm_block
  en_end :: nat

definition encoder_new :: encoder where
  "encoder_new = \<lparr>en_block = [], en_end = 12\<rparr>"

text \<open>\<open>x & !3\<close>\<close>

definition floor4 :: "nat \<Rightarrow> nat" where
  "floor4 x = x - x mod 4"

definition encoder_push :: "bytes \<Rightarrow> encoder \<Rightarrow> bytes \<Rightarrow> ((ncm_error + unit) \<times> encoder \<times> bytes) option" where
  "encoder_push frame en out =
     (if length (en_block en) = MAX_DATAGRAMS then Some (Inl NcmTooMany, en, out)
      else if \<not> frame_length_ok (length frame) then Some (Inl NcmLength, en, out)
      else
        let offset = floor4 (en_end en + 14 + 3) - 14;
            stop = offset + length frame;
            ndp = floor4 (stop + 3);
            needed = ndp + 8 + (length (en_block en) + 2) * 4
        in if needed > min (length out) NTB_SIZE then Some (Inl NcmLength, en, out)
           else do {
             out \<leftarrow> copy_at (en_end en) offset (replicate (offset - en_end en) 0) out;
             out \<leftarrow> copy_at offset stop frame out;
             Some (Inr (), \<lparr>en_block = en_block en @ [\<lparr>dg_offset = offset, dg_length = length frame\<rparr>], en_end = stop\<rparr>, out)
           })"

text \<open>The entries of the table, from position \<open>i\<close> on.\<close>

fun store_entries :: "nat \<Rightarrow> ncm_block \<Rightarrow> bytes \<Rightarrow> bytes option" where
  "store_entries i [] out = Some out"
| "store_entries i (d # ds) out =
     do {
       out \<leftarrow> copy_at i (i + 2) (to_le16 (word_of_nat (dg_offset d))) out;
       out \<leftarrow> copy_at (i + 2) (i + 4) (to_le16 (word_of_nat (dg_length d))) out;
       store_entries (i + 4) ds out
     }"

definition encoder_finish :: "u16 \<Rightarrow> encoder \<Rightarrow> bytes \<Rightarrow> ((ncm_error + nat) \<times> bytes) option" where
  "encoder_finish sequence en out =
     (let ndp = floor4 (en_end en + 3);
          sz = 8 + (length (en_block en) + 1) * 4;
          len = ndp + sz
      in if en_block en = [] \<or> len > min (length out) NTB_SIZE then Some (Inl NcmLength, out)
         else do {
           out \<leftarrow> copy_at 0 12 (NCMH @ [12, 0] @ to_le16 sequence @ to_le16 (word_of_nat len) @ to_le16 (word_of_nat ndp)) out;
           out \<leftarrow> copy_at (en_end en) len (replicate (len - en_end en) 0) out;
           out \<leftarrow> copy_at ndp (ndp + 4) NCM0 out;
           out \<leftarrow> copy_at (ndp + 4) (ndp + 6) (to_le16 (word_of_nat sz)) out;
           out \<leftarrow> store_entries (ndp + 8) (en_block en) out;
           Some (Inr len, out)
         })"


section \<open>Filling a block in the send path\<close>

text \<open>
  \<open>Xudc::send_frames\<close> and \<open>accepts_frame\<close> of \<open>drivers/usb/tegra210.rs\<close>: the frames the host's
  packet filter lets through are pushed up to the first that does not fit.
\<close>

definition accepts_frame :: "bytes \<Rightarrow> u16 \<Rightarrow> bool option" where
  "accepts_frame frame pf =
     (if pf AND 1 \<noteq> 0 then Some True
      else do {
        dest \<leftarrow> slice_get 0 6 frame;
        Some (dest = replicate 6 0xff \<and> pf AND 8 \<noteq> 0
           \<or> frame ! 0 AND 1 \<noteq> 0 \<and> pf AND 2 \<noteq> 0
           \<or> dest = HOST_MAC \<and> pf AND 4 \<noteq> 0)
      })"

fun push_frames :: "u16 \<Rightarrow> bytes list \<Rightarrow> encoder \<Rightarrow> nat \<Rightarrow> bytes \<Rightarrow> (encoder \<times> nat \<times> bytes) option" where
  "push_frames pf [] en count out = Some (en, count, out)"
| "push_frames pf (frame # frames) en count out =
     do {
       accepted \<leftarrow> accepts_frame frame pf;
       if \<not> accepted then push_frames pf frames en (count + 1) out
       else do {
         (result, en, out) \<leftarrow> encoder_push frame en out;
         case result of
           Inl e \<Rightarrow> Some (en, count, out)
         | Inr u \<Rightarrow> push_frames pf frames en (count + 1) out
       }
     }"

definition pack_frames :: "u16 \<Rightarrow> bytes list \<Rightarrow> u16 \<Rightarrow> bytes \<Rightarrow> ((ncm_error + nat) \<times> nat \<times> bytes) option" where
  "pack_frames pf frames sequence out =
     do {
       (en, count, out) \<leftarrow> push_frames pf frames encoder_new 0 out;
       (result, out) \<leftarrow> encoder_finish sequence en out;
       Some (result, count, out)
     }"


section \<open>The function's state\<close>

record ncm_function =
  nf_enabled :: bool
  nf_alternate :: u8
  nf_packet_filter :: u16
  nf_input_size :: nat

definition ncm_function_new :: "bool \<Rightarrow> ncm_function" where
  "ncm_function_new enabled =
     \<lparr>nf_enabled = enabled, nf_alternate = 0, nf_packet_filter = 0, nf_input_size = NTB_SIZE\<rparr>"

definition ncm_active :: "ncm_function \<Rightarrow> bool" where
  "ncm_active f \<longleftrightarrow> nf_enabled f \<and> nf_alternate f = 1"

definition ncm_parameters :: bytes where
  "ncm_parameters =
     to_le16 28 @ to_le16 1 @ to_le32 (of_nat NTB_SIZE) @ to_le16 4 @ [0, 0] @ to_le16 4 @ [0, 0]
     @ to_le32 (of_nat NTB_SIZE) @ to_le16 4 @ [0, 0] @ to_le16 4 @ to_le16 (of_nat MAX_DATAGRAMS)"


section \<open>A decoded block is safe to hand out\<close>

definition datagram_ok :: "nat \<Rightarrow> datagram \<Rightarrow> bool" where
  "datagram_ok n d \<longleftrightarrow> 12 \<le> dg_offset d \<and> (dg_offset d + 14) mod 4 = 0 \<and> frame_length_ok (dg_length d)
     \<and> dg_offset d + dg_length d \<le> n"

fun disjoint_datagrams :: "ncm_block \<Rightarrow> bool" where
  "disjoint_datagrams [] = True"
| "disjoint_datagrams (d # ds) \<longleftrightarrow> list_all (\<lambda>e. \<not> overlaps d e) ds \<and> disjoint_datagrams ds"

lemma disjoint_datagrams_append:
  "disjoint_datagrams (xs @ [d]) \<longleftrightarrow> disjoint_datagrams xs \<and> list_all (\<lambda>e. \<not> overlaps e d) xs"
  by (induction xs) auto

lemma disjoint_append:
  "disjoint_datagrams (xs @ ys) \<longleftrightarrow>
    disjoint_datagrams xs \<and> disjoint_datagrams ys \<and> list_all (\<lambda>x. list_all (\<lambda>y. \<not> overlaps x y) ys) xs"
  by (induction xs) auto

definition block_ok :: "nat \<Rightarrow> ncm_block \<Rightarrow> bool" where
  "block_ok n ds \<longleftrightarrow> length ds \<le> MAX_DATAGRAMS \<and> list_all (datagram_ok n) ds \<and> disjoint_datagrams ds"









section \<open>What the sender packs is what the decoder sees\<close>

lemma field_splice_within:
  assumes "a + length src \<le> length xs" "k + n \<le> length src"
  shows "field (a + k) n (splice a src xs) = field k n src"
  using assms by (intro nth_equalityI) (auto simp: field_def nth_splice)

lemma field_splice_same: "a + length src \<le> length xs \<Longrightarrow> n = length src \<Longrightarrow> field a n (splice a src xs) = src"
  using field_splice_within [of a src xs 0 n] by (simp add: field_def)

lemma field_splice_other:
  "a + length src \<le> length xs \<Longrightarrow> c + n \<le> a \<or> a + length src \<le> c \<Longrightarrow> field c n (splice a src xs) = field c n xs"
  by (simp add: field_def take_drop_splice_disjoint)

lemma field_take: "a + n \<le> m \<Longrightarrow> field a n (take m xs) = field a n xs"
  by (simp add: field_def drop_take min_def)

lemma field_replicate: "a + n \<le> m \<Longrightarrow> field a n (replicate m x) = replicate n x"
  by (simp add: field_def min_def)

lemma floor4: "floor4 x \<le> x" "x < floor4 x + 4" "floor4 x mod 4 = 0"
proof -
  show "floor4 x \<le> x" by (simp add: floor4_def)
  have "x mod 4 < 4" by simp
  then show "x < floor4 x + 4" unfolding floor4_def using mod_less_eq_dividend [of x 4] by linarith
  show "floor4 x mod 4 = 0" by (simp add: floor4_def minus_mod_eq_mult_div)
qed

lemma copy_at_Some: "a \<le> b \<Longrightarrow> b \<le> length xs \<Longrightarrow> length src = b - a \<Longrightarrow> copy_at a b src xs = Some (splice a src xs)"
  by (simp add: copy_at_def)

lemma datagram_eta [simp]: "\<lparr>dg_offset = dg_offset d, dg_length = dg_length d\<rparr> = d"
  by (cases d) simp

definition entry_bytes :: "datagram \<Rightarrow> bytes" where
  "entry_bytes d = to_le16 (word_of_nat (dg_offset d)) @ to_le16 (word_of_nat (dg_length d))"

lemma length_entry_bytes [simp]: "length (entry_bytes d) = 4"
  by (simp add: entry_bytes_def)

lemma length_entries [simp]: "length (concat (map entry_bytes ds)) = 4 * length ds"
  by (induction ds) auto

lemma splice_splice: "a + length x + length y \<le> length xs \<Longrightarrow> splice (a + length x) y (splice a x xs) = splice a (x @ y) xs"
proof -
  assume "a + length x + length y \<le> length xs"
  then have m: "min (length xs) a = a" "min a (length xs) = a" by simp_all
  show ?thesis by (simp add: splice_def m ac_simps)
qed

lemma store_entries_eq:
  "i + 4 * length ds \<le> length out \<Longrightarrow> store_entries i ds out = Some (splice i (concat (map entry_bytes ds)) out)"
proof (induction ds arbitrary: i out)
  case (Cons d ds)
  let ?o = "to_le16 (word_of_nat (dg_offset d))" and ?l = "to_le16 (word_of_nat (dg_length d))"
  have "splice (i + 2) ?l (splice i ?o out) = splice i (entry_bytes d) out"
    using splice_splice [of i ?o ?l out] Cons.prems by (simp add: entry_bytes_def)
  moreover have "splice (i + 4) (concat (map entry_bytes ds)) (splice i (entry_bytes d) out)
      = splice i (entry_bytes d @ concat (map entry_bytes ds)) out"
    using splice_splice [of i "entry_bytes d" _ out] Cons.prems by simp
  ultimately show ?case using Cons by (simp add: copy_at_Some)
qed (simp add: splice_def)


lemma entry_positions_0: "entry_positions p p = []"
  by (simp add: entry_positions_def)

lemma entry_positions_Suc: "entry_positions p (p + 4 * Suc n) = p # entry_positions (p + 4) (p + 4 + 4 * n)"
proof -
  have "(p + 4 * Suc n - p + 3) div 4 = Suc n" "(p + 4 + 4 * n - (p + 4) + 3) div 4 = n" by simp_all
  then show ?thesis
    by (simp only: entry_positions_def upt_conv_Cons [OF zero_less_Suc] map_Suc_upt [symmetric] list.map map_map)
      (simp add: comp_def ac_simps)
qed

lemma ncm_u16_at_field:
  "field p 2 bs = to_le16 (word_of_nat x) \<Longrightarrow> p + 2 \<le> length bs \<Longrightarrow> x < 65536 \<Longrightarrow> ncm_u16_at bs p = Inr x"
  by (simp add: ncm_u16_at_def slice_get_field' unat_of_nat)

lemma field_append_left: "field p (m + n) bs = x @ y \<Longrightarrow> length x = m \<Longrightarrow> p + m \<le> length bs \<Longrightarrow> field p m bs = x"
  and field_append_right: "field p (m + n) bs = x @ y \<Longrightarrow> length x = m \<Longrightarrow> p + m \<le> length bs \<Longrightarrow> field (p + m) n bs = y"
  by (simp_all add: field_split)

lemma zero_le16: "to_le16 0 = [0, 0]"
  by (simp add: to_le16_def numeral_2_eq_2)

lemma decode_entries_table:
  assumes "field p (4 * length ds + 4) bs = concat (map entry_bytes ds) @ [0, 0, 0, 0]"
    and "p + 4 * length ds + 4 \<le> length bs" and "length bs \<le> NTB_SIZE" and "block_ok (length bs) (block @ ds)"
  shows "decode_entries bs (entry_positions p (p + 4 * length ds + 4)) block = Inr (True, block @ ds)"
  using assms
proof (induction ds arbitrary: p block)
  case Nil
  have z: "field p (2 + 2) bs = to_le16 (word_of_nat 0) @ to_le16 (word_of_nat 0)"
    using Nil.prems(1) by (simp add: zero_le16)
  have "ncm_u16_at bs p = Inr 0" "ncm_u16_at bs (p + 2) = Inr 0"
    using field_append_left [OF z] field_append_right [OF z] Nil.prems(2)
    by (intro ncm_u16_at_field; simp)+
  then show ?case using entry_positions_Suc [of p 0] by (simp add: entry_positions_0)
next
  case (Cons d ds)
  let ?rest = "concat (map entry_bytes ds) @ [0, 0, 0, 0]"
  have e: "field p (4 + (4 * length ds + 4)) bs = entry_bytes d @ ?rest" using Cons.prems(1) by (simp add: ac_simps)
  have l: "field p (2 + 2) bs = entry_bytes d" using field_append_left [OF e] Cons.prems(2) by simp
  have r: "field (p + 4) (4 * length ds + 4) bs = ?rest" using field_append_right [OF e] Cons.prems(2) by simp
  have d: "datagram_ok (length bs) d" "length block < 16" "\<not> list_ex (\<lambda>old. overlaps old d) block"
    using Cons.prems(4) by (auto simp: block_ok_def list_ex_iff list_all_iff disjoint_append)
  then have small: "dg_offset d < 65536" "dg_length d < 65536" using Cons.prems(3) by (auto simp: datagram_ok_def)
  note l = l [unfolded entry_bytes_def]
  have "ncm_u16_at bs p = Inr (dg_offset d)"
    using field_append_left [OF l] Cons.prems(2) small by (intro ncm_u16_at_field) simp_all
  moreover have "ncm_u16_at bs (p + 2) = Inr (dg_length d)"
    using field_append_right [OF l] Cons.prems(2) small by (intro ncm_u16_at_field) simp_all
  moreover have "decode_entries bs (entry_positions (p + 4) (p + 4 + 4 * length ds + 4)) (block @ [d]) = Inr (True, (block @ [d]) @ ds)"
    using Cons.prems r by (intro Cons.IH) simp_all
  ultimately show ?case
    using d entry_positions_Suc [of p "length (d # ds)"]
    by (auto simp: datagram_ok_def Let_def ac_simps)
qed


text \<open>The frames of an encoder, where its block says they are.\<close>

definition holds :: "bytes \<Rightarrow> ncm_block \<Rightarrow> bytes list \<Rightarrow> bool" where
  "holds out ds fs \<longleftrightarrow> list_all2 (\<lambda>d f. dg_length d = length f \<and> field (dg_offset d) (length f) out = f) ds fs"

definition encoded :: "encoder \<Rightarrow> bytes list \<Rightarrow> bytes \<Rightarrow> bool" where
  "encoded en fs out \<longleftrightarrow> holds out (en_block en) fs \<and> block_ok (en_end en) (en_block en) \<and> 12 \<le> en_end en
     \<and> en_end en \<le> 12 + (\<Sum>f\<leftarrow>fs. length f + 3)
     \<and> (en_block en \<noteq> [] \<longrightarrow> floor4 (en_end en + 3) + 8 + (length (en_block en) + 1) * 4 \<le> min (length out) NTB_SIZE)"

lemma holds_length: "holds out ds fs \<Longrightarrow> length ds = length fs"
  by (auto simp: holds_def dest: list_all2_lengthD)

lemma holds_splice:
  assumes "holds out ds fs" and "list_all (datagram_ok n) ds" and "n \<le> a \<or> a + length src \<le> 12"
    and "a + length src \<le> length out"
  shows "holds (splice a src out) ds fs"
  unfolding holds_def
proof (rule list_all2_all_nthI)
  show "length ds = length fs" by (rule holds_length) (fact assms(1))
  fix i assume i: "i < length ds"
  from assms(1) i have "dg_length (ds ! i) = length (fs ! i)" "field (dg_offset (ds ! i)) (length (fs ! i)) out = fs ! i"
    by (auto simp: holds_def dest: list_all2_nthD)
  moreover from assms(2) i have "datagram_ok n (ds ! i)" by (simp add: list_all_length)
  ultimately show "dg_length (ds ! i) = length (fs ! i) \<and> field (dg_offset (ds ! i)) (length (fs ! i)) (splice a src out) = fs ! i"
    using assms(3,4) by (subst field_splice_other) (auto simp: datagram_ok_def)
qed

lemma encoded_new: "encoded encoder_new [] out"
  by (simp add: encoded_def encoder_new_def holds_def block_ok_def)

lemma datagram_ok_mono: "datagram_ok m d \<Longrightarrow> m \<le> n \<Longrightarrow> datagram_ok n d"
  by (simp add: datagram_ok_def)

lemma encoder_push_encoded:
  assumes enc: "encoded en fs out"
  shows "\<exists>r en' out'. encoder_push f en out = Some (r, en', out') \<and> length out' = length out
    \<and> (case r of
          Inl e \<Rightarrow> en' = en \<and> out' = out \<and> (length fs = MAX_DATAGRAMS \<or> \<not> frame_length_ok (length f)
            \<or> min (length out) NTB_SIZE < en_end en + length f + 4 * length fs + 24)
        | Inr u \<Rightarrow> encoded en' (fs @ [f]) out')"
proof -
  let ?e = "en_end en" and ?n = "length (en_block en)"
  let ?o = "floor4 (?e + 14 + 3) - 14"
  let ?stop = "?o + length f"
  have n: "?n = length fs" "?n \<le> MAX_DATAGRAMS" "12 \<le> ?e" "?e \<le> 12 + (\<Sum>f\<leftarrow>fs. length f + 3)"
    using enc holds_length by (auto simp: encoded_def block_ok_def)
  have o: "?e \<le> ?o" "?o \<le> ?e + 3" "(?o + 14) mod 4 = 0"
    using floor4 [of "?e + 17"] n(3) by (simp_all add: ac_simps)
  have ndp: "?stop \<le> floor4 (?stop + 3)" "floor4 (?stop + 3) \<le> ?stop + 3" using floor4 [of "?stop + 3"] by simp_all
  consider (many) "?n = MAX_DATAGRAMS" | (bad) "?n \<noteq> MAX_DATAGRAMS" "\<not> frame_length_ok (length f)"
    | (full) "?n \<noteq> MAX_DATAGRAMS" "frame_length_ok (length f)" "floor4 (?stop + 3) + 8 + (?n + 2) * 4 > min (length out) NTB_SIZE"
    | (fits) "?n \<noteq> MAX_DATAGRAMS" "frame_length_ok (length f)" "floor4 (?stop + 3) + 8 + (?n + 2) * 4 \<le> min (length out) NTB_SIZE"
    by linarith
  then show ?thesis
  proof cases
    case fits
    let ?out = "splice ?o f (splice ?e (replicate (?o - ?e) 0) out)"
    let ?en = "\<lparr>en_block = en_block en @ [\<lparr>dg_offset = ?o, dg_length = length f\<rparr>], en_end = ?stop\<rparr>"
    have len: "?stop \<le> length out" using fits(3) ndp by simp
    have "encoder_push f en out = Some (Inr (), ?en, ?out)"
      using fits len o by (simp add: encoder_push_def Let_def copy_at_Some del: min.bounded_iff)
    moreover have "length ?out = length out" using len o by simp
    moreover have "holds ?out (en_block en @ [\<lparr>dg_offset = ?o, dg_length = length f\<rparr>]) (fs @ [f])"
    proof -
      have "holds ?out (en_block en) fs"
        using enc o len by (intro holds_splice [where n = ?e]) (auto simp: encoded_def block_ok_def)
      then show ?thesis using o len by (simp add: holds_def list_all2_appendI field_splice_same)
    qed
    moreover have "block_ok ?stop (en_block en @ [\<lparr>dg_offset = ?o, dg_length = length f\<rparr>])"
      using enc o n fits
      by (auto simp: encoded_def block_ok_def disjoint_datagrams_append overlaps_def list_all_iff datagram_ok_def)
    ultimately show ?thesis using fits o n len by (auto simp: encoded_def)
  qed (use n o ndp in \<open>auto simp: encoder_push_def Let_def\<close>)
qed


text \<open>A block of one table that overlaps none of its frames.\<close>

definition one_table :: "nat \<Rightarrow> ncm_block \<Rightarrow> datagram" where
  "one_table ndp ds = \<lparr>dg_offset = ndp, dg_length = 8 + (length ds + 1) * 4\<rparr>"

lemma decode_one_table:
  assumes head: "field 0 12 bs = NCMH @ [12, 0] @ to_le16 sequence @ to_le16 (word_of_nat (length bs)) @ to_le16 (word_of_nat ndp)"
    and table: "field ndp 4 bs = NCM0" "field (ndp + 4) 2 bs = to_le16 (word_of_nat (8 + (length ds + 1) * 4))"
      "field (ndp + 6) 2 bs = [0, 0]" "field (ndp + 8) (4 * length ds + 4) bs = concat (map entry_bytes ds) @ [0, 0, 0, 0]"
    and len: "ndp + 8 + (length ds + 1) * 4 \<le> length bs" "length bs \<le> NTB_SIZE"
    and ndp: "12 \<le> ndp" "ndp mod 4 = 0" and ok: "block_ok (length bs) ds"
    and apart: "list_all (\<lambda>d. \<not> overlaps (one_table ndp ds) d) ds"
  shows "ncm_decode bs = Inr ds"
proof -
  have ok': "block_ok (length bs) ([] @ ds)" using ok by simp
  have z: "field (ndp + 6) 2 bs = to_le16 (word_of_nat 0)" using table(3) by (simp add: zero_le16)
  have sig: "take 4 bs = NCMH" and header: "field 4 2 bs = to_le16 (word_of_nat 12)"
    and size: "field 8 2 bs = to_le16 (word_of_nat (length bs))" and nxt: "field 10 2 bs = to_le16 (word_of_nat ndp)"
  proof -
    have f: "field a n bs = field a n (NCMH @ [12, 0] @ to_le16 sequence @ to_le16 (word_of_nat (length bs)) @ to_le16 (word_of_nat ndp))"
      if "a + n \<le> 12" for a n using that field_take [of a n 12 bs] head by (simp add: field_def)
    have "le_bytes 2 v = [word_of_nat v, word_of_nat (v div 256)]" for v by (simp add: numeral_2_eq_2)
    then have "to_le16 (word_of_nat 12) = [12, 0]" by (simp add: to_le16_def)
    then show "field 4 2 bs = to_le16 (word_of_nat 12)" by - (rule trans [OF f], simp_all add: field_def NCMH_def)
    show "field 8 2 bs = to_le16 (word_of_nat (length bs))"
      by (rule trans [OF f]) (simp_all add: field_def NCMH_def)
    show "field 10 2 bs = to_le16 (word_of_nat ndp)"
      by (rule trans [OF f]) (simp_all add: field_def NCMH_def)
    show "take 4 bs = NCMH" using f [of 0 4] by (simp add: field_def NCMH_def)
  qed
  have u: "ncm_u16_at bs 4 = Inr 12" "ncm_u16_at bs 8 = Inr (length bs)" "ncm_u16_at bs 10 = Inr ndp"
    "ncm_u16_at bs (ndp + 4) = Inr (8 + (length ds + 1) * 4)" "ncm_u16_at bs (ndp + 6) = Inr 0"
    using len ndp by (rule_tac [!] ncm_u16_at_field) (use header size nxt table(2) z in simp_all)
  have magic: "slice_get ndp (ndp + 4) bs = Some NCM0" using table(1) len by (simp add: slice_get_field')
  have "decode_entries bs (entry_positions (ndp + 8) (ndp + 8 + 4 * length ds + 4)) [] = Inr (True, [] @ ds)"
    using table(4) len ok' by (intro decode_entries_table) simp_all
  then have entries: "decode_entries bs (entry_positions (ndp + 8) (ndp + (8 + (length ds + 1) * 4))) [] = Inr (True, ds)"
    by (simp add: ac_simps)
  define t where "t = one_table ndp ds"
  have "decode_table bs ndp [] [] = Inr (0, [t], ds)"
    using u(4,5) magic entries len ndp by (simp add: decode_table_def Let_def t_def one_table_def)
  then have tables: "decode_tables bs ndp [] [] = Inr ([t], ds)"
    using ndp by (subst decode_tables.simps) (simp add: decode_tables.simps [of bs 0])
  have "\<not> list_ex (\<lambda>d. list_ex (\<lambda>table. overlaps table d) [t]) ds"
    using apart by (auto simp: list_ex_iff list_all_iff t_def)
  with tables u(1-3) sig ndp len show ?thesis by (simp add: ncm_decode_def)
qed

lemma encoder_finish_decodes:
  assumes enc: "encoded en fs out" and some: "en_block en \<noteq> []"
  shows "\<exists>len out'. encoder_finish sequence en out = Some (Inr len, out') \<and> length out' = length out \<and> len \<le> length out
    \<and> ncm_decode (take len out') = Inr (en_block en) \<and> holds out' (en_block en) fs"
proof -
  let ?e = "en_end en" and ?n = "length (en_block en)"
  define ndp where "ndp = floor4 (?e + 3)"
  define sz where "sz = 8 + (?n + 1) * 4"
  let ?len = "ndp + sz"
  have ndp: "?e \<le> ndp" "ndp mod 4 = 0" "12 \<le> ?e" using floor4 [of "?e + 3"] enc by (simp_all add: ndp_def encoded_def)
  have fit: "?len \<le> min (length out) NTB_SIZE" using enc some by (simp add: encoded_def ndp_def sz_def)
  define header where "header = NCMH @ [12, 0] @ to_le16 sequence @ to_le16 (word_of_nat ?len) @ to_le16 (word_of_nat ndp)"
  have h: "length header = 12" by (simp add: header_def NCMH_def)
  define o1 where "o1 = splice 0 header out"
  define o2 where "o2 = splice ?e (replicate (?len - ?e) 0) o1"
  define o3 where "o3 = splice ndp NCM0 o2"
  define o4 where "o4 = splice (ndp + 4) (to_le16 (word_of_nat sz)) o3"
  define o5 where "o5 = splice (ndp + 8) (concat (map entry_bytes (en_block en))) o4"
  have m: "length NCM0 = 4" by (simp add: NCM0_def)
  have l1: "length o1 = length out" using fit ndp h by (simp add: o1_def)
  have l2: "length o2 = length out" using fit ndp l1 by (simp add: o2_def)
  have l3: "length o3 = length out" using fit l2 m by (simp add: o3_def sz_def)
  have l4: "length o4 = length out" using fit l3 by (simp add: o4_def sz_def)
  have l5: "length o5 = length out" using fit l4 by (simp add: o5_def sz_def)
  have "encoder_finish sequence en out = Some (Inr ?len, o5)"
  proof -
    have "copy_at 0 12 header out = Some o1" using fit ndp h by (simp add: copy_at_Some o1_def)
    moreover have "copy_at ?e ?len (replicate (?len - ?e) 0) o1 = Some o2" using fit ndp l1 by (simp add: copy_at_Some o2_def)
    moreover have "copy_at ndp (ndp + 4) NCM0 o2 = Some o3" using fit l2 m by (simp add: copy_at_Some o3_def sz_def)
    moreover have "copy_at (ndp + 4) (ndp + 6) (to_le16 (word_of_nat sz)) o3 = Some o4"
      using fit l3 by (simp add: copy_at_Some o4_def sz_def)
    moreover have "store_entries (ndp + 8) (en_block en) o4 = Some o5"
      using fit l4 by (subst store_entries_eq) (simp_all add: o5_def sz_def)
    ultimately show ?thesis
      using some fit unfolding encoder_finish_def Let_def ndp_def [symmetric] sz_def [symmetric] header_def [symmetric]
      by (simp del: min.bounded_iff)
  qed
  moreover have "holds o5 (en_block en) fs"
  proof -
    have ds: "list_all (datagram_ok ?e) (en_block en)" and "holds out (en_block en) fs"
      using enc by (simp_all add: encoded_def block_ok_def)
    then have "holds o1 (en_block en) fs" using fit ndp h by (auto simp: o1_def intro: holds_splice)
    then have "holds o2 (en_block en) fs" using fit ndp l1 ds by (auto simp: o2_def intro: holds_splice)
    then have "holds o3 (en_block en) fs" using fit ndp l2 ds m by (auto simp: o3_def sz_def intro: holds_splice)
    then have "holds o4 (en_block en) fs" using fit ndp l3 ds by (auto simp: o4_def sz_def intro: holds_splice)
    then show ?thesis using fit ndp l4 ds by (auto simp: o5_def sz_def intro: holds_splice)
  qed
  moreover have "ncm_decode (take ?len o5) = Inr (en_block en)"
  proof (rule decode_one_table [where ndp = ndp and sequence = sequence])
    have len: "length (take ?len o5) = ?len" using fit l5 by simp
    note other = field_splice_other
    have rep: "replicate 2 (0 :: u8) = [0, 0]" "replicate 4 (0 :: u8) = [0, 0, 0, 0]" by (simp_all add: eval_nat_numeral)
    have zeros: "field (?e + k) n o2 = replicate n 0" if "k + n \<le> ?len - ?e" for k n
      using that fit ndp l1 unfolding o2_def by (subst field_splice_within) (simp_all add: field_replicate)
    have zeros': "field a n o2 = replicate n 0" if "ndp \<le> a" "a + n \<le> ?len" for a n
      using zeros [of "a - ?e" n] that ndp by simp
    show "field 0 12 (take ?len o5) = NCMH @ [12, 0] @ to_le16 sequence
        @ to_le16 (word_of_nat (length (take ?len o5))) @ to_le16 (word_of_nat ndp)"
      unfolding len header_def [symmetric] using fit ndp l1 l2 l3 l4 h m
      by (simp add: field_take o5_def o4_def o3_def o2_def o1_def other field_splice_same sz_def)
    show "field ndp 4 (take ?len o5) = NCM0"
      using fit ndp l2 l3 l4 m by (simp add: field_take o5_def o4_def o3_def other field_splice_same sz_def)
    show "field (ndp + 4) 2 (take ?len o5) = to_le16 (word_of_nat (8 + (?n + 1) * 4))"
      using fit ndp l3 l4 by (simp add: field_take o5_def o4_def other field_splice_same sz_def)
    show "field (ndp + 6) 2 (take ?len o5) = [0, 0]"
      using fit ndp l2 l3 l4 m zeros' [of "ndp + 6" 2]
      by (simp add: field_take o5_def o4_def o3_def other sz_def rep)
    have "field (ndp + 8 + 4 * ?n) 4 o5 = [0, 0, 0, 0]"
      using fit ndp l2 l3 l4 m zeros' [of "ndp + 8 + 4 * ?n" 4]
      by (simp add: o5_def o4_def o3_def other sz_def rep)
    then show "field (ndp + 8) (4 * ?n + 4) (take ?len o5) = concat (map entry_bytes (en_block en)) @ [0, 0, 0, 0]"
      using fit l4 by (simp add: field_take field_split o5_def field_splice_same sz_def)
    show "ndp + 8 + (?n + 1) * 4 \<le> length (take ?len o5)" "length (take ?len o5) \<le> NTB_SIZE" "ndp mod 4 = 0" "12 \<le> ndp"
      using fit ndp unfolding len by (simp_all add: sz_def)
    show "block_ok (length (take ?len o5)) (en_block en)"
      using enc ndp unfolding len by (auto simp: encoded_def block_ok_def list_all_iff intro: datagram_ok_mono)
    show "list_all (\<lambda>d. \<not> overlaps (one_table ndp (en_block en)) d) (en_block en)"
      using enc ndp by (auto simp: encoded_def block_ok_def list_all_iff overlaps_def one_table_def datagram_ok_def)
  qed
  ultimately show ?thesis using fit l5 by auto
qed


text \<open>A frame on its own, with its table in front.\<close>

definition frame_block :: "u16 \<Rightarrow> bytes \<Rightarrow> bytes" where
  "frame_block sequence frame =
     NCMH @ to_le16 12 @ to_le16 sequence @ to_le16 (word_of_nat (30 + length frame)) @ to_le16 12
     @ NCM0 @ to_le16 16 @ [0, 0] @ to_le16 30 @ to_le16 (word_of_nat (length frame)) @ replicate 6 0 @ frame"

lemma splice_zeros:
  "length pre + k = a \<Longrightarrow> k + length src \<le> m \<Longrightarrow>
    splice a src (pre @ replicate m 0) = (pre @ replicate k 0 @ src) @ replicate (m - k - length src) 0"
  by (auto simp: splice_def take_replicate)

lemma ncm_encode_eq:
  "frame_length_ok (length frame) \<Longrightarrow> 30 + length frame \<le> length out \<Longrightarrow>
    ncm_encode frame sequence out = Some (Inr (30 + length frame), splice 0 (frame_block sequence frame) out)"
proof -
  assume frame: "frame_length_ok (length frame)" and out: "30 + length frame \<le> length out"
  have l: "length NCMH = 4" "length NCM0 = 4" by (simp_all add: NCMH_def NCM0_def)
  define filled where "filled z = splice 0 z out" for z
  have s0: "copy_at 0 30 (replicate 30 0) out = Some (filled (replicate 30 0))"
    using out by (simp add: copy_at_Some filled_def)
  have s1: "copy_at a b src (filled z) = Some (filled (splice a src z))"
    if "length z = 30" "length src = b - a" "a \<le> b" "b \<le> 30" for a b src z
    unfolding filled_def using that out by (intro copy_at_inside) simp_all
  have s2: "copy_at 30 (30 + length frame) frame (filled z) = Some (filled (z @ frame))" if "length z = 30" for z
    unfolding filled_def using that out by (intro copy_at_append) simp_all
  let ?z = "[] @ replicate 30 (0 :: u8)"
  have front: "splice 22 (to_le16 (word_of_nat (length frame))) (splice 20 (to_le16 30) (splice 16 (to_le16 16)
      (splice 12 NCM0 (splice 10 (to_le16 12) (splice 8 (to_le16 (word_of_nat (30 + length frame)))
      (splice 6 (to_le16 sequence) (splice 4 (to_le16 12) (splice 0 NCMH ?z))))))))
    = NCMH @ to_le16 12 @ to_le16 sequence @ to_le16 (word_of_nat (30 + length frame)) @ to_le16 12
     @ NCM0 @ to_le16 16 @ replicate 2 0 @ to_le16 30 @ to_le16 (word_of_nat (length frame)) @ replicate 6 0"
    (is "?l = ?r")
  proof -
    note z = splice_zeros [where k = 0]
    have z2: "splice 20 src (pre @ replicate m 0) = (pre @ replicate 2 0 @ src) @ replicate (m - 2 - length src) 0"
      if "length pre = 18" "2 + length src \<le> m" for src pre :: bytes and m using that by (intro splice_zeros) simp_all
    show ?thesis by (simp add: z z2 l del: append_assoc append_Nil)
  qed
  have "ncm_encode frame sequence out = Some (Inr (30 + length frame), filled (?l @ frame))"
    using frame out unfolding ncm_encode_def Let_def by (simp add: s0 s1 s2 l)
  also have "?l @ frame = frame_block sequence frame"
    unfolding front by (simp add: frame_block_def numeral_2_eq_2)
  finally show ?thesis by (simp add: filled_def)
qed

lemma ncm_encode_decodes:
  assumes "frame_length_ok (length frame)" and "30 + length frame \<le> length out"
  shows "\<exists>out'. ncm_encode frame sequence out = Some (Inr (30 + length frame), out')
    \<and> ncm_decode (take (30 + length frame) out') = Inr [\<lparr>dg_offset = 30, dg_length = length frame\<rparr>]
    \<and> take (length frame) (drop 30 out') = frame"
proof -
  let ?d = "\<lparr>dg_offset = 30, dg_length = length frame\<rparr>" and ?b = "frame_block sequence frame"
  have l: "length NCMH = 4" "length NCM0 = 4" by (simp_all add: NCMH_def NCM0_def)
  have len: "length ?b = 30 + length frame" by (simp add: frame_block_def l)
  have "ncm_decode ?b = Inr [?d]"
  proof (rule decode_one_table [where ndp = 12 and sequence = sequence])
    have le: "le_bytes 2 v = [word_of_nat v, word_of_nat (v div 256)]" for v by (simp add: numeral_2_eq_2)
    then have "to_le16 12 = [12, 0]" by (simp add: to_le16_def)
    then show "field 0 12 ?b = NCMH @ [12, 0] @ to_le16 sequence @ to_le16 (word_of_nat (length ?b)) @ to_le16 (word_of_nat 12)"
      unfolding len by (simp add: field_def frame_block_def l)
    show "field 12 4 ?b = NCM0" "field (12 + 4) 2 ?b = to_le16 (word_of_nat (8 + (length [?d] + 1) * 4))"
      "field (12 + 6) 2 ?b = [0, 0]"
      by (simp_all add: field_def frame_block_def l)
    have "replicate 6 (0 :: u8) = [0, 0, 0, 0] @ [0, 0]" by (simp add: eval_nat_numeral)
    then show "field (12 + 8) (4 * length [?d] + 4) ?b = concat (map entry_bytes [?d]) @ [0, 0, 0, 0]"
      by (simp add: field_def frame_block_def l entry_bytes_def)
    show "block_ok (length ?b) [?d]" using assms(1) by (simp add: len block_ok_def datagram_ok_def)
  qed (use assms(1) in \<open>simp_all add: len overlaps_def one_table_def frame_length_ok_def\<close>)
  moreover have "take (30 + length frame) (splice 0 ?b out) = ?b" using len by (simp add: splice_def)
  moreover have "take (length frame) (drop 30 (splice 0 ?b out)) = frame"
    by (simp add: splice_def frame_block_def l)
  ultimately show ?thesis using ncm_encode_eq [OF assms] by auto
qed

text \<open>The send path as a whole.\<close>

definition accepted :: "u16 \<Rightarrow> bytes list \<Rightarrow> bytes list" where
  "accepted pf frames = filter (\<lambda>f. accepts_frame f pf = Some True) frames"

lemma accepts_frame_None: "accepts_frame f pf = None \<Longrightarrow> length f < 6"
  by (auto simp: accepts_frame_def slice_get_def split: if_splits)

lemma push_frames_encoded:
  "encoded en fs out \<Longrightarrow> push_frames pf frames en count out = Some (en', count', out') \<Longrightarrow>
    count \<le> count' \<and> count' \<le> count + length frames \<and> length out' = length out
    \<and> encoded en' (fs @ accepted pf (take (count' - count) frames)) out'
    \<and> (count' < count + length frames \<longrightarrow> length (en_block en') = MAX_DATAGRAMS
        \<or> \<not> frame_length_ok (length (frames ! (count' - count)))
        \<or> min (length out) NTB_SIZE < en_end en' + length (frames ! (count' - count)) + 4 * length (en_block en') + 24)"
proof (induction pf frames en count out arbitrary: fs rule: push_frames.induct)
  case (2 pf f frames en count out)
  from "2.prems"(2) obtain acc where acc: "accepts_frame f pf = Some acc" by (auto simp: bind_eq_Some_conv)
  have step: "count \<le> count' \<and> count' \<le> count + length (f # frames) \<and> length out' = length out
      \<and> encoded en' (fs @ accepted pf (take (count' - count) (f # frames))) out'
      \<and> (count' < count + length (f # frames) \<longrightarrow> length (en_block en') = MAX_DATAGRAMS
        \<or> \<not> frame_length_ok (length ((f # frames) ! (count' - count)))
        \<or> min (length out) NTB_SIZE < en_end en' + length ((f # frames) ! (count' - count)) + 4 * length (en_block en') + 24)"
    if "count + 1 \<le> count' \<and> count' \<le> count + 1 + length frames \<and> length out' = length out''
      \<and> encoded en' (gs @ accepted pf (take (count' - (count + 1)) frames)) out'
      \<and> (count' < count + 1 + length frames \<longrightarrow> length (en_block en') = MAX_DATAGRAMS
        \<or> \<not> frame_length_ok (length (frames ! (count' - (count + 1))))
        \<or> min (length out'') NTB_SIZE < en_end en' + length (frames ! (count' - (count + 1))) + 4 * length (en_block en') + 24)"
      "gs = (if acc then fs @ [f] else fs)" "length out'' = length out" for gs out''
  proof -
    from that(1) obtain k where "count' = Suc (count + k)" by (metis add_Suc less_eqE plus_1_eq_Suc add.commute)
    with that acc show ?thesis by (auto simp: accepted_def)
  qed
  show ?case
  proof (cases acc)
    case False
    with "2.prems"(2) acc have "push_frames pf frames en (count + 1) out = Some (en', count', out')" by simp
    from "2.IH"(1) [OF acc _ "2.prems"(1) this] False show ?thesis by (intro step) auto
  next
    case True
    from encoder_push_encoded [OF "2.prems"(1), of f] obtain r en1 out1 where push: "encoder_push f en out = Some (r, en1, out1)"
      "length out1 = length out"
      "case r of Inl e \<Rightarrow> en1 = en \<and> out1 = out \<and> (length fs = MAX_DATAGRAMS \<or> \<not> frame_length_ok (length f)
            \<or> min (length out) NTB_SIZE < en_end en + length f + 4 * length fs + 24)
        | Inr u \<Rightarrow> encoded en1 (fs @ [f]) out1" by blast
    have "length (en_block en) = length fs" using "2.prems"(1) holds_length by (auto simp: encoded_def)
    show ?thesis
    proof (cases r)
      case (Inl e)
      with push "2.prems" acc True \<open>length (en_block en) = length fs\<close> show ?thesis by (auto simp: accepted_def)
    next
      case (Inr u)
      then have run: "push_frames pf frames en1 (count + 1) out1 = Some (en', count', out')"
        using "2.prems"(2) acc True push by simp
      have "encoded en1 (fs @ [f]) out1" using push(3) Inr by simp
      from "2.IH"(2) [OF acc _ push(1) refl refl Inr this run] True push(2)
      show ?thesis by (intro step [of out1]) auto
    qed
  qed
qed (simp add: accepted_def)


lemma push_frames_None: "encoded en fs out \<Longrightarrow> push_frames pf frames en count out = None \<Longrightarrow> list_ex (\<lambda>f. length f < 6) frames"
proof (induction pf frames en count out arbitrary: fs rule: push_frames.induct)
  case (2 pf f frames en count out)
  show ?case
  proof (cases "accepts_frame f pf")
    case None
    then show ?thesis by (auto dest: accepts_frame_None)
  next
    case (Some acc)
    from encoder_push_encoded [OF "2.prems"(1), of f] obtain r en1 out1 where push: "encoder_push f en out = Some (r, en1, out1)"
      "case r of Inl e \<Rightarrow> True | Inr u \<Rightarrow> encoded en1 (fs @ [f]) out1" by (fastforce split: sum.splits)
    then show ?thesis
      using "2.prems" Some "2.IH"(1) [OF Some _ "2.prems"(1)] "2.IH"(2) [OF Some _ push(1) refl refl]
      by (cases acc) (auto split: sum.splits)
  qed
qed simp

lemma encoder_finish_empty: "en_block en = [] \<Longrightarrow> encoder_finish sequence en out = Some (Inl NcmLength, out)"
  by (simp add: encoder_finish_def Let_def)

definition block_frames :: "bytes \<Rightarrow> ncm_block \<Rightarrow> bytes list" where
  "block_frames bs ds = map (\<lambda>d. take (dg_length d) (drop (dg_offset d) bs)) ds"

lemma holds_block_frames: "holds out ds fs \<Longrightarrow> block_frames out ds = fs"
  by (auto simp: holds_def block_frames_def list_all2_conv_all_nth field_def intro!: nth_equalityI)

lemma push_frames_stops:
  assumes "push_frames pf frames encoder_new 0 out = Some (en, count, out1)"
  shows "count = length frames \<or> length (accepted pf (take count frames)) = MAX_DATAGRAMS
      \<or> length (frames ! count) < 14 \<or> FRAME_SIZE < length (frames ! count)
      \<or> min (length out) NTB_SIZE
          < 36 + (\<Sum>f\<leftarrow>accepted pf (take count frames). length f + 7) + length (frames ! count)"
proof -
  note push = push_frames_encoded [OF encoded_new assms]
  have enc: "encoded en (accepted pf (take count frames)) out1" using push by simp
  have n: "length (en_block en) = length (accepted pf (take count frames))"
    using enc holds_length by (auto simp: encoded_def)
  have pad: "(\<Sum>f\<leftarrow>fs. length f + 3) + 4 * length fs = (\<Sum>f\<leftarrow>fs. length f + 7)" for fs :: "bytes list"
    by (induction fs) auto
  have "en_end en \<le> 12 + (\<Sum>f\<leftarrow>accepted pf (take count frames). length f + 3)"
    using enc by (simp add: encoded_def)
  with pad [of "accepted pf (take count frames)"]
  have "en_end en + 4 * length (en_block en) \<le> 12 + (\<Sum>f\<leftarrow>accepted pf (take count frames). length f + 7)"
    unfolding n by linarith
  with push n show ?thesis by (auto simp: frame_length_ok_def not_le)
qed

text \<open>
  C36: sending is decoding's inverse.  The loop over the waiting frames and the encoder's end panic only on
  a frame shorter than an address.  Otherwise some first \<open>count\<close> frames are consumed; if any of them passes
  the filter, the bytes written decode to a block whose frames are exactly those that pass, in order, and if
  none passes the buffer is left alone.  The loop stops early only at a frame that is too long or too
  short, after sixteen frames, or where the frame with its alignment and table entry no longer fits.
\<close>

theorem ncm_batch_roundtrip:
  "case pack_frames pf frames sequence out of
     None \<Rightarrow> list_ex (\<lambda>f. length f < 6) frames
   | Some (result, count, out') \<Rightarrow>
       count \<le> length frames \<and> length out' = length out
       \<and> (case result of
            Inl e \<Rightarrow> accepted pf (take count frames) = []
          | Inr len \<Rightarrow> accepted pf (take count frames) \<noteq> [] \<and> len \<le> length out
              \<and> (case ncm_decode (take len out') of
                   Inl e \<Rightarrow> False
                 | Inr ds \<Rightarrow> block_frames out' ds = accepted pf (take count frames)))
       \<and> (count = length frames \<or> length (accepted pf (take count frames)) = MAX_DATAGRAMS
          \<or> length (frames ! count) < 14 \<or> FRAME_SIZE < length (frames ! count)
          \<or> min (length out) NTB_SIZE
              < 36 + (\<Sum>f\<leftarrow>accepted pf (take count frames). length f + 7) + length (frames ! count))"
proof (cases "push_frames pf frames encoder_new 0 out")
  case None
  with push_frames_None [OF encoded_new] show ?thesis by (simp add: pack_frames_def)
next
  case (Some x)
  then obtain en count out1 where push: "push_frames pf frames encoder_new 0 out = Some (en, count, out1)" by (cases x) auto
  from push_frames_encoded [OF encoded_new push]
  have facts: "count \<le> length frames" "length out1 = length out" "encoded en (accepted pf (take count frames)) out1"
    by simp_all
  note stopped = push_frames_stops [OF push]
  show ?thesis
  proof (cases "en_block en = []")
    case True
    then have "accepted pf (take count frames) = []" using facts(3) by (auto simp: encoded_def holds_def)
    with True push facts stopped show ?thesis by (simp add: pack_frames_def encoder_finish_empty)
  next
    case False
    then have some: "accepted pf (take count frames) \<noteq> []" using facts(3) by (auto simp: encoded_def holds_def)
    from encoder_finish_decodes [OF facts(3) False, of sequence] obtain len out' where fin:
      "encoder_finish sequence en out1 = Some (Inr len, out')" "length out' = length out1" "len \<le> length out1"
      "ncm_decode (take len out') = Inr (en_block en)" "block_frames out' (en_block en) = accepted pf (take count frames)"
      by (auto dest: holds_block_frames)
    then have "pack_frames pf frames sequence out = Some (Inr len, count, out')" by (simp add: pack_frames_def push)
    with fin facts some stopped show ?thesis by simp
  qed
qed

end
