(* ===== verification/Fdt.thy ===== *)
theory Fdt
  imports Platform
begin

text \<open>
  \<open>fdt.rs\<close>: the reader of flattened device trees.  A \<open>str\<close> is its bytes.  The visitor of \<open>walk\<close> is the
  list of its calls.  A sum that the code checks for overflow is compared with the length of a slice right
  after, so the check changes nothing and is left out.
\<close>

datatype fdt_error =
  FdtTruncated | FdtHeader | FdtBlockOverlap | FdtReservationTable | FdtStructure | FdtString
| FdtPathCapacity | FdtDuplicateProperty | FdtOutputCapacity | FdtMemoryCells | FdtMemoryRanges
| FdtReservationConflict

definition be32_at :: "bytes \<Rightarrow> nat" where
  "be32_at bs = unat (from_be32 bs)"

definition fdt_word :: "bytes \<Rightarrow> nat \<Rightarrow> fdt_error + nat" where
  "fdt_word bs offset = (case slice_get offset (offset + 4) bs of None \<Rightarrow> Inl FdtTruncated | Some d \<Rightarrow> Inr (be32_at d))"

definition fdt_block :: "bytes \<Rightarrow> nat \<Rightarrow> nat \<Rightarrow> fdt_error + bytes" where
  "fdt_block bs start n = ok_or (slice_get start (start + n) bs) FdtTruncated"

definition align4 :: "nat \<Rightarrow> nat" where
  "align4 v = (v + 3) - (v + 3) mod 4"

record fdt_property =
  pr_offset :: nat
  pr_data :: bytes

record fdt =
  fd_bytes :: bytes
  fd_structure_offset :: nat
  fd_structure :: bytes
  fd_strings :: bytes

text \<open>\<open>bytes.iter().position(|b| *b == 0)\<close>\<close>

definition nul_position :: "bytes \<Rightarrow> nat option" where
  "nul_position bs = (if 0 \<in> set bs then Some (length (takeWhile (\<lambda>b. b \<noteq> 0) bs)) else None)"

text \<open>Whether bytes are UTF-8, as \<open>core::str::from_utf8\<close> checks.\<close>

definition utf8_tail :: "u8 \<Rightarrow> bool" where
  "utf8_tail b \<longleftrightarrow> 0x80 \<le> b \<and> b \<le> 0xbf"

definition utf8_second :: "u8 \<Rightarrow> u8 \<Rightarrow> bool" where
  "utf8_second a b \<longleftrightarrow>
     (if a = 0xe0 then 0xa0 \<le> b \<and> b \<le> 0xbf
      else if a = 0xed then 0x80 \<le> b \<and> b \<le> 0x9f
      else if a = 0xf0 then 0x90 \<le> b \<and> b \<le> 0xbf
      else if a = 0xf4 then 0x80 \<le> b \<and> b \<le> 0x8f
      else utf8_tail b)"

fun utf8_valid :: "bytes \<Rightarrow> bool" where
  "utf8_valid [] \<longleftrightarrow> True"
| "utf8_valid (a # bs) \<longleftrightarrow>
     (if a < 0x80 then utf8_valid bs
      else if 0xc2 \<le> a \<and> a \<le> 0xdf
      then (case bs of b # rest \<Rightarrow> utf8_tail b \<and> utf8_valid rest | _ \<Rightarrow> False)
      else if 0xe0 \<le> a \<and> a \<le> 0xef
      then (case bs of b # c # rest \<Rightarrow> utf8_second a b \<and> utf8_tail c \<and> utf8_valid rest | _ \<Rightarrow> False)
      else if 0xf0 \<le> a \<and> a \<le> 0xf4
      then (case bs of b # c # d # rest \<Rightarrow> utf8_second a b \<and> utf8_tail c \<and> utf8_tail d \<and> utf8_valid rest | _ \<Rightarrow> False)
      else False)"


section \<open>Walking the structure\<close>

text \<open>
  The walk's variables: \<open>path[..path_len]\<close>, \<open>saved_lengths[..depth]\<close>, \<open>root_seen\<close> and \<open>pos\<close>.  A name is
  only written behind \<open>path_len\<close>, so going back to a saved length restores the path.
\<close>

record fdt_walk =
  wk_path :: bytes
  wk_saved :: "nat list"
  wk_root_seen :: bool
  wk_pos :: nat

type_synonym fdt_visit = "bytes \<times> bytes \<times> fdt_property"

definition walk_begin :: "bytes \<Rightarrow> fdt_walk \<Rightarrow> fdt_error + fdt_walk" where
  "walk_begin structure w =
     and_then (ok_or (slice_from (wk_pos w) structure) FdtTruncated) (\<lambda>tail.
     and_then (ok_or (nul_position tail) FdtString) (\<lambda>len.
       let name = take len tail; depth = length (wk_saved w)
       in if \<not> utf8_valid name then Inl FdtString
          else if depth = 0 \<and> (wk_root_seen w \<or> name \<noteq> []) then Inl FdtStructure
          else if depth \<noteq> 0 \<and> (name = [] \<or> 47 \<in> set name) then Inl FdtStructure
          else if depth = 32 then Inl FdtPathCapacity
          else if name \<noteq> [] \<and> length (wk_path w) + len + 1 > 512 then Inl FdtPathCapacity
          else Inr (w\<lparr>wk_root_seen := wk_root_seen w \<or> depth = 0,
                      wk_saved := wk_saved w @ [length (wk_path w)],
                      wk_path := (if name \<noteq> [] then wk_path w @ 47 # name else wk_path w),
                      wk_pos := align4 (wk_pos w + len + 1)\<rparr>)))"

definition walk_end :: "fdt_walk \<Rightarrow> fdt_error + fdt_walk" where
  "walk_end w =
     (if wk_saved w = [] then Inl FdtStructure
      else Inr (w\<lparr>wk_saved := butlast (wk_saved w), wk_path := take (last (wk_saved w)) (wk_path w)\<rparr>))"

definition walk_property :: "fdt \<Rightarrow> fdt_walk \<Rightarrow> fdt_error + (fdt_walk \<times> fdt_visit)" where
  "walk_property f w =
     (if wk_saved w = [] then Inl FdtStructure
      else
        and_then (fdt_word (fd_structure f) (wk_pos w)) (\<lambda>len.
        and_then (fdt_word (fd_structure f) (wk_pos w + 4)) (\<lambda>name_offset.
        let pos = wk_pos w + 8 in
        and_then (fdt_block (fd_structure f) pos len) (\<lambda>data.
        and_then (ok_or (slice_from name_offset (fd_strings f)) FdtString) (\<lambda>tail.
        and_then (ok_or (nul_position tail) FdtString) (\<lambda>name_len.
          let name = take name_len tail
          in if \<not> utf8_valid name \<or> name = [] then Inl FdtString
             else if wk_path w \<noteq> [] \<and> \<not> utf8_valid (wk_path w) then Inl FdtString
             else Inr (w\<lparr>wk_pos := align4 (pos + len)\<rparr>,
                       (if wk_path w = [] then [47] else wk_path w, name,
                        \<lparr>pr_offset = fd_structure_offset f + pos, pr_data = data\<rparr>))))))))"

text \<open>One turn: the walk goes on, perhaps after a visit, or has reached the end of the tree.\<close>

definition walk_turn :: "fdt \<Rightarrow> fdt_walk \<Rightarrow> fdt_error + (fdt_walk option \<times> fdt_visit list)" where
  "walk_turn f w =
     and_then (fdt_word (fd_structure f) (wk_pos w)) (\<lambda>token.
       let w = w\<lparr>wk_pos := wk_pos w + 4\<rparr>
       in if token = 1 then and_then (walk_begin (fd_structure f) w) (\<lambda>w. Inr (Some w, []))
          else if token = 2 then and_then (walk_end w) (\<lambda>w. Inr (Some w, []))
          else if token = 3 then and_then (walk_property f w) (\<lambda>(w, visit). Inr (Some w, [visit]))
          else if token = 4 then Inr (Some w, [])
          else if token = 9
          then (if \<not> wk_root_seen w \<or> wk_saved w \<noteq> [] then Inl FdtStructure
                else if list_ex (\<lambda>b. b \<noteq> 0) (drop (wk_pos w) (fd_structure f)) then Inl FdtStructure
                else Inr (None, []))
          else Inl FdtStructure)"

lemma align4_ge: "v \<le> align4 v"
proof -
  have "(v + 3) mod 4 < 4" by simp
  then show ?thesis unfolding align4_def by linarith
qed

lemma align4_gt: "u < v \<Longrightarrow> u < align4 v"
  using align4_ge [of v] by simp

lemma walk_turn_advances:
  "walk_turn f w = Inr (Some w', visits) \<Longrightarrow> wk_pos w < wk_pos w' \<and> wk_pos w + 4 \<le> length (fd_structure f)"
  by (auto simp: walk_turn_def walk_begin_def walk_end_def walk_property_def and_then_Inr_iff Let_def ok_or_Inr_iff
      fdt_word_def slice_get_def split: if_splits option.splits
      intro!: align4_gt)

function walk_loop :: "fdt \<Rightarrow> fdt_walk \<Rightarrow> fdt_visit list \<Rightarrow> fdt_error + fdt_visit list" where
  "walk_loop f w visits =
     (if wk_pos w < length (fd_structure f)
      then case walk_turn f w of
          Inl e \<Rightarrow> Inl e
        | Inr (None, new) \<Rightarrow> Inr (visits @ new)
        | Inr (Some w', new) \<Rightarrow> walk_loop f w' (visits @ new)
      else Inl FdtStructure)"
  by pat_completeness auto

termination
  by (relation "measure (\<lambda>(f, w, visits). length (fd_structure f) - wk_pos w)")
    (auto dest!: walk_turn_advances)

declare walk_loop.simps [simp del]

definition walk_start :: fdt_walk where
  "walk_start = \<lparr>wk_path = [], wk_saved = [], wk_root_seen = False, wk_pos = 0\<rparr>"

definition walk :: "fdt \<Rightarrow> fdt_error + fdt_visit list" where
  "walk f = walk_loop f walk_start []"


section \<open>Finding a property, and parsing\<close>

definition find_property :: "fdt \<Rightarrow> bytes \<Rightarrow> bytes \<Rightarrow> fdt_error + fdt_property option" where
  "find_property f path name =
     and_then (walk f) (\<lambda>visits.
       let found = filter (\<lambda>(p, n, property). p = path \<and> n = name) visits
       in if length found > 1 then Inl FdtDuplicateProperty
          else case found of [] \<Rightarrow> Inr None | (p, n, property) # _ \<Rightarrow> Inr (Some property))"

function reservation_end :: "bytes \<Rightarrow> nat \<Rightarrow> fdt_error + nat" where
  "reservation_end bs pos =
     (case fdt_block bs pos 16 of
        Inl e \<Rightarrow> Inl FdtReservationTable
      | Inr entry \<Rightarrow> if list_all (\<lambda>b. b = 0) entry then Inr (pos + 16) else reservation_end bs (pos + 16))"
  by pat_completeness auto

termination
  by (relation "measure (\<lambda>(bs, pos). length bs - pos)")
    (auto simp: fdt_block_def ok_or_Inr_iff slice_get_Some_iff)

declare reservation_end.simps [simp del]

text \<open>Whether a block overlaps an earlier one; empty blocks overlap nothing.\<close>

fun blocks_overlap :: "(nat \<times> nat) list \<Rightarrow> (nat \<times> nat) list \<Rightarrow> bool" where
  "blocks_overlap earlier [] = False"
| "blocks_overlap earlier ((start, stop) # blocks) =
     (start \<noteq> stop \<and> list_ex (\<lambda>(other, other_stop). other \<noteq> other_stop \<and> start < other_stop \<and> other < stop) earlier
      \<or> blocks_overlap (earlier @ [(start, stop)]) blocks)"

definition fdt_parse :: "bytes \<Rightarrow> fdt_error + fdt" where
  "fdt_parse input =
     (if length input < 40 then Inl FdtHeader
      else and_then (fdt_word input 0) (\<lambda>magic.
        if magic \<noteq> 0xd00dfeed then Inl FdtHeader
        else and_then (fdt_word input 4) (\<lambda>size.
          if size < 40 then Inl FdtHeader
          else and_then (ok_or (slice_get 0 size input) FdtTruncated) (\<lambda>bs.
          and_then (fdt_word bs 8) (\<lambda>structure_offset.
          and_then (fdt_word bs 12) (\<lambda>strings_offset.
          and_then (fdt_word bs 16) (\<lambda>reservations_offset.
          and_then (fdt_word bs 20) (\<lambda>version.
          if version \<noteq> 17 then Inl FdtHeader
          else and_then (fdt_word bs 24) (\<lambda>compatible.
            if compatible > 17 \<or> structure_offset mod 4 \<noteq> 0 \<or> reservations_offset mod 8 \<noteq> 0 then Inl FdtHeader
            else
              and_then (fdt_word bs 32) (\<lambda>strings_size.
              and_then (fdt_word bs 36) (\<lambda>structure_size.
              and_then (fdt_block bs structure_offset structure_size) (\<lambda>structure.
              and_then (fdt_block bs strings_offset strings_size) (\<lambda>strings.
              and_then (reservation_end bs reservations_offset) (\<lambda>reservation_stop.
                if blocks_overlap []
                     [(0, 40), (structure_offset, structure_offset + structure_size),
                      (strings_offset, strings_offset + strings_size), (reservations_offset, reservation_stop)]
                then Inl FdtBlockOverlap
                else
                  let f = \<lparr>fd_bytes = bs, fd_structure_offset = structure_offset, fd_structure = structure, fd_strings = strings\<rparr>
                  in and_then (walk f) (\<lambda>visits. Inr f)))))))))))))))"

definition total_size :: "fdt \<Rightarrow> nat" where
  "total_size f = length (fd_bytes f)"

end
