(* ===== verification/Fdt_Memory.thy ===== *)
theory Fdt_Memory
  imports Fdt
begin

text \<open>
  \<open>fdt_memory.rs\<close>: the copy of a device tree from which the monitor's memory is taken out.  The outer
  \<open>option\<close> of \<open>fdt_exclude\<close> is a panic.  After an error the output buffer is not used; the model forgets it.
\<close>

definition RESIDENT_PROPERTY :: bytes where
  "RESIDENT_PROPERTY = [115,119,105,116,99,104,118,105,115,111,114,44,114,101,115,105,100,101,110,116,45,114,101,103,105,111,110]"

definition MAX_MEMORY_NODES :: nat where [simp]: "MAX_MEMORY_NODES = 16"

text \<open>The other names the code compares with.\<close>

definition DEVICE_TYPE :: bytes where "DEVICE_TYPE = [100,101,118,105,99,101,95,116,121,112,101]"
definition MEMORY :: bytes where "MEMORY = [109,101,109,111,114,121,0]"
definition REG :: bytes where "REG = [114,101,103]"
definition CHOSEN :: bytes where "CHOSEN = [99,104,111,115,101,110]"
definition ADDRESS_CELLS :: bytes where "ADDRESS_CELLS = [35,97,100,100,114,101,115,115,45,99,101,108,108,115]"
definition SIZE_CELLS :: bytes where "SIZE_CELLS = [35,115,105,122,101,45,99,101,108,108,115]"

definition fdt_quad :: "bytes \<Rightarrow> nat \<Rightarrow> fdt_error + u64" where
  "fdt_quad bs offset = (case slice_get offset (offset + 8) bs of None \<Rightarrow> Inl FdtTruncated | Some d \<Rightarrow> Inr (from_be64 d))"

definition fdt_cells :: "fdt \<Rightarrow> bytes \<Rightarrow> nat \<Rightarrow> fdt_error + nat" where
  "fdt_cells f name standard =
     and_then (find_property f [47] name) (\<lambda>found.
     and_then (case found of
         Some property \<Rightarrow> if length (pr_data property) = 4 then fdt_word (pr_data property) 0 else Inl FdtMemoryCells
       | None \<Rightarrow> Inr standard) (\<lambda>v.
     if v \<noteq> 1 \<and> v \<noteq> 2 then Inl FdtMemoryCells else Inr v))"

definition cell_value :: "bytes \<Rightarrow> nat \<Rightarrow> nat \<Rightarrow> fdt_error + u64" where
  "cell_value data offset cells =
     (if cells = 1 then and_then (fdt_word data offset) (\<lambda>v. Inr (word_of_nat v)) else fdt_quad data offset)"

text \<open>\<open>chunks_exact\<close>; a stride is at least 8.\<close>

fun chunks :: "nat \<Rightarrow> nat \<Rightarrow> bytes \<Rightarrow> bytes list" where
  "chunks 0 n bs = []"
| "chunks (Suc k) n bs = take n bs # chunks k n (drop n bs)"

definition chunks_exact :: "nat \<Rightarrow> bytes \<Rightarrow> bytes list" where
  "chunks_exact n bs = chunks (length bs div n) n bs"

text \<open>What is left of one bank without the region.\<close>

definition bank_rest :: "address_range \<Rightarrow> u64 \<Rightarrow> u64 \<Rightarrow> fdt_error + (u64 \<times> u64) list" where
  "bank_rest region start sz =
     and_then (ok_or (checked_add start sz) FdtMemoryRanges) (\<lambda>stop.
       if sz = 0 then Inr []
       else if start \<ge> ar_end region \<or> stop \<le> ar_start region then Inr [(start, sz)]
       else Inr ((if start < ar_start region then [(start, ar_start region - start)] else [])
                 @ (if stop > ar_end region then [(ar_end region, stop - ar_end region)] else [])))"

text \<open>
  \<open>ranges\<close> with its calls of \<open>emit\<close> as a list.  Where \<open>emit\<close> can fail the same ranges have been gone
  through before, so no other error can come after one of \<open>emit\<close>.
\<close>

fun bank_ranges :: "nat \<Rightarrow> nat \<Rightarrow> address_range \<Rightarrow> bytes list \<Rightarrow> fdt_error + (u64 \<times> u64) list" where
  "bank_ranges acs scs region [] = Inr []"
| "bank_ranges acs scs region (bank # banks) =
     and_then (cell_value bank 0 acs) (\<lambda>start.
     and_then (cell_value bank (acs * 4) scs) (\<lambda>sz.
     and_then (bank_rest region start sz) (\<lambda>rest.
     and_then (bank_ranges acs scs region banks) (\<lambda>more. Inr (rest @ more)))))"

definition fdt_ranges :: "bytes \<Rightarrow> nat \<Rightarrow> nat \<Rightarrow> address_range \<Rightarrow> fdt_error + (u64 \<times> u64) list" where
  "fdt_ranges data acs scs region =
     (let stride = (acs + scs) * 4
      in if length data mod stride \<noteq> 0 then Inl FdtMemoryRanges
         else bank_ranges acs scs region (chunks_exact stride data))"


section \<open>Writing\<close>

record fdt_writer =
  wr_bytes :: bytes
  wr_pos :: nat

definition writer_bytes :: "bytes \<Rightarrow> fdt_writer \<Rightarrow> fdt_error + fdt_writer" where
  "writer_bytes data w =
     (let stop = wr_pos w + length data
      in if stop > length (wr_bytes w) then Inl FdtOutputCapacity
         else Inr \<lparr>wr_bytes = splice (wr_pos w) data (wr_bytes w), wr_pos = stop\<rparr>)"

definition be32_of :: "nat \<Rightarrow> fdt_error \<Rightarrow> fdt_error + bytes" where
  "be32_of v e = (if v < 2 ^ 32 then Inr (to_be32 (word_of_nat v)) else Inl e)"

definition writer_word :: "nat \<Rightarrow> fdt_writer \<Rightarrow> fdt_error + fdt_writer" where
  "writer_word v w = and_then (be32_of v FdtOutputCapacity) (\<lambda>bs. writer_bytes bs w)"

definition writer_number :: "u64 \<Rightarrow> nat \<Rightarrow> fdt_writer \<Rightarrow> fdt_error + fdt_writer" where
  "writer_number v cells w =
     (if cells = 1 then and_then (be32_of (unat v) FdtMemoryRanges) (\<lambda>bs. writer_bytes bs w)
      else writer_bytes (to_be64 v) w)"

text \<open>At most three turns of the loop reach an aligned position.\<close>

fun writer_align :: "nat \<Rightarrow> fdt_writer \<Rightarrow> fdt_error + fdt_writer" where
  "writer_align 0 w = Inr w"
| "writer_align (Suc n) w =
     (if wr_pos w mod 4 \<noteq> 0 then and_then (writer_bytes [0] w) (writer_align n) else Inr w)"

definition writer_align4 :: "fdt_writer \<Rightarrow> fdt_error + fdt_writer" where
  "writer_align4 = writer_align 3"

definition writer_policy :: "nat \<Rightarrow> address_range \<Rightarrow> fdt_writer \<Rightarrow> fdt_error + fdt_writer" where
  "writer_policy name_offset region w =
     and_then (writer_word 3 w) (\<lambda>w. and_then (writer_word 16 w) (\<lambda>w. and_then (writer_word name_offset w) (\<lambda>w.
     and_then (writer_number (ar_start region) 2 w) (\<lambda>w. writer_number (range_size region) 2 w))))"

fun writer_ranges :: "nat \<Rightarrow> nat \<Rightarrow> (u64 \<times> u64) list \<Rightarrow> fdt_writer \<Rightarrow> fdt_error + fdt_writer" where
  "writer_ranges acs scs [] w = Inr w"
| "writer_ranges acs scs ((start, sz) # rs) w =
     and_then (writer_number start acs w) (\<lambda>w. and_then (writer_number sz scs w) (\<lambda>w. writer_ranges acs scs rs w))"


section \<open>What the copy needs to know of the tree\<close>

text \<open>The closure of the walk in \<open>exclude\<close>: the memory nodes' registers and the last error.\<close>

definition memory_entry ::
  "fdt \<Rightarrow> nat \<Rightarrow> nat \<Rightarrow> address_range \<Rightarrow> bytes \<Rightarrow> (nat \<times> nat) list \<Rightarrow> fdt_error + (nat \<times> nat)" where
  "memory_entry f acs scs region path memory =
     and_then (find_property f path REG) (\<lambda>found.
     and_then (ok_or found FdtMemoryRanges) (\<lambda>reg.
     and_then (find_property f path DEVICE_TYPE) (\<lambda>again.
       if length memory = MAX_MEMORY_NODES then Inl FdtMemoryRanges
       else and_then (fdt_ranges (pr_data reg) acs scs region) (\<lambda>rs. Inr (pr_offset reg, length (pr_data reg))))))"

definition is_memory :: "fdt_visit \<Rightarrow> bool" where
  "is_memory v = (case v of (path, name, property) \<Rightarrow>
     name = DEVICE_TYPE \<and> pr_data property = MEMORY \<and> 47 \<notin> set (drop 1 path))"

fun memory_nodes ::
  "fdt \<Rightarrow> nat \<Rightarrow> nat \<Rightarrow> address_range \<Rightarrow> fdt_visit list \<Rightarrow> (nat \<times> nat) list \<times> fdt_error option
     \<Rightarrow> (nat \<times> nat) list \<times> fdt_error option" where
  "memory_nodes f acs scs region [] found = found"
| "memory_nodes f acs scs region (v # vs) (memory, err) =
     memory_nodes f acs scs region vs
       (if is_memory v
        then case memory_entry f acs scs region (fst v) memory of
               Inl e \<Rightarrow> (memory, Some e)
             | Inr entry \<Rightarrow> (memory @ [entry], err)
        else (memory, err))"

text \<open>The entries of the reservation table, and whether the region is one of them.\<close>

function scan_reservations :: "bytes \<Rightarrow> address_range \<Rightarrow> nat \<Rightarrow> bool \<Rightarrow> fdt_error + (nat \<times> bool)" where
  "scan_reservations input region pos already =
     (case fdt_quad input pos of
        Inl e \<Rightarrow> Inl e
      | Inr start \<Rightarrow> (case fdt_quad input (pos + 8) of
          Inl e \<Rightarrow> Inl e
        | Inr sz \<Rightarrow>
            if start = 0 \<and> sz = 0 then Inr (pos, already)
            else if sz = 0 then scan_reservations input region (pos + 16) already
            else (case range_new start sz of
                Inl e \<Rightarrow> Inl FdtMemoryRanges
              | Inr reserved \<Rightarrow>
                  if range_overlaps reserved region
                  then if reserved \<noteq> region then Inl FdtReservationConflict
                       else scan_reservations input region (pos + 16) True
                  else scan_reservations input region (pos + 16) already)))"
  by pat_completeness auto

termination
  by (relation "measure (\<lambda>(input, region, pos, already). length input - pos)")
    (auto simp: fdt_quad_def slice_get_def split: option.splits if_splits)

declare scan_reservations.simps [simp del]

text \<open>Where the property's name is in the strings; the last entry of that name.\<close>

function find_name :: "bytes \<Rightarrow> nat \<Rightarrow> nat option \<Rightarrow> fdt_error + nat option" where
  "find_name strings pos found =
     (if pos < length strings
      then case nul_position (drop pos strings) of
          None \<Rightarrow> Inl FdtString
        | Some len \<Rightarrow>
            find_name strings (pos + len + 1) (if take len (drop pos strings) = RESIDENT_PROPERTY then Some pos else found)
      else Inr found)"
  by pat_completeness auto

termination
  by (relation "measure (\<lambda>(strings, pos, found). length strings - pos)") auto

declare find_name.simps [simp del]



section \<open>Copying the structure\<close>

definition try_then :: "('e + 'a) option \<Rightarrow> ('a \<Rightarrow> ('e + 'b) option) \<Rightarrow> ('e + 'b) option" where
  "try_then m f = (case m of None \<Rightarrow> None | Some (Inl e) \<Rightarrow> Some (Inl e) | Some (Inr x) \<Rightarrow> f x)"

lemma try_then_simps [simp]: "try_then (Some (Inl e)) f = Some (Inl e)" "try_then (Some (Inr x)) f = f x"
  by (simp_all add: try_then_def)

record copy_input =
  ci_structure :: bytes
  ci_strings :: bytes
  ci_struct_start :: nat
  ci_memory :: "(nat \<times> nat) list"
  ci_address_cells :: nat
  ci_size_cells :: nat
  ci_region :: address_range
  ci_name_offset :: nat

record copy_state =
  cs_cursor :: nat
  cs_depth :: nat
  cs_chosen :: bool
  cs_chosen_seen :: bool
  cs_writer :: fdt_writer

text \<open>\<open>writer.bytes(&structure[start..stop])\<close>\<close>

definition copy_slice :: "copy_input \<Rightarrow> nat \<Rightarrow> nat \<Rightarrow> fdt_writer \<Rightarrow> (fdt_error + fdt_writer) option" where
  "copy_slice ci start stop w = do { data \<leftarrow> slice_get start stop (ci_structure ci); Some (writer_bytes data w) }"

definition copy_begin :: "copy_input \<Rightarrow> nat \<Rightarrow> copy_state \<Rightarrow> (fdt_error + copy_state) option" where
  "copy_begin ci start c =
     do {
       tail \<leftarrow> slice_from (cs_cursor c) (ci_structure ci);
       try_then (Some (ok_or (nul_position tail) FdtString)) (\<lambda>len.
         let is_chosen = (cs_depth c = 1 \<and> take len tail = CHOSEN);
             cursor = align4 (cs_cursor c + len + 1)
         in try_then (copy_slice ci start cursor (cs_writer c)) (\<lambda>w.
            let c = c\<lparr>cs_cursor := cursor, cs_writer := w, cs_depth := cs_depth c + 1\<rparr>
            in if \<not> is_chosen then Some (Inr c)
               else if cs_chosen_seen c then Some (Inl FdtStructure)
               else try_then (Some (writer_policy (ci_name_offset ci) (ci_region ci) w)) (\<lambda>w.
                 Some (Inr (c\<lparr>cs_chosen := True, cs_chosen_seen := True, cs_writer := w\<rparr>)))))
     }"

definition add_chosen :: "copy_input \<Rightarrow> fdt_writer \<Rightarrow> fdt_error + fdt_writer" where
  "add_chosen ci w =
     and_then (writer_word 1 w) (\<lambda>w. and_then (writer_bytes (CHOSEN @ [0]) w) (\<lambda>w. and_then (writer_align4 w) (\<lambda>w.
     and_then (writer_policy (ci_name_offset ci) (ci_region ci) w) (writer_word 2))))"

definition copy_end :: "copy_input \<Rightarrow> copy_state \<Rightarrow> (fdt_error + copy_state) option" where
  "copy_end ci c =
     try_then (Some (if cs_depth c = 1 \<and> \<not> cs_chosen_seen c then add_chosen ci (cs_writer c) else Inr (cs_writer c))) (\<lambda>w.
       if cs_depth c = 0 then None
       else try_then (Some (writer_word 2 w)) (\<lambda>w.
         Some (Inr (c\<lparr>cs_chosen := cs_chosen c \<and> cs_depth c \<noteq> 2, cs_depth := cs_depth c - 1, cs_writer := w\<rparr>))))"

definition copy_ranges :: "copy_input \<Rightarrow> nat \<Rightarrow> bytes \<Rightarrow> fdt_writer \<Rightarrow> fdt_error + fdt_writer" where
  "copy_ranges ci prop_name data w =
     (let acs = ci_address_cells ci; scs = ci_size_cells ci
      in and_then (fdt_ranges data acs scs (ci_region ci)) (\<lambda>rs.
         and_then (writer_word 3 w) (\<lambda>w. and_then (writer_word (length rs * (acs + scs) * 4) w) (\<lambda>w.
         and_then (writer_word prop_name w) (writer_ranges acs scs rs)))))"

definition copy_property :: "copy_input \<Rightarrow> nat \<Rightarrow> copy_state \<Rightarrow> (fdt_error + copy_state) option" where
  "copy_property ci start c =
     try_then (Some (fdt_word (ci_structure ci) (cs_cursor c))) (\<lambda>len.
     try_then (Some (fdt_word (ci_structure ci) (cs_cursor c + 4))) (\<lambda>prop_name.
       let data_start = cs_cursor c + 8; cursor = align4 (data_start + len)
       in do {
         data \<leftarrow> slice_get data_start (data_start + len) (ci_structure ci);
         tail \<leftarrow> slice_from prop_name (ci_strings ci);
         try_then (Some (ok_or (nul_position tail) FdtString)) (\<lambda>name_len.
           if cs_chosen c \<and> cs_depth c = 2 \<and> take name_len tail = RESIDENT_PROPERTY then Some (Inr (c\<lparr>cs_cursor := cursor\<rparr>))
           else try_then
             (if list_ex (\<lambda>(offset, len). offset = ci_struct_start ci + data_start) (ci_memory ci)
              then Some (copy_ranges ci prop_name data (cs_writer c))
              else copy_slice ci start cursor (cs_writer c))
             (\<lambda>w. Some (Inr (c\<lparr>cs_cursor := cursor, cs_writer := w\<rparr>))))
       }))"

text \<open>One turn: whether the copy goes on, and its state.\<close>

definition copy_turn :: "copy_input \<Rightarrow> copy_state \<Rightarrow> (fdt_error + (bool \<times> copy_state)) option" where
  "copy_turn ci c =
     try_then (Some (fdt_word (ci_structure ci) (cs_cursor c))) (\<lambda>token.
       let start = cs_cursor c; c = c\<lparr>cs_cursor := cs_cursor c + 4\<rparr>
       in if token = 1 then try_then (copy_begin ci start c) (\<lambda>c. Some (Inr (True, c)))
          else if token = 2 then try_then (copy_end ci c) (\<lambda>c. Some (Inr (True, c)))
          else if token = 3 then try_then (copy_property ci start c) (\<lambda>c. Some (Inr (True, c)))
          else if token = 4 then try_then (Some (writer_word token (cs_writer c))) (\<lambda>w. Some (Inr (True, c\<lparr>cs_writer := w\<rparr>)))
          else if token = 9 then try_then (Some (writer_word 9 (cs_writer c))) (\<lambda>w. Some (Inr (False, c\<lparr>cs_writer := w\<rparr>)))
          else Some (Inl FdtStructure))"

lemma try_then_Inr: "try_then m f = Some (Inr y) \<longleftrightarrow> (\<exists>x. m = Some (Inr x) \<and> f x = Some (Inr y))"
  by (auto simp: try_then_def split: option.splits sum.splits)

lemma copy_turn_advances:
  "copy_turn ci c = Some (Inr (b, c')) \<Longrightarrow> cs_cursor c < cs_cursor c'"
  by (auto simp: copy_turn_def copy_begin_def copy_end_def copy_property_def try_then_Inr Let_def bind_eq_Some_conv
      split: if_splits intro!: align4_gt)

function copy_loop :: "copy_input \<Rightarrow> copy_state \<Rightarrow> (fdt_error + fdt_writer) option" where
  "copy_loop ci c =
     (if cs_cursor c < length (ci_structure ci)
      then case copy_turn ci c of
          None \<Rightarrow> None
        | Some (Inl e) \<Rightarrow> Some (Inl e)
        | Some (Inr (False, c')) \<Rightarrow> Some (Inr (cs_writer c'))
        | Some (Inr (True, c')) \<Rightarrow> copy_loop ci c'
      else Some (Inr (cs_writer c)))"
  by pat_completeness auto

termination
  by (relation "measure (\<lambda>(ci, c). length (ci_structure ci) - cs_cursor c)")
    (auto dest!: copy_turn_advances)

declare copy_loop.simps [simp del]

text \<open>The header's fields, written last.\<close>

fun write_header :: "(nat \<times> nat) list \<Rightarrow> bytes \<Rightarrow> (fdt_error + bytes) option" where
  "write_header [] out = Some (Inr out)"
| "write_header ((offset, v) # todo) out =
     try_then (Some (be32_of v FdtOutputCapacity)) (\<lambda>bs.
       if offset + 4 > length out then None else write_header todo (splice offset bs out))"

text \<open>What comes before the structure: the header, and the reservations with the region among them.\<close>

definition copy_front ::
  "bytes \<Rightarrow> nat \<Rightarrow> nat \<Rightarrow> bool \<Rightarrow> address_range \<Rightarrow> fdt_writer \<Rightarrow> (fdt_error + fdt_writer) option" where
  "copy_front input reserve_start reserve_end already region w =
     do {
       header \<leftarrow> slice_get 0 40 input;
       reserved \<leftarrow> slice_get reserve_start reserve_end input;
       Some (
         and_then (writer_bytes header w) (\<lambda>w. and_then (writer_bytes (replicate 8 0) w) (\<lambda>w.
         and_then (writer_bytes reserved w) (\<lambda>w.
         and_then (if already then Inr w
                   else and_then (writer_number (ar_start region) 2 w) (writer_number (range_size region) 2))
           (writer_bytes (replicate 16 0))))))
     }"

text \<open>What comes behind the structure: the strings, the header's fields and the check of the whole.\<close>

definition finish_copy :: "bytes \<Rightarrow> bool \<Rightarrow> nat \<Rightarrow> fdt_writer \<Rightarrow> (fdt_error + (nat \<times> bytes)) option" where
  "finish_copy strings append_name output_structure w =
     (let output_strings = wr_pos w
      in try_then (Some (and_then (writer_bytes strings w) (\<lambda>w.
           if append_name then and_then (writer_bytes RESIDENT_PROPERTY w) (writer_bytes [0]) else Inr w))) (\<lambda>w.
         let n = wr_pos w
         in try_then (write_header
              [(4, n), (8, output_structure), (12, output_strings), (16, 48),
               (32, n - output_strings), (36, output_strings - output_structure)] (wr_bytes w)) (\<lambda>out.
            do {
              result \<leftarrow> slice_get 0 n out;
              try_then (Some (fdt_parse result)) (\<lambda>f. Some (Inr (n, out)))
            })))"

text \<open>The output: the front, the structure and what comes behind it.\<close>

definition write_copy ::
  "copy_input \<Rightarrow> bool \<Rightarrow> bytes \<Rightarrow> nat \<Rightarrow> nat \<Rightarrow> bool \<Rightarrow> bytes \<Rightarrow> (fdt_error + (nat \<times> bytes)) option" where
  "write_copy ci append_name input reserve_start reserve_end already out =
     try_then (copy_front input reserve_start reserve_end already (ci_region ci) \<lparr>wr_bytes = out, wr_pos = 0\<rparr>) (\<lambda>w.
     try_then (copy_loop ci \<lparr>cs_cursor = 0, cs_depth = 0, cs_chosen = False, cs_chosen_seen = False, cs_writer = w\<rparr>)
       (finish_copy (ci_strings ci) append_name (wr_pos w)))"

definition fdt_exclude :: "bytes \<Rightarrow> bytes \<Rightarrow> address_range \<Rightarrow> (fdt_error + (nat \<times> bytes)) option" where
  "fdt_exclude input out region =
     try_then (Some (fdt_parse input)) (\<lambda>f.
     do {
     input \<leftarrow> slice_get 0 (total_size f) input;
     try_then (Some (fdt_cells f ADDRESS_CELLS 2)) (\<lambda>acs.
     try_then (Some (fdt_cells f SIZE_CELLS 1)) (\<lambda>scs.
     try_then (Some (walk f)) (\<lambda>visits.
     case memory_nodes f acs scs region visits ([], None) of
       (memory, Some e) \<Rightarrow> Some (Inl e)
     | (memory, None) \<Rightarrow>
     try_then (Some (fdt_word input 16)) (\<lambda>reserve_start.
     try_then (Some (scan_reservations input region reserve_start False)) (\<lambda>(reserve_end, already).
     try_then (Some (fdt_word input 8)) (\<lambda>struct_start.
     try_then (Some (fdt_word input 36)) (\<lambda>struct_size.
     do {
     structure \<leftarrow> slice_get struct_start (struct_start + struct_size) input;
     try_then (Some (fdt_word input 12)) (\<lambda>strings_start.
     try_then (Some (fdt_word input 32)) (\<lambda>strings_size.
     do {
     strings \<leftarrow> slice_get strings_start (strings_start + strings_size) input;
     try_then (Some (find_name strings 0 None)) (\<lambda>found.
       let name_offset = (case found of Some pos \<Rightarrow> pos | None \<Rightarrow> length strings);
           ci = \<lparr>ci_structure = structure, ci_strings = strings, ci_struct_start = struct_start, ci_memory = memory,
                 ci_address_cells = acs, ci_size_cells = scs, ci_region = region, ci_name_offset = name_offset\<rparr>
       in write_copy ci (found = None) input reserve_start reserve_end already out)
     })) })))))))
     })"

end
