(* ===== verification/Fdt_Spec.thy ===== *)
theory Fdt_Spec
  imports Fdt_Memory
begin

text \<open>
  The structure of a device tree as a list of tokens, each with its bytes (its chunk), and the visits of a walk
  as a function of the tokens: \<open>walk_tokens\<close> finds the tokens of a tree that is walked without an error, and
  \<open>walk_known\<close> gives the visits where the tokens are known.
\<close>

section \<open>Tokens\<close>

datatype fdt_token = Begin_Node bytes | End_Node | Prop nat bytes bytes | Nop

definition string_at :: "bytes \<Rightarrow> nat \<Rightarrow> bytes option" where
  "string_at strings offset =
     do { tail \<leftarrow> slice_from offset strings; n \<leftarrow> nul_position tail; Some (take n tail) }"

text \<open>The token at the front of some bytes, and its length.\<close>

definition read_token :: "bytes \<Rightarrow> bytes \<Rightarrow> (fdt_token \<times> nat) option" where
  "read_token strings bs =
     (case fdt_word bs 0 of
        Inl e \<Rightarrow> None
      | Inr token \<Rightarrow>
          if token = 1 then do { n \<leftarrow> nul_position (drop 4 bs); Some (Begin_Node (take n (drop 4 bs)), 4 + align4 (n + 1)) }
          else if token = 2 then Some (End_Node, 4)
          else if token = 3
          then (case (fdt_word bs 4, fdt_word bs 8) of
              (Inr len, Inr noff) \<Rightarrow> do {
                data \<leftarrow> slice_get 12 (12 + len) bs;
                name \<leftarrow> string_at strings noff;
                Some (Prop noff name data, 12 + align4 len)
              }
            | _ \<Rightarrow> None)
          else if token = 4 then Some (Nop, 4)
          else None)"

definition chunk :: "bytes \<Rightarrow> fdt_token \<Rightarrow> bytes \<Rightarrow> bool" where
  "chunk strings t c \<longleftrightarrow> read_token strings c = Some (t, length c)"

lemma align4_mod [simp]: "align4 v mod 4 = 0"
  by (simp add: align4_def minus_mod_eq_mult_div)

lemma align4_add: "p mod 4 = 0 \<Longrightarrow> align4 (p + v) = p + align4 v"
proof -
  assume "p mod 4 = 0"
  then have m: "(p + v + 3) mod 4 = (v + 3) mod 4" by presburger
  show ?thesis unfolding align4_def m by (simp add: add.assoc)
qed

lemma align4_bounds: "v \<le> align4 v" "align4 v < v + 4"
proof -
  show "v \<le> align4 v" by (rule align4_ge)
  have "align4 v \<le> v + 3" by (simp add: align4_def)
  then show "align4 v < v + 4" by simp
qed

lemma fdt_word_drop: "fdt_word bs (p + k) = fdt_word (drop p bs) k" if "p \<le> length bs"
  using that by (auto simp: fdt_word_def slice_get_def ac_simps split: option.splits)

lemma fdt_word_append: "k + 4 \<le> length c \<Longrightarrow> fdt_word (c @ rest) k = fdt_word c k"
  by (simp add: fdt_word_def slice_get_def)

lemma fdt_word_Inr: "fdt_word bs k = Inr v \<Longrightarrow> k + 4 \<le> length bs \<and> v < 2 ^ 32"
  using unat_bounds(3) by (auto simp: fdt_word_def slice_get_def be32_at_def split: option.splits if_splits)

lemma nul_position_Some: "nul_position bs = Some n \<longleftrightarrow> n < length bs \<and> bs ! n = 0 \<and> 0 \<notin> set (take n bs)"
proof
  assume "nul_position bs = Some n"
  then have mem: "0 \<in> set bs" and n: "n = length (takeWhile (\<lambda>b. b \<noteq> 0) bs)" by (auto simp: nul_position_def split: if_splits)
  from mem have less: "n < length bs" unfolding n by (induction bs) auto
  moreover have "bs ! n = 0" using nth_length_takeWhile [of "\<lambda>b. b \<noteq> 0" bs] less n by simp
  moreover have "take n bs = takeWhile (\<lambda>b. b \<noteq> 0) bs" unfolding n by (rule takeWhile_eq_take [symmetric])
  then have "0 \<notin> set (take n bs)" by (auto dest: set_takeWhileD)
  ultimately show "n < length bs \<and> bs ! n = 0 \<and> 0 \<notin> set (take n bs)" by simp
next
  assume n: "n < length bs \<and> bs ! n = 0 \<and> 0 \<notin> set (take n bs)"
  then have "bs = take n bs @ 0 # drop (Suc n) bs" by (metis id_take_nth_drop)
  moreover have "takeWhile (\<lambda>b. b \<noteq> 0) (take n bs @ 0 # drop (Suc n) bs) = take n bs"
    using n by (subst takeWhile_append2) auto
  ultimately have "takeWhile (\<lambda>b. b \<noteq> 0) bs = take n bs" by simp
  then show "nul_position bs = Some n" using n by (auto simp: nul_position_def dest: nth_mem)
qed

lemma nul_position_append: "n < length c \<Longrightarrow> nul_position (c @ rest) = Some n \<longleftrightarrow> nul_position c = Some n"
  by (auto simp: nul_position_Some nth_append)

lemma string_at_append: "string_at strings noff = Some name \<Longrightarrow> string_at (strings @ extra) noff = Some name"
proof -
  assume "string_at strings noff = Some name"
  then obtain n where n: "noff \<le> length strings" "nul_position (drop noff strings) = Some n" "name = take n (drop noff strings)"
    by (auto simp: string_at_def slice_from_def bind_eq_Some_conv split: if_splits)
  then have l: "n < length (drop noff strings)" by (simp add: nul_position_Some)
  with n(2) have "nul_position (drop noff strings @ extra) = Some n" by (simp add: nul_position_append)
  with n(1,3) l show ?thesis by (simp add: string_at_def slice_from_def)
qed

lemma slice_get_append: "j \<le> length c \<Longrightarrow> slice_get i j (c @ rest) = slice_get i j c"
  by (auto simp: slice_get_def)

lemma read_token_append:
  assumes "n \<le> length c"
  shows "read_token strings (c @ rest) = Some (t, n) \<longleftrightarrow> read_token strings c = Some (t, n)"
proof (cases "4 \<le> length c")
  case False
  have "4 \<le> k" if "read_token strings bs = Some (t, k)" for bs k
    using that by (auto simp: read_token_def bind_eq_Some_conv split: sum.splits if_splits)
  with False assms show ?thesis by force
next
  case True
  then have w: "fdt_word (c @ rest) 0 = fdt_word c 0" by (simp add: fdt_word_append)
  consider (b) "fdt_word c 0 = Inr 1" | (p) "fdt_word c 0 = Inr 3" | (o) "fdt_word c 0 \<noteq> Inr 1" "fdt_word c 0 \<noteq> Inr 3" by blast
  then show ?thesis
  proof cases
    case b
    have R: "read_token strings bs = Some (t, n)
        \<longleftrightarrow> (\<exists>k. nul_position (drop 4 bs) = Some k \<and> t = Begin_Node (take k (drop 4 bs)) \<and> n = 4 + align4 (k + 1))"
      if "fdt_word bs 0 = Inr 1" for bs using that by (auto simp: read_token_def bind_eq_Some_conv)
    have short: "k + 4 < length c" if "n = 4 + align4 (k + 1)" for k
      using that assms align4_bounds(1) [of "k + 1"] by simp
    have "nul_position (drop 4 (c @ rest)) = Some k \<longleftrightarrow> nul_position (drop 4 c) = Some k" "take k (drop 4 (c @ rest)) = take k (drop 4 c)"
      if "n = 4 + align4 (k + 1)" for k using short [OF that] True by (simp_all add: nul_position_append)
    then show ?thesis using b w R by metis
  next
    case p
    have "12 \<le> length c" if "read_token strings c = Some (t, n) \<or> read_token strings (c @ rest) = Some (t, n)"
      using that p w assms by (auto simp: read_token_def bind_eq_Some_conv split: sum.splits)
    then show ?thesis
    proof (cases "12 \<le> length c")
      case long: True
      then have "fdt_word (c @ rest) 4 = fdt_word c 4" "fdt_word (c @ rest) 8 = fdt_word c 8" by (simp_all add: fdt_word_append)
      moreover have "slice_get 12 (12 + k) (c @ rest) = slice_get 12 (12 + k) c" if "12 + align4 k = n" for k
        using that assms align4_bounds(1) [of k] by (intro slice_get_append) simp
      ultimately show ?thesis using p w by (auto simp: read_token_def bind_eq_Some_conv split: sum.splits)
    qed auto
  next
    case o
    then show ?thesis using w by (auto simp: read_token_def split: sum.splits)
  qed
qed

lemma chunk_append: "read_token strings (c @ rest) = Some (t, length c) \<longleftrightarrow> chunk strings t c"
  by (simp add: read_token_append chunk_def)

lemma chunk_strings: "chunk strings t c \<Longrightarrow> chunk (strings @ extra) t c"
  by (auto simp: chunk_def read_token_def bind_eq_Some_conv string_at_append split: sum.splits if_splits)


lemma read_token_length: "read_token strings bs = Some (t, n) \<Longrightarrow> 4 \<le> n \<and> n mod 4 = 0"
  by (auto simp: read_token_def bind_eq_Some_conv mod_add_eq [symmetric, of 4] mod_add_eq [symmetric, of 12]
      split: sum.splits if_splits)

lemma chunk_length: "chunk strings t c \<Longrightarrow> 4 \<le> length c \<and> length c mod 4 = 0"
  by (auto simp: chunk_def dest: read_token_length)


section \<open>The walk over tokens\<close>

text \<open>The path of the nodes that are open; the root's name is empty.\<close>

definition node_path :: "bytes list \<Rightarrow> bytes" where
  "node_path stack = concat (map (\<lambda>n. if n = [] then [] else 47 # n) stack)"

definition shown_path :: "bytes list \<Rightarrow> bytes" where
  "shown_path stack = (if node_path stack = [] then [47] else node_path stack)"

fun stack_after :: "fdt_token \<Rightarrow> bytes list \<Rightarrow> bytes list" where
  "stack_after (Begin_Node n) stack = stack @ [n]"
| "stack_after End_Node stack = butlast stack"
| "stack_after _ stack = stack"

fun visits_of :: "nat \<Rightarrow> bytes list \<Rightarrow> fdt_token \<Rightarrow> fdt_visit list" where
  "visits_of pos stack (Prop noff name data) = [(shown_path stack, name, \<lparr>pr_offset = pos + 12, pr_data = data\<rparr>)]"
| "visits_of pos stack _ = []"

fun chunk_visits :: "nat \<Rightarrow> bytes list \<Rightarrow> (fdt_token \<times> bytes) list \<Rightarrow> fdt_visit list" where
  "chunk_visits pos stack [] = []"
| "chunk_visits pos stack ((t, c) # tcs) = visits_of pos stack t @ chunk_visits (pos + length c) (stack_after t stack) tcs"

fun token_ok :: "bytes list \<Rightarrow> bool \<Rightarrow> fdt_token \<Rightarrow> bool" where
  "token_ok stack root (Begin_Node n) \<longleftrightarrow> (if stack = [] then \<not> root \<and> n = [] else n \<noteq> [] \<and> 47 \<notin> set n)"
| "token_ok stack root End_Node \<longleftrightarrow> stack \<noteq> []"
| "token_ok stack root (Prop noff name data) \<longleftrightarrow> stack \<noteq> [] \<and> name \<noteq> []"
| "token_ok stack root Nop \<longleftrightarrow> True"

fun tokens_ok :: "bytes list \<Rightarrow> bool \<Rightarrow> fdt_token list \<Rightarrow> bool" where
  "tokens_ok stack root [] \<longleftrightarrow> stack = [] \<and> root"
| "tokens_ok stack root (t # ts) \<longleftrightarrow> token_ok stack root t
     \<and> tokens_ok (stack_after t stack) (root \<or> (\<exists>n. t = Begin_Node n)) ts"

definition walk_at :: "bytes list \<Rightarrow> bool \<Rightarrow> nat \<Rightarrow> fdt_walk \<Rightarrow> bool" where
  "walk_at stack root pos w \<longleftrightarrow> wk_path w = node_path stack
     \<and> wk_saved w = map (\<lambda>i. length (node_path (take i stack))) [0..<length stack]
     \<and> wk_root_seen w = root \<and> wk_pos w = pos \<and> (stack \<noteq> [] \<longrightarrow> root)"

lemma node_path_Nil [simp]: "node_path [] = []"
  by (simp add: node_path_def)

lemma node_path_append: "node_path (xs @ ys) = node_path xs @ node_path ys"
  by (simp add: node_path_def)

lemma walk_at_push:
  assumes "walk_at stack root pos w"
  shows "wk_saved w @ [length (wk_path w)] = map (\<lambda>i. length (node_path (take i (stack @ [n])))) [0..<length (stack @ [n])]"
  using assms by (auto simp: walk_at_def)

lemma walk_at_pop:
  assumes "walk_at stack root pos w" and "stack \<noteq> []"
  shows "butlast (wk_saved w) = map (\<lambda>i. length (node_path (take i (butlast stack)))) [0..<length (butlast stack)]"
    and "take (last (wk_saved w)) (wk_path w) = node_path (butlast stack)"
proof -
  obtain xs n where s: "stack = xs @ [n]" using assms(2) by (metis rev_exhaust)
  show "butlast (wk_saved w) = map (\<lambda>i. length (node_path (take i (butlast stack)))) [0..<length (butlast stack)]"
    "take (last (wk_saved w)) (wk_path w) = node_path (butlast stack)"
    using assms(1) by (auto simp: walk_at_def s node_path_append)
qed

lemma walk_turn_token:
  assumes at: "walk_at stack root pos w" and pos: "pos mod 4 = 0" "pos \<le> length (fd_structure f)"
    and turn: "walk_turn f w = Inr (Some w', new)"
  shows "\<exists>t n. read_token (fd_strings f) (drop pos (fd_structure f)) = Some (t, n) \<and> token_ok stack root t
    \<and> walk_at (stack_after t stack) (root \<or> (\<exists>n. t = Begin_Node n)) (pos + n) w'
    \<and> new = visits_of (fd_structure_offset f + pos) stack t"
proof -
  let ?st = "fd_structure f" and ?bs = "drop pos (fd_structure f)"
  define w1 where "w1 = w\<lparr>wk_pos := pos + 4\<rparr>"
  have w: "wk_pos w = pos" using at by (simp add: walk_at_def)
  obtain token where token: "fdt_word ?bs 0 = Inr token" and rest:
    "(if token = 1 then and_then (walk_begin ?st w1) (\<lambda>w. Inr (Some w, []))
      else if token = 2 then and_then (walk_end w1) (\<lambda>w. Inr (Some w, []))
      else if token = 3 then and_then (walk_property f w1) (\<lambda>(w, visit). Inr (Some w, [visit]))
      else if token = 4 then Inr (Some w1, [])
      else if token = 9
      then (if \<not> wk_root_seen w1 \<or> wk_saved w1 \<noteq> [] then Inl FdtStructure
            else if list_ex (\<lambda>b. b \<noteq> 0) (drop (wk_pos w1) ?st) then Inl FdtStructure
            else Inr (None, []))
      else Inl FdtStructure) = Inr (Some w', new)"
    using turn fdt_word_drop [OF pos(2), of 0] unfolding walk_turn_def and_then_Inr_iff w Let_def w1_def [symmetric] by auto
  have len: "4 \<le> length ?bs" using fdt_word_Inr [OF token] by simp
  have at1: "wk_path w1 = node_path stack" "wk_root_seen w1 = root"
    "wk_saved w1 = map (\<lambda>i. length (node_path (take i stack))) [0..<length stack]" "wk_pos w1 = pos + 4"
    using at by (simp_all add: walk_at_def w1_def)
  have saved: "wk_saved w1 = [] \<longleftrightarrow> stack = []" "length (wk_saved w1) = length stack" by (simp_all add: at1)
  have root: "stack \<noteq> [] \<longrightarrow> root" using at by (simp add: walk_at_def)
  consider (b) "token = 1" | (e) "token = 2" | (p) "token = 3" | (n) "token = 4" using rest by (auto split: if_splits)
  then show ?thesis
  proof cases
    case b
    define tail where "tail = drop 4 ?bs"
    have tail_from: "slice_from (wk_pos w1) ?st = Some tail" using len at1(4) by (simp add: tail_def slice_from_def ac_simps)
    have begin_ok: "walk_begin ?st w1 = Inr w'" and new: "new = []" using rest b by (simp_all add: and_then_Inr_iff)
    obtain k where k: "nul_position tail = Some k" and name: "stack = [] \<longrightarrow> \<not> root \<and> take k tail = []"
      "stack \<noteq> [] \<longrightarrow> take k tail \<noteq> [] \<and> 47 \<notin> set (take k tail)"
      and w': "w' = w1\<lparr>wk_root_seen := root \<or> stack = [], wk_saved := wk_saved w1 @ [length (wk_path w1)],
          wk_path := (if take k tail \<noteq> [] then wk_path w1 @ 47 # take k tail else wk_path w1),
          wk_pos := align4 (wk_pos w1 + k + 1)\<rparr>"
    proof -
      obtain k where k: "nul_position tail = Some k"
        using begin_ok unfolding walk_begin_def tail_from ok_or_simps and_then_simps by (auto simp: and_then_Inr_iff ok_or_Inr_iff)
      show thesis
        using begin_ok unfolding walk_begin_def tail_from k ok_or_simps and_then_simps Let_def
        by (intro that [of k]) (auto simp: k saved at1(2) split: if_splits)
    qed
    have "align4 (wk_pos w1 + k + 1) = pos + (4 + align4 (k + 1))"
      using align4_add [of "pos + 4" "k + 1"] pos(1) at1(4) by (simp add: ac_simps)
    moreover have "wk_saved w1 @ [length (wk_path w1)]
        = map (\<lambda>i. length (node_path (take i (stack @ [take k tail])))) [0..<length (stack @ [take k tail])]"
      using at by (intro walk_at_push [of _ root "pos + 4"]) (simp add: walk_at_def w1_def)
    moreover have "(if take k tail \<noteq> [] then wk_path w1 @ 47 # take k tail else wk_path w1) = node_path (stack @ [take k tail])"
      by (simp add: at1 node_path_append) (simp add: node_path_def)
    moreover have "root \<or> stack = []" using root by blast
    ultimately have "walk_at (stack @ [take k tail]) True (pos + (4 + align4 (k + 1))) w'"
      unfolding walk_at_def w' by simp
    moreover have "read_token (fd_strings f) ?bs = Some (Begin_Node (take k tail), 4 + align4 (k + 1))"
      using b token k by (simp add: read_token_def tail_def)
    ultimately show ?thesis using name new by (intro exI conjI) (assumption, auto)
  next
    case e
    then have "stack \<noteq> []" and w': "w' = w1\<lparr>wk_saved := butlast (wk_saved w1), wk_path := take (last (wk_saved w1)) (wk_path w1)\<rparr>"
      "new = []"
      using rest saved by (auto simp: and_then_Inr_iff walk_end_def split: if_splits)
    moreover have "walk_at stack root (pos + 4) w1" using at by (simp add: walk_at_def w1_def)
    note pop = walk_at_pop [OF this \<open>stack \<noteq> []\<close>]
    have "walk_at (butlast stack) root (pos + 4) w'" using root \<open>stack \<noteq> []\<close> unfolding walk_at_def w' by (simp add: pop) (simp add: at1)
    ultimately show ?thesis using e token by (intro exI [of _ End_Node] exI [of _ 4]) (simp add: read_token_def)
  next
    case p
    obtain k noff data tail m where pr: "stack \<noteq> []" "fdt_word ?st (pos + 4) = Inr k" "fdt_word ?st (pos + 4 + 4) = Inr noff"
      "fdt_block ?st (pos + 12) k = Inr data" "slice_from noff (fd_strings f) = Some tail" "nul_position tail = Some m"
      "take m tail \<noteq> []" "w' = w1\<lparr>wk_pos := align4 (pos + 12 + k)\<rparr>"
      "new = [(shown_path stack, take m tail, \<lparr>pr_offset = fd_structure_offset f + (pos + 12), pr_data = data\<rparr>)]"
      using rest p saved at1 unfolding walk_property_def and_then_Inr_iff ok_or_Inr_iff Let_def shown_path_def
      by (auto simp: and_then_Inr_iff ok_or_Inr_iff ac_simps split: if_splits)
    have "(pos + 12) mod 4 = 0" using pos(1) by presburger
    then have "align4 (pos + 12 + k) = pos + (12 + align4 k)"
      using align4_add [of "pos + 12" k] by (simp add: ac_simps)
    then have "walk_at stack root (pos + (12 + align4 k)) w'" using at pr(8) by (simp add: walk_at_def w1_def)
    moreover have "fdt_word ?bs 4 = Inr k" "fdt_word ?bs 8 = Inr noff"
      using pr(2,3) fdt_word_drop [OF pos(2), of 4] fdt_word_drop [OF pos(2), of 8] by (simp_all add: ac_simps)
    moreover have "slice_get 12 (12 + k) ?bs = Some data"
      using pr(4) by (auto simp: fdt_block_def ok_or_Inr_iff slice_get_def ac_simps split: if_splits)
    moreover have "string_at (fd_strings f) noff = Some (take m tail)" using pr(5,6) by (simp add: string_at_def)
    ultimately have "read_token (fd_strings f) ?bs = Some (Prop noff (take m tail) data, 12 + align4 k)"
      "walk_at stack root (pos + (12 + align4 k)) w'"
      using p token by (simp_all add: read_token_def)
    then show ?thesis using pr(1,7,9) by (intro exI conjI) (assumption, auto)
  next
    case n
    then show ?thesis using rest token at root
      by (intro exI [of _ Nop] exI [of _ 4]) (auto simp: read_token_def walk_at_def w1_def)
  qed
qed

lemma walk_turn_done:
  assumes "walk_at stack root pos w" and "walk_turn f w = Inr (None, new)"
  shows "stack = [] \<and> root \<and> new = [] \<and> fdt_word (fd_structure f) pos = Inr 9"
  using assms by (auto simp: walk_turn_def and_then_Inr_iff Let_def walk_at_def split: if_splits)

lemma walk_loop_chunks:
  assumes "walk_loop f w acc = Inr visits" "walk_at stack root pos w" "pos mod 4 = 0" "pos \<le> length (fd_structure f)"
  shows "\<exists>tcs tail. drop pos (fd_structure f) = concat (map snd tcs) @ tail \<and> fdt_word tail 0 = Inr 9
    \<and> list_all (\<lambda>(t, c). chunk (fd_strings f) t c) tcs \<and> tokens_ok stack root (map fst tcs)
    \<and> visits = acc @ chunk_visits (fd_structure_offset f + pos) stack tcs"
  using assms
proof (induction f w acc arbitrary: stack root pos rule: walk_loop.induct)
  case (1 f w acc)
  have p: "wk_pos w = pos" using "1.prems"(2) by (simp add: walk_at_def)
  have less: "pos < length (fd_structure f)"
    using "1.prems"(1) p by (subst (asm) walk_loop.simps) (auto split: if_splits)
  with "1.prems"(1) p obtain next' new where turn: "walk_turn f w = Inr (next', new)" and
    rest: "case next' of None \<Rightarrow> visits = acc @ new | Some w' \<Rightarrow> walk_loop f w' (acc @ new) = Inr visits"
    by (subst (asm) walk_loop.simps) (auto split: sum.splits prod.splits option.splits)
  show ?case
  proof (cases next')
    case None
    from walk_turn_done [OF "1.prems"(2) turn [unfolded None]] rest None fdt_word_drop [OF "1.prems"(4), of 0]
    show ?thesis by (intro exI [of _ "[]"] exI [of _ "drop pos (fd_structure f)"]) simp
  next
    case (Some w')
    from walk_turn_token [OF "1.prems"(2-4) turn [unfolded Some]] obtain t n where
      t: "read_token (fd_strings f) (drop pos (fd_structure f)) = Some (t, n)" "token_ok stack root t"
      "walk_at (stack_after t stack) (root \<or> (\<exists>n. t = Begin_Node n)) (pos + n) w'"
      "new = visits_of (fd_structure_offset f + pos) stack t" by blast
    have loop: "walk_loop f w' (acc @ new) = Inr visits" using rest Some by simp
    have n: "n mod 4 = 0" "(pos + n) mod 4 = 0" using read_token_length [OF t(1)] "1.prems"(3) by auto
    have "wk_pos w' = pos + n" using t(3) by (simp add: walk_at_def)
    then have "pos + n < length (fd_structure f)"
      using loop by (subst (asm) walk_loop.simps) (auto split: if_splits)
    with "1.IH" [OF _ turn [unfolded Some] refl refl loop t(3) n(2)] less p obtain tcs tail where tail:
      "drop (pos + n) (fd_structure f) = concat (map snd tcs) @ tail" "fdt_word tail 0 = Inr 9"
      "list_all (\<lambda>(t, c). chunk (fd_strings f) t c) tcs"
      "tokens_ok (stack_after t stack) (root \<or> (\<exists>n. t = Begin_Node n)) (map fst tcs)"
      "visits = (acc @ new) @ chunk_visits (fd_structure_offset f + (pos + n)) (stack_after t stack) tcs"
      by auto
    define c where "c = take n (drop pos (fd_structure f))"
    have split: "drop pos (fd_structure f) = c @ drop (pos + n) (fd_structure f)" "length c = n"
      using \<open>pos + n < length (fd_structure f)\<close> by (simp_all add: c_def add.commute flip: drop_drop)
    then have "chunk (fd_strings f) t c" using t(1) chunk_append by metis
    then show ?thesis using tail split t(2,4)
      by (intro exI [of _ "(t, c) # tcs"] exI [of _ tail]) (simp add: ac_simps)
  qed
qed

text \<open>With the tokens known, the visits are theirs.\<close>

lemma walk_loop_known:
  assumes "walk_loop f w acc = Inr visits" "walk_at stack root pos w" "pos mod 4 = 0" "pos \<le> length (fd_structure f)"
    and "drop pos (fd_structure f) = concat (map snd tcs) @ tail" "fdt_word tail 0 = Inr 9"
    and "list_all (\<lambda>(t, c). chunk (fd_strings f) t c) tcs"
  shows "visits = acc @ chunk_visits (fd_structure_offset f + pos) stack tcs"
  using assms
proof (induction tcs arbitrary: w acc stack root pos)
  case Nil
  have p: "wk_pos w = pos" using Nil.prems(2) by (simp add: walk_at_def)
  have nine: "fdt_word (fd_structure f) pos = Inr 9" using fdt_word_drop [OF Nil.prems(4), of 0] Nil.prems(5,6) by simp
  then have "pos < length (fd_structure f)" using fdt_word_Inr by fastforce
  with nine p Nil.prems(1) show ?case
    by (subst (asm) walk_loop.simps) (auto simp: walk_turn_def Let_def split: if_splits)
next
  case (Cons tc tcs)
  obtain t c where tc: "tc = (t, c)" by (cases tc)
  have p: "wk_pos w = pos" using Cons.prems(2) by (simp add: walk_at_def)
  have drop: "drop pos (fd_structure f) = c @ (concat (map snd tcs) @ tail)" using Cons.prems(5) tc by simp
  have chunk: "chunk (fd_strings f) t c" using Cons.prems(7) tc by simp
  then have read: "read_token (fd_strings f) (drop pos (fd_structure f)) = Some (t, length c)"
    unfolding drop chunk_append .
  note len = chunk_length [OF chunk]
  have less: "pos + length c + 4 \<le> length (fd_structure f)"
    using arg_cong [OF drop, of length] fdt_word_Inr [OF Cons.prems(6)] len by simp
  then have "pos < length (fd_structure f)" by simp
  with Cons.prems(1) p obtain next' new where turn: "walk_turn f w = Inr (next', new)" and
    rest: "case next' of None \<Rightarrow> visits = acc @ new | Some w' \<Rightarrow> walk_loop f w' (acc @ new) = Inr visits"
    by (subst (asm) walk_loop.simps) (auto split: sum.splits prod.splits option.splits)
  obtain w' where w': "next' = Some w'"
  proof (cases next')
    case None
    from walk_turn_done [OF Cons.prems(2) turn [unfolded None]] fdt_word_drop [OF Cons.prems(4), of 0]
    have "fdt_word (drop pos (fd_structure f)) 0 = Inr 9" by simp
    then show thesis using read by (simp add: read_token_def)
  qed
  from walk_turn_token [OF Cons.prems(2-4) turn [unfolded w']] read have
    at: "walk_at (stack_after t stack) (root \<or> (\<exists>n. t = Begin_Node n)) (pos + length c) w'"
    and new: "new = visits_of (fd_structure_offset f + pos) stack t" by auto
  have "drop (pos + length c) (fd_structure f) = concat (map snd tcs) @ tail"
    using arg_cong [OF drop, of "drop (length c)"] by (simp add: add.commute)
  moreover have "(pos + length c) mod 4 = 0" using Cons.prems(3) len by presburger
  ultimately show ?case
    using Cons.IH [OF rest [unfolded w', simplified] at _ _ _ Cons.prems(6)] Cons.prems(7) less tc
    by (simp add: new ac_simps)
qed

theorem walk_tokens:
  assumes "walk f = Inr visits"
  shows "\<exists>tcs tail. fd_structure f = concat (map snd tcs) @ tail \<and> fdt_word tail 0 = Inr 9
    \<and> list_all (\<lambda>(t, c). chunk (fd_strings f) t c) tcs \<and> tokens_ok [] False (map fst tcs)
    \<and> visits = chunk_visits (fd_structure_offset f) [] tcs"
proof -
  have "walk_at [] False 0 walk_start" by (simp add: walk_at_def walk_start_def)
  from walk_loop_chunks [OF assms [unfolded walk_def] this] show ?thesis by simp
qed

theorem walk_known:
  assumes "walk f = Inr visits" and "fd_structure f = concat (map snd tcs) @ tail" and "fdt_word tail 0 = Inr 9"
    and "list_all (\<lambda>(t, c). chunk (fd_strings f) t c) tcs"
  shows "visits = chunk_visits (fd_structure_offset f) [] tcs"
proof -
  have "walk_at [] False 0 walk_start" by (simp add: walk_at_def walk_start_def)
  from walk_loop_known [OF assms(1) [unfolded walk_def] this] assms(2-4) show ?thesis by simp
qed

end
