(* ===== verification/Fdt_Copy.thy ===== *)
theory Fdt_Copy
  imports Fdt_Spec
begin

text \<open>
  The copy of the structure by \<open>fdt_memory.rs\<close> as an edit of the tokens: what the writer has written, the banks of
  a \<open>reg\<close> property as a set of addresses, and for each token of the input the tokens that are written for it.
\<close>

section \<open>What the writer has written\<close>

definition written :: "fdt_writer \<Rightarrow> bytes" where
  "written w = take (wr_pos w) (wr_bytes w)"

definition wrote :: "fdt_writer \<Rightarrow> bytes \<Rightarrow> fdt_writer \<Rightarrow> bool" where
  "wrote w bs w' \<longleftrightarrow> written w' = written w @ bs \<and> wr_pos w' = wr_pos w + length bs
     \<and> length (wr_bytes w') = length (wr_bytes w) \<and> (wr_pos w \<le> length (wr_bytes w) \<longrightarrow> wr_pos w + length bs \<le> length (wr_bytes w))"

lemma wrote_Nil: "wrote w [] w"
  by (simp add: wrote_def)

lemma wrote_trans: "wrote w xs w1 \<Longrightarrow> wrote w1 ys w2 \<Longrightarrow> wrote w (xs @ ys) w2"
  by (auto simp: wrote_def)

lemma writer_bytes_wrote: "writer_bytes data w = Inr w' \<Longrightarrow> wrote w data w'"
  by (auto simp: writer_bytes_def wrote_def written_def splice_def Let_def min_absorb2 split: if_splits)

lemma be32_of_Inr: "be32_of v e = Inr bs \<longleftrightarrow> v < 2 ^ 32 \<and> bs = to_be32 (word_of_nat v)"
  by (auto simp: be32_of_def)

lemma writer_word_wrote: "writer_word v w = Inr w' \<Longrightarrow> wrote w (to_be32 (word_of_nat v)) w' \<and> v < 2 ^ 32"
  by (auto simp: writer_word_def and_then_Inr_iff be32_of_Inr dest: writer_bytes_wrote)

text \<open>The bytes of a number of one or two cells.\<close>

definition cell_bytes :: "nat \<Rightarrow> u64 \<Rightarrow> bytes" where
  "cell_bytes cells v = (if cells = 1 then to_be32 (word_of_nat (unat v)) else to_be64 v)"

lemma writer_number_wrote:
  "writer_number v cells w = Inr w' \<Longrightarrow> wrote w (cell_bytes cells v) w' \<and> (cells = 1 \<longrightarrow> unat v < 2 ^ 32)"
  by (auto simp: writer_number_def cell_bytes_def and_then_Inr_iff be32_of_Inr dest: writer_bytes_wrote split: if_splits)

definition policy_data :: "address_range \<Rightarrow> bytes" where
  "policy_data region = to_be64 (ar_start region) @ to_be64 (range_size region)"

definition prop_bytes :: "nat \<Rightarrow> bytes \<Rightarrow> bytes" where
  "prop_bytes noff data = to_be32 3 @ to_be32 (word_of_nat (length data)) @ to_be32 (word_of_nat noff) @ data"

lemma writer_policy_wrote:
  assumes "writer_policy noff region w = Inr w'"
  shows "wrote w (prop_bytes noff (policy_data region)) w' \<and> noff < 2 ^ 32"
proof -
  from assms obtain w1 w2 w3 w4 where *: "writer_word 3 w = Inr w1" "writer_word 16 w1 = Inr w2" "writer_word noff w2 = Inr w3"
    "writer_number (ar_start region) 2 w3 = Inr w4" "writer_number (range_size region) 2 w4 = Inr w'"
    by (auto simp: writer_policy_def and_then_Inr_iff)
  from *(1-3) [THEN writer_word_wrote] *(4,5) [THEN writer_number_wrote] show ?thesis
    by (auto simp: wrote_def prop_bytes_def policy_data_def cell_bytes_def)
qed


section \<open>Banks of memory\<close>

text \<open>The addresses of a \<open>reg\<close> property, read bank by bank.\<close>

definition span :: "u64 \<times> u64 \<Rightarrow> nat set" where
  "span r = {unat (fst r)..<unat (fst r) + unat (snd r)}"

definition bank_addresses :: "nat \<Rightarrow> nat \<Rightarrow> bytes \<Rightarrow> nat set" where
  "bank_addresses acs scs bank =
     (case (cell_value bank 0 acs, cell_value bank (acs * 4) scs) of (Inr start, Inr sz) \<Rightarrow> span (start, sz) | _ \<Rightarrow> {})"

definition reg_addresses :: "nat \<Rightarrow> nat \<Rightarrow> bytes \<Rightarrow> nat set" where
  "reg_addresses acs scs data = (\<Union>bank \<in> set (chunks_exact ((acs + scs) * 4) data). bank_addresses acs scs bank)"

definition encode_ranges :: "nat \<Rightarrow> nat \<Rightarrow> (u64 \<times> u64) list \<Rightarrow> bytes" where
  "encode_ranges acs scs rs = concat (map (\<lambda>(start, sz). cell_bytes acs start @ cell_bytes scs sz) rs)"

definition fits :: "nat \<Rightarrow> nat \<Rightarrow> u64 \<times> u64 \<Rightarrow> bool" where
  "fits acs scs r \<longleftrightarrow> (acs = 1 \<longrightarrow> unat (fst r) < 2 ^ 32) \<and> (scs = 1 \<longrightarrow> unat (snd r) < 2 ^ 32)"

definition is_cells :: "nat \<Rightarrow> bool" where
  "is_cells n \<longleftrightarrow> n = 1 \<or> n = 2"

lemma length_cell_bytes: "is_cells n \<Longrightarrow> length (cell_bytes n v) = n * 4"
  by (auto simp: is_cells_def cell_bytes_def)

lemma length_encode_ranges:
  "is_cells acs \<Longrightarrow> is_cells scs \<Longrightarrow> length (encode_ranges acs scs rs) = length rs * (acs + scs) * 4"
  by (induction rs) (auto simp: encode_ranges_def length_cell_bytes algebra_simps)

lemma writer_ranges_wrote:
  "writer_ranges acs scs rs w = Inr w' \<Longrightarrow> wrote w (encode_ranges acs scs rs) w' \<and> list_all (fits acs scs) rs"
proof (induction acs scs rs w rule: writer_ranges.induct)
  case (2 acs scs start sz rs w)
  from "2.prems" obtain w1 w2 where w: "writer_number start acs w = Inr w1" "writer_number sz scs w1 = Inr w2"
    "writer_ranges acs scs rs w2 = Inr w'" by (auto simp: and_then_Inr_iff)
  from w(1,2) [THEN writer_number_wrote] "2.IH" [OF w(3)] show ?case
    by (auto simp: wrote_def encode_ranges_def fits_def)
qed (simp add: wrote_Nil encode_ranges_def)

lemma bank_rest_span:
  assumes "range_ok region" and "bank_rest region start sz = Inr rest"
  shows "(\<Union>r \<in> set rest. span r) = span (start, sz) - range_set region"
proof -
  obtain stop where c: "checked_add start sz = Some stop"
    using assms(2) by (cases "checked_add start sz") (simp_all add: bank_rest_def)
  then have stop: "unat stop = unat start + unat sz" by (simp add: checked_add_Some_iff)
  have ok: "unat (ar_start region) < unat (ar_end region)" using assms(1) by (simp add: range_ok_def word_less_nat_alt)
  show ?thesis
  proof (cases "sz = 0 \<or> start \<ge> ar_end region \<or> stop \<le> ar_start region")
    case True
    then show ?thesis using assms(2) stop ok
      by (auto simp: bank_rest_def c span_def range_set_def word_le_nat_alt split: if_splits)
  next
    case False
    have lo: "span (start, ar_start region - start) = {unat start..<unat (ar_start region)}" if "start < ar_start region"
      using that by (simp add: span_def unat_sub word_less_nat_alt word_le_nat_alt)
    have hi: "span (ar_end region, stop - ar_end region) = {unat (ar_end region)..<unat stop}" if "stop > ar_end region"
      using that by (simp add: span_def unat_sub word_less_nat_alt word_le_nat_alt)
    have "rest = (if start < ar_start region then [(start, ar_start region - start)] else [])
        @ (if stop > ar_end region then [(ar_end region, stop - ar_end region)] else [])"
      using assms(2) False by (simp add: bank_rest_def c)
    then have "(\<Union>r \<in> set rest. span r) = (if start < ar_start region then {unat start..<unat (ar_start region)} else {})
        \<union> (if stop > ar_end region then {unat (ar_end region)..<unat stop} else {})"
      using lo hi by (simp add: Un_commute)
    also have "\<dots> = {unat start..<unat stop} - range_set region"
      using ok False by (auto simp: range_set_def word_less_nat_alt word_le_nat_alt)
    finally show ?thesis by (simp add: span_def stop)
  qed
qed

lemma fdt_ranges_span:
  assumes "range_ok region" and "fdt_ranges data acs scs region = Inr rs"
  shows "(\<Union>r \<in> set rs. span r) = reg_addresses acs scs data - range_set region"
proof -
  have *: "bank_ranges acs scs region banks = Inr rs
      \<Longrightarrow> (\<Union>r \<in> set rs. span r) = (\<Union>bank \<in> set banks. bank_addresses acs scs bank) - range_set region" for banks rs
  proof (induction banks arbitrary: rs)
    case (Cons bank banks)
    then obtain start sz rest rs' where v: "cell_value bank 0 acs = Inr start" "cell_value bank (acs * 4) scs = Inr sz"
      "bank_rest region start sz = Inr rest" "bank_ranges acs scs region banks = Inr rs'" "rs = rest @ rs'"
      by (auto simp: and_then_Inr_iff)
    show ?case using bank_rest_span [OF assms(1) v(3)] Cons.IH [OF v(4)] v(1,2,5) by (auto simp: bank_addresses_def)
  qed simp
  from assms(2) show ?thesis by (auto simp: fdt_ranges_def reg_addresses_def Let_def * split: if_splits)
qed

lemma be32_at_of: "v < 2 ^ 32 \<Longrightarrow> be32_at (to_be32 (word_of_nat v)) = v"
  by (simp add: be32_at_def unat_of_nat take_bit_eq_mod)

lemma fdt_word_of: "v < 2 ^ 32 \<Longrightarrow> length pre = k \<Longrightarrow> fdt_word (pre @ to_be32 (word_of_nat v) @ post) k = Inr v"
  by (simp add: fdt_word_def slice_get_def be32_at_of)

lemma cell_value_bytes:
  assumes "is_cells n" and "n = 1 \<longrightarrow> unat v < 2 ^ 32" and "length pre = k"
  shows "cell_value (pre @ cell_bytes n v @ post) k n = Inr v"
proof (cases "n = 1")
  case True
  with fdt_word_of [of "unat v" pre k post] assms show ?thesis unfolding cell_value_def cell_bytes_def by simp
next
  case False
  with assms show ?thesis by (simp add: cell_value_def cell_bytes_def fdt_quad_def slice_get_def)
qed

lemma chunks_encode:
  assumes "is_cells acs" "is_cells scs"
  shows "chunks (length rs) ((acs + scs) * 4) (encode_ranges acs scs rs)
    = map (\<lambda>(start, sz). cell_bytes acs start @ cell_bytes scs sz) rs"
  using assms by (induction rs) (auto simp: encode_ranges_def length_cell_bytes algebra_simps)

lemma reg_addresses_encode:
  assumes "is_cells acs" "is_cells scs" "list_all (fits acs scs) rs"
  shows "reg_addresses acs scs (encode_ranges acs scs rs) = (\<Union>r \<in> set rs. span r)"
proof -
  have "length (encode_ranges acs scs rs) div ((acs + scs) * 4) = length rs"
    using assms(1,2) by (auto simp: length_encode_ranges is_cells_def)
  then have "chunks_exact ((acs + scs) * 4) (encode_ranges acs scs rs)
      = map (\<lambda>(start, sz). cell_bytes acs start @ cell_bytes scs sz) rs"
    by (simp only: chunks_exact_def chunks_encode [OF assms(1,2)])
  moreover have "bank_addresses acs scs (cell_bytes acs start @ cell_bytes scs sz) = span (start, sz)"
    if "fits acs scs (start, sz)" for start sz
    using cell_value_bytes [OF assms(1), of start "[]" 0 "cell_bytes scs sz"]
      cell_value_bytes [OF assms(2), of sz "cell_bytes acs start" "acs * 4" "[]"] that
    by (simp add: bank_addresses_def length_cell_bytes assms(1) fits_def)
  ultimately show ?thesis using assms(3) by (force simp: reg_addresses_def list_all_iff)
qed


section \<open>Tokens written\<close>

lemma chunk_cases:
  assumes "read_token strings bs = Some (t, n)"
  obtains (node) k where "fdt_word bs 0 = Inr 1" "nul_position (drop 4 bs) = Some k" "t = Begin_Node (take k (drop 4 bs))"
      "n = 4 + align4 (k + 1)"
    | (stop) "fdt_word bs 0 = Inr 2" "t = End_Node" "n = 4"
    | (property) noff name data len where "fdt_word bs 0 = Inr 3" "fdt_word bs 4 = Inr len" "fdt_word bs 8 = Inr noff"
      "slice_get 12 (12 + len) bs = Some data" "string_at strings noff = Some name" "t = Prop noff name data" "n = 12 + align4 len"
    | (nop) "fdt_word bs 0 = Inr 4" "t = Nop" "n = 4"
  using assms by (auto simp: read_token_def bind_eq_Some_conv split: sum.splits if_splits)

lemma chunk_word: "v < 2 ^ 32 \<Longrightarrow> fdt_word (to_be32 (word_of_nat v) @ post) 0 = Inr v"
  using fdt_word_of [of v "[]" 0 post] by simp

lemma chunk_End: "chunk strings End_Node (to_be32 2)"
  using chunk_word [of 2 "[]"] by (simp add: chunk_def read_token_def)

lemma chunk_Nop: "chunk strings Nop (to_be32 4)"
  using chunk_word [of 4 "[]"] by (simp add: chunk_def read_token_def)

lemma chunk_chosen: "chunk strings (Begin_Node CHOSEN) (to_be32 1 @ CHOSEN @ [0, 0])"
  using chunk_word [of 1 "CHOSEN @ [0, 0]"] by (simp add: chunk_def read_token_def nul_position_def CHOSEN_def align4_def)

lemma align4_multiple: "v mod 4 = 0 \<Longrightarrow> align4 v = v"
  using align4_add [of v 0] by (simp add: align4_def)

lemma chunk_Prop:
  assumes "string_at strings noff = Some name" "noff < 2 ^ 32" "length data < 2 ^ 32" "length data mod 4 = 0"
  shows "chunk strings (Prop noff name data) (prop_bytes noff data)"
proof -
  have "fdt_word (prop_bytes noff data) 0 = Inr 3" using chunk_word [of 3] by (simp add: prop_bytes_def)
  moreover have "fdt_word (prop_bytes noff data) 4 = Inr (length data)"
    using fdt_word_of [OF assms(3), of "to_be32 3" 4] by (simp add: prop_bytes_def)
  moreover have "fdt_word (prop_bytes noff data) 8 = Inr noff"
    using fdt_word_of [OF assms(2), of "to_be32 3 @ to_be32 (word_of_nat (length data))" 8] by (simp add: prop_bytes_def)
  moreover have "slice_get 12 (12 + length data) (prop_bytes noff data) = Some data"
    by (simp add: slice_get_def prop_bytes_def)
  moreover have "length (prop_bytes noff data) = 12 + align4 (length data)"
    by (simp add: prop_bytes_def align4_multiple [OF assms(4)])
  ultimately show ?thesis using assms(1) by (simp add: chunk_def read_token_def)
qed

lemma length_policy_data: "length (policy_data region) = 16"
  by (simp add: policy_data_def)

lemma add_chosen_wrote:
  assumes "add_chosen ci w = Inr w'" "wr_pos w mod 4 = 0"
  shows "wrote w ((to_be32 1 @ CHOSEN @ [0, 0]) @ prop_bytes (ci_name_offset ci) (policy_data (ci_region ci)) @ to_be32 2) w'
    \<and> ci_name_offset ci < 2 ^ 32"
proof -
  from assms(1) obtain w1 w2 w3 w4 where *: "writer_word 1 w = Inr w1" "writer_bytes (CHOSEN @ [0]) w1 = Inr w2"
    "writer_align4 w2 = Inr w3" "writer_policy (ci_name_offset ci) (ci_region ci) w3 = Inr w4" "writer_word 2 w4 = Inr w'"
    by (auto simp: add_chosen_def and_then_Inr_iff)
  have b: "wrote w (to_be32 1) w1" "wrote w1 (CHOSEN @ [0]) w2"
    using writer_word_wrote [OF *(1)] writer_bytes_wrote [OF *(2)] by simp_all
  then have "wr_pos w2 = wr_pos w + 11" by (simp add: wrote_def CHOSEN_def)
  then have p: "wr_pos w2 mod 4 = 3" "wr_pos w2 mod 4 \<noteq> 0" using assms(2) by presburger+
  then have p1: "Suc (wr_pos w2) mod 4 = 0" by presburger
  from *(3) p obtain w2' where "writer_bytes [0] w2 = Inr w2'" "writer_align 2 w2' = Inr w3"
    by (auto simp: writer_align4_def numeral_3_eq_3 and_then_Inr_iff numeral_2_eq_2 simp del: writer_align.simps)
      (auto simp: writer_align.simps(2) and_then_Inr_iff)
  note this(2) and c = writer_bytes_wrote [OF this(1)]
  moreover have "wr_pos w2' mod 4 = 0" using c p1 by (simp add: wrote_def)
  ultimately have "wrote w2 [0] w3" by (simp add: numeral_2_eq_2)
  with b writer_policy_wrote [OF *(4)] writer_word_wrote [OF *(5)] show ?thesis by (auto simp: wrote_def)
qed

text \<open>Whether a value at this offset of the input is a memory node's \<open>reg\<close>.\<close>

definition memory_offset :: "copy_input \<Rightarrow> nat \<Rightarrow> bool" where
  "memory_offset ci offset \<longleftrightarrow> offset \<in> fst ` set (ci_memory ci)"

definition policy_token :: "copy_input \<Rightarrow> fdt_token" where
  "policy_token ci = Prop (ci_name_offset ci) RESIDENT_PROPERTY (policy_data (ci_region ci))"

text \<open>
  The tokens the copy writes for one token, which is at \<open>pos\<close> of the input in the nodes of \<open>stack\<close>;
  \<open>None\<close> when the copy fails there.
\<close>

fun copy_token :: "copy_input \<Rightarrow> nat \<Rightarrow> bool \<Rightarrow> bytes list \<Rightarrow> fdt_token \<Rightarrow> fdt_token list option" where
  "copy_token ci pos seen stack (Begin_Node n) =
     (if length stack = 1 \<and> n = CHOSEN
      then if seen then None else Some [Begin_Node n, policy_token ci]
      else Some [Begin_Node n])"
| "copy_token ci pos seen stack End_Node =
     (if length stack = 1 \<and> \<not> seen then Some [Begin_Node CHOSEN, policy_token ci, End_Node, End_Node] else Some [End_Node])"
| "copy_token ci pos seen stack (Prop noff name data) =
     (if length stack = 2 \<and> stack ! 1 = CHOSEN \<and> name = RESIDENT_PROPERTY then Some []
      else if memory_offset ci (pos + 12)
      then (case fdt_ranges data (ci_address_cells ci) (ci_size_cells ci) (ci_region ci) of
              Inl e \<Rightarrow> None
            | Inr rs \<Rightarrow>
                if list_all (fits (ci_address_cells ci) (ci_size_cells ci)) rs
                then Some [Prop noff name (encode_ranges (ci_address_cells ci) (ci_size_cells ci) rs)] else None)
      else Some [Prop noff name data])"
| "copy_token ci pos seen stack Nop = Some [Nop]"

definition seen_after :: "fdt_token \<Rightarrow> bytes list \<Rightarrow> bool \<Rightarrow> bool" where
  "seen_after t stack seen \<longleftrightarrow> seen \<or> length stack = 1 \<and> t = Begin_Node CHOSEN"

definition copy_at :: "bytes list \<Rightarrow> bool \<Rightarrow> nat \<Rightarrow> copy_state \<Rightarrow> bool" where
  "copy_at stack seen pos c \<longleftrightarrow> cs_cursor c = pos \<and> cs_depth c = length stack
     \<and> cs_chosen c = (2 \<le> length stack \<and> stack ! 1 = CHOSEN) \<and> cs_chosen_seen c = seen"


section \<open>One turn of the copy\<close>

text \<open>No panic, and a success has the property.\<close>

definition succeeds :: "('e + 'a) option \<Rightarrow> ('a \<Rightarrow> bool) \<Rightarrow> bool" where
  "succeeds m P \<longleftrightarrow> (case m of None \<Rightarrow> False | Some (Inl e) \<Rightarrow> True | Some (Inr x) \<Rightarrow> P x)"

lemma succeeds_then: "succeeds (try_then m f) P \<longleftrightarrow> succeeds m (\<lambda>x. succeeds (f x) P)"
  by (auto simp: succeeds_def try_then_def split: option.splits sum.splits)

lemma succeeds_Some: "succeeds (Some r) P \<longleftrightarrow> (\<forall>x. r = Inr x \<longrightarrow> P x)"
  by (auto simp: succeeds_def split: sum.splits)

lemma succeeds_mono: "succeeds m P \<Longrightarrow> (\<And>x. P x \<Longrightarrow> Q x) \<Longrightarrow> succeeds m Q"
  by (auto simp: succeeds_def split: option.splits sum.splits)

lemmas succeeds_simps = succeeds_then succeeds_Some

text \<open>What the parts of the input have to satisfy; \<open>ss\<close> are the strings of the output.\<close>

definition copying :: "copy_input \<Rightarrow> bytes \<Rightarrow> bool" where
  "copying ci ss \<longleftrightarrow> string_at ss (ci_name_offset ci) = Some RESIDENT_PROPERTY
     \<and> (\<exists>extra. ss = ci_strings ci @ extra) \<and> is_cells (ci_address_cells ci) \<and> is_cells (ci_size_cells ci)"

text \<open>The tokens \<open>ts\<close> have been written between two states of the writer.\<close>

definition copied :: "bytes \<Rightarrow> fdt_token list \<Rightarrow> fdt_writer \<Rightarrow> fdt_writer \<Rightarrow> bool" where
  "copied ss ts w w' \<longleftrightarrow> (\<exists>tcs. map fst tcs = ts \<and> list_all (\<lambda>(t, c). chunk ss t c) tcs \<and> wrote w (concat (map snd tcs)) w')"

lemma copied_Nil: "copied ss [] w w"
  by (auto simp: copied_def wrote_Nil intro!: exI [of _ "[]"])

lemma copied_one: "chunk ss t c \<Longrightarrow> wrote w c w' \<Longrightarrow> copied ss [t] w w'"
  by (auto simp: copied_def intro!: exI [of _ "[(t, c)]"])

lemma copied_append: "copied ss ts w w1 \<Longrightarrow> copied ss us w1 w2 \<Longrightarrow> copied ss (ts @ us) w w2"
proof -
  assume "copied ss ts w w1" "copied ss us w1 w2"
  then obtain tcs ucs where "map fst tcs = ts" "list_all (\<lambda>(t, c). chunk ss t c) tcs" "wrote w (concat (map snd tcs)) w1"
    "map fst ucs = us" "list_all (\<lambda>(t, c). chunk ss t c) ucs" "wrote w1 (concat (map snd ucs)) w2"
    by (auto simp: copied_def)
  then show ?thesis unfolding copied_def by (intro exI [of _ "tcs @ ucs"]) (auto dest: wrote_trans)
qed

lemma copied_Cons: "copied ss [t] w w1 \<Longrightarrow> copied ss us w1 w2 \<Longrightarrow> copied ss (t # us) w w2"
  using copied_append [of ss "[t]" w w1 us w2] by simp

lemma copied_aligned: "copied ss ts w w' \<Longrightarrow> wr_pos w mod 4 = 0 \<Longrightarrow> wr_pos w' mod 4 = 0"
proof -
  assume "copied ss ts w w'" "wr_pos w mod 4 = 0"
  then obtain tcs where tcs: "list_all (\<lambda>(t, c). chunk ss t c) tcs" "wrote w (concat (map snd tcs)) w'"
    by (auto simp: copied_def)
  from tcs(1) have "length (concat (map snd tcs)) mod 4 = 0"
  proof (induction tcs)
    case (Cons tc tcs)
    then show ?case using chunk_length [of ss "fst tc" "snd tc"] by (cases tc) (auto simp: mod_add_eq [symmetric, of _ 4])
  qed simp
  with \<open>wr_pos w mod 4 = 0\<close> tcs(2) show ?thesis unfolding wrote_def by presburger
qed

lemma chunk_ss: "copying ci ss \<Longrightarrow> chunk (ci_strings ci) t c \<Longrightarrow> chunk ss t c"
  using chunk_strings by (auto simp: copying_def)

lemma policy_copied:
  "copying ci ss \<Longrightarrow> writer_policy (ci_name_offset ci) (ci_region ci) w = Inr w' \<Longrightarrow> copied ss [policy_token ci] w w'"
  using writer_policy_wrote chunk_Prop [of ss "ci_name_offset ci" RESIDENT_PROPERTY "policy_data (ci_region ci)"]
  by (auto simp: copying_def policy_token_def length_policy_data intro: copied_one)

lemma end_copied: "writer_word 2 w = Inr w' \<Longrightarrow> copied ss [End_Node] w w'"
  using writer_word_wrote [of 2 w w'] by (auto intro: copied_one chunk_End)

lemma nop_copied: "writer_word 4 w = Inr w' \<Longrightarrow> copied ss [Nop] w w'"
  using writer_word_wrote [of 4 w w'] by (auto intro: copied_one chunk_Nop)

lemma add_chosen_copied:
  assumes ci: "copying ci ss" and add: "add_chosen ci w = Inr w'" "wr_pos w mod 4 = 0"
  shows "copied ss [Begin_Node CHOSEN, policy_token ci, End_Node] w w'"
proof -
  have "chunk ss (policy_token ci) (prop_bytes (ci_name_offset ci) (policy_data (ci_region ci)))"
    using add_chosen_wrote [OF add] ci by (auto simp: policy_token_def length_policy_data copying_def intro!: chunk_Prop)
  then show ?thesis unfolding copied_def using add_chosen_wrote [OF add] chunk_chosen chunk_End
    by (intro exI [of _ "[(Begin_Node CHOSEN, to_be32 1 @ CHOSEN @ [0, 0]),
      (policy_token ci, prop_bytes (ci_name_offset ci) (policy_data (ci_region ci))), (End_Node, to_be32 2)]"]) simp
qed

text \<open>A turn with a token in front.\<close>

definition turned :: "copy_input \<Rightarrow> bytes \<Rightarrow> bytes list \<Rightarrow> bool \<Rightarrow> nat \<Rightarrow> copy_state \<Rightarrow> fdt_token \<Rightarrow> nat \<Rightarrow> bool \<times> copy_state \<Rightarrow> bool" where
  "turned ci ss stack seen pos c t n r \<longleftrightarrow> (case r of (go, c') \<Rightarrow> go
     \<and> copy_at (stack_after t stack) (seen_after t stack seen) (pos + n) c'
     \<and> (\<exists>ts. copy_token ci (ci_struct_start ci + pos) seen stack t = Some ts \<and> copied ss ts (cs_writer c) (cs_writer c')))"

lemma slice_copied:
  assumes "copying ci ss" "chunk (ci_strings ci) t ch" "drop pos (ci_structure ci) = ch @ rest" "pos + length ch \<le> length (ci_structure ci)"
  shows "succeeds (copy_slice ci pos (pos + length ch) w) (copied ss [t] w)"
proof -
  have "take (length ch) (drop pos (ci_structure ci)) = ch" using assms(3) by simp
  then show ?thesis using assms
    by (auto simp: copy_slice_def slice_get_def succeeds_Some intro: copied_one chunk_ss writer_bytes_wrote)
qed

lemma copy_turn_nop:
  assumes "copy_at stack seen pos c" "pos \<le> length (ci_structure ci)" "fdt_word (drop pos (ci_structure ci)) 0 = Inr 4"
  shows "succeeds (copy_turn ci c) (turned ci ss stack seen pos c Nop 4)"
  using assms fdt_word_drop [of pos "ci_structure ci" 0]
  by (auto simp: copy_turn_def succeeds_simps turned_def copy_at_def seen_after_def Let_def intro: nop_copied)

lemma copy_turn_end:
  assumes ci: "copying ci ss" and "copy_at stack seen pos c" "pos \<le> length (ci_structure ci)"
    "fdt_word (drop pos (ci_structure ci)) 0 = Inr 2"
    "stack \<noteq> []" "wr_pos (cs_writer c) mod 4 = 0"
  shows "succeeds (copy_turn ci c) (turned ci ss stack seen pos c End_Node 4)"
proof -
  obtain xs n where s: "stack = xs @ [n]" using assms(5) by (metis rev_exhaust)
  have chosen: "(2 \<le> length stack \<and> stack ! 1 = CHOSEN \<and> length stack \<noteq> 2)
      \<longleftrightarrow> (2 \<le> length (butlast stack) \<and> butlast stack ! 1 = CHOSEN)"
    by (auto simp: s nth_append)
  have add: "copied ss [Begin_Node CHOSEN, policy_token ci, End_Node, End_Node] (cs_writer c) w2"
    if "add_chosen ci (cs_writer c) = Inr w1" "writer_word 2 w1 = Inr w2" for w1 w2
    using copied_append [OF add_chosen_copied [OF ci that(1) assms(6)] end_copied [OF that(2)]] by simp
  show ?thesis
  proof (cases "length stack = 1 \<and> \<not> seen")
    case True
    with assms fdt_word_drop [of pos "ci_structure ci" 0] chosen show ?thesis
      by (auto simp: copy_turn_def copy_end_def succeeds_simps turned_def copy_at_def seen_after_def Let_def
          intro: add)
  next
    case False
    with assms fdt_word_drop [of pos "ci_structure ci" 0] chosen show ?thesis
      by (auto simp: copy_turn_def copy_end_def succeeds_simps turned_def copy_at_def seen_after_def Let_def intro!: end_copied)
  qed
qed


lemma copy_turn_node:
  assumes ci: "copying ci ss" and at: "copy_at stack seen pos c" and pos: "pos mod 4 = 0" "pos + length ch \<le> length (ci_structure ci)"
    and ch: "chunk (ci_strings ci) (Begin_Node name) ch" "drop pos (ci_structure ci) = ch @ rest"
  shows "succeeds (copy_turn ci c) (turned ci ss stack seen pos c (Begin_Node name) (length ch))"
proof -
  let ?bs = "drop pos (ci_structure ci)"
  have "read_token (ci_strings ci) ?bs = Some (Begin_Node name, length ch)" using ch by (simp add: chunk_append)
  then obtain k where k: "fdt_word ?bs 0 = Inr 1" "nul_position (drop 4 ?bs) = Some k" "name = take k (drop 4 ?bs)"
    "length ch = 4 + align4 (k + 1)" by (cases rule: chunk_cases) auto
  have w: "fdt_word (ci_structure ci) pos = Inr 1" using k(1) pos(2) fdt_word_drop [of pos "ci_structure ci" 0] by simp
  have "slice_from (pos + 4) (ci_structure ci) = Some (drop 4 ?bs)"
    using fdt_word_Inr [OF k(1)] pos(2) by (simp add: slice_from_def add.commute)
  with k(2,3) obtain tail where tail: "slice_from (pos + 4) (ci_structure ci) = Some tail" "nul_position tail = Some k"
    "take k tail = name" by blast
  have "(pos + 4) mod 4 = 0" using pos(1) by simp
  then have cursor: "align4 (pos + 4 + k + 1) = pos + length ch"
    using align4_add [of "pos + 4" "k + 1"] by (simp add: k(4) ac_simps)
  have slice: "succeeds (copy_slice ci pos (pos + length ch) (cs_writer c)) (copied ss [Begin_Node name] (cs_writer c))"
    by (rule slice_copied [OF ci ch pos(2)])
  have policy: "copied ss [t, policy_token ci] (cs_writer c) w2"
    if "copied ss [t] (cs_writer c) w1" "writer_policy (ci_name_offset ci) (ci_region ci) w1 = Inr w2" for t w1 w2
    using copied_append [OF that(1) policy_copied [OF ci that(2)]] by simp
  have c: "cs_cursor c = pos" "cs_depth c = length stack" "cs_chosen c = (2 \<le> length stack \<and> stack ! 1 = CHOSEN)"
    "cs_chosen_seen c = seen" using at by (simp_all add: copy_at_def)
  have chosen: "(2 \<le> length (stack @ [name]) \<and> (stack @ [name]) ! 1 = CHOSEN)
      \<longleftrightarrow> (2 \<le> length stack \<and> stack ! 1 = CHOSEN) \<or> length stack = 1 \<and> name = CHOSEN"
    by (auto simp: nth_append)
  define st where "st = (2 \<le> length stack \<and> stack ! 1 = CHOSEN)"
  have turn: "copy_begin ci pos (c\<lparr>cs_cursor := pos + 4\<rparr>) =
      try_then (copy_slice ci pos (pos + length ch) (cs_writer c)) (\<lambda>w.
        let c' = c\<lparr>cs_cursor := pos + length ch, cs_writer := w, cs_depth := length stack + 1\<rparr>
        in if \<not> (length stack = 1 \<and> name = CHOSEN) then Some (Inr c')
           else if seen then Some (Inl FdtStructure)
           else try_then (Some (writer_policy (ci_name_offset ci) (ci_region ci) w)) (\<lambda>w.
             Some (Inr (c'\<lparr>cs_chosen := True, cs_chosen_seen := True, cs_writer := w\<rparr>))))"
    by (simp add: copy_begin_def Let_def c tail cursor [simplified] cong: if_cong)
  have "succeeds (copy_begin ci pos (c\<lparr>cs_cursor := pos + 4\<rparr>))
      (\<lambda>c'. copy_at (stack @ [name]) (seen_after (Begin_Node name) stack seen) (pos + length ch) c'
        \<and> (\<exists>ts. copy_token ci (ci_struct_start ci + pos) seen stack (Begin_Node name) = Some ts
          \<and> copied ss ts (cs_writer c) (cs_writer c')))"
    unfolding turn succeeds_then copy_at_def chosen using slice
    by (rule succeeds_mono) (auto simp: Let_def succeeds_simps c seen_after_def st_def [symmetric] intro: policy)
  then show ?thesis
    by (auto simp: copy_turn_def c w Let_def succeeds_then turned_def succeeds_Some elim!: succeeds_mono)
qed

lemma copy_ranges_copied:
  assumes ci: "copying ci ss" and name: "string_at ss noff = Some name"
    and copy: "copy_ranges ci noff data w = Inr w'"
  shows "\<exists>rs. fdt_ranges data (ci_address_cells ci) (ci_size_cells ci) (ci_region ci) = Inr rs
    \<and> list_all (fits (ci_address_cells ci) (ci_size_cells ci)) rs
    \<and> copied ss [Prop noff name (encode_ranges (ci_address_cells ci) (ci_size_cells ci) rs)] w w'"
proof -
  let ?a = "ci_address_cells ci" and ?s = "ci_size_cells ci"
  from copy obtain rs w1 w2 w3 where *: "fdt_ranges data ?a ?s (ci_region ci) = Inr rs" "writer_word 3 w = Inr w1"
    "writer_word (length rs * (?a + ?s) * 4) w1 = Inr w2" "writer_word noff w2 = Inr w3" "writer_ranges ?a ?s rs w3 = Inr w'"
    by (auto simp: copy_ranges_def Let_def and_then_Inr_iff)
  have cells: "is_cells ?a" "is_cells ?s" using ci by (simp_all add: copying_def)
  note len = length_encode_ranges [OF cells, of rs]
  have "wrote w (prop_bytes noff (encode_ranges ?a ?s rs)) w'"
    using *(2-4) [THEN writer_word_wrote] writer_ranges_wrote [OF *(5)] unfolding prop_bytes_def len
    by (auto simp: wrote_def)
  moreover have "chunk ss (Prop noff name (encode_ranges ?a ?s rs)) (prop_bytes noff (encode_ranges ?a ?s rs))"
    using *(3,4) [THEN writer_word_wrote] by (intro chunk_Prop name) (simp_all add: len)
  ultimately show ?thesis using *(1) writer_ranges_wrote [OF *(5)] by (auto intro: copied_one)
qed

lemma copy_turn_property:
  assumes ci: "copying ci ss" and at: "copy_at stack seen pos c" and pos: "pos mod 4 = 0" "pos + length ch \<le> length (ci_structure ci)"
    and ch: "chunk (ci_strings ci) (Prop noff name data) ch" "drop pos (ci_structure ci) = ch @ rest"
  shows "succeeds (copy_turn ci c) (turned ci ss stack seen pos c (Prop noff name data) (length ch))"
proof -
  let ?bs = "drop pos (ci_structure ci)"
  have "read_token (ci_strings ci) ?bs = Some (Prop noff name data, length ch)" using ch by (simp add: chunk_append)
  then obtain len where k: "fdt_word ?bs 0 = Inr 3" "fdt_word ?bs 4 = Inr len" "fdt_word ?bs 8 = Inr noff"
    "slice_get 12 (12 + len) ?bs = Some data" "string_at (ci_strings ci) noff = Some name" "length ch = 12 + align4 len"
    by (cases rule: chunk_cases) auto
  have le: "pos \<le> length (ci_structure ci)" using pos(2) by simp
  have w: "fdt_word (ci_structure ci) pos = Inr 3" "fdt_word (ci_structure ci) (pos + 4) = Inr len"
    "fdt_word (ci_structure ci) (pos + 8) = Inr noff"
    using k(1-3) fdt_word_drop [OF le, of 0] fdt_word_drop [OF le, of 4] fdt_word_drop [OF le, of 8] by simp_all
  have data: "slice_get (pos + 12) (pos + 12 + len) (ci_structure ci) = Some data"
    using k(4) by (auto simp: slice_get_def ac_simps split: if_splits)
  have "(pos + 12) mod 4 = 0" using pos(1) by presburger
  then have cursor: "align4 (pos + 12 + len) = pos + length ch"
    using align4_add [of "pos + 12" len] by (simp add: k(6) ac_simps)
  obtain tail m where tail: "slice_from noff (ci_strings ci) = Some tail" "nul_position tail = Some m" "take m tail = name"
    using k(5) by (auto simp: string_at_def bind_eq_Some_conv)
  have c: "cs_cursor c = pos" "cs_depth c = length stack" "cs_chosen c = (2 \<le> length stack \<and> stack ! 1 = CHOSEN)"
    "cs_chosen_seen c = seen" using at by (simp_all add: copy_at_def)
  have name: "string_at ss noff = Some name" using k(5) ci string_at_append by (auto simp: copying_def)
  have slice: "succeeds (copy_slice ci pos (pos + length ch) (cs_writer c)) (copied ss [Prop noff name data] (cs_writer c))"
    by (rule slice_copied [OF ci ch pos(2)])
  let ?here = "memory_offset ci (ci_struct_start ci + pos + 12)"
  have here: "list_ex (\<lambda>(offset, len). offset = ci_struct_start ci + (pos + 12)) (ci_memory ci) \<longleftrightarrow> ?here"
    by (simp add: memory_offset_def list_ex_iff case_prod_beta image_iff add.assoc eq_commute [of _ "fst _"])
  have turn: "copy_property ci pos (c\<lparr>cs_cursor := pos + 4\<rparr>) =
      (if length stack = 2 \<and> stack ! 1 = CHOSEN \<and> name = RESIDENT_PROPERTY then Some (Inr (c\<lparr>cs_cursor := pos + length ch\<rparr>))
       else try_then (if ?here then Some (copy_ranges ci noff data (cs_writer c)) else copy_slice ci pos (pos + length ch) (cs_writer c))
         (\<lambda>w. Some (Inr (c\<lparr>cs_cursor := pos + length ch, cs_writer := w\<rparr>))))"
    using w(2,3) data cursor here
    by (simp add: copy_property_def Let_def c tail ac_simps cong: if_cong)
  have "succeeds (copy_property ci pos (c\<lparr>cs_cursor := pos + 4\<rparr>))
      (\<lambda>c'. copy_at stack seen (pos + length ch) c'
        \<and> (\<exists>ts. copy_token ci (ci_struct_start ci + pos) seen stack (Prop noff name data) = Some ts
          \<and> copied ss ts (cs_writer c) (cs_writer c')))"
    unfolding turn using slice copy_ranges_copied [OF ci name, of data "cs_writer c"] at
    by (auto simp: succeeds_simps copy_at_def copied_Nil elim!: succeeds_mono)
  then show ?thesis
    by (auto simp: copy_turn_def c w Let_def succeeds_then turned_def succeeds_Some seen_after_def elim!: succeeds_mono)
qed

section \<open>The whole copy\<close>

fun copy_tokens :: "copy_input \<Rightarrow> nat \<Rightarrow> bool \<Rightarrow> bytes list \<Rightarrow> (fdt_token \<times> bytes) list \<Rightarrow> fdt_token list option" where
  "copy_tokens ci pos seen stack [] = Some []"
| "copy_tokens ci pos seen stack ((t, c) # tcs) = do {
     ts \<leftarrow> copy_token ci pos seen stack t;
     us \<leftarrow> copy_tokens ci (pos + length c) (seen_after t stack seen) (stack_after t stack) tcs;
     Some (ts @ us) }"

lemma copy_turn_token:
  assumes "copying ci ss" "copy_at stack seen pos c" "pos mod 4 = 0" "drop pos (ci_structure ci) = ch @ rest"
    "pos + length ch \<le> length (ci_structure ci)" "chunk (ci_strings ci) t ch" "token_ok stack root t" "wr_pos (cs_writer c) mod 4 = 0"
  shows "succeeds (copy_turn ci c) (turned ci ss stack seen pos c t (length ch))"
proof (cases t)
  case (Begin_Node name)
  from copy_turn_node [OF assms(1-3,5) assms(6) [unfolded this] assms(4)] show ?thesis unfolding Begin_Node .
next
  case (Prop noff name data)
  from copy_turn_property [OF assms(1-3,5) assms(6) [unfolded this] assms(4)] show ?thesis unfolding Prop .
next
  case End_Node
  have "read_token (ci_strings ci) (drop pos (ci_structure ci)) = Some (t, length ch)" using assms(4,6) by (simp add: chunk_append)
  then have "fdt_word (drop pos (ci_structure ci)) 0 = Inr 2" "length ch = 4" using End_Node by (auto elim: chunk_cases)
  then show ?thesis using assms End_Node copy_turn_end [of ci ss stack seen pos c] by simp
next
  case Nop
  have "read_token (ci_strings ci) (drop pos (ci_structure ci)) = Some (t, length ch)" using assms(4,6) by (simp add: chunk_append)
  then have "fdt_word (drop pos (ci_structure ci)) 0 = Inr 4" "length ch = 4" using Nop by (auto elim: chunk_cases)
  then show ?thesis using assms Nop copy_turn_nop [of stack seen pos c ci] by simp
qed

lemma copy_loop_tokens:
  assumes "copying ci ss" "fdt_word tail 0 = Inr 9"
    and "copy_at stack seen pos c" "pos mod 4 = 0" "pos \<le> length (ci_structure ci)"
    and "drop pos (ci_structure ci) = concat (map snd tcs) @ tail"
    and "list_all (\<lambda>(t, c). chunk (ci_strings ci) t c) tcs" "tokens_ok stack root (map fst tcs)"
    and "wr_pos (cs_writer c) mod 4 = 0"
  shows "succeeds (copy_loop ci c) (\<lambda>w. \<exists>ts w1. copy_tokens ci (ci_struct_start ci + pos) seen stack tcs = Some ts
    \<and> copied ss ts (cs_writer c) w1 \<and> wrote w1 (to_be32 9) w)"
  using assms(3-)
proof (induction tcs arbitrary: stack root seen pos c)
  case Nil
  have nine: "fdt_word (ci_structure ci) pos = Inr 9" using fdt_word_drop [OF Nil.prems(3), of 0] Nil.prems(4) assms(2) by simp
  then have less: "pos < length (ci_structure ci)" using fdt_word_Inr by fastforce
  have "cs_cursor c = pos" using Nil.prems(1) by (simp add: copy_at_def)
  with nine less show ?case
    by (subst copy_loop.simps)
      (auto simp: copy_turn_def Let_def try_then_def succeeds_def copied_Nil dest!: writer_word_wrote
        split: sum.splits intro: copied_Nil exI [of _ "cs_writer c"])
next
  case (Cons tc tcs)
  obtain t ch where tc: "tc = (t, ch)" by (cases tc)
  have drop: "drop pos (ci_structure ci) = ch @ (concat (map snd tcs) @ tail)" using Cons.prems(4) tc by simp
  have chunk: "chunk (ci_strings ci) t ch" and ok: "token_ok stack root t" using Cons.prems(5,6) tc by simp_all
  note len = chunk_length [OF chunk]
  have le: "pos + length ch + 4 \<le> length (ci_structure ci)"
    using arg_cong [OF drop, of length] fdt_word_Inr [OF assms(2)] len by simp
  then have le': "pos + length ch \<le> length (ci_structure ci)" by simp
  have turn: "succeeds (copy_turn ci c) (turned ci ss stack seen pos c t (length ch))"
    by (rule copy_turn_token [OF assms(1) Cons.prems(1,2) drop le' chunk ok Cons.prems(7)])
  have cursor: "cs_cursor c < length (ci_structure ci)" using le len Cons.prems(1) by (simp add: copy_at_def)
  show ?case
  proof (cases "copy_turn ci c")
    case None
    with turn show ?thesis by (simp add: succeeds_def)
  next
    case (Some r)
    show ?thesis
    proof (cases r)
      case (Inl e)
      then show ?thesis using cursor Some by (subst copy_loop.simps) (simp add: succeeds_def)
    next
      case (Inr r')
      with turn Some obtain c' ts where r': "r' = (True, c')"
        and at: "copy_at (stack_after t stack) (seen_after t stack seen) (pos + length ch) c'"
        and ts: "copy_token ci (ci_struct_start ci + pos) seen stack t = Some ts"
        and copied: "copied ss ts (cs_writer c) (cs_writer c')"
        by (cases r') (auto simp: succeeds_def turned_def)
      have "drop (pos + length ch) (ci_structure ci) = concat (map snd tcs) @ tail"
        using arg_cong [OF drop, of "drop (length ch)"] by (simp add: add.commute)
      moreover have "(pos + length ch) mod 4 = 0" using Cons.prems(2) len by presburger
      ultimately have "succeeds (copy_loop ci c') (\<lambda>w. \<exists>us w1.
        copy_tokens ci (ci_struct_start ci + (pos + length ch)) (seen_after t stack seen) (stack_after t stack) tcs = Some us
          \<and> copied ss us (cs_writer c') w1 \<and> wrote w1 (to_be32 9) w)"
        using Cons.IH [OF at] le' Cons.prems(5,6) tc copied_aligned [OF copied Cons.prems(7)] by auto
      then have "succeeds (copy_loop ci c') (\<lambda>w. \<exists>us w1.
        copy_tokens ci (ci_struct_start ci + pos) seen stack (tc # tcs) = Some us
          \<and> copied ss us (cs_writer c) w1 \<and> wrote w1 (to_be32 9) w)"
        by (rule succeeds_mono) (use copied_append [OF copied] ts in \<open>fastforce simp: tc add.assoc\<close>)
      then show ?thesis using cursor Some Inr r' by (subst copy_loop.simps) simp
    qed
  qed
qed

end
