(* ===== verification/Fdt_Exclude.thy ===== *)
theory Fdt_Exclude
  imports Fdt_Copy
begin

text \<open>
  What the copied tree says: the views of a tree are its properties with their paths, and the edit of the tokens
  changes the views of memory nodes and of the policy only.  Also the fields of the header that are written last.
\<close>

section \<open>The views of a tree\<close>

type_synonym fdt_view = "bytes \<times> bytes \<times> bytes"

definition view_of :: "fdt_visit \<Rightarrow> fdt_view" where
  "view_of v = (case v of (path, name, property) \<Rightarrow> (path, name, pr_data property))"

fun token_view :: "bytes list \<Rightarrow> fdt_token \<Rightarrow> fdt_view list" where
  "token_view stack (Prop noff name data) = [(shown_path stack, name, data)]"
| "token_view stack _ = []"

fun views :: "bytes list \<Rightarrow> fdt_token list \<Rightarrow> fdt_view list" where
  "views stack [] = []"
| "views stack (t # ts) = token_view stack t @ views (stack_after t stack) ts"

lemma view_visits: "map view_of (chunk_visits pos stack tcs) = views stack (map fst tcs)"
proof (induction pos stack tcs rule: chunk_visits.induct)
  case (2 pos stack t c tcs)
  have "map view_of (visits_of pos stack t) = token_view stack t" by (cases t) (simp_all add: view_of_def)
  with 2 show ?case by simp
qed simp

lemma views_append: "views stack (ts @ us) = views stack ts @ views (fold stack_after ts stack) us"
  by (induction ts arbitrary: stack) simp_all

text \<open>The property that tells of the monitor's region.\<close>

definition is_policy :: "bytes \<Rightarrow> bytes \<Rightarrow> bool" where
  "is_policy path name \<longleftrightarrow> path = 47 # CHOSEN \<and> name = RESIDENT_PROPERTY"

definition stack_ok :: "bytes list \<Rightarrow> bool" where
  "stack_ok stack \<longleftrightarrow> (case stack of [] \<Rightarrow> True | root # nodes \<Rightarrow> root = [] \<and> list_all (\<lambda>n. n \<noteq> [] \<and> 47 \<notin> set n) nodes)"

lemma stack_ok_after: "stack_ok stack \<Longrightarrow> token_ok stack root t \<Longrightarrow> stack_ok (stack_after t stack)"
  by (cases t; cases stack)
    (auto simp: stack_ok_def list_all_iff split: if_splits dest: in_set_butlastD)

lemma shown_chosen:
  assumes "stack_ok stack"
  shows "shown_path stack = 47 # CHOSEN \<longleftrightarrow> length stack = 2 \<and> stack ! 1 = CHOSEN"
proof (cases stack)
  case Nil
  then show ?thesis by (simp add: shown_path_def CHOSEN_def)
next
  case (Cons r nodes)
  then have r: "r = []" and ok: "list_all (\<lambda>n. n \<noteq> [] \<and> 47 \<notin> set n) nodes" using assms by (simp_all add: stack_ok_def)
  have path: "node_path stack = concat (map (\<lambda>n. 47 # n) nodes)"
    using ok unfolding Cons r node_path_def by (induction nodes) auto
  show ?thesis
  proof (cases nodes)
    case Nil
    with path Cons show ?thesis by (simp add: shown_path_def CHOSEN_def)
  next
    case (Cons n nodes')
    have "(n @ concat (map (\<lambda>n. 47 # n) rest) = CHOSEN) \<longleftrightarrow> n = CHOSEN \<and> rest = []" for rest
    proof (cases rest)
      case (Cons m ms)
      then have "47 \<in> set (n @ concat (map (\<lambda>n. 47 # n) rest))" by simp
      moreover have "47 \<notin> set CHOSEN" by (simp add: CHOSEN_def)
      ultimately have "n @ concat (map (\<lambda>n. 47 # n) rest) \<noteq> CHOSEN" by metis
      with Cons show ?thesis by simp
    qed simp
    note split = this
    have "node_path stack = 47 # n @ concat (map (\<lambda>n. 47 # n) nodes')" by (simp add: path Cons)
    then have "shown_path stack = 47 # n @ concat (map (\<lambda>n. 47 # n) nodes')" by (simp add: shown_path_def)
    moreover have "length stack = 2 \<and> stack ! 1 = CHOSEN \<longleftrightarrow> n = CHOSEN \<and> nodes' = []"
      using \<open>stack = r # nodes\<close> Cons by auto
    ultimately show ?thesis using split [of nodes'] by simp
  qed
qed

text \<open>What becomes of a property that is not the policy.\<close>

definition copied_view :: "copy_input \<Rightarrow> fdt_visit \<Rightarrow> fdt_view \<Rightarrow> bool" where
  "copied_view ci v v' \<longleftrightarrow> (case v of (path, name, property) \<Rightarrow> case v' of (path', name', data) \<Rightarrow>
     path' = path \<and> name' = name \<and>
     (if memory_offset ci (pr_offset property)
      then reg_addresses (ci_address_cells ci) (ci_size_cells ci) data
        = reg_addresses (ci_address_cells ci) (ci_size_cells ci) (pr_data property) - range_set (ci_region ci)
      else data = pr_data property))"

abbreviation others :: "fdt_view list \<Rightarrow> fdt_view list" where
  "others \<equiv> filter (\<lambda>(path, name, data). \<not> is_policy path name)"

abbreviation policies :: "fdt_view list \<Rightarrow> fdt_view list" where
  "policies \<equiv> filter (\<lambda>(path, name, data). is_policy path name)"

abbreviation other_visits :: "fdt_visit list \<Rightarrow> fdt_visit list" where
  "other_visits \<equiv> filter (\<lambda>(path, name, property). \<not> is_policy path name)"

definition policy_view :: "copy_input \<Rightarrow> fdt_view" where
  "policy_view ci = (47 # CHOSEN, RESIDENT_PROPERTY, policy_data (ci_region ci))"

lemma copy_token_views:
  assumes ok: "stack_ok stack" "token_ok stack root t" "range_ok (ci_region ci)"
    "is_cells (ci_address_cells ci)" "is_cells (ci_size_cells ci)"
    and copy: "copy_token ci pos seen stack t = Some ts"
  shows "fold stack_after ts stack = stack_after t stack"
    and "policies (views stack ts) = (if \<not> seen \<and> length stack = 1 \<and> (t = Begin_Node CHOSEN \<or> t = End_Node) then [policy_view ci] else [])"
    and "list_all2 (copied_view ci) (other_visits (visits_of pos stack t)) (others (views stack ts))"
proof -
  have one: "stack = [[]]" if "length stack = Suc 0" using that ok(1) by (cases stack) (auto simp: stack_ok_def)
  have sh: "shown_path [[], CHOSEN] = 47 # CHOSEN" by (simp add: shown_path_def node_path_def CHOSEN_def)
  show "fold stack_after ts stack = stack_after t stack"
    using copy by (cases t) (auto simp: policy_token_def split: if_splits sum.splits)
  show "policies (views stack ts) = (if \<not> seen \<and> length stack = 1 \<and> (t = Begin_Node CHOSEN \<or> t = End_Node) then [policy_view ci] else [])"
    using copy shown_chosen [OF ok(1)]
    by (cases t) (auto simp: policy_token_def policy_view_def is_policy_def sh dest!: one split: if_splits sum.splits)
  show "list_all2 (copied_view ci) (other_visits (visits_of pos stack t)) (others (views stack ts))"
    using copy shown_chosen [OF ok(1)] ok(3-5)
    by (cases t) (auto simp: policy_token_def is_policy_def sh copied_view_def fdt_ranges_span reg_addresses_encode
      dest!: one split: if_splits sum.splits)
qed

lemma copy_tokens_views:
  assumes "copy_tokens ci pos seen stack tcs = Some ts"
    and "stack_ok stack" "tokens_ok stack root (map fst tcs)" "stack \<noteq> [] \<longrightarrow> root" "seen \<longrightarrow> root" "range_ok (ci_region ci)"
    "is_cells (ci_address_cells ci)" "is_cells (ci_size_cells ci)"
  shows "policies (views stack ts) = (if seen \<or> root \<and> stack = [] then [] else [policy_view ci])
    \<and> list_all2 (copied_view ci) (other_visits (chunk_visits pos stack tcs)) (others (views stack ts))"
  using assms
proof (induction ci pos seen stack tcs arbitrary: root ts rule: copy_tokens.induct)
  case (2 ci pos seen stack t c tcs)
  from "2.prems"(1) obtain us vs where us: "copy_token ci pos seen stack t = Some us"
    "copy_tokens ci (pos + length c) (seen_after t stack seen) (stack_after t stack) tcs = Some vs" "ts = us @ vs"
    by (auto simp: bind_eq_Some_conv)
  let ?root = "root \<or> (\<exists>n. t = Begin_Node n)"
  have ok: "token_ok stack root t" "tokens_ok (stack_after t stack) ?root (map fst tcs)" using "2.prems"(3) by simp_all
  have root: "stack_after t stack \<noteq> [] \<longrightarrow> ?root" "seen_after t stack seen \<longrightarrow> ?root"
    using "2.prems"(4,5) by (cases t; auto simp: seen_after_def)+
  note one = copy_token_views [OF "2.prems"(2) ok(1) "2.prems"(6-8) us(1)]
  note more = "2.IH" [OF us(1,2) stack_ok_after [OF "2.prems"(2) ok(1)] ok(2) root "2.prems"(6-8)]
  have "(if \<not> seen \<and> length stack = 1 \<and> (t = Begin_Node CHOSEN \<or> t = End_Node) then [policy_view ci] else [])
      @ (if seen_after t stack seen \<or> ?root \<and> stack_after t stack = [] then [] else [policy_view ci])
      = (if seen \<or> root \<and> stack = [] then [] else [policy_view ci])"
    using ok(1) "2.prems"(4) by (cases t; cases stack rule: rev_cases) (auto simp: seen_after_def)
  with one more us(3) show ?case by (simp add: views_append list_all2_appendI)
qed simp


section \<open>The header of the output\<close>

lemma fdt_word_splice_same: "length bs = 4 \<Longrightarrow> k + 4 \<le> length out \<Longrightarrow> fdt_word (splice k bs out) k = Inr (be32_at bs)"
  using splice_same [of k bs out] by (simp add: fdt_word_def slice_get_def)

lemma fdt_word_splice_other:
  assumes "length bs = 4" "k + 4 \<le> length out" "j + 4 \<le> k \<or> k + 4 \<le> j"
  shows "fdt_word (splice k bs out) j = fdt_word out j"
  using take_drop_splice_disjoint [of k bs out j 4] assms by (auto simp: fdt_word_def slice_get_def)

lemma write_header_no_panic: "list_all (\<lambda>(k, v). k + 4 \<le> length out) todo \<Longrightarrow> write_header todo out \<noteq> None"
proof (induction todo arbitrary: out)
  case (Cons kv todo)
  then show ?case by (cases kv) (auto simp: try_then_def be32_of_Inr split: sum.splits)
qed simp

lemma write_header_words:
  assumes "write_header todo out = Some (Inr out')" and "list_all (\<lambda>(k, v). k mod 4 = 0 \<and> k + 4 \<le> 40) todo" and "40 \<le> length out"
  shows "length out' = length out \<and> drop 40 out' = drop 40 out
    \<and> (\<forall>k. k mod 4 = 0 \<longrightarrow> k \<notin> fst ` set todo \<longrightarrow> fdt_word out' k = fdt_word out k)
    \<and> (distinct (map fst todo) \<longrightarrow> (\<forall>(k, v) \<in> set todo. fdt_word out' k = Inr v))"
  using assms
proof (induction todo arbitrary: out)
  case (Cons kv todo)
  obtain k v where kv: "kv = (k, v)" by (cases kv)
  have k: "k mod 4 = 0" "k + 4 \<le> 40" using Cons.prems(2) kv by simp_all
  define next' where "next' = splice k (to_be32 (word_of_nat v)) out"
  from Cons.prems(1) have v: "v < 2 ^ 32" and rest: "write_header todo next' = Some (Inr out')"
    unfolding kv write_header.simps try_then_Inr next'_def by (auto simp: be32_of_Inr split: if_splits)
  have len: "length next' = length out" "k + 4 \<le> length out" using k(2) Cons.prems(3) by (simp_all add: next'_def)
  have word: "fdt_word next' k = Inr v"
    using fdt_word_splice_same [of "to_be32 (word_of_nat v)" k out] len(2) v by (simp add: next'_def be32_at_of)
  have other: "fdt_word next' j = fdt_word out j" if "j mod 4 = 0" "j \<noteq> k" for j
  proof -
    have "j + 4 \<le> k \<or> k + 4 \<le> j" using that k(1) by presburger
    then show ?thesis using fdt_word_splice_other [of "to_be32 (word_of_nat v)" k out j] len(2) by (simp add: next'_def)
  qed
  have "drop 40 next' = drop 40 out" using k(2) Cons.prems(3) by (simp add: next'_def splice_def)
  with Cons.IH [OF rest] Cons.prems(2,3) kv len word other k(1) show ?case by (auto simp: image_iff)
qed simp

end
