(* ===== verification/Fdt_Correct.thy ===== *)
theory Fdt_Correct
  imports Fdt_Exclude
begin

text \<open>
  The output of \<open>exclude\<close> parsed as a device tree of its own: the blocks the header names are those written, the
  reservations are read back, and the walk of the output visits what the edited tokens say.
\<close>

lemma succeeds_thenI: "succeeds m Q \<Longrightarrow> (\<And>x. Q x \<Longrightarrow> succeeds (f x) P) \<Longrightarrow> succeeds (try_then m f) P"
  by (auto simp: succeeds_then elim!: succeeds_mono)


section \<open>What parsing gives\<close>

lemma fdt_parse_Inr:
  assumes "fdt_parse input = Inr f"
  shows "\<exists>size structure_size strings_offset strings_size reservations_offset reservation_stop visits.
    fdt_word input 4 = Inr size \<and> 40 \<le> size \<and> slice_get 0 size input = Some (fd_bytes f)
    \<and> fdt_word (fd_bytes f) 8 = Inr (fd_structure_offset f) \<and> fdt_word (fd_bytes f) 36 = Inr structure_size
    \<and> fdt_word (fd_bytes f) 12 = Inr strings_offset \<and> fdt_word (fd_bytes f) 32 = Inr strings_size
    \<and> fdt_word (fd_bytes f) 16 = Inr reservations_offset
    \<and> slice_get (fd_structure_offset f) (fd_structure_offset f + structure_size) (fd_bytes f) = Some (fd_structure f)
    \<and> slice_get strings_offset (strings_offset + strings_size) (fd_bytes f) = Some (fd_strings f)
    \<and> reservation_end (fd_bytes f) reservations_offset = Inr reservation_stop \<and> walk f = Inr visits"
proof -
  have guard: "(if c then Inl e else x) = Inr y \<longleftrightarrow> \<not> c \<and> x = Inr y" for c and e :: 'e and x :: "'e + 'a" and y by simp
  from assms show ?thesis
    unfolding fdt_parse_def Let_def guard and_then_Inr_iff fdt_block_def ok_or_Inr_iff sum.inject
    by (elim exE conjE) (hypsubst, intro exI conjI, simp_all only: fdt.simps not_less)
qed

lemma fdt_parse_walk:
  assumes "fdt_parse input = Inr f"
  obtains visits where "walk f = Inr visits"
  using fdt_parse_Inr [OF assms] that by blast


section \<open>The end of the copy\<close>

lemma finish_copy_ok:
  assumes w: "written w = front @ body" "wr_pos w \<le> length (wr_bytes w)" and front: "length front = fs" "40 \<le> fs"
    and ss: "ss = strings @ (if append_name then RESIDENT_PROPERTY @ [0] else [])"
  shows "succeeds (finish_copy strings append_name fs w) (\<lambda>(n, out'). \<exists>f'. fdt_parse (take n out') = Inr f'
    \<and> fd_structure f' = body \<and> fd_strings f' = ss \<and> drop 40 (take n out') = drop 40 front @ body @ ss
    \<and> fdt_word (take n out') 16 = Inr 48 \<and> fd_bytes f' = take n out' \<and> 40 \<le> n \<and> n \<le> length out')"
proof -
  define todo where "todo w3 = [(4, wr_pos w3), (8, fs), (12, wr_pos w), (16, 48), (32, wr_pos w3 - wr_pos w), (36 :: nat, wr_pos w - fs)]" for w3 :: fdt_writer
  have pos: "wr_pos w = fs + length body"
    using arg_cong [OF w(1), of length] w(2) front(1) by (simp add: written_def)
  have "succeeds (try_then (write_header (todo w3) (wr_bytes w3)) (\<lambda>out.
      do { result \<leftarrow> slice_get 0 (wr_pos w3) out; try_then (Some (fdt_parse result)) (\<lambda>f. Some (Inr (wr_pos w3, out))) }))
    (\<lambda>(n, out'). \<exists>f'. fdt_parse (take n out') = Inr f'
      \<and> fd_structure f' = body \<and> fd_strings f' = ss \<and> drop 40 (take n out') = drop 40 front @ body @ ss
      \<and> fdt_word (take n out') 16 = Inr 48 \<and> fd_bytes f' = take n out' \<and> 40 \<le> n \<and> n \<le> length out')" (is "succeeds (try_then _ ?rest) ?good") if "wrote w ss w3" for w3
  proof -
    let ?n = "wr_pos w3" and ?all = "front @ body @ ss"
    have w3: "take ?n (wr_bytes w3) = ?all" "?n = fs + length body + length ss" "?n \<le> length (wr_bytes w3)"
      using that w pos by (auto simp: wrote_def written_def)
    have "write_header (todo w3) (wr_bytes w3) \<noteq> None"
      using w3 front by (intro write_header_no_panic) (simp add: todo_def)
    moreover have "succeeds (?rest out) ?good" if out: "write_header (todo w3) (wr_bytes w3) = Some (Inr out)" for out
    proof -
      have "40 \<le> length (wr_bytes w3)" using w3 front by simp
      from write_header_words [OF out _ this] have len: "length out = length (wr_bytes w3)" "drop 40 out = drop 40 (wr_bytes w3)"
        and "\<forall>(k, v) \<in> set (todo w3). fdt_word out k = Inr v" by (simp_all add: todo_def)
      then have words: "fdt_word out 4 = Inr ?n" "fdt_word out 8 = Inr fs" "fdt_word out 12 = Inr (wr_pos w)"
        "fdt_word out 16 = Inr 48" "fdt_word out 32 = Inr (length ss)" "fdt_word out 36 = Inr (length body)"
        using w3(2) pos by (simp_all add: todo_def)
      define result where "result = take ?n out"
      have le: "?n \<le> length out" "40 \<le> ?n" using w3 len front by simp_all
      have word: "fdt_word result k = fdt_word out k" if "k + 4 \<le> 40" for k
        using fdt_word_append [of k result "drop ?n out"] le that by (simp add: result_def)
      have drop: "drop 40 result = drop 40 front @ body @ ss"
      proof -
        have "drop 40 result = take (?n - 40) (drop 40 out)" by (simp add: result_def drop_take)
        also have "\<dots> = drop 40 ?all" unfolding len(2) using w3(1) by (simp add: drop_take [symmetric] del: drop_append)
        finally show ?thesis using front by simp
      qed
      have slice: "slice_get a b result = Some (take (b - a) (drop (a - 40) (drop 40 front @ body @ ss)))"
        if "40 \<le> a" "a \<le> b" "b \<le> ?n" for a b
        using that le by (simp add: slice_get_def result_def drop [unfolded result_def, symmetric] del: drop_append)
      have "fd_structure f' = body \<and> fd_strings f' = ss \<and> fd_bytes f' = result" if parse: "fdt_parse result = Inr f'" for f'
      proof -
        from fdt_parse_Inr [OF parse] words word have b: "fd_bytes f' = result"
          using le by (auto simp: slice_get_def result_def)
        from fdt_parse_Inr [OF parse] words word have
          "slice_get fs (fs + length body) result = Some (fd_structure f')"
          "slice_get (wr_pos w) (wr_pos w + length ss) result = Some (fd_strings f')" unfolding b by auto
        then show ?thesis using slice [of fs "fs + length body"] slice [of "wr_pos w" "wr_pos w + length ss"] pos w3(2) front b
          by simp
      qed
      then show ?thesis using le words(4) word drop
        by (auto simp: slice_get_def result_def [symmetric] succeeds_simps)
    qed
    ultimately show ?thesis by (auto simp: succeeds_def try_then_def split: option.splits sum.splits)
  qed
  moreover have "wrote w ss w3" if "and_then (writer_bytes strings w) (\<lambda>w. if append_name
      then and_then (writer_bytes RESIDENT_PROPERTY w) (writer_bytes [0]) else Inr w) = Inr w3" for w3
    using that ss by (auto simp: and_then_Inr_iff dest!: writer_bytes_wrote split: if_splits dest: wrote_trans)
  ultimately show ?thesis unfolding finish_copy_def Let_def todo_def by (auto simp: succeeds_simps)
qed


section \<open>The name of the policy\<close>

lemma find_name_string:
  "find_name strings pos found = Inr r \<Longrightarrow> r = found \<or> (\<exists>p. r = Some p \<and> string_at strings p = Some RESIDENT_PROPERTY)"
proof (induction strings pos found rule: find_name.induct)
  case (1 strings pos found)
  show ?case
  proof (cases "pos < length strings")
    case True
    with "1.prems" obtain n where n: "nul_position (drop pos strings) = Some n"
      and rest: "find_name strings (pos + n + 1) (if take n (drop pos strings) = RESIDENT_PROPERTY then Some pos else found) = Inr r"
      by (subst (asm) find_name.simps) (auto split: option.splits)
    have "take n (drop pos strings) = RESIDENT_PROPERTY \<Longrightarrow> string_at strings pos = Some RESIDENT_PROPERTY"
      using True n by (simp add: string_at_def slice_from_def)
    with "1.IH" [OF True n rest] show ?thesis by (auto split: if_splits)
  next
    case False
    with "1.prems" show ?thesis by (subst (asm) find_name.simps) simp
  qed
qed

lemma string_at_new: "string_at (strings @ RESIDENT_PROPERTY @ [0]) (length strings) = Some RESIDENT_PROPERTY"
  by (simp add: string_at_def slice_from_def nul_position_def RESIDENT_PROPERTY_def)

lemma policy_name:
  assumes "find_name strings 0 None = Inr found"
  shows "string_at (strings @ (if found = None then RESIDENT_PROPERTY @ [0] else []))
    (case found of Some pos \<Rightarrow> pos | None \<Rightarrow> length strings) = Some RESIDENT_PROPERTY"
  using find_name_string [OF assms] string_at_new by (auto split: option.splits)


section \<open>The reservations\<close>

text \<open>The entries of a reservation table, up to the one that ends it.\<close>

function reservations :: "bytes \<Rightarrow> nat \<Rightarrow> (u64 \<times> u64) list" where
  "reservations bs pos =
     (case fdt_quad bs pos of
        Inl e \<Rightarrow> []
      | Inr start \<Rightarrow> (case fdt_quad bs (pos + 8) of
          Inl e \<Rightarrow> []
        | Inr sz \<Rightarrow> if start = 0 \<and> sz = 0 then [] else (start, sz) # reservations bs (pos + 16)))"
  by pat_completeness auto

termination
  by (relation "measure (\<lambda>(bs, pos). length bs - pos)")
    (auto simp: fdt_quad_def slice_get_def split: option.splits if_splits)

declare reservations.simps [simp del]

definition entry_bytes :: "u64 \<times> u64 \<Rightarrow> bytes" where
  "entry_bytes r = to_be64 (fst r) @ to_be64 (snd r)"

lemma length_entry [simp]: "length (entry_bytes r) = 16"
  by (simp add: entry_bytes_def)

lemma length_table: "length (concat (map entry_bytes es)) = 16 * length es"
  by (induction es) simp_all

lemma fdt_quad_of: "length pre = k \<Longrightarrow> fdt_quad (pre @ to_be64 v @ post) k = Inr v"
  by (simp add: fdt_quad_def slice_get_def)

lemma fdt_quad_Inr:
  assumes "fdt_quad bs k = Inr v"
  shows "k + 8 \<le> length bs \<and> take 8 (drop k bs) = to_be64 v"
proof -
  have "to_be64 (from_be64 d) = d" if "length d = 8" for d
    using that le_value_bound [of "rev d"] be_bytes_be_value [of d] by (simp add: endian_defs unat_of_nat be_value_def)
  with assms show ?thesis by (auto simp: fdt_quad_def slice_get_def split: option.splits if_splits)
qed

lemma reservations_of:
  assumes "(0, 0) \<notin> set es"
  shows "length pre = k \<Longrightarrow> reservations (pre @ concat (map entry_bytes es) @ entry_bytes (0, 0) @ post) k = es"
  using assms
proof (induction es arbitrary: pre k)
  case Nil
  then show ?case
    using fdt_quad_of [of pre k 0 "to_be64 0 @ post"] fdt_quad_of [of "pre @ to_be64 0" "k + 8" 0 post]
    by (subst reservations.simps) (simp add: entry_bytes_def)
next
  case (Cons r es)
  obtain a b where r: "r = (a, b)" by (cases r)
  let ?more = "concat (map entry_bytes es) @ entry_bytes (0, 0) @ post"
  have "reservations ((pre @ entry_bytes r) @ ?more) (k + 16) = es"
    using Cons.prems by (intro Cons.IH) simp_all
  then show ?case
    using fdt_quad_of [of pre k a "to_be64 b @ ?more"] fdt_quad_of [of "pre @ to_be64 a" "k + 8" b ?more] Cons.prems
    by (subst reservations.simps) (auto simp: entry_bytes_def r)
qed

definition region_entry :: "address_range \<Rightarrow> u64 \<times> u64" where
  "region_entry region = (ar_start region, range_size region)"

lemma range_new_entry: "range_ok region \<Longrightarrow> range_new start sz = Inr region \<longleftrightarrow> (start, sz) = region_entry region"
  using range_size_new [of start sz region]
  by (auto simp: region_entry_def range_new_Inr_iff range_size_def range_ok_def unat_sub word_less_nat_alt word_le_nat_alt)

lemma scan_reservations_Inr:
  assumes "range_ok region"
  shows "scan_reservations input region pos already = Inr (stop, already') \<Longrightarrow>
    pos \<le> stop \<and> stop + 16 \<le> length input \<and> take (stop - pos) (drop pos input) = concat (map entry_bytes (reservations input pos))
    \<and> (0, 0) \<notin> set (reservations input pos)
    \<and> (already' \<longleftrightarrow> already \<or> region_entry region \<in> set (reservations input pos))"
proof (induction "length input - pos" arbitrary: pos already rule: less_induct)
  case less
  from less.prems obtain start sz where q: "fdt_quad input pos = Inr start" "fdt_quad input (pos + 8) = Inr sz"
    by (subst (asm) scan_reservations.simps) (auto split: sum.splits)
  note quad = fdt_quad_Inr [OF q(1)] fdt_quad_Inr [OF q(2)]
  have entry: "take 16 (drop pos input) = entry_bytes (start, sz)"
  proof -
    have "take (8 + 8) (drop pos input) = take 8 (drop pos input) @ take 8 (drop 8 (drop pos input))" by (rule take_add)
    then show ?thesis using quad by (simp add: entry_bytes_def add.commute)
  qed
  show ?case
  proof (cases "start = 0 \<and> sz = 0")
    case True
    then have "reservations input pos = []" using q by (subst reservations.simps) simp
    moreover have "stop = pos" "already' = already" using less.prems q True by (subst (asm) scan_reservations.simps, simp)+
    ultimately show ?thesis using quad by simp
  next
    case False
    define now where "now = (already \<or> (start, sz) = region_entry region)"
    have rest: "scan_reservations input region (pos + 16) now = Inr (stop, already')"
    proof (cases "sz = 0")
      case True
      then have "(start, sz) \<noteq> region_entry region" using range_new_entry [OF \<open>range_ok region\<close>, of start sz] by (auto simp: range_new_def)
      with less.prems q False True show ?thesis by (subst (asm) scan_reservations.simps) (simp add: now_def)
    next
      case False
      with less.prems q obtain reserved where r: "range_new start sz = Inr reserved"
        by (subst (asm) scan_reservations.simps) (auto split: sum.splits)
      have self: "range_overlaps region region" using \<open>range_ok region\<close> by (simp add: range_overlaps_def range_ok_def)
      have "reserved = region \<longleftrightarrow> (start, sz) = region_entry region" using r range_new_entry [OF \<open>range_ok region\<close>, of start sz] by auto
      with less.prems q False r self show ?thesis
        by (subst (asm) scan_reservations.simps) (auto simp: now_def split: if_splits)
    qed
    have table: "reservations input pos = (start, sz) # reservations input (pos + 16)" using q False by (subst reservations.simps) simp
    have "length input - (pos + 16) < length input - pos" using quad by auto
    note IH = less.hyps [OF this rest]
    then obtain d where d: "stop = pos + 16 + d" by (metis le_Suc_ex)
    have "take (16 + d) (drop pos input) = entry_bytes (start, sz) @ take d (drop (pos + 16) input)"
      unfolding take_add entry by (simp add: add.commute)
    then have "take (stop - pos) (drop pos input) = concat (map entry_bytes (reservations input pos))" using IH table by (simp add: d)
    moreover have "already' \<longleftrightarrow> already \<or> region_entry region \<in> set (reservations input pos)"
      using IH unfolding table now_def by (simp add: eq_commute [of "region_entry region"])
    moreover have "(0, 0) \<notin> set (reservations input pos)" using IH False unfolding table by simp
    ultimately show ?thesis using IH by linarith
  qed
qed

lemma memory_nodes_regs:
  "memory_nodes f acs scs region vs (memory, err) = (memory', None) \<Longrightarrow> err = None
    \<and> fst ` set memory' = fst ` set memory \<union> {pr_offset reg | reg. \<exists>v \<in> set vs. is_memory v \<and> find_property f (fst v) REG = Inr (Some reg)}
    \<and> (\<forall>v \<in> set vs. is_memory v \<longrightarrow> (\<exists>reg. find_property f (fst v) REG = Inr (Some reg)))"
proof (induction f acs scs region vs "(memory, err)" arbitrary: memory err rule: memory_nodes.induct)
  case (2 f acs scs region v vs memory err)
  show ?case
  proof (cases "is_memory v")
    case True
    with "2.prems" obtain entry where entry: "memory_entry f acs scs region (fst v) memory = Inr entry"
      using "2.hyps" [of memory "Some _"] by (auto split: sum.splits)
    then obtain reg where reg: "find_property f (fst v) REG = Inr (Some reg)" "entry = (pr_offset reg, length (pr_data reg))"
      by (auto simp: memory_entry_def and_then_Inr_iff ok_or_Inr_iff split: if_splits)
    have "memory_nodes f acs scs region vs (memory @ [entry], err) = (memory', None)" using "2.prems" True entry by simp
    with "2.hyps" [of "memory @ [entry]" err] True entry reg show ?thesis by auto
  next
    case False
    with "2.prems" "2.hyps" show ?thesis by auto
  qed
qed simp

lemma chunk_visits_offsets:
  "list_all (\<lambda>(t, c). chunk strings t c) tcs \<Longrightarrow>
    (\<forall>v \<in> set (chunk_visits pos stack tcs). pos + 12 \<le> pr_offset (snd (snd v))) \<and> distinct (map (\<lambda>v. pr_offset (snd (snd v))) (chunk_visits pos stack tcs))"
proof (induction pos stack tcs rule: chunk_visits.induct)
  case (2 pos stack t c tcs)
  let ?rest = "chunk_visits (pos + length c) (stack_after t stack) tcs"
  have "4 \<le> length c" using 2 chunk_length by auto
  then have more: "pos + 12 < pr_offset (snd (snd v))" if "v \<in> set ?rest" for v using 2 that by fastforce
  have "distinct (map (\<lambda>v. pr_offset (snd (snd v))) ?rest)" using 2 by simp
  moreover have "\<forall>v \<in> set ?rest. pos + 12 \<le> pr_offset (snd (snd v))" using more by (simp add: less_imp_le)
  moreover have "pos + 12 \<notin> (\<lambda>v. pr_offset (snd (snd v))) ` set ?rest" using more by fastforce
  ultimately show ?case by (cases t) simp_all
qed simp


section \<open>The output is the input without the region\<close>

definition fdt_reservations :: "fdt \<Rightarrow> (u64 \<times> u64) list" where
  "fdt_reservations f = (case fdt_word (fd_bytes f) 16 of Inl e \<Rightarrow> [] | Inr pos \<Rightarrow> reservations (fd_bytes f) pos)"

text \<open>Whether a property is the \<open>reg\<close> of a memory node below the root.\<close>

definition memory_reg :: "fdt_view list \<Rightarrow> bytes \<Rightarrow> bytes \<Rightarrow> bool" where
  "memory_reg tree path name \<longleftrightarrow> name = REG
     \<and> list_ex (\<lambda>(path', name', data). path' = path \<and> 47 \<notin> set (drop 1 path) \<and> name' = DEVICE_TYPE \<and> data = MEMORY) tree"

definition region_removed :: "nat \<Rightarrow> nat \<Rightarrow> address_range \<Rightarrow> fdt_view list \<Rightarrow> fdt_view list \<Rightarrow> bool" where
  "region_removed acs scs region old new \<longleftrightarrow>
     policies new = [(47 # CHOSEN, RESIDENT_PROPERTY, policy_data region)]
     \<and> list_all2 (\<lambda>(path, name, data) (path', name', data'). path' = path \<and> name' = name
         \<and> (if memory_reg old path name then reg_addresses acs scs data' = reg_addresses acs scs data - range_set region
            else data' = data))
       (others old) (others new)"

definition reserved_too :: "address_range \<Rightarrow> (u64 \<times> u64) list \<Rightarrow> (u64 \<times> u64) list \<Rightarrow> bool" where
  "reserved_too region old new \<longleftrightarrow> new = old @ (if region_entry region \<in> set old then [] else [region_entry region])"

definition excluded :: "address_range \<Rightarrow> fdt \<Rightarrow> fdt \<Rightarrow> bool" where
  "excluded region f f' \<longleftrightarrow>
     (case (walk f, walk f', fdt_cells f ADDRESS_CELLS 2, fdt_cells f SIZE_CELLS 1) of
        (Inr old, Inr new, Inr acs, Inr scs) \<Rightarrow>
          region_removed acs scs region (map view_of old) (map view_of new)
          \<and> reserved_too region (fdt_reservations f) (fdt_reservations f')
      | _ \<Rightarrow> False)"

lemma copy_front_wrote:
  assumes "take (stop - pos) (drop pos bs) = concat (map entry_bytes es)" "pos \<le> stop" "stop + 16 \<le> length bs" "40 \<le> length bs"
  shows "succeeds (copy_front bs pos stop already region w) (\<lambda>w'. wrote w (take 40 bs @ replicate 8 0
    @ concat (map entry_bytes (es @ (if already then [] else [region_entry region]))) @ replicate 16 0) w')"
proof -
  have slices: "slice_get 0 40 bs = Some (take 40 bs)" "slice_get pos stop bs = Some (concat (map entry_bytes es))"
    using assms by (simp_all add: slice_get_def)
  have number: "wrote w (entry_bytes (region_entry region)) w'"
    if "and_then (writer_number (ar_start region) 2 w) (writer_number (range_size region) 2) = Inr w'" for w w'
    using that wrote_trans by (auto simp: and_then_Inr_iff entry_bytes_def region_entry_def cell_bytes_def dest!: writer_number_wrote)
  have "wrote w (take 40 bs @ replicate 8 0
    @ concat (map entry_bytes (es @ (if already then [] else [region_entry region]))) @ replicate 16 0) w'"
    if "and_then (writer_bytes (take 40 bs) w) (\<lambda>w. and_then (writer_bytes (replicate 8 0) w) (\<lambda>w.
         and_then (writer_bytes (concat (map entry_bytes es)) w) (\<lambda>w.
         and_then (if already then Inr w
                   else and_then (writer_number (ar_start region) 2 w) (writer_number (range_size region) 2))
           (writer_bytes (replicate 16 0))))) = Inr w'" for w'
  proof -
    from that obtain w1 w2 w3 w4 where *: "writer_bytes (take 40 bs) w = Inr w1" "writer_bytes (replicate 8 0) w1 = Inr w2"
      "writer_bytes (concat (map entry_bytes es)) w2 = Inr w3"
      "(if already then Inr w3 else and_then (writer_number (ar_start region) 2 w3) (writer_number (range_size region) 2)) = Inr w4"
      "writer_bytes (replicate 16 0) w4 = Inr w'" unfolding and_then_Inr_iff by blast
    have "wrote w3 (if already then [] else entry_bytes (region_entry region)) w4"
      using *(4) number wrote_Nil by (auto split: if_splits)
    from wrote_trans [OF writer_bytes_wrote [OF *(1)] wrote_trans [OF writer_bytes_wrote [OF *(2)]
        wrote_trans [OF writer_bytes_wrote [OF *(3)] wrote_trans [OF this writer_bytes_wrote [OF *(5)]]]]]
    show ?thesis by (cases already) simp_all
  qed
  then show ?thesis by (simp add: copy_front_def slices succeeds_Some)
qed

lemma entry_zero: "entry_bytes (0, 0) = replicate 16 0"
  by code_simp

lemma walk_copied:
  assumes "copied ss ts w w1" "wrote w1 (to_be32 9) w2" "written w = front" "fdt_parse output = Inr f'" "fd_strings f' = ss"
    "written w2 = front @ fd_structure f'"
  obtains visits where "walk f' = Inr visits" "map view_of visits = views [] ts"
proof -
  obtain visits where v: "walk f' = Inr visits" using fdt_parse_walk [OF assms(4)] by blast
  obtain tcs where tcs: "map fst tcs = ts" "list_all (\<lambda>(t, c). chunk ss t c) tcs" "wrote w (concat (map snd tcs)) w1"
    using assms(1) by (auto simp: copied_def)
  have "fd_structure f' = concat (map snd tcs) @ to_be32 9"
    using tcs(3) assms(2,3,6) by (simp add: wrote_def)
  moreover have "fdt_word (to_be32 9) 0 = Inr 9" using chunk_word [of 9 "[]"] by simp
  ultimately have "visits = chunk_visits (fd_structure_offset f') [] tcs"
    using walk_known [OF v] tcs(2) assms(5) by simp
  then show thesis using that v tcs(1) view_visits by simp
qed

lemma memory_offset_reg:
  assumes walk: "walk f = Inr visits" and memory: "memory_nodes f acs scs region visits ([], None) = (ci_memory ci, None)"
    and v: "(path, name, property) \<in> set visits"
  shows "memory_offset ci (pr_offset property) \<longleftrightarrow> memory_reg (map view_of visits) path name"
proof -
  from walk_tokens [OF walk] chunk_visits_offsets have
    dist: "distinct (map (\<lambda>v. pr_offset (snd (snd v))) visits)" by blast
  have found: "find_property f p REG = Inr (Some reg) \<Longrightarrow> filter (\<lambda>(q, n, property). q = p \<and> n = REG) visits = [(p, REG, reg)]" for p reg
    by (auto simp: find_property_def walk Let_def split: if_splits list.splits dest: filter_eq_ConsD)
  have mem: "is_memory v \<longleftrightarrow> (case view_of v of (p, n, data) \<Rightarrow> 47 \<notin> set (drop 1 p) \<and> n = DEVICE_TYPE \<and> data = MEMORY)" for v
    by (auto simp: is_memory_def view_of_def split: prod.splits)
  from memory_nodes_regs [OF memory] have
    regs: "fst ` set (ci_memory ci) = {pr_offset reg | reg. \<exists>v \<in> set visits. is_memory v \<and> find_property f (fst v) REG = Inr (Some reg)}"
    and all: "\<forall>v \<in> set visits. is_memory v \<longrightarrow> (\<exists>reg. find_property f (fst v) REG = Inr (Some reg))" by auto
  have reg: "memory_reg (map view_of visits) path name \<longleftrightarrow> name = REG \<and> (\<exists>v \<in> set visits. is_memory v \<and> fst v = path)"
    by (force simp: memory_reg_def list_ex_iff mem view_of_def)
  show ?thesis
  proof
    assume "memory_offset ci (pr_offset property)"
    then obtain v reg where r: "v \<in> set visits" "is_memory v" "find_property f (fst v) REG = Inr (Some reg)"
      "pr_offset property = pr_offset reg" using regs by (auto simp: memory_offset_def)
    have "(fst v, REG, reg) \<in> set visits" using arg_cong [OF found [OF r(3)], of set] by auto
    then have "(fst v, REG, reg) = (path, name, property)" 
      using inj_onD [of "\<lambda>v. pr_offset (snd (snd v))" "set visits" "(fst v, REG, reg)" "(path, name, property)"] dist v r(4)
      by (simp add: distinct_map)
    then show "memory_reg (map view_of visits) path name" using r(1,2) reg by auto
  next
    assume "memory_reg (map view_of visits) path name"
    then obtain v where r: "name = REG" "v \<in> set visits" "is_memory v" "fst v = path" using reg by blast
    then obtain reg where f: "find_property f path REG = Inr (Some reg)" using all by blast
    have "(path, name, property) \<in> set (filter (\<lambda>(q, n, property). q = path \<and> n = REG) visits)" using v r(1) by simp
    then have "property = reg" unfolding found [OF f] by simp
    then show "memory_offset ci (pr_offset property)" using regs r f by (auto simp: memory_offset_def)
  qed
qed

lemma fdt_cells_are: "fdt_cells f name standard = Inr n \<Longrightarrow> is_cells n"
  by (auto simp: fdt_cells_def and_then_Inr_iff is_cells_def split: if_splits)

lemma region_removed_views:
  assumes "policies (map view_of new) = [policy_view ci]"
    and "list_all2 (copied_view ci) (other_visits old) (others (map view_of new))"
    and "\<And>path name property. (path, name, property) \<in> set old \<Longrightarrow>
      memory_offset ci (pr_offset property) \<longleftrightarrow> memory_reg (map view_of old) path name"
  shows "region_removed (ci_address_cells ci) (ci_size_cells ci) (ci_region ci) (map view_of old) (map view_of new)"
proof -
  have split: "others (map view_of old) = map view_of (other_visits old)"
    by (induction old) (auto simp: view_of_def)
  have "list_all2 (\<lambda>v (path', name', data'). case view_of v of (path, name, data) \<Rightarrow> path' = path \<and> name' = name
       \<and> (if memory_reg (map view_of old) path name
          then reg_addresses (ci_address_cells ci) (ci_size_cells ci) data'
            = reg_addresses (ci_address_cells ci) (ci_size_cells ci) data - range_set (ci_region ci)
          else data' = data)) (other_visits old) (others (map view_of new))"
    using assms(2)
    by (rule list.rel_mono_strong) (auto simp: copied_view_def view_of_def assms(3))
  then show ?thesis unfolding region_removed_def split list_all2_map1 using assms(1)
    by (auto simp: policy_view_def case_prod_beta' elim!: list_all2_mono)
qed

lemma write_copy_ok:
  assumes f: "fd_bytes f = bs" "40 \<le> length bs" "fdt_word bs 16 = Inr pos" "walk f = Inr old"
    and cells: "fdt_cells f ADDRESS_CELLS 2 = Inr (ci_address_cells ci)" "fdt_cells f SIZE_CELLS 1 = Inr (ci_size_cells ci)"
    and memory: "memory_nodes f (ci_address_cells ci) (ci_size_cells ci) (ci_region ci) old ([], None) = (ci_memory ci, None)"
    and region: "range_ok (ci_region ci)" and scan: "scan_reservations bs (ci_region ci) pos False = Inr (stop, already)"
    and ci: "ci_structure ci = fd_structure f" "ci_strings ci = fd_strings f" "ci_struct_start ci = fd_structure_offset f"
    and found: "find_name (ci_strings ci) 0 None = Inr found"
    "ci_name_offset ci = (case found of Some pos \<Rightarrow> pos | None \<Rightarrow> length (ci_strings ci))"
  shows "succeeds (write_copy ci (found = None) bs pos stop already out)
    (\<lambda>(n, out'). \<exists>f'. fdt_parse (take n out') = Inr f' \<and> excluded (ci_region ci) f f')"
proof -
  let ?es = "reservations bs pos" and ?w0 = "\<lparr>wr_bytes = out, wr_pos = 0\<rparr>"
  let ?es' = "?es @ (if already then [] else [region_entry (ci_region ci)])"
  let ?front = "take 40 bs @ replicate 8 0 @ concat (map entry_bytes ?es') @ replicate 16 0"
  define ss where "ss = ci_strings ci @ (if found = None then RESIDENT_PROPERTY @ [0] else [])"
  note table = scan_reservations_Inr [OF region scan]
  have copying: "copying ci ss"
    using policy_name [OF found(1)] fdt_cells_are [OF cells(1)] fdt_cells_are [OF cells(2)] found(2)
    by (auto simp: copying_def ss_def)
  obtain tcs tail where tcs: "fd_structure f = concat (map snd tcs) @ tail" "fdt_word tail 0 = Inr 9"
    "list_all (\<lambda>(t, c). chunk (fd_strings f) t c) tcs" "tokens_ok [] False (map fst tcs)"
    "old = chunk_visits (fd_structure_offset f) [] tcs" using walk_tokens [OF f(4)] by blast
  have nonzero: "(0, 0) \<notin> set ?es'"
    using table region by (auto simp: region_entry_def range_size_def range_ok_def)
  show ?thesis unfolding write_copy_def
  proof (rule succeeds_thenI)
    show "succeeds (copy_front bs pos stop already (ci_region ci) ?w0) (wrote ?w0 ?front)"
      using copy_front_wrote [of stop pos bs ?es] table f(2) by simp
    fix w assume w: "wrote ?w0 ?front w"
    have front: "written w = ?front" "length ?front = wr_pos w" "40 \<le> wr_pos w" "wr_pos w mod 4 = 0" "wr_pos w \<le> length (wr_bytes w)"
      using w f(2) length_table [of ?es'] by (auto simp: wrote_def written_def)
    let ?c = "\<lparr>cs_cursor = 0, cs_depth = 0, cs_chosen = False, cs_chosen_seen = False, cs_writer = w\<rparr>"
    show "succeeds (try_then (copy_loop ci ?c) (finish_copy (ci_strings ci) (found = None) (wr_pos w)))
      (\<lambda>(n, out'). \<exists>f'. fdt_parse (take n out') = Inr f' \<and> excluded (ci_region ci) f f')"
    proof (rule succeeds_thenI)
      have "copy_at [] False 0 ?c" by (simp add: copy_at_def)
      from copy_loop_tokens [OF copying tcs(2) this] tcs front(4) ci
      show "succeeds (copy_loop ci ?c) (\<lambda>w2. \<exists>ts w1. copy_tokens ci (fd_structure_offset f) False [] tcs = Some ts
          \<and> copied ss ts w w1 \<and> wrote w1 (to_be32 9) w2)" by simp
      fix w2 assume "\<exists>ts w1. copy_tokens ci (fd_structure_offset f) False [] tcs = Some ts
          \<and> copied ss ts w w1 \<and> wrote w1 (to_be32 9) w2"
      then obtain ts w1 where ts: "copy_tokens ci (fd_structure_offset f) False [] tcs = Some ts"
        "copied ss ts w w1" "wrote w1 (to_be32 9) w2" by blast
      obtain tcs' :: "(fdt_token \<times> bytes) list" where "wrote w (concat (map snd tcs')) w1" using ts(2) by (auto simp: copied_def)
      then obtain body where body: "wrote w body w2" using wrote_trans [OF _ ts(3)] by blast
      then have w2: "written w2 = ?front @ body" "wr_pos w2 \<le> length (wr_bytes w2)" using front by (simp_all add: wrote_def)
      have "\<exists>f'. fdt_parse (take n out') = Inr f' \<and> excluded (ci_region ci) f f'"
        if parse: "fdt_parse (take n out') = Inr f'" "fd_structure f' = body" "fd_strings f' = ss" "drop 40 (take n out') = drop 40 ?front @ body @ ss"
          "fdt_word (take n out') 16 = Inr 48" "fd_bytes f' = take n out'" "40 \<le> n" "n \<le> length out'" for n out' f'
      proof -
        obtain new where new: "walk f' = Inr new" "map view_of new = views [] ts"
          using walk_copied [OF ts(2,3) front(1) parse(1,3)] w2(1) parse(2) by blast
        have "policies (views [] ts) = [policy_view ci]
            \<and> list_all2 (copied_view ci) (other_visits old) (others (views [] ts))"
          using copy_tokens_views [OF ts(1) _ tcs(4) _ _ region] copying
          by (simp add: stack_ok_def copying_def tcs(5))
        then have "region_removed (ci_address_cells ci) (ci_size_cells ci) (ci_region ci) (map view_of old) (map view_of new)"
          using memory_offset_reg [OF f(4) memory] new(2) by (intro region_removed_views) simp_all
        moreover have "fdt_reservations f' = ?es'"
        proof -
          have "take n out' = (take 40 (take n out') @ replicate 8 0) @ concat (map entry_bytes ?es') @ entry_bytes (0, 0) @ body @ ss"
            using append_take_drop_id [of 40 "take n out'"] parse(4) f(2) unfolding entry_zero by simp
          moreover have "length (take 40 (take n out') @ replicate 8 0) = 48" using parse(7,8) by simp
          ultimately have "reservations (take n out') 48 = ?es'" using reservations_of [OF nonzero] by metis
          then show ?thesis by (simp add: fdt_reservations_def parse(5,6))
        qed
        then have "reserved_too (ci_region ci) (fdt_reservations f) (fdt_reservations f')"
          using f(1,3) table by (simp add: fdt_reservations_def reserved_too_def)
        ultimately show ?thesis using parse(1) new(1) f(4) cells by (simp add: excluded_def)
      qed
      then show "succeeds (finish_copy (ci_strings ci) (found = None) (wr_pos w) w2)
        (\<lambda>(n, out'). \<exists>f'. fdt_parse (take n out') = Inr f' \<and> excluded (ci_region ci) f f')"
        using finish_copy_ok [OF w2 front(2,3) ss_def] by (auto elim!: succeeds_mono)
    qed
  qed
qed

lemma fdt_exclude_succeeds:
  assumes region: "range_ok region"
  shows "succeeds (fdt_exclude input out region)
    (\<lambda>(n, out'). \<exists>f f'. fdt_parse input = Inr f \<and> fdt_parse (take n out') = Inr f' \<and> excluded region f f')"
proof (cases "fdt_parse input")
  case (Inl e)
  then show ?thesis by (simp add: fdt_exclude_def succeeds_Some)
next
  case (Inr f)
  obtain sz ssz sto stsz pos stop visits where f:
    "40 \<le> sz" "slice_get 0 sz input = Some (fd_bytes f)" "fdt_word (fd_bytes f) 8 = Inr (fd_structure_offset f)"
    "fdt_word (fd_bytes f) 36 = Inr ssz" "fdt_word (fd_bytes f) 12 = Inr sto" "fdt_word (fd_bytes f) 32 = Inr stsz"
    "fdt_word (fd_bytes f) 16 = Inr pos"
    "slice_get (fd_structure_offset f) (fd_structure_offset f + ssz) (fd_bytes f) = Some (fd_structure f)"
    "slice_get sto (sto + stsz) (fd_bytes f) = Some (fd_strings f)" "walk f = Inr visits"
    using fdt_parse_Inr [OF Inr] by blast
  have len: "length (fd_bytes f) = sz" using slice_get_length [OF f(2)] by simp
  have step: "succeeds (write_copy \<lparr>ci_structure = fd_structure f, ci_strings = fd_strings f,
        ci_struct_start = fd_structure_offset f, ci_memory = memory, ci_address_cells = acs, ci_size_cells = scs,
        ci_region = region, ci_name_offset = (case found of Some pos \<Rightarrow> pos | None \<Rightarrow> length (fd_strings f))\<rparr>
      (found = None) (fd_bytes f) pos stop already out)
      (\<lambda>(n, out'). \<exists>f'. fdt_parse (take n out') = Inr f' \<and> excluded region f f')"
    if "fdt_cells f ADDRESS_CELLS 2 = Inr acs" "fdt_cells f SIZE_CELLS 1 = Inr scs"
      "memory_nodes f acs scs region visits ([], None) = (memory, None)"
      "scan_reservations (fd_bytes f) region pos False = Inr (stop, already)" "find_name (fd_strings f) 0 None = Inr found"
    for acs scs memory stop already found
  proof -
    let ?ci = "\<lparr>ci_structure = fd_structure f, ci_strings = fd_strings f,
        ci_struct_start = fd_structure_offset f, ci_memory = memory, ci_address_cells = acs, ci_size_cells = scs,
        ci_region = region, ci_name_offset = (case found of Some pos \<Rightarrow> pos | None \<Rightarrow> length (fd_strings f))\<rparr>"
    have "succeeds (write_copy ?ci (found = None) (fd_bytes f) pos stop already out)
      (\<lambda>(n, out'). \<exists>f'. fdt_parse (take n out') = Inr f' \<and> excluded (ci_region ?ci) f f')"
      by (rule write_copy_ok) (use that f len region in \<open>simp_all cong: option.case_cong\<close>)
    then show ?thesis by simp
  qed
  have inner: "succeeds (case memory_nodes f acs scs region visits ([], None) of
        (memory, Some e) \<Rightarrow> Some (Inl e)
      | (memory, None) \<Rightarrow> try_then (Some (scan_reservations (fd_bytes f) region pos False)) (\<lambda>(stop, already).
          try_then (Some (find_name (fd_strings f) 0 None)) (\<lambda>found. write_copy \<lparr>ci_structure = fd_structure f,
            ci_strings = fd_strings f, ci_struct_start = fd_structure_offset f, ci_memory = memory, ci_address_cells = acs,
            ci_size_cells = scs, ci_region = region,
            ci_name_offset = (case found of Some pos \<Rightarrow> pos | None \<Rightarrow> length (fd_strings f))\<rparr>
            (found = None) (fd_bytes f) pos stop already out)))
      (\<lambda>(n, out'). \<exists>f'. fdt_parse (take n out') = Inr f' \<and> excluded region f f')"
    if "fdt_cells f ADDRESS_CELLS 2 = Inr acs" "fdt_cells f SIZE_CELLS 1 = Inr scs" for acs scs
  proof (cases "memory_nodes f acs scs region visits ([], None)")
    case (Pair memory err)
    show ?thesis
    proof (cases err)
      case None
      have "succeeds (try_then (Some (find_name (fd_strings f) 0 None)) (\<lambda>found. write_copy \<lparr>ci_structure = fd_structure f,
            ci_strings = fd_strings f, ci_struct_start = fd_structure_offset f, ci_memory = memory, ci_address_cells = acs,
            ci_size_cells = scs, ci_region = region,
            ci_name_offset = (case found of Some pos \<Rightarrow> pos | None \<Rightarrow> length (fd_strings f))\<rparr>
            (found = None) (fd_bytes f) pos stop already out))
        (\<lambda>(n, out'). \<exists>f'. fdt_parse (take n out') = Inr f' \<and> excluded region f f')"
        if "scan_reservations (fd_bytes f) region pos False = Inr (stop, already)" for stop already
        unfolding succeeds_then succeeds_Some
        using step [OF \<open>fdt_cells f ADDRESS_CELLS 2 = Inr acs\<close> \<open>fdt_cells f SIZE_CELLS 1 = Inr scs\<close> Pair [unfolded None] that]
        by blast
      then show ?thesis by (auto simp: Pair None succeeds_then succeeds_Some)
    qed (simp add: Pair succeeds_Some)
  qed
  then show ?thesis
    by (simp add: fdt_exclude_def Inr total_size_def len f Let_def succeeds_then) (simp add: succeeds_Some)
qed

text \<open>
  C40: whenever the copy succeeds, its output is a well-formed tree which says what the input says, but for this:
  the addresses of every memory node below the root are those of the input without the region; the region, and
  nothing else, is told in the one policy property of \<open>/chosen\<close>; and the table of reservations has the region
  behind the entries of the input, unless it was one of them.  For no input, however malformed, and no size of the
  output does the copy panic.
\<close>

theorem fdt_exclude_correct:
  "case range_new start sz of
     Inl e \<Rightarrow> True
   | Inr region \<Rightarrow>
       (case fdt_exclude input out region of
          None \<Rightarrow> False
        | Some (Inl e) \<Rightarrow> True
        | Some (Inr (n, out')) \<Rightarrow>
            (case (fdt_parse input, fdt_parse (take n out')) of (Inr f, Inr f') \<Rightarrow> excluded region f f' | _ \<Rightarrow> False))"
proof (cases "range_new start sz")
  case (Inr region)
  from fdt_exclude_succeeds [OF range_new_ok [OF Inr], of input out] show ?thesis
    by (auto simp: Inr succeeds_def split: option.splits sum.splits prod.splits)
qed simp

end
