(* ===== verification/Spec2Isabelle.thy ===== *)
theory Spec2Isabelle
  imports Memory_Controller Psci Client Control Stage2_Map Uart Lic Gic_Driver Vm_Network Ncm Fdt_Correct
begin

text \<open>
  Switchvisor: a model of the hypervisor for the Tegra210 Nintendo Switch, and of its upload client.

  The program.  Switchvisor is a monitor that runs at EL2 below one guest with four CPUs.  It gives the
  guest the machine, except for what it keeps: 16 MiB of memory, the USB device controller with its clocks
  and interrupts, and the memory controller's view of the DMA carveouts.  At boot it checks the memory
  map, takes a payload (a kernel found behind the monitor's image, or files uploaded over USB), builds the
  address translation of both exception levels and enters the guest.  From then on it runs only on traps:
  power calls of the guest, accesses to pages that are not mapped, and interrupts of the controllers it
  keeps.  Paths below are relative to \<open>src/crates/switchvisor/src/\<close>.

  Theories, in the order they build on each other:

  \<^item> \<open>Prelude\<close>: words, checked arithmetic, \<open>Result\<close>, slices, endianness.  \<open>Platform\<close>: the constants of
    the memory map and \<open>memory.rs\<close>.  \<open>Ring\<close>: ring buffers read as lists, and the contract
    \<open>bounded_queue\<close>.
  \<^item> \<open>Mmio_Access\<close> (\<open>mmio.rs\<close>): decoding a data abort into an access.  The lemmas bound a decoded access
    by its region and say which bits a load or a store moves.
  \<^item> \<open>Memory_Controller\<close> (\<open>mc.rs\<close>): the placement check, the carveouts, the end of DMA memory.
  \<^item> \<open>Bakery\<close> and \<open>Psci\<close> (\<open>psci.rs\<close>, \<open>vm/vcpu.rs\<close>): the bakery lock, one step per access of one CPU, and
    the power state machine over it.  A state is the store all CPUs share and what each CPU does next; the
    step relations interleave the CPUs in any way, and the invariants are proved by rule induction.
  \<^item> \<open>Payload\<close> (\<open>payload.rs\<close>): the payload descriptor and its CRC.
  \<^item> \<open>Loader_Protocol\<close>, \<open>Loader\<close> (\<open>loader.rs\<close>, and the guest memory of \<open>usb.rs\<close>): messages, descriptors and
    the upload state machine, one definition per opcode.  \<open>Client\<close> (\<open>switchvisorctl\<close>): preparing a bundle
    and the sequence of requests that sends it, composed with the loader.
  \<^item> \<open>Control\<close> (\<open>control.rs\<close>): the line parser of the control channel.
  \<^item> \<open>Vdev\<close> (\<open>vdev/mod.rs\<close>, \<open>drivers/mod.rs\<close>): the traits \<open>Mmio\<close> and \<open>VirtualDevice\<close> as records of
    operations, and the contract \<open>virtual_device\<close>, interpreted on every emulated device below.
  \<^item> \<open>Usb_Ownership\<close> (\<open>vdev/usb_ownership.rs\<close>, \<open>vm/mmio.rs\<close>), \<open>Lic\<close> (\<open>vdev/lic.rs\<close>), \<open>Vgic\<close>
    (\<open>vdev/gicv2.rs\<close>): devices shared with the guest.  Each is proved against the physical registers as
    their manual documents them: what the guest stores never changes what the monitor owns, and for the
    interrupt controllers the guest sees a controller of its own.
  \<^item> \<open>Gic_Driver\<close> (\<open>drivers/interrupt/gicv2.rs\<close>): the physical interrupt controller, on hardware whose answers
    are any function of what happened.  What waits for a list register is read as a multiset, and the lemmas
    show that it is served by priority, as a scheduler over numbers says, and that nothing is lost.  A session
    of calls holds the tokens the driver handed out, so that finishing one is always of an interrupt it owns.
  \<^item> \<open>Uart\<close> (\<open>vdev/uart.rs\<close>): registers over two ring buffers, refined to lists.
  \<^item> \<open>Stage2\<close>, \<open>Stage2_Map\<close> (\<open>stage2.rs\<close>, \<open>el2_mmu.rs\<close>, \<open>arch/aarch64/stage2.rs\<close>): the construction of the
    translation tables, for exactly which addresses it succeeds, and the walk of the finished tables at every
    address.
  \<^item> \<open>Net\<close> (\<open>net.rs\<close>): the frame rings, the switch between the host and the guest, and the management
    endpoint, refined to bounded lists of frames; which requests the endpoint answers, and how, is stated by
    the formats of the protocols.  \<open>Ncm\<close> (\<open>drivers/usb/ncm.rs\<close>, and the send loop of
    \<open>drivers/usb/tegra210.rs\<close>): the transfer blocks that carry the frames over USB.
  \<^item> \<open>Virtio_Queue\<close>, \<open>Virtio_Net\<close>, \<open>Virtio_Spec\<close> (\<open>vdev/virtio_net.rs\<close>): the split queues, the device and
    what it means.  \<open>guest_memory\<close> is the contract of memory that the guest rewrites at will; \<open>guest_ram\<close>
    extends it to memory that changes only between operations.  \<open>Vm_Network\<close> (\<open>net.rs\<close>,
    \<open>vm/network.rs\<close>): the service that joins the transport, the switch and the device, and the
    interpretations of the contracts on the monitor's own view of guest memory.

  \<^item> \<open>Fdt\<close> (\<open>fdt.rs\<close>) and \<open>Fdt_Memory\<close> (\<open>fdt_memory.rs\<close>): the parser of device trees, and the copy that
    takes the monitor's memory out of one.  \<open>Fdt_Spec\<close> reads the structure as tokens, \<open>Fdt_Copy\<close> shows that the
    copy edits the tokens one by one, \<open>Fdt_Exclude\<close> what the edit changes of a tree's properties, and
    \<open>Fdt_Correct\<close> that parsing the output gives exactly this.

  How code becomes definitions.  A struct is a record, an enum a datatype, a machine integer a word of its
  width, a \<open>usize\<close> that indexes a slice a \<open>nat\<close>.  A trait is a record of operations over the state of an
  implementation.  A mutable borrow is a state passed and returned.  \<open>Result\<close> is a sum, \<open>Option\<close> an option.
  The release profile checks overflow and aborts on a panic, so what can overflow or index out of range
  has an outer \<open>option\<close> whose \<open>None\<close> is the panic; the properties show that it does not happen.  Bytes are
  lists of 8-bit words.

  What is not under \<open>src/\<close> or has no logic of its own is a parameter: the hardware behind \<open>Mmio\<close>, the
  firmware behind the PSCI calls, the volatile copies with their cache maintenance, the transport behind
  \<open>Ethernet\<close>, the files of the upload client.  Hypotheses on the hardware state the registers' documented
  semantics (\<open>register_hardware\<close>, \<open>lic_hardware\<close>, \<open>gic_hardware\<close>).  The translation of the interrupt
  controller's block assumes that it is apart from the blocks already split (\<open>gic_apart\<close>), which
  \<open>protect_gic\<close> does not check and both platform layouts satisfy.

  Loops.  Loops over fixed bounds are recursion over a list or a number.  The loops without a counter are
  total functions with their termination proof: the folding of carries in the checksum, and the walk of a
  descriptor chain, which stops because each turn marks one descriptor of at most 128.  The walk's
  specification has no marks: it follows a chain for at most as many descriptors as the queue has, and the
  two agree.  The network service makes at most 16 turns; each packet costs at most 389 accesses to guest
  memory.

  Not modelled: the assembly (entry, exception vectors, cache maintenance), the system registers that
  enable what the tables describe, the locks around the interrupt controllers (\<open>vm/interrupt.rs\<close>), the USB device stack below the loader and the network
  (\<open>drivers/usb\<close>, the scheduling in \<open>usb.rs\<close>), the framebuffer, and the command lines of the tools.
\<close>

end
